(* ===== verification/Noodler_Prelude.thy ===== *)
theory Noodler_Prelude
  imports Main "HOL-Library.List_Lexorder" "HOL-Library.Product_Lexorder" "HOL-Library.Sublist"
begin

text \<open>
  Shared vocabulary of the development. Strings of the solver are \<open>zstring\<close>s, vectors of
  unsigned code points; the ordered containers of the C++ standard library that the solver
  iterates over are key-sorted association lists (\<open>std::map\<close>) and finite HOL sets read in
  ascending order (\<open>std::set\<close>). The theory also holds the error values of the model, the
  three-valued answers of the procedures, and the generic lemmas on these types that the
  component theories use.
\<close>

section \<open>Strings, answers and errors\<close>

text \<open>A \<open>zstring\<close> is a buffer of 32-bit code points.\<close>

type_synonym zstring = "nat list"

text \<open>Literals of the source text as code points.\<close>

definition zs :: "string \<Rightarrow> zstring" where
  "zs s = map of_char s"

datatype lbool = l_true | l_false | l_undef

text \<open>
  The ways an operation of the solver fails to return a value: an exception, an access
  outside a container, an assertion, or a loop that makes no progress.
\<close>

datatype noodler_error =
    Runtime_Error string
  | Out_Of_Range
  | Assertion_Failed
  | No_Progress

type_synonym 'a res = "noodler_error + 'a"

definition bind_res :: "'a res \<Rightarrow> ('a \<Rightarrow> 'b res) \<Rightarrow> 'b res" where
  "bind_res r f = (case r of Inl e \<Rightarrow> Inl e | Inr a \<Rightarrow> f a)"

lemma bind_res_simps [simp]:
  "bind_res (Inl e) f = Inl e"
  "bind_res (Inr a) f = f a"
  by (simp_all add: bind_res_def)

text \<open>Left-to-right evaluation of a fallible operation over a vector, stopping at the first failure.\<close>

fun map_res :: "('a \<Rightarrow> 'b res) \<Rightarrow> 'a list \<Rightarrow> 'b list res" where
  "map_res f [] = Inr []"
| "map_res f (x # xs) = bind_res (f x) (\<lambda>y. bind_res (map_res f xs) (\<lambda>ys. Inr (y # ys)))"

lemma map_res_Inr: "(\<And>x. x \<in> set xs \<Longrightarrow> f x = Inr (g x)) \<Longrightarrow> map_res f xs = Inr (map g xs)"
  by (induction xs) auto

lemma map_res_cong [fundef_cong]:
  assumes "xs = ys" and "\<And>x. x \<in> set ys \<Longrightarrow> f x = g x"
  shows "map_res f xs = map_res g ys"
  using assms(2) unfolding assms(1) by (induction ys) auto

lemma bind_res_eq_Inr: "bind_res r f = Inr y \<longleftrightarrow> (\<exists>a. r = Inr a \<and> f a = Inr y)"
  by (cases r) auto

lemma map_res_eq_Inr: "map_res f xs = Inr ys \<longleftrightarrow> list_all2 (\<lambda>x y. f x = Inr y) xs ys"
  by (induction xs arbitrary: ys) (auto simp: bind_res_eq_Inr list_all2_Cons1)

section \<open>Ordered maps\<close>

text \<open>
  \<open>std::map\<close> is an association list whose keys ascend: \<open>m[k] = v\<close> is \<open>map_put\<close>,
  \<open>m.erase(k)\<close> is \<open>map_erase\<close>, \<open>m.find(k)\<close> is \<open>map_of\<close>, and a range-based
  for loop over the map reads the list from left to right.
\<close>

fun map_put :: "'k::linorder \<Rightarrow> 'v \<Rightarrow> ('k \<times> 'v) list \<Rightarrow> ('k \<times> 'v) list" where
  "map_put k v [] = [(k, v)]"
| "map_put k v ((k', v') # m) =
     (if k < k' then (k, v) # (k', v') # m
      else if k = k' then (k, v) # m
      else (k', v') # map_put k v m)"

definition map_erase :: "'k \<Rightarrow> ('k \<times> 'v) list \<Rightarrow> ('k \<times> 'v) list" where
  "map_erase k m = filter (\<lambda>p. fst p \<noteq> k) m"

definition map_ok :: "('k::linorder \<times> 'v) list \<Rightarrow> bool" where
  "map_ok m \<longleftrightarrow> sorted_wrt (<) (map fst m)"

lemma map_of_map_put [simp]: "map_of (map_put k v m) = (map_of m)(k \<mapsto> v)"
  by (induction k v m rule: map_put.induct) auto

lemma map_of_map_erase [simp]: "map_of (map_erase k m) = (map_of m)(k := None)"
  by (induction m) (auto simp: map_erase_def)

lemma keys_map_put [simp]: "fst ` set (map_put k v m) = insert k (fst ` set m)"
  by (induction k v m rule: map_put.induct) auto

lemma map_ok_Nil [simp]: "map_ok []"
  by (simp add: map_ok_def)

lemma map_ok_put [simp]: "map_ok m \<Longrightarrow> map_ok (map_put k v m)"
  by (induction k v m rule: map_put.induct) (force simp: map_ok_def)+

lemma map_ok_erase [simp]: "map_ok m \<Longrightarrow> map_ok (map_erase k m)"
proof (induction m)
  case Nil
  then show ?case by (simp add: map_erase_def)
next
  case (Cons p m)
  then show ?case by (auto simp: map_ok_def map_erase_def)
qed

lemma map_ok_distinct: "map_ok m \<Longrightarrow> distinct (map fst m)"
  by (simp add: map_ok_def strict_sorted_iff)

lemma map_ok_in_set: "map_ok m \<Longrightarrow> (k, v) \<in> set m \<longleftrightarrow> map_of m k = Some v"
  by (simp add: map_ok_distinct)

text \<open>
  The contract of an ordered map, and what follows from it for the clients that only use
  the contract: sequences of insertions, and occurrence counters.
\<close>

locale ordered_map =
  fixes lookup :: "'m \<Rightarrow> 'k \<Rightarrow> 'v option"
    and put :: "'k \<Rightarrow> 'v \<Rightarrow> 'm \<Rightarrow> 'm"
    and erase :: "'k \<Rightarrow> 'm \<Rightarrow> 'm"
    and empty :: 'm
    and ok :: "'m \<Rightarrow> bool"
  assumes lookup_put: "lookup (put k v m) = (lookup m)(k \<mapsto> v)"
    and lookup_erase: "lookup (erase k m) = (lookup m)(k := None)"
    and lookup_empty: "lookup empty = Map.empty"
    and ok_empty: "ok empty"
    and ok_put: "ok m \<Longrightarrow> ok (put k v m)"
    and ok_erase: "ok m \<Longrightarrow> ok (erase k m)"
begin

lemma lookup_fold_put:
  "lookup (fold (\<lambda>k. put k (f k)) ks m) x = (if x \<in> set ks then Some (f x) else lookup m x)"
  by (induction ks arbitrary: m) (auto simp: lookup_put)

lemma ok_fold: "(\<And>x m. ok m \<Longrightarrow> ok (g x m)) \<Longrightarrow> ok m \<Longrightarrow> ok (fold g xs m)"
  by (induction xs arbitrary: m) auto

lemma ok_fold_put: "ok m \<Longrightarrow> ok (fold (\<lambda>k. put k (f k)) ks m)"
  by (rule ok_fold) (auto intro: ok_put)

end

interpretation smap: ordered_map map_of map_put map_erase "[]" map_ok
  by unfold_locales auto

locale counter_map = ordered_map lookup put erase empty ok
  for lookup :: "'m \<Rightarrow> 'k \<Rightarrow> nat option"
    and put erase empty ok +
  fixes bump :: "'k \<Rightarrow> 'm \<Rightarrow> 'm"
  assumes bump_put: "bump k m = put k (Suc (case lookup m k of None \<Rightarrow> 0 | Some n \<Rightarrow> n)) m"
begin

lemma lookup_bump: "lookup (bump k m) k = Some (Suc (case lookup m k of None \<Rightarrow> 0 | Some n \<Rightarrow> n))"
  by (simp add: bump_put lookup_put)

lemma lookup_bump_other: "k \<noteq> x \<Longrightarrow> lookup (bump k m) x = lookup m x"
  by (simp add: bump_put lookup_put)

lemma ok_fold_bump: "ok m \<Longrightarrow> ok (fold bump ks m)"
  by (rule ok_fold) (auto simp: bump_put intro: ok_put)

lemma lookup_fold_bump:
  "(case lookup (fold bump ks m) x of None \<Rightarrow> 0 | Some n \<Rightarrow> n) =
     (case lookup m x of None \<Rightarrow> 0 | Some n \<Rightarrow> n) + count_list ks x"
proof (induction ks arbitrary: m)
  case Nil
  then show ?case by simp
next
  case (Cons k ks)
  show ?case
    by (cases "k = x") (simp_all add: Cons.IH lookup_bump lookup_bump_other)
qed

lemma dom_fold_bump: "dom (lookup (fold bump ks m)) = dom (lookup m) \<union> set ks"
  by (induction ks arbitrary: m) (auto simp: bump_put lookup_put)

end

text \<open>\<open>m[k]++\<close>: the counter of a missing key starts at 0.\<close>

definition map_increment :: "'k::linorder \<Rightarrow> ('k \<times> nat) list \<Rightarrow> ('k \<times> nat) list" where
  "map_increment k m = map_put k (case map_of m k of None \<Rightarrow> 1 | Some n \<Rightarrow> Suc n) m"

interpretation cmap: counter_map map_of map_put map_erase "[]" map_ok map_increment
  by unfold_locales (auto simp: map_increment_def split: option.splits)

text \<open>\<open>m[k]\<close> read on a counter map: a missing key reads as 0.\<close>

definition count_at :: "('k \<times> nat) list \<Rightarrow> 'k \<Rightarrow> nat" where
  "count_at m k = (case map_of m k of None \<Rightarrow> 0 | Some n \<Rightarrow> n)"

lemma count_at_fold [simp]: "count_at (fold map_increment ks m) x = count_at m x + count_list ks x"
  unfolding count_at_def by (rule cmap.lookup_fold_bump)

lemma count_at_Nil [simp]: "count_at [] x = 0"
  by (simp add: count_at_def)

lemma count_at_put [simp]: "count_at (map_put k v m) x = (if x = k then v else count_at m x)"
  by (simp add: count_at_def)

section \<open>Ordered sets\<close>

text \<open>
  A \<open>std::set\<close> that the code also iterates over is its ascending list of elements;
  \<open>sset_insert\<close> is \<open>insert\<close> and \<open>emplace\<close>.
\<close>

fun sset_insert :: "'a::linorder \<Rightarrow> 'a list \<Rightarrow> 'a list" where
  "sset_insert x [] = [x]"
| "sset_insert x (y # ys) =
     (if x < y then x # y # ys else if x = y then y # ys else y # sset_insert x ys)"

definition sset_of :: "'a::linorder list \<Rightarrow> 'a list" where
  "sset_of xs = fold sset_insert xs []"

lemma set_sset_insert [simp]: "set (sset_insert x ys) = insert x (set ys)"
  by (induction x ys rule: sset_insert.induct) auto

lemma sorted_sset_insert [simp]: "sorted_wrt (<) ys \<Longrightarrow> sorted_wrt (<) (sset_insert x ys)"
  by (induction x ys rule: sset_insert.induct) (auto intro: less_trans)

lemma set_fold_sset_insert [simp]: "set (fold sset_insert xs ys) = set xs \<union> set ys"
  by (induction xs arbitrary: ys) auto

lemma set_sset_of [simp]: "set (sset_of xs) = set xs"
  by (simp add: sset_of_def)

lemma sorted_fold_sset_insert [simp]:
  "sorted_wrt (<) ys \<Longrightarrow> sorted_wrt (<) (fold sset_insert xs ys)"
  by (induction xs arbitrary: ys) auto

lemma sorted_sset_of [simp]: "sorted_wrt (<) (sset_of xs)"
  by (simp add: sset_of_def)

lemma sset_of_eq_Nil [simp]: "sset_of xs = [] \<longleftrightarrow> xs = []"
  using set_sset_of[of xs] by (metis set_empty)

section \<open>Lists\<close>

lemma concat_map_append: "concat (map f (xs @ ys)) = concat (map f xs) @ concat (map f ys)"
  by simp

lemma count_list_0_conv: "count_list xs x = 0 \<longleftrightarrow> x \<notin> set xs"
  by (induction xs) auto

lemma take_drop_split: "i \<le> length xs \<Longrightarrow> take i xs @ drop i xs = xs"
  by simp

end
