(* ===== verification/Formula.thy ===== *)
theory Formula
  imports Noodler_Prelude "HOL-Library.Option_ord"
begin

text \<open>
  The constraint language of the solver (\<open>formula.h\<close>, \<open>formula.cpp\<close>): basic terms,
  predicates over concatenations of terms, and conjunctions of predicates, with the total
  orders that the ordered containers use, the syntactic operations of the classes
  \<open>BasicTerm\<close>, \<open>Predicate\<close> and \<open>Formula\<close>, and the meaning of a formula under an
  assignment of words to variables. Transducers are values of the automata library: a
  predicate holds the address of one, and its relation is a parameter of the semantics.
\<close>

section \<open>Basic terms\<close>

datatype basic_term_type = Variable | RealVariable | Literal | Length

fun basic_term_type_index :: "basic_term_type \<Rightarrow> nat" where
  "basic_term_type_index Variable = 0"
| "basic_term_type_index RealVariable = 1"
| "basic_term_type_index Literal = 2"
| "basic_term_type_index Length = 3"

datatype basic_term = BasicTerm (get_type: basic_term_type) (get_name: zstring)

definition is_variable :: "basic_term \<Rightarrow> bool" where
  "is_variable t \<longleftrightarrow> get_type t = Variable \<or> get_type t = RealVariable"

definition is_real_variable :: "basic_term \<Rightarrow> bool" where
  "is_real_variable t \<longleftrightarrow> get_type t = RealVariable"

definition is_literal :: "basic_term \<Rightarrow> bool" where
  "is_literal t \<longleftrightarrow> get_type t = Literal"

lemmas term_kind_defs = is_variable_def is_real_variable_def is_literal_def

lemma is_literal_simps [simp]:
  "is_literal (BasicTerm Literal w)"
  "\<not> is_literal (BasicTerm Variable w)"
  "\<not> is_literal (BasicTerm RealVariable w)"
  "\<not> is_literal (BasicTerm Length w)"
  by (simp_all add: term_kind_defs)

lemma is_variable_simps [simp]:
  "is_variable (BasicTerm Variable w)"
  "is_variable (BasicTerm RealVariable w)"
  "\<not> is_variable (BasicTerm Literal w)"
  "\<not> is_variable (BasicTerm Length w)"
  by (simp_all add: term_kind_defs)

lemma variable_not_literal: "is_variable t \<Longrightarrow> \<not> is_literal t"
  by (auto simp: term_kind_defs)

text \<open>\<open>operator<\<close> on terms compares the type first and the name when the types agree.\<close>

definition basic_term_lt :: "basic_term \<Rightarrow> basic_term \<Rightarrow> bool" where
  "basic_term_lt lhs rhs \<longleftrightarrow>
     (if basic_term_type_index (get_type lhs) < basic_term_type_index (get_type rhs) then True
      else if basic_term_type_index (get_type lhs) > basic_term_type_index (get_type rhs) then False
      else get_name lhs < get_name rhs)"

instantiation basic_term :: linorder
begin

definition less_basic_term :: "basic_term \<Rightarrow> basic_term \<Rightarrow> bool" where
  "less_basic_term = basic_term_lt"

definition less_eq_basic_term :: "basic_term \<Rightarrow> basic_term \<Rightarrow> bool" where
  "less_eq_basic_term lhs rhs \<longleftrightarrow> lhs = rhs \<or> lhs < rhs"

instance
proof
  have inj: "basic_term_type_index a = basic_term_type_index b \<Longrightarrow> a = b" for a b
    by (cases a; cases b) auto
  fix x y z :: basic_term
  show "x < y \<longleftrightarrow> x \<le> y \<and> \<not> y \<le> x"
    by (auto simp: less_basic_term_def basic_term_lt_def less_eq_basic_term_def split: if_splits)
  show "x \<le> x"
    by (simp add: less_eq_basic_term_def)
  show "x \<le> z" if "x \<le> y" and "y \<le> z"
    using that by (auto simp: less_basic_term_def basic_term_lt_def less_eq_basic_term_def split: if_splits)
  show "x = y" if "x \<le> y" and "y \<le> x"
    using that by (auto simp: less_basic_term_def basic_term_lt_def less_eq_basic_term_def split: if_splits)
  show "x \<le> y \<or> y \<le> x"
    using inj[of "get_type x" "get_type y"]
    by (cases x; cases y) (auto simp: less_basic_term_def basic_term_lt_def less_eq_basic_term_def)
qed

end

text \<open>\<open>operator>\<close> is written as the negation of \<open>operator<\<close>.\<close>

definition basic_term_greater :: "basic_term \<Rightarrow> basic_term \<Rightarrow> bool" where
  "basic_term_greater lhs rhs \<longleftrightarrow> \<not> lhs < rhs"

type_synonym concat = "basic_term list"

section \<open>Predicates\<close>

datatype predicate_type = Equation | Inequation | NotContains | Transducer

fun predicate_type_index :: "predicate_type \<Rightarrow> nat" where
  "predicate_type_index Equation = 0"
| "predicate_type_index Inequation = 1"
| "predicate_type_index NotContains = 2"
| "predicate_type_index Transducer = 3"

text \<open>
  A predicate keeps its type, its vector of parameters (both sides of an equation or
  disequation, haystack and needle, or input and output), and the shared pointer to its
  transducer, where \<open>None\<close> is the null pointer.
\<close>

datatype predicate =
  Predicate (ptype: predicate_type) (params: "concat list") (transducer: "nat option")

definition predicate_lt :: "predicate \<Rightarrow> predicate \<Rightarrow> bool" where
  "predicate_lt p q \<longleftrightarrow>
     (if predicate_type_index (ptype p) < predicate_type_index (ptype q) then True
      else if predicate_type_index (ptype p) > predicate_type_index (ptype q) then False
      else if params p < params q then True
      else if params p > params q then False
      else transducer p < transducer q)"

instantiation predicate :: linorder
begin

definition less_predicate :: "predicate \<Rightarrow> predicate \<Rightarrow> bool" where
  "less_predicate = predicate_lt"

definition less_eq_predicate :: "predicate \<Rightarrow> predicate \<Rightarrow> bool" where
  "less_eq_predicate p q \<longleftrightarrow> p = q \<or> p < q"

instance
proof
  have inj: "predicate_type_index a = predicate_type_index b \<Longrightarrow> a = b" for a b
    by (cases a; cases b) auto
  fix x y z :: predicate
  show "x < y \<longleftrightarrow> x \<le> y \<and> \<not> y \<le> x"
    by (auto simp: less_predicate_def predicate_lt_def less_eq_predicate_def split: if_splits)
  show "x \<le> x"
    by (simp add: less_eq_predicate_def)
  show "x \<le> z" if "x \<le> y" and "y \<le> z"
    using that by (auto simp: less_predicate_def predicate_lt_def less_eq_predicate_def split: if_splits)
  show "x = y" if "x \<le> y" and "y \<le> x"
    using that by (auto simp: less_predicate_def predicate_lt_def less_eq_predicate_def split: if_splits)
  show "x \<le> y \<or> y \<le> x"
    using inj[of "ptype x" "ptype y"]
    by (cases x; cases y) (auto simp: less_predicate_def predicate_lt_def less_eq_predicate_def)
qed

end

definition is_equation :: "predicate \<Rightarrow> bool" where
  "is_equation p \<longleftrightarrow> ptype p = Equation"

definition is_inequation :: "predicate \<Rightarrow> bool" where
  "is_inequation p \<longleftrightarrow> ptype p = Inequation"

definition is_not_cont :: "predicate \<Rightarrow> bool" where
  "is_not_cont p \<longleftrightarrow> ptype p = NotContains"

definition is_transducer :: "predicate \<Rightarrow> bool" where
  "is_transducer p \<longleftrightarrow> ptype p = Transducer"

definition is_eq_or_ineq :: "predicate \<Rightarrow> bool" where
  "is_eq_or_ineq p \<longleftrightarrow> is_equation p \<or> is_inequation p"

definition is_two_sided :: "predicate \<Rightarrow> bool" where
  "is_two_sided p \<longleftrightarrow> is_equation p \<or> is_inequation p \<or> is_not_cont p \<or> is_transducer p"

lemmas pred_kind_defs =
  is_equation_def is_inequation_def is_not_cont_def is_transducer_def
  is_eq_or_ineq_def is_two_sided_def

text \<open>
  The one-argument constructor: for a two-sided type the vector is resized to two empty
  parameters and two more are appended.
\<close>

definition predicate_of_type :: "predicate_type \<Rightarrow> predicate" where
  "predicate_of_type type =
     (let p = Predicate type [] None
      in if is_two_sided p then Predicate type ([[], []] @ [[]] @ [[]]) None else p)"

definition create_equation :: "concat \<Rightarrow> concat \<Rightarrow> predicate" where
  "create_equation left_side right_side = Predicate Equation [left_side, right_side] None"

definition create_disequation :: "concat \<Rightarrow> concat \<Rightarrow> predicate" where
  "create_disequation left_side right_side = Predicate Inequation [left_side, right_side] None"

definition create_transducer :: "nat \<Rightarrow> concat \<Rightarrow> concat \<Rightarrow> predicate" where
  "create_transducer nft input output = Predicate Transducer [input, output] (Some nft)"

definition create_not_contains :: "concat \<Rightarrow> concat \<Rightarrow> predicate" where
  "create_not_contains haystick needle = Predicate NotContains [haystick, needle] None"

text \<open>
  The accessors of the two sides read \<open>params[0]\<close> and \<open>params[1]\<close>. A well-formed
  predicate is two-sided and has exactly two parameters; a transducer predicate, and only
  it, owns a transducer.
\<close>

definition get_left_side :: "predicate \<Rightarrow> concat" where
  "get_left_side p = params p ! 0"

definition get_right_side :: "predicate \<Rightarrow> concat" where
  "get_right_side p = params p ! 1"

definition get_input :: "predicate \<Rightarrow> concat" where
  "get_input p = params p ! 0"

definition get_output :: "predicate \<Rightarrow> concat" where
  "get_output p = params p ! 1"

definition get_haystack :: "predicate \<Rightarrow> concat" where
  "get_haystack p = params p ! 0"

definition get_needle :: "predicate \<Rightarrow> concat" where
  "get_needle p = params p ! 1"

definition set_left_side :: "predicate \<Rightarrow> concat \<Rightarrow> predicate" where
  "set_left_side p side = Predicate (ptype p) ((params p)[0 := side]) (transducer p)"

definition set_right_side :: "predicate \<Rightarrow> concat \<Rightarrow> predicate" where
  "set_right_side p side = Predicate (ptype p) ((params p)[1 := side]) (transducer p)"

definition wf_pred :: "predicate \<Rightarrow> bool" where
  "wf_pred p \<longleftrightarrow> length (params p) = 2 \<and> (is_transducer p \<longleftrightarrow> transducer p \<noteq> None)"

lemmas side_defs =
  get_left_side_def get_right_side_def get_input_def get_output_def
  get_haystack_def get_needle_def

lemma sides_create_equation [simp]:
  "get_left_side (create_equation l r) = l"
  "get_right_side (create_equation l r) = r"
  "params (create_equation l r) = [l, r]"
  "ptype (create_equation l r) = Equation"
  "transducer (create_equation l r) = None"
  "is_equation (create_equation l r)"
  "wf_pred (create_equation l r)"
  by (simp_all add: create_equation_def side_defs pred_kind_defs wf_pred_def)

lemma wf_pred_create [simp]:
  "wf_pred (create_disequation l r)"
  "wf_pred (create_not_contains l r)"
  "wf_pred (create_transducer t l r)"
  by (simp_all add: create_disequation_def create_not_contains_def create_transducer_def
      pred_kind_defs wf_pred_def)

lemma wf_pred_params: "wf_pred p \<Longrightarrow> params p = [get_left_side p, get_right_side p]"
  by (cases "params p") (auto simp: wf_pred_def side_defs length_Suc_conv numeral_2_eq_2)

lemma wf_equation_eq: "wf_pred p \<Longrightarrow> is_equation p \<Longrightarrow>
  p = create_equation (get_left_side p) (get_right_side p)"
  using wf_pred_params[of p]
  by (cases p) (auto simp: create_equation_def wf_pred_def pred_kind_defs)

datatype equation_side_type = Left | Right

definition get_side :: "predicate \<Rightarrow> equation_side_type \<Rightarrow> concat" where
  "get_side p side = (case side of Left \<Rightarrow> params p ! 0 | Right \<Rightarrow> params p ! 1)"

definition get_set :: "predicate \<Rightarrow> basic_term set" where
  "get_set p = (\<Union>side \<in> set (params p). set side)"

definition get_set_of_param :: "predicate \<Rightarrow> nat \<Rightarrow> basic_term set" where
  "get_set_of_param p index = set (params p ! index)"

definition pred_get_vars :: "predicate \<Rightarrow> basic_term set" where
  "pred_get_vars p = (\<Union>side \<in> set (params p). {t \<in> set side. is_variable t})"

lemma pred_get_vars_wf: "wf_pred p \<Longrightarrow>
  pred_get_vars p = {t \<in> set (get_left_side p) \<union> set (get_right_side p). is_variable t}"
  unfolding pred_get_vars_def by (subst wf_pred_params) auto

definition get_side_vars :: "predicate \<Rightarrow> equation_side_type \<Rightarrow> basic_term set" where
  "get_side_vars p side =
     fold (\<lambda>t vars. if is_variable t then (if t \<in> vars then vars else insert t vars) else vars)
       (get_side p side) {}"

definition is_str_const :: "predicate \<Rightarrow> bool" where
  "is_str_const p \<longleftrightarrow> (\<forall>side \<in> set (params p). \<forall>t \<in> set side. is_literal t)"

text \<open>Some later position of the side repeats the variable at an earlier one.\<close>

fun mult_occurr_var_in :: "concat \<Rightarrow> bool" where
  "mult_occurr_var_in [] = False"
| "mult_occurr_var_in (t # ts) =
     (if is_variable t \<and> t \<in> set ts then True else mult_occurr_var_in ts)"

definition mult_occurr_var_side :: "predicate \<Rightarrow> equation_side_type \<Rightarrow> bool" where
  "mult_occurr_var_side p side = mult_occurr_var_in (get_side p side)"

text \<open>
  Swapping the sides; a transducer predicate gets the transducer with inverted tapes, which
  the automata library allocates (\<open>invert_levels\<close>, from address to address).
\<close>

definition get_switched_sides_predicate :: "(nat \<Rightarrow> nat) \<Rightarrow> predicate \<Rightarrow> predicate" where
  "get_switched_sides_predicate invert_levels p =
     (if is_transducer p
      then create_transducer (invert_levels (the (transducer p))) (get_output p) (get_input p)
      else Predicate (ptype p) [get_right_side p, get_left_side p] None)"

text \<open>
  Equality by content: transducers are compared for identity of the automata
  (\<open>is_identical\<close> of the library) and not of the pointers.
\<close>

definition strong_equals :: "(nat \<Rightarrow> nat \<Rightarrow> bool) \<Rightarrow> predicate \<Rightarrow> predicate \<Rightarrow> bool" where
  "strong_equals is_identical p q =
     (if ptype p = ptype q then
        if is_transducer p then
          if \<not> (params p ! 0 = params q ! 0 \<and> params p ! 1 = params q ! 1) then False
          else is_identical (the (transducer p)) (the (transducer q))
        else if is_two_sided p then params p ! 0 = params q ! 0 \<and> params p ! 1 = params q ! 1
        else params p = params q
      else False)"

section \<open>Replacing and splitting\<close>

text \<open>
  \<open>std::equal(it, it + find.size(), find.begin(), find.end())\<close> compares element by element
  and stops at the first difference; when the rest of the concatenation is a proper prefix
  of \<open>find\<close> the comparison reads past the end of the vector (\<open>None\<close>).
\<close>

fun std_equal :: "'a list \<Rightarrow> 'a list \<Rightarrow> bool option" where
  "std_equal _ [] = Some True"
| "std_equal [] (f # fs) = None"
| "std_equal (t # ts) (f # fs) = (if t = f then std_equal ts fs else Some False)"

text \<open>
  The loop of \<open>replace_concat\<close> from an iterator position: the flag says whether something
  was replaced. An empty pattern matches without advancing the iterator.
\<close>

function replace_concat :: "concat \<Rightarrow> concat \<Rightarrow> concat \<Rightarrow> (bool \<times> concat) res" where
  "replace_concat con pat rpl =
     (case con of
        [] \<Rightarrow> Inr (False, [])
      | t # ts \<Rightarrow>
          (case std_equal con pat of
             None \<Rightarrow> Inl Out_Of_Range
           | Some True \<Rightarrow>
               if pat = [] then Inl No_Progress
               else bind_res (replace_concat (drop (length pat) con) pat rpl)
                      (\<lambda>(m, res). Inr (True, rpl @ res))
           | Some False \<Rightarrow>
               bind_res (replace_concat ts pat rpl) (\<lambda>(m, res). Inr (m, t # res))))"
  by pat_completeness auto
termination
  by (relation "measure (\<lambda>(c, f, r). length c)") auto

declare replace_concat.simps [simp del]

definition pred_replace :: "predicate \<Rightarrow> concat \<Rightarrow> concat \<Rightarrow> (bool \<times> predicate) res" where
  "pred_replace p pat rpl =
     bind_res (map_res (\<lambda>c. replace_concat c pat rpl) (params p))
       (\<lambda>rs. Inr (\<exists>r \<in> set rs. fst r, Predicate (ptype p) (map snd rs) (transducer p)))"

text \<open>Literals of more than one symbol are cut into one-symbol literals; empty literals vanish.\<close>

definition split_concat :: "concat \<Rightarrow> concat" where
  "split_concat con =
     concat (map (\<lambda>bt. if is_literal bt
                        then map (\<lambda>ch. BasicTerm Literal [ch]) (get_name bt) else [bt]) con)"

definition pred_split_literals :: "predicate \<Rightarrow> predicate" where
  "pred_split_literals p = Predicate (ptype p) (map split_concat (params p)) None"

text \<open>
  Occurrences of each variable of a side; the empty literal holds the sum of the lengths of
  the other terms.
\<close>

definition variable_count :: "predicate \<Rightarrow> equation_side_type \<Rightarrow> (basic_term \<times> nat) list" where
  "variable_count p side =
     map_put (BasicTerm Literal [])
       (sum_list (map (\<lambda>b. length (get_name b)) (filter (\<lambda>b. \<not> is_variable b) (get_side p side))))
       (fold map_increment (filter is_variable (get_side p side)) [])"

section \<open>Formulae\<close>

type_synonym formula = "predicate list"

definition extract_predicates :: "formula \<Rightarrow> predicate_type \<Rightarrow> formula \<Rightarrow> formula \<times> formula" where
  "extract_predicates f type extracted =
     fold (\<lambda>p (rest, ex). if ptype p = type then (rest, ex @ [p]) else (rest @ [p], ex))
       f ([], extracted)"

fun contains_pred_type :: "formula \<Rightarrow> predicate_type \<Rightarrow> bool" where
  "contains_pred_type [] type = False"
| "contains_pred_type (p # ps) type = (if ptype p = type then True else contains_pred_type ps type)"

definition formula_get_vars :: "formula \<Rightarrow> basic_term set" where
  "formula_get_vars f = (\<Union>p \<in> set f. pred_get_vars p)"

definition count_occurrences :: "concat \<Rightarrow> (basic_term \<times> nat) list \<Rightarrow> (basic_term \<times> nat) list" where
  "count_occurrences vc m = fold (\<lambda>bt m. if \<not> is_variable bt then m else map_increment bt m) vc m"

fun is_quadratic_from :: "formula \<Rightarrow> (basic_term \<times> nat) list \<Rightarrow> bool" where
  "is_quadratic_from [] occur_map = (\<forall>pr \<in> set occur_map. \<not> snd pr > 2)"
| "is_quadratic_from (p # ps) occur_map =
     (if \<not> is_equation p then False
      else is_quadratic_from ps
             (count_occurrences (get_left_side p) (count_occurrences (get_right_side p) occur_map)))"

definition is_quadratic :: "formula \<Rightarrow> bool" where
  "is_quadratic f = is_quadratic_from f []"

fun all_of_type :: "formula \<Rightarrow> predicate_type \<Rightarrow> bool" where
  "all_of_type [] tp = True"
| "all_of_type (p # ps) tp = (if ptype p \<noteq> tp then False else all_of_type ps tp)"

definition formula_replace :: "formula \<Rightarrow> concat \<Rightarrow> concat \<Rightarrow> formula res" where
  "formula_replace f pat rpl =
     map_res (\<lambda>p. bind_res (pred_replace p pat rpl) (\<lambda>(m, res). Inr res)) f"

definition formula_split_literals :: "formula \<Rightarrow> formula" where
  "formula_split_literals f = map pred_split_literals f"

section \<open>Semantics\<close>

text \<open>
  An assignment gives every term that is not a literal a word; a literal is its own text.
  \<open>R\<close> is the relation of the transducer at an address.
\<close>

type_synonym assignment = "basic_term \<Rightarrow> zstring"

definition eval_term :: "assignment \<Rightarrow> basic_term \<Rightarrow> zstring" where
  "eval_term \<sigma> t = (if is_literal t then get_name t else \<sigma> t)"

definition eval_concat :: "assignment \<Rightarrow> concat \<Rightarrow> zstring" where
  "eval_concat \<sigma> c = concat (map (eval_term \<sigma>) c)"

definition sat_pred :: "(nat \<Rightarrow> (zstring \<times> zstring) set) \<Rightarrow> assignment \<Rightarrow> predicate \<Rightarrow> bool" where
  "sat_pred R \<sigma> p =
     (case ptype p of
        Equation \<Rightarrow> eval_concat \<sigma> (params p ! 0) = eval_concat \<sigma> (params p ! 1)
      | Inequation \<Rightarrow> eval_concat \<sigma> (params p ! 0) \<noteq> eval_concat \<sigma> (params p ! 1)
      | NotContains \<Rightarrow> \<not> sublist (eval_concat \<sigma> (params p ! 1)) (eval_concat \<sigma> (params p ! 0))
      | Transducer \<Rightarrow>
          (eval_concat \<sigma> (params p ! 0), eval_concat \<sigma> (params p ! 1)) \<in> R (the (transducer p)))"

definition sat_formula :: "(nat \<Rightarrow> (zstring \<times> zstring) set) \<Rightarrow> assignment \<Rightarrow> formula \<Rightarrow> bool" where
  "sat_formula R \<sigma> f \<longleftrightarrow> (\<forall>p \<in> set f. sat_pred R \<sigma> p)"

lemma eval_concat_simps [simp]:
  "eval_concat \<sigma> [] = []"
  "eval_concat \<sigma> (t # c) = eval_term \<sigma> t @ eval_concat \<sigma> c"
  "eval_concat \<sigma> (c @ d) = eval_concat \<sigma> c @ eval_concat \<sigma> d"
  by (simp_all add: eval_concat_def)

lemma eval_term_literal [simp]: "eval_term \<sigma> (BasicTerm Literal w) = w"
  by (simp add: eval_term_def)

lemma eval_term_variable: "is_variable x \<Longrightarrow> eval_term \<sigma> x = \<sigma> x"
  by (simp add: eval_term_def variable_not_literal)

lemma sat_pred_equation: "is_equation p \<Longrightarrow>
  sat_pred R \<sigma> p \<longleftrightarrow> eval_concat \<sigma> (get_left_side p) = eval_concat \<sigma> (get_right_side p)"
  by (simp add: sat_pred_def side_defs pred_kind_defs)

lemma sat_create_equation [simp]:
  "sat_pred R \<sigma> (create_equation l r) \<longleftrightarrow> eval_concat \<sigma> l = eval_concat \<sigma> r"
  by (simp add: sat_pred_equation)

lemma sat_formula_simps [simp]:
  "sat_formula R \<sigma> []"
  "sat_formula R \<sigma> (p # f) \<longleftrightarrow> sat_pred R \<sigma> p \<and> sat_formula R \<sigma> f"
  "sat_formula R \<sigma> (f @ g) \<longleftrightarrow> sat_formula R \<sigma> f \<and> sat_formula R \<sigma> g"
  by (auto simp: sat_formula_def)

text \<open>The value of a predicate depends only on the values of its parameters.\<close>

lemma sat_pred_cong:
  assumes "ptype p = ptype q" and "transducer p = transducer q"
    and "eval_concat \<sigma> (params p ! 0) = eval_concat \<tau> (params q ! 0)"
    and "eval_concat \<sigma> (params p ! 1) = eval_concat \<tau> (params q ! 1)"
  shows "sat_pred R \<sigma> p = sat_pred R \<tau> q"
  using assms by (simp add: sat_pred_def split: predicate_type.split)

lemma eval_concat_cong: "(\<And>t. t \<in> set c \<Longrightarrow> \<not> is_literal t \<Longrightarrow> \<sigma> t = \<tau> t) \<Longrightarrow>
  eval_concat \<sigma> c = eval_concat \<tau> c"
  by (induction c) (auto simp: eval_term_def)

section \<open>Properties of replacing\<close>

lemma std_equal_Some_True: "std_equal xs ys = Some True \<longleftrightarrow> length ys \<le> length xs \<and> take (length ys) xs = ys"
  by (induction xs ys rule: std_equal.induct) auto

lemma std_equal_None: "std_equal xs ys = None \<longleftrightarrow> strict_prefix xs ys"
  by (induction xs ys rule: std_equal.induct) (auto simp: strict_prefix_def)

lemma std_equal_single [simp]: "std_equal (t # ts) [x] = Some (t = x)"
  by simp

definition subst_concat :: "basic_term \<Rightarrow> concat \<Rightarrow> concat \<Rightarrow> concat" where
  "subst_concat x r c = concat (map (\<lambda>t. if t = x then r else [t]) c)"

definition subst_pred :: "basic_term \<Rightarrow> concat \<Rightarrow> predicate \<Rightarrow> predicate" where
  "subst_pred x r p = Predicate (ptype p) (map (subst_concat x r) (params p)) (transducer p)"

lemma subst_concat_simps [simp]:
  "subst_concat x r [] = []"
  "subst_concat x r (t # c) = (if t = x then r else [t]) @ subst_concat x r c"
  "subst_concat x r (c @ d) = subst_concat x r c @ subst_concat x r d"
  by (simp_all add: subst_concat_def)

lemma replace_concat_Nil [simp]: "replace_concat [] pat rpl = Inr (False, [])"
  by (simp add: replace_concat.simps)

lemma replace_concat_single: "replace_concat c [x] r = Inr (x \<in> set c, subst_concat x r c)"
proof (induction c)
  case Nil
  then show ?case by simp
next
  case (Cons t c)
  then show ?case
    by (subst replace_concat.simps) auto
qed

lemma pred_replace_single:
  "pred_replace p [x] r = Inr (\<exists>c \<in> set (params p). x \<in> set c, subst_pred x r p)"
proof -
  have "map_res (\<lambda>c. replace_concat c [x] r) (params p) =
    Inr (map (\<lambda>c. (x \<in> set c, subst_concat x r c)) (params p))"
    by (rule map_res_Inr) (rule replace_concat_single)
  then show ?thesis
    by (simp add: pred_replace_def subst_pred_def comp_def)
qed

lemma formula_replace_single: "formula_replace f [x] r = Inr (map (subst_pred x r) f)"
  unfolding formula_replace_def by (rule map_res_Inr) (simp add: pred_replace_single)

lemma eval_subst_concat:
  "\<not> is_literal x \<Longrightarrow> eval_concat \<sigma> (subst_concat x r c) = eval_concat (\<sigma>(x := eval_concat \<sigma> r)) c"
  by (induction c) (auto simp: eval_term_def)

lemma subst_concat_eval_eq:
  "eval_concat \<sigma> r = eval_term \<sigma> x \<Longrightarrow> eval_concat \<sigma> (subst_concat x r c) = eval_concat \<sigma> c"
  by (induction c) auto

lemma wf_pred_subst [simp]: "wf_pred (subst_pred x r p) = wf_pred p"
  by (simp add: wf_pred_def subst_pred_def pred_kind_defs)

lemma subst_pred_simps [simp]:
  "ptype (subst_pred x r p) = ptype p"
  "transducer (subst_pred x r p) = transducer p"
  "params (subst_pred x r p) = map (subst_concat x r) (params p)"
  by (simp_all add: subst_pred_def)

lemma sat_subst_pred:
  assumes "wf_pred p" and "\<not> is_literal x"
  shows "sat_pred R \<sigma> (subst_pred x r p) = sat_pred R (\<sigma>(x := eval_concat \<sigma> r)) p"
proof (rule sat_pred_cong)
  have "length (params p) = 2" using assms(1) by (simp add: wf_pred_def)
  then show "eval_concat \<sigma> (params (subst_pred x r p) ! 0) =
      eval_concat (\<sigma>(x := eval_concat \<sigma> r)) (params p ! 0)"
    and "eval_concat \<sigma> (params (subst_pred x r p) ! 1) =
      eval_concat (\<sigma>(x := eval_concat \<sigma> r)) (params p ! 1)"
    using assms(2) by (simp_all add: eval_subst_concat)
qed simp_all

text \<open>
  C37: Replacing one variable by a concatenation in a formula always succeeds, and the
  resulting formula is satisfied by an assignment exactly if the original formula is
  satisfied by the assignment that gives the variable the value of the concatenation.
\<close>

theorem formula_replace_variable:
  assumes "\<forall>p \<in> set f. wf_pred p" and "is_variable x"
  shows "\<exists>f'. formula_replace f [x] r = Inr f' \<and>
    (\<forall>R \<sigma>. sat_formula R \<sigma> f' = sat_formula R (\<sigma>(x := eval_concat \<sigma> r)) f)"
proof (intro exI conjI allI)
  show "formula_replace f [x] r = Inr (map (subst_pred x r) f)"
    by (rule formula_replace_single)
  show "sat_formula R \<sigma> (map (subst_pred x r) f) = sat_formula R (\<sigma>(x := eval_concat \<sigma> r)) f"
    for R \<sigma>
    using assms by (auto simp: sat_formula_def sat_subst_pred variable_not_literal)
qed

theorem formula_replace_variable_witness:
  "\<exists>f'. formula_replace [create_equation [BasicTerm Variable [120]] [BasicTerm Literal [97]]]
       [BasicTerm Variable [120]] [BasicTerm Variable [121]] = Inr f' \<and>
    (\<forall>R \<sigma>. sat_formula R \<sigma> f' =
      sat_formula R (\<sigma>(BasicTerm Variable [120] := eval_concat \<sigma> [BasicTerm Variable [121]]))
        [create_equation [BasicTerm Variable [120]] [BasicTerm Literal [97]]])"
  by (rule formula_replace_variable) simp_all

text \<open>
  Replacing any non-empty pattern by a concatenation of the same value keeps the value
  of the concatenation, whenever the search does not run past its end; and if nothing is
  reported as replaced, the concatenation is unchanged.
\<close>

theorem replace_concat_eval:
  assumes "replace_concat c pat rpl = Inr (m, res)" and "eval_concat \<sigma> pat = eval_concat \<sigma> rpl"
  shows "eval_concat \<sigma> res = eval_concat \<sigma> c \<and> (\<not> m \<longrightarrow> res = c)"
  using assms
proof (induction c pat rpl arbitrary: m res rule: replace_concat.induct)
  case (1 c pat rpl)
  show ?case
  proof (cases c)
    case Nil
    then show ?thesis using "1.prems" by simp
  next
    case (Cons t ts)
    show ?thesis
    proof (cases "std_equal c pat")
      case None
      then show ?thesis using "1.prems" Cons by (subst (asm) replace_concat.simps) simp
    next
      case (Some b)
      show ?thesis
      proof (cases b)
        case True
        then have eq: "take (length pat) c = pat" and "std_equal c pat = Some True"
          using Some std_equal_Some_True[of c pat] by auto
        then obtain m' res' where *: "replace_concat (drop (length pat) c) pat rpl = Inr (m', res')"
          and "m" and "res = rpl @ res'" and "pat \<noteq> []"
          using "1.prems" Cons by (subst (asm) replace_concat.simps)
            (auto simp: bind_res_def split: sum.splits if_splits)
        have "eval_concat \<sigma> res' = eval_concat \<sigma> (drop (length pat) c)"
          using "1.IH"(1)[OF Cons _ _ \<open>pat \<noteq> []\<close> *] "1.prems"(2) Some True by simp
        moreover have "eval_concat \<sigma> c = eval_concat \<sigma> pat @ eval_concat \<sigma> (drop (length pat) c)"
          using eq by (metis append_take_drop_id eval_concat_simps(3))
        ultimately show ?thesis
          using \<open>res = rpl @ res'\<close> \<open>m\<close> "1.prems"(2) by simp
      next
        case False
        then obtain res' where *: "replace_concat ts pat rpl = Inr (m, res')" and "res = t # res'"
          using "1.prems" Cons Some by (subst (asm) replace_concat.simps)
            (auto simp: bind_res_def split: sum.splits)
        then show ?thesis
          using "1.IH"(2)[OF Cons _ _ *] "1.prems"(2) Some False Cons by simp
      qed
    qed
  qed
qed



section \<open>Splitting literals\<close>

lemma eval_split_concat [simp]: "eval_concat \<sigma> (split_concat c) = eval_concat \<sigma> c"
proof (induction c)
  case Nil
  then show ?case by (simp add: split_concat_def)
next
  case (Cons t c)
  have "eval_concat \<sigma> (map (\<lambda>ch. BasicTerm Literal [ch]) w) = w" for w
    by (induction w) auto
  with Cons show ?case
    by (auto simp: split_concat_def eval_term_def)
qed

definition single_symbol_literals :: "concat \<Rightarrow> bool" where
  "single_symbol_literals c \<longleftrightarrow> (\<forall>t \<in> set c. is_literal t \<longrightarrow> length (get_name t) = 1)"

lemma single_symbol_split_concat [simp]: "single_symbol_literals (split_concat c)"
  by (auto simp: single_symbol_literals_def split_concat_def)

text \<open>
  C38: Splitting the literals of a formula without transducers keeps its solutions, and
  afterwards every literal is exactly one symbol.
\<close>

theorem formula_split_literals_correct:
  assumes "\<forall>p \<in> set f. wf_pred p \<and> \<not> is_transducer p"
  shows "sat_formula R \<sigma> (formula_split_literals f) = sat_formula R \<sigma> f \<and>
    (\<forall>p \<in> set (formula_split_literals f). wf_pred p \<and> (\<forall>c \<in> set (params p). single_symbol_literals c))"
proof -
  have "sat_pred R \<sigma> (pred_split_literals p) = sat_pred R \<sigma> p" if "p \<in> set f" for p
  proof -
    have "length (params p) = 2" and "transducer p = None"
      using assms that by (auto simp: wf_pred_def)
    then show ?thesis
      by (intro sat_pred_cong) (simp_all add: pred_split_literals_def)
  qed
  then have "sat_formula R \<sigma> (formula_split_literals f) = sat_formula R \<sigma> f"
    by (auto simp: sat_formula_def formula_split_literals_def)
  moreover have "wf_pred (pred_split_literals p)" if "p \<in> set f" for p
    using assms that by (auto simp: wf_pred_def pred_split_literals_def pred_kind_defs)
  ultimately show ?thesis
    by (auto simp: formula_split_literals_def) (auto simp: pred_split_literals_def)
qed

theorem formula_split_literals_correct_witness:
  "let f = [create_equation [BasicTerm Literal [97, 98]] [BasicTerm Variable [120]]]
   in sat_formula (\<lambda>_. {}) (\<lambda>_. [97, 98]) (formula_split_literals f) = sat_formula (\<lambda>_. {}) (\<lambda>_. [97, 98]) f \<and>
      (\<forall>p \<in> set (formula_split_literals f). wf_pred p \<and> (\<forall>c \<in> set (params p). single_symbol_literals c))"
  unfolding Let_def by (rule formula_split_literals_correct) (simp add: pred_kind_defs)

text \<open>
  Splitting the literals of a transducer predicate drops its transducer: the result is a
  transducer predicate with a null pointer.
\<close>

theorem pred_split_literals_drops_transducer:
  "ptype (pred_split_literals (create_transducer nft input output)) = Transducer \<and>
   transducer (pred_split_literals (create_transducer nft input output)) = None \<and>
   \<not> wf_pred (pred_split_literals (create_transducer nft input output))"
  by (simp add: pred_split_literals_def create_transducer_def wf_pred_def pred_kind_defs)

section \<open>Counting occurrences\<close>

lemma count_occurrences_filter: "count_occurrences vc m = fold map_increment (filter is_variable vc) m"
  unfolding count_occurrences_def by (induction vc arbitrary: m) auto

definition formula_occurrences :: "formula \<Rightarrow> basic_term \<Rightarrow> nat" where
  "formula_occurrences f x =
     sum_list (map (\<lambda>p. count_list (get_left_side p) x + count_list (get_right_side p) x) f)"

lemma count_list_filter: "P x \<Longrightarrow> count_list (filter P xs) x = count_list xs x"
  by (induction xs) auto

lemma count_list_filter_not: "\<not> P x \<Longrightarrow> count_list (filter P xs) x = 0"
  by (induction xs) auto

lemma is_quadratic_from_iff:
  assumes "map_ok m"
  shows "is_quadratic_from f m \<longleftrightarrow> (\<forall>p \<in> set f. is_equation p) \<and>
    (\<forall>x. count_at m x + (if is_variable x then formula_occurrences f x else 0) \<le> 2)"
  using assms
proof (induction f m rule: is_quadratic_from.induct)
  case (1 m)
  have "(\<forall>pr \<in> set m. \<not> snd pr > 2) \<longleftrightarrow> (\<forall>x. count_at m x \<le> 2)"
  proof
    assume *: "\<forall>pr \<in> set m. \<not> snd pr > 2"
    show "\<forall>x. count_at m x \<le> 2"
    proof
      fix x
      show "count_at m x \<le> 2"
        using * map_of_SomeD[of m x] by (force simp: count_at_def not_less split: option.split)
    qed
  next
    assume *: "\<forall>x. count_at m x \<le> 2"
    show "\<forall>pr \<in> set m. \<not> snd pr > 2"
    proof
      fix pr assume "pr \<in> set m"
      then have "map_of m (fst pr) = Some (snd pr)"
        using 1 map_ok_in_set[of m "fst pr" "snd pr"] by simp
      then show "\<not> snd pr > 2"
        using *[rule_format, of "fst pr"] by (simp add: count_at_def)
    qed
  qed
  then show ?case by (simp add: formula_occurrences_def)
next
  case (2 p ps m)
  let ?m = "count_occurrences (get_left_side p) (count_occurrences (get_right_side p) m)"
  have ok: "map_ok ?m"
    using 2(2) by (simp add: count_occurrences_filter cmap.ok_fold_bump)
  have count: "count_at ?m x = count_at m x +
      (if is_variable x then count_list (get_left_side p) x + count_list (get_right_side p) x else 0)"
    for x
    by (simp add: count_occurrences_filter count_list_filter count_list_filter_not)
  show ?case
  proof (cases "is_equation p")
    case True
    with 2(1)[OF _ ok] show ?thesis
      by (simp add: count formula_occurrences_def if_distrib[of "\<lambda>n. _ + n"] add.assoc cong: if_cong)
  next
    case False
    then show ?thesis by simp
  qed
qed

text \<open>
  A formula is classified as quadratic exactly if it consists of equations only and no
  variable occurs more than twice in all its sides together.
\<close>

theorem is_quadratic_iff:
  "is_quadratic f \<longleftrightarrow> (\<forall>p \<in> set f. is_equation p) \<and>
     (\<forall>x. is_variable x \<longrightarrow> formula_occurrences f x \<le> 2)"
  using is_quadratic_from_iff[of "[]" f] by (auto simp: is_quadratic_def)

lemma count_at_variable_count:
  "is_variable x \<Longrightarrow> count_at (variable_count p side) x = count_list (get_side p side) x"
  by (auto simp: variable_count_def count_list_filter)

lemma count_at_variable_count_lit:
  "count_at (variable_count p side) (BasicTerm Literal []) =
     sum_list (map (\<lambda>b. length (get_name b)) (filter (\<lambda>b. \<not> is_variable b) (get_side p side)))"
  by (simp add: variable_count_def)

section \<open>Switching sides\<close>

text \<open>
  Switching the sides of an equation, disequation or transducer predicate keeps its
  solutions, provided the library's tape inversion inverts the relation of a transducer.
\<close>

theorem get_switched_sides_sat:
  assumes invert: "\<And>a. R (invert_levels a) = (R a)\<inverse>"
    and "wf_pred p" and "\<not> is_not_cont p"
  shows "sat_pred R \<sigma> (get_switched_sides_predicate invert_levels p) = sat_pred R \<sigma> p"
proof (cases "is_transducer p")
  case True
  then show ?thesis
    using invert by (simp add: get_switched_sides_predicate_def create_transducer_def sat_pred_def
        pred_kind_defs side_defs)
next
  case False
  then show ?thesis
    using assms(2,3)
    by (cases "ptype p") (auto simp: get_switched_sides_predicate_def sat_pred_def pred_kind_defs side_defs)
qed

end
