(* ===== verification/Transition_Graph.thy ===== *)
theory Transition_Graph
  imports Formula
begin

text \<open>
  The class templates \<open>TransitionGraph\<close> and \<open>Path\<close> of
  \<open>nielsen_decision_procedure.h\<close>: graphs whose nodes are formulae and whose edges carry a
  label. The map from a node to its set of (target, label) pairs is the ascending list of
  the triples (source, target, label), which is the order in which the nested containers
  are read. Besides the operations, the theory shows that trimming keeps exactly the edges
  on paths to a final node, and that \<open>shortest_path\<close> finds a path of minimal length
  whenever there is one.
\<close>

section \<open>Graphs and paths\<close>

record 'l tgraph =
  nodes :: "formula list"
  edges :: "(formula \<times> formula \<times> 'l) list"
  init :: formula
  fins :: "formula list"

definition empty_graph :: "'l tgraph" where
  "empty_graph = \<lparr>nodes = [], edges = [], init = [], fins = []\<rparr>"

definition add_edge :: "formula \<Rightarrow> formula \<Rightarrow> 'l::linorder \<Rightarrow> 'l tgraph \<Rightarrow> 'l tgraph" where
  "add_edge source target lbl g =
     g\<lparr>nodes := sset_insert target (sset_insert source (nodes g)),
       edges := sset_insert (source, target, lbl) (edges g)\<rparr>"

definition set_init :: "formula \<Rightarrow> 'l tgraph \<Rightarrow> 'l tgraph" where
  "set_init f g = g\<lparr>init := f\<rparr>"

definition add_fin :: "formula \<Rightarrow> 'l tgraph \<Rightarrow> 'l tgraph" where
  "add_fin f g = g\<lparr>fins := sset_insert f (fins g)\<rparr>"

text \<open>The (target, label) pairs stored for a node.\<close>

definition edges_from :: "'l tgraph \<Rightarrow> formula \<Rightarrow> (formula \<times> 'l) list" where
  "edges_from g n = map snd (filter (\<lambda>e. fst e = n) (edges g))"

definition reverse_graph :: "'l::linorder tgraph \<Rightarrow> 'l tgraph" where
  "reverse_graph g =
     fold (\<lambda>(source, target, lbl). add_edge target source lbl) (edges g)
       ((if fins g \<noteq> [] then set_init (hd (fins g)) empty_graph else empty_graph)\<lparr>fins := [init g]\<rparr>)"

text \<open>One iteration of the backward search of \<open>trim\<close>: the edges into the front node are kept.\<close>

definition trim_visit ::
  "'l::linorder tgraph \<Rightarrow> formula \<Rightarrow> formula list \<Rightarrow> formula list \<Rightarrow> 'l tgraph \<Rightarrow> formula list \<times> 'l tgraph"
where
  "trim_visit rev_g nd generated worklist ret =
     fold (\<lambda>(tgt, lbl) (wl, r).
             (if tgt \<in> set generated then wl else wl @ [tgt], add_edge tgt nd lbl r))
       (edges_from rev_g nd) (worklist, ret)"

lemma set_trim_visit:
  "set (fst (trim_visit rev_g nd generated worklist ret)) =
     set worklist \<union> {t \<in> fst ` set (edges_from rev_g nd). t \<notin> set generated}"
proof -
  have "set (fst (fold (\<lambda>(tgt, lbl) (wl, r).
          (if tgt \<in> set generated then wl else wl @ [tgt], add_edge tgt nd lbl r)) es (wl, r))) =
      set wl \<union> {t \<in> fst ` set es. t \<notin> set generated}" for es wl and r :: "'a tgraph"
    by (induction es arbitrary: wl r) (auto split: if_splits)
  then show ?thesis by (simp add: trim_visit_def)
qed

lemma trim_visit_pending:
  "filter (\<lambda>n. n \<in> set generated) (fst (trim_visit rev_g nd generated worklist ret)) =
     filter (\<lambda>n. n \<in> set generated) worklist"
proof -
  have "filter (\<lambda>n. n \<in> set generated) (fst (fold (\<lambda>(tgt, lbl) (wl, r).
          (if tgt \<in> set generated then wl else wl @ [tgt], add_edge tgt nd lbl r)) es (wl, r))) =
      filter (\<lambda>n. n \<in> set generated) wl" for es wl and r :: "'a tgraph"
    by (induction es arbitrary: wl r) auto
  then show ?thesis by (simp add: trim_visit_def)
qed

lemma edges_from_targets: "fst ` set (edges_from g n) \<subseteq> fst ` snd ` set (edges g)"
  by (auto simp: edges_from_def)

function trim_loop ::
  "'l::linorder tgraph \<Rightarrow> formula list \<Rightarrow> formula list \<Rightarrow> 'l tgraph \<Rightarrow> 'l tgraph"
where
  "trim_loop rev_g [] generated ret = ret"
| "trim_loop rev_g (nd # worklist) generated ret =
     (let generated' = sset_insert nd generated;
          (worklist', ret') = trim_visit rev_g nd generated' worklist ret
      in trim_loop rev_g worklist' generated' ret')"
  by pat_completeness auto
termination
proof (relation "measures
    [\<lambda>(rev_g, wl, gen, ret). card ((set wl \<union> fst ` snd ` set (edges rev_g)) - set gen),
     \<lambda>(rev_g, wl, gen, ret). length (filter (\<lambda>n. n \<in> set gen) wl)]", goal_cases)
  case 1
  then show ?case by simp
next
  case (2 rev_g nd wl gen ret gen' p wl' ret')
  let ?T = "fst ` snd ` set (edges rev_g)"
  have wl': "wl' = fst (trim_visit rev_g nd gen' wl ret)"
    using 2 by (metis fst_conv)
  have sub: "(set wl' \<union> ?T) - set gen' \<subseteq> (set (nd # wl) \<union> ?T) - set gen"
    using edges_from_targets[of rev_g nd] 2(1) by (auto simp: wl' set_trim_visit)
  show ?case
  proof (cases "nd \<in> set gen")
    case True
    then have "set gen' = set gen" using 2(1) by auto
    then have "length (filter (\<lambda>n. n \<in> set gen') wl') < length (filter (\<lambda>n. n \<in> set gen) (nd # wl))"
      using True trim_visit_pending[of gen' rev_g nd wl ret] by (simp add: wl')
    moreover have "card ((set wl' \<union> ?T) - set gen') \<le> card ((set (nd # wl) \<union> ?T) - set gen)"
      by (rule card_mono[OF _ sub]) simp
    ultimately show ?thesis by auto
  next
    case False
    then have "(set wl' \<union> ?T) - set gen' \<subset> (set (nd # wl) \<union> ?T) - set gen"
      using sub 2(1) by auto
    then have "card ((set wl' \<union> ?T) - set gen') < card ((set (nd # wl) \<union> ?T) - set gen)"
      by (intro psubset_card_mono) auto
    then show ?thesis by simp
  qed
qed

definition trim :: "'l::linorder tgraph \<Rightarrow> 'l tgraph" where
  "trim g =
     trim_loop (reverse_graph g) (fins g) []
       (fold add_fin (fins g) (set_init (init g) empty_graph))"

record 'l path =
  path_nodes :: "formula list"
  path_labels :: "'l list"
  self_loops :: "(formula \<times> 'l) list"

text \<open>\<open>std::map::insert\<close> keeps the entry of a key that is already there.\<close>

definition map_insert :: "'k::linorder \<Rightarrow> 'v \<Rightarrow> ('k \<times> 'v) list \<Rightarrow> ('k \<times> 'v) list" where
  "map_insert k v m = (if map_of m k = None then map_put k v m else m)"

definition path_append :: "'l path \<Rightarrow> 'l path \<Rightarrow> 'l path" where
  "path_append p q =
     p\<lparr>path_nodes := path_nodes p @ tl (path_nodes q),
       path_labels := path_labels p @ path_labels q,
       self_loops := fold (\<lambda>(n, l). map_insert n l) (self_loops q) (self_loops p)\<rparr>"

text \<open>The breadth-first search of \<open>shortest_path\<close>.\<close>

function shortest_path_loop ::
  "'l tgraph \<Rightarrow> formula \<Rightarrow> formula list \<Rightarrow> (formula \<times> 'l path) list \<Rightarrow> 'l path option"
where
  "shortest_path_loop g end_node visited [] = None"
| "shortest_path_loop g end_node visited ((n, p) # worklist) =
     (if n \<in> set visited then shortest_path_loop g end_node visited worklist
      else let visited' = sset_insert n visited
      in if n = end_node then Some p
      else shortest_path_loop g end_node visited'
             (worklist @
              map (\<lambda>(tgt, lbl). (tgt, \<lparr>path_nodes = path_nodes p @ [tgt],
                     path_labels = path_labels p @ [lbl], self_loops = []\<rparr>))
                (filter (\<lambda>(tgt, lbl). tgt \<notin> set visited') (edges_from g n))))"
  by pat_completeness auto
termination
proof (relation "measures
    [\<lambda>(g, e, vis, wl). card ((fst ` set wl \<union> fst ` snd ` set (edges g)) - set vis),
     \<lambda>(g, e, vis, wl). length wl]", goal_cases)
  case 1
  then show ?case by simp
next
  case (2 g e vis n p wl)
  have "card ((fst ` set wl \<union> fst ` snd ` set (edges g)) - set vis)
      \<le> card ((fst ` set ((n, p) # wl) \<union> fst ` snd ` set (edges g)) - set vis)"
    by (rule card_mono) auto
  then show ?case by auto
next
  case (3 g e vis n p wl vis')
  let ?new = "map (\<lambda>(tgt, lbl). (tgt, \<lparr>path_nodes = path_nodes p @ [tgt],
      path_labels = path_labels p @ [lbl], self_loops = []\<rparr>))
    (filter (\<lambda>(tgt, lbl). tgt \<notin> set vis') (edges_from g n))"
  have "fst ` set ?new \<subseteq> fst ` snd ` set (edges g)"
    using edges_from_targets[of g n] by force
  then have "(fst ` set (wl @ ?new) \<union> fst ` snd ` set (edges g)) - set vis'
      \<subset> (fst ` set ((n, p) # wl) \<union> fst ` snd ` set (edges g)) - set vis"
    using 3 by auto
  then have "card ((fst ` set (wl @ ?new) \<union> fst ` snd ` set (edges g)) - set vis')
      < card ((fst ` set ((n, p) # wl) \<union> fst ` snd ` set (edges g)) - set vis)"
    by (intro psubset_card_mono) auto
  then show ?case by simp
qed

definition shortest_path :: "'l tgraph \<Rightarrow> formula \<Rightarrow> formula \<Rightarrow> 'l path option" where
  "shortest_path g start end_node =
     shortest_path_loop g end_node []
       [(start, \<lparr>path_nodes = [start], path_labels = [], self_loops = []\<rparr>)]"

section \<open>Trimming\<close>

lemma edges_from_iff [simp]: "(t, l) \<in> set (edges_from g n) \<longleftrightarrow> (n, t, l) \<in> set (edges g)"
  by (force simp: edges_from_def)

lemma graph_simps [simp]:
  "set (edges (add_edge s t l g)) = insert (s, t, l) (set (edges g))"
  "set (nodes (add_edge s t l g)) = insert s (insert t (set (nodes g)))"
  "init (add_edge s t l g) = init g"
  "fins (add_edge s t l g) = fins g"
  by (auto simp: add_edge_def)

lemma graph_end_simps [simp]:
  "edges (set_init f g) = edges g" "init (set_init f g) = f" "fins (set_init f g) = fins g"
  "edges (add_fin f g) = edges g" "init (add_fin f g) = init g"
  "set (fins (add_fin f g)) = insert f (set (fins g))"
  "edges empty_graph = []" "fins empty_graph = []" "init empty_graph = []"
  by (auto simp: set_init_def add_fin_def empty_graph_def)

text \<open>One step along an edge, and the nodes it leads to.\<close>

definition step_rel :: "('n \<times> 'n \<times> 'l) set \<Rightarrow> ('n \<times> 'n) set" where
  "step_rel E = {(s, t). \<exists>l. (s, t, l) \<in> E}"

lemma step_relI [intro]: "(s, t, l) \<in> E \<Longrightarrow> (s, t) \<in> step_rel E"
  by (auto simp: step_rel_def)

lemma edges_reverse_graph: "set (edges (reverse_graph g)) = {(t, s, l). (s, t, l) \<in> set (edges g)}"
proof -
  have "set (edges (fold (\<lambda>(source, target, lbl). add_edge target source lbl) es r)) =
      {(t, s, l). (s, t, l) \<in> set es} \<union> set (edges r)" for es and r :: "'a tgraph"
    by (induction es arbitrary: r) auto
  then show ?thesis by (simp add: reverse_graph_def)
qed

lemma trim_visit_graph:
  "set (edges (snd (trim_visit rev_g nd generated worklist ret))) =
     set (edges ret) \<union> {(t, nd, l) | t l. (nd, t, l) \<in> set (edges rev_g)}"
  "init (snd (trim_visit rev_g nd generated worklist ret)) = init ret"
  "fins (snd (trim_visit rev_g nd generated worklist ret)) = fins ret"
proof -
  let ?f = "\<lambda>(tgt, lbl) (wl, r).
    (if tgt \<in> set generated then wl else wl @ [tgt], add_edge tgt nd lbl r)"
  have *: "set (edges (snd (fold ?f es (wl, r)))) = set (edges r) \<union> {(t, nd, l) | t l. (t, l) \<in> set es} \<and>
      init (snd (fold ?f es (wl, r))) = init r \<and> fins (snd (fold ?f es (wl, r))) = fins r"
    for es wl and r :: "'a tgraph"
    by (induction es arbitrary: wl r) auto
  from *[of "edges_from rev_g nd" worklist ret]
  show "set (edges (snd (trim_visit rev_g nd generated worklist ret))) =
      set (edges ret) \<union> {(t, nd, l) | t l. (nd, t, l) \<in> set (edges rev_g)}"
    and "init (snd (trim_visit rev_g nd generated worklist ret)) = init ret"
    and "fins (snd (trim_visit rev_g nd generated worklist ret)) = fins ret"
    by (simp_all add: trim_visit_def)
qed

lemma rtrancl_Image_absorb: "B \<subseteq> R `` A \<Longrightarrow> R\<^sup>* `` (A \<union> B) = R\<^sup>* `` A"
  by (auto intro: converse_rtrancl_into_rtrancl)

lemma rtrancl_Image_closed: "R `` A \<subseteq> A \<Longrightarrow> R\<^sup>* `` A = A"
  by (auto dest: Image_closed_trancl)

lemma trim_loop_edges:
  assumes "\<forall>n \<in> set generated. \<forall>t l. (n, t, l) \<in> set (edges rev_g) \<longrightarrow>
      (t, n, l) \<in> set (edges ret) \<and> t \<in> set generated \<union> set worklist"
  shows "set (edges (trim_loop rev_g worklist generated ret)) = set (edges ret) \<union>
      {(t, n, l). (n, t, l) \<in> set (edges rev_g) \<and>
        n \<in> (step_rel (set (edges rev_g)))\<^sup>* `` (set generated \<union> set worklist)} \<and>
    init (trim_loop rev_g worklist generated ret) = init ret \<and>
    fins (trim_loop rev_g worklist generated ret) = fins ret"
  using assms
proof (induction rev_g worklist generated ret rule: trim_loop.induct)
  case (1 rev_g gen ret)
  let ?R = "step_rel (set (edges rev_g))"
  have "?R `` set gen \<subseteq> set gen"
    using 1 by (auto simp: step_rel_def)
  then have "?R\<^sup>* `` set gen = set gen"
    by (rule rtrancl_Image_closed)
  with 1 show ?case by auto
next
  case (2 rev_g nd wl gen ret)
  let ?R = "step_rel (set (edges rev_g))"
  let ?gen = "sset_insert nd gen"
  obtain wl' ret' where visit: "trim_visit rev_g nd ?gen wl ret = (wl', ret')"
    by (cases "trim_visit rev_g nd ?gen wl ret")
  have wl': "set wl' = set wl \<union> {t. (\<exists>l. (nd, t, l) \<in> set (edges rev_g)) \<and> t \<notin> set ?gen}"
    using set_trim_visit[of rev_g nd ?gen wl ret] visit by (auto simp: image_iff Bex_def)
  have ret': "set (edges ret') = set (edges ret) \<union> {(t, nd, l) | t l. (nd, t, l) \<in> set (edges rev_g)}"
    "init ret' = init ret" "fins ret' = fins ret"
    using trim_visit_graph[of rev_g nd ?gen wl ret] visit by simp_all
  have inv: "\<forall>n \<in> set ?gen. \<forall>t l. (n, t, l) \<in> set (edges rev_g) \<longrightarrow>
      (t, n, l) \<in> set (edges ret') \<and> t \<in> set ?gen \<union> set wl'"
    using "2.prems" by (auto simp: ret' wl')
  have closure: "?R\<^sup>* `` (set ?gen \<union> set wl') = ?R\<^sup>* `` (set gen \<union> set (nd # wl))"
  proof -
    have "set ?gen \<union> set wl' = (set gen \<union> set (nd # wl)) \<union>
        {t. (\<exists>l. (nd, t, l) \<in> set (edges rev_g)) \<and> t \<notin> set ?gen}"
      by (auto simp: wl')
    then show ?thesis
      by (simp only:) (rule rtrancl_Image_absorb, auto simp: step_rel_def)
  qed
  have nd: "nd \<in> ?R\<^sup>* `` (set gen \<union> set (nd # wl))" by auto
  show ?case
    using "2.IH"[OF refl visit[symmetric] refl inv] nd unfolding closure by (auto simp: visit ret')
qed

lemma fold_add_fin:
  "edges (fold add_fin fs r) = edges r"
  "init (fold add_fin fs r) = init r"
  "set (fins (fold add_fin fs r)) = set fs \<union> set (fins r)"
  by (induction fs arbitrary: r) auto

lemma step_rel_converse: "step_rel {(t, s, l). (s, t, l) \<in> E} = (step_rel E)\<inverse>"
  by (auto simp: step_rel_def)

lemma trim_edges:
  "set (edges (trim g)) =
     {(s, t, l). (s, t, l) \<in> set (edges g) \<and> t \<in> ((step_rel (set (edges g)))\<inverse>)\<^sup>* `` set (fins g)}"
  "init (trim g) = init g" "set (fins (trim g)) = set (fins g)"
proof -
  let ?r = "fold add_fin (fins g) (set_init (init g) empty_graph)"
  have r: "edges ?r = []" "init ?r = init g" "set (fins ?r) = set (fins g)"
    by (simp_all add: fold_add_fin)
  show "set (edges (trim g)) =
      {(s, t, l). (s, t, l) \<in> set (edges g) \<and> t \<in> ((step_rel (set (edges g)))\<inverse>)\<^sup>* `` set (fins g)}"
    "init (trim g) = init g" "set (fins (trim g)) = set (fins g)"
    using trim_loop_edges[of "[]" "reverse_graph g" ?r "fins g"]
    by (simp_all add: trim_def r edges_reverse_graph step_rel_converse)
qed

text \<open>
  C20: Trimming a graph keeps the initial node, the final nodes, and exactly those edges
  whose target can reach a final node; the backward search always ends.
\<close>

theorem trim_keeps_coreachable:
  "set (edges (trim g)) =
     {(s, t, l). (s, t, l) \<in> set (edges g) \<and>
        (\<exists>f \<in> set (fins g). (t, f) \<in> (step_rel (set (edges g)))\<^sup>*)} \<and>
   init (trim g) = init g \<and> set (fins (trim g)) = set (fins g)"
  by (auto simp: trim_edges rtrancl_converse Image_iff Bex_def)

section \<open>Shortest paths\<close>

text \<open>A path is a list of nodes and the labels of the edges between neighbours.\<close>

fun valid_path :: "('n \<times> 'n \<times> 'l) set \<Rightarrow> 'n list \<Rightarrow> 'l list \<Rightarrow> bool" where
  "valid_path E [n] [] = True"
| "valid_path E (n # m # ns) (l # ls) = ((n, m, l) \<in> E \<and> valid_path E (m # ns) ls)"
| "valid_path E _ _ = False"

lemma valid_path_length: "valid_path E ns ls \<Longrightarrow> length ns = Suc (length ls)"
  by (induction E ns ls rule: valid_path.induct) auto

lemma valid_path_snoc:
  "valid_path E ns ls \<Longrightarrow> (last ns, t, l) \<in> E \<Longrightarrow> valid_path E (ns @ [t]) (ls @ [l])"
  by (induction E ns ls rule: valid_path.induct) auto

lemma valid_path_append:
  "valid_path E ns ls \<Longrightarrow> valid_path E (last ns # ms) ks \<Longrightarrow> valid_path E (ns @ ms) (ls @ ks)"
  by (induction E ns ls rule: valid_path.induct) auto

lemma valid_path_rtrancl: "valid_path E ns ls \<Longrightarrow> (hd ns, last ns) \<in> (step_rel E)\<^sup>*"
  by (induction E ns ls rule: valid_path.induct)
     (auto intro: converse_rtrancl_into_rtrancl)

lemma rtrancl_valid_path:
  assumes "(n, m) \<in> (step_rel E)\<^sup>*"
  shows "\<exists>ns ls. valid_path E ns ls \<and> hd ns = n \<and> last ns = m"
  using assms
proof (induction rule: converse_rtrancl_induct)
  case base
  have "valid_path E [m] []" by simp
  then show ?case by fastforce
next
  case (step n k)
  then obtain ns ls l where *: "valid_path E ns ls" "hd ns = k" "last ns = m" "(n, k, l) \<in> E"
    by (auto simp: step_rel_def)
  then obtain ks where "ns = k # ks"
    by (cases ns) auto
  with * have "valid_path E (n # ns) (l # ls)" "last (n # ns) = m" by auto
  then show ?case by (metis list.sel(1))
qed

text \<open>Walks of a given length that avoid a set of nodes.\<close>

inductive walk :: "('n \<times> 'n \<times> 'l) set \<Rightarrow> 'n set \<Rightarrow> 'n \<Rightarrow> nat \<Rightarrow> 'n \<Rightarrow> bool" for E V where
  walk_refl: "n \<notin> V \<Longrightarrow> walk E V n 0 n"
| walk_step: "n \<notin> V \<Longrightarrow> (n, s, l) \<in> E \<Longrightarrow> walk E V s q m \<Longrightarrow> walk E V n (Suc q) m"

lemma walk_start: "walk E V n q m \<Longrightarrow> n \<notin> V"
  by (cases rule: walk.cases) auto

lemma valid_path_walk: "valid_path E ns ls \<Longrightarrow> walk E {} (hd ns) (length ls) (last ns)"
  by (induction E ns ls rule: valid_path.induct) (auto intro: walk.intros)

lemma walk_avoid:
  assumes "walk E V n' q m" and "m \<noteq> n"
  shows "walk E (insert n V) n' q m \<or>
    (\<exists>s l q'. (n, s, l) \<in> E \<and> walk E (insert n V) s q' m \<and> Suc q' \<le> q)"
  using assms
proof (induction rule: walk.induct)
  case (walk_refl k)
  then show ?case by (auto intro: walk.walk_refl)
next
  case (walk_step k s l q m)
  from walk_step.IH walk_step.prems consider
    "walk E (insert n V) s q m"
    | "\<exists>s l q'. (n, s, l) \<in> E \<and> walk E (insert n V) s q' m \<and> Suc q' \<le> q"
    by auto
  then show ?case
  proof cases
    case 1
    then show ?thesis
      using walk_step.hyps(1,2) by (cases "k = n") (auto intro: walk.walk_step)
  next
    case 2
    then show ?thesis by (meson le_SucI)
  qed
qed

text \<open>
  The invariant of the search: the pending entries are paths from the start, ordered by
  length, and every walk to an unvisited node is matched by a pending entry that continues
  to it through unvisited nodes in no more steps.
\<close>

definition bfs_inv ::
  "(formula \<times> formula \<times> 'l) set \<Rightarrow> formula \<Rightarrow> formula set \<Rightarrow> (formula \<times> 'l path) list \<Rightarrow> bool"
where
  "bfs_inv E start V wl \<longleftrightarrow>
     (\<forall>(n, p) \<in> set wl. valid_path E (path_nodes p) (path_labels p) \<and>
        hd (path_nodes p) = start \<and> last (path_nodes p) = n \<and> self_loops p = []) \<and>
     sorted_wrt (\<le>) (map (\<lambda>e. length (path_labels (snd e))) wl) \<and>
     (wl \<noteq> [] \<longrightarrow> (\<forall>e \<in> set wl. length (path_labels (snd e)) \<le> Suc (length (path_labels (snd (hd wl)))))) \<and>
     (\<forall>k m. walk E {} start k m \<and> m \<notin> V \<longrightarrow>
        (\<exists>(n, p) \<in> set wl. \<exists>q. walk E V n q m \<and> length (path_labels p) + q \<le> k))"

lemma bfs_inv_skip:
  assumes "bfs_inv E start V ((n, p) # wl)" and "n \<in> V"
  shows "bfs_inv E start V wl"
proof -
  have "(\<forall>e \<in> set wl. length (path_labels (snd e)) \<le> Suc (length (path_labels (snd (hd wl)))))"
    if "wl \<noteq> []"
  proof -
    obtain e es where wl: "wl = e # es" using \<open>wl \<noteq> []\<close> by (cases wl) auto
    then show ?thesis using assms(1) by (force simp: bfs_inv_def)
  qed
  moreover have "\<exists>(n, p) \<in> set wl. \<exists>q. walk E V n q m \<and> length (path_labels p) + q \<le> k"
    if "walk E {} start k m" "m \<notin> V" for k m
  proof -
    from that assms(1) obtain n' p' q where "(n', p') \<in> set ((n, p) # wl)" "walk E V n' q m"
      "length (path_labels p') + q \<le> k"
      unfolding bfs_inv_def by blast
    with assms(2) walk_start[of E V n' q m] show ?thesis by auto
  qed
  ultimately show ?thesis using assms(1) by (auto simp: bfs_inv_def)
qed

lemma bfs_inv_head:
  assumes "bfs_inv E start V ((n, p) # wl)" and "walk E {} start k m" and "m \<notin> V"
  shows "length (path_labels p) \<le> k"
proof -
  from assms obtain n' p' q where *: "(n', p') \<in> set ((n, p) # wl)" "length (path_labels p') + q \<le> k"
    unfolding bfs_inv_def by blast
  then have "length (path_labels p) \<le> length (path_labels p')"
    using assms(1) by (auto simp: bfs_inv_def)
  then show ?thesis using *(2) by simp
qed

lemma bfs_inv_visit:
  fixes p :: "'l path" and es :: "(formula \<times> 'l) list"
  assumes inv: "bfs_inv E start V ((n, p) # wl)" and "n \<notin> V"
    and es: "\<And>t l. (t, l) \<in> set es \<longleftrightarrow> (n, t, l) \<in> E \<and> t \<notin> insert n V"
  defines "new \<equiv> map (\<lambda>(tgt, lbl). (tgt, \<lparr>path_nodes = path_nodes p @ [tgt],
    path_labels = path_labels p @ [lbl], self_loops = []\<rparr>)) es"
  shows "bfs_inv E start (insert n V) (wl @ new)"
proof -
  let ?len = "\<lambda>e. length (path_labels (snd e))"
  have new_len: "?len e = Suc (length (path_labels p))" if "e \<in> set new" for e
    using that by (auto simp: new_def)
  have p: "valid_path E (path_nodes p) (path_labels p)" "hd (path_nodes p) = start"
    "last (path_nodes p) = n" "path_nodes p \<noteq> []"
    using inv by (auto simp: bfs_inv_def)
  have head: "length (path_labels p) \<le> ?len e" "?len e \<le> Suc (length (path_labels p))"
    if "e \<in> set wl" for e
    using inv that by (auto simp: bfs_inv_def)
  have "\<forall>(m, p') \<in> set (wl @ new). valid_path E (path_nodes p') (path_labels p') \<and>
      hd (path_nodes p') = start \<and> last (path_nodes p') = m \<and> self_loops p' = []"
  proof -
    have "valid_path E (path_nodes p @ [t]) (path_labels p @ [l])" if "(t, l) \<in> set es" for t l
      using that es p(3) by (intro valid_path_snoc[OF p(1)]) simp
    then show ?thesis
      using inv p(2,4) by (auto simp: bfs_inv_def new_def)
  qed
  moreover have "sorted_wrt (\<le>) (map ?len (wl @ new))"
  proof -
    have "map ?len new = replicate (length new) (Suc (length (path_labels p)))"
      by (rule map_replicate_const[THEN trans[rotated]]) (auto intro: map_cong simp: new_len)
    then show ?thesis
      using inv head by (auto simp: bfs_inv_def sorted_wrt_append)
  qed
  moreover have "\<forall>e \<in> set (wl @ new). ?len e \<le> Suc (?len (hd (wl @ new)))" if "wl @ new \<noteq> []"
  proof -
    have ge: "length (path_labels p) \<le> ?len (hd (wl @ new))"
      using head(1) new_len hd_in_set[OF that] by (metis Un_iff le_SucI order_refl set_append)
    have "?len e \<le> Suc (length (path_labels p))" if "e \<in> set (wl @ new)" for e
      using that head(2)[of e] new_len[of e] by auto
    then show ?thesis using ge by (meson Suc_le_mono order_trans)
  qed
  moreover have "\<exists>(m', p') \<in> set (wl @ new). \<exists>q. walk E (insert n V) m' q m \<and> length (path_labels p') + q \<le> k"
    if "walk E {} start k m" "m \<notin> insert n V" for k m
  proof -
    from that inv obtain n' p' q where *: "(n', p') \<in> set ((n, p) # wl)" "walk E V n' q m"
      "length (path_labels p') + q \<le> k"
      unfolding bfs_inv_def by blast
    have le: "length (path_labels p) \<le> length (path_labels p')"
      using *(1) head(1)[of "(n', p')"] by auto
    have "m \<noteq> n" using that(2) by simp
    from walk_avoid[OF *(2) this] consider
      "walk E (insert n V) n' q m"
      | s l q' where "(n, s, l) \<in> E" "walk E (insert n V) s q' m" "Suc q' \<le> q"
      by blast
    then show ?thesis
    proof cases
      case 1
      then have "n' \<noteq> n" using walk_start[OF 1] by simp
      with *(1) have "(n', p') \<in> set (wl @ new)" by auto
      moreover have "\<exists>q. walk E (insert n V) n' q m \<and> length (path_labels p') + q \<le> k"
        using 1 *(3) by auto
      ultimately show ?thesis by (intro bexI[of _ "(n', p')"]) simp_all
    next
      case 2
      let ?p = "\<lparr>path_nodes = path_nodes p @ [s], path_labels = path_labels p @ [l], self_loops = []\<rparr>"
      have "(s, l) \<in> set es" using 2(1) walk_start[OF 2(2)] es by auto
      then have "(s, ?p) \<in> set (wl @ new)" by (force simp: new_def)
      moreover have "length (path_labels ?p) + q' \<le> k" using 2(3) *(3) le by simp
      then have "\<exists>q. walk E (insert n V) s q m \<and> length (path_labels ?p) + q \<le> k"
        using 2(2) by auto
      ultimately show ?thesis by (intro bexI[of _ "(s, ?p)"]) simp_all
    qed
  qed
  ultimately show ?thesis unfolding bfs_inv_def by blast
qed

lemma shortest_path_loop_correct:
  assumes "bfs_inv (set (edges g)) start (set visited) wl" and "end_node \<notin> set visited"
  shows "case shortest_path_loop g end_node visited wl of
      None \<Rightarrow> \<not> (\<exists>k. walk (set (edges g)) {} start k end_node)
    | Some p \<Rightarrow> valid_path (set (edges g)) (path_nodes p) (path_labels p) \<and>
        hd (path_nodes p) = start \<and> last (path_nodes p) = end_node \<and> self_loops p = [] \<and>
        (\<forall>k. walk (set (edges g)) {} start k end_node \<longrightarrow> length (path_labels p) \<le> k)"
  using assms
proof (induction g end_node visited wl rule: shortest_path_loop.induct)
  case (1 g e vis)
  then show ?case by (auto simp: bfs_inv_def)
next
  case (2 g e vis n p wl)
  show ?case
  proof (cases "n \<in> set vis")
    case True
    then have "bfs_inv (set (edges g)) start (set vis) wl"
      using bfs_inv_skip[OF "2.prems"(1)] by blast
    then show ?thesis using "2.IH"(1)[OF True _ "2.prems"(2)] True by simp
  next
    case False
    show ?thesis
    proof (cases "n = e")
      case True
      have "length (path_labels p) \<le> k" if "walk (set (edges g)) {} start k e" for k
        using bfs_inv_head[OF "2.prems"(1) that "2.prems"(2)] by simp
      then show ?thesis
        using False True "2.prems"(1) by (auto simp: bfs_inv_def)
    next
      case ne: False
      let ?es = "filter (\<lambda>(tgt, lbl). tgt \<notin> set (sset_insert n vis)) (edges_from g n)"
      have "bfs_inv (set (edges g)) start (set (sset_insert n vis)) (wl @ map (\<lambda>(tgt, lbl). (tgt,
          \<lparr>path_nodes = path_nodes p @ [tgt], path_labels = path_labels p @ [lbl], self_loops = []\<rparr>)) ?es)"
        unfolding set_sset_insert by (rule bfs_inv_visit[OF "2.prems"(1) False]) auto
      with "2.IH"(2)[OF False refl ne] "2.prems"(2) ne False show ?thesis by (simp add: Let_def)
    qed
  qed
qed

lemma shortest_path_result:
  "case shortest_path g start end_node of
     None \<Rightarrow> \<not> (\<exists>k. walk (set (edges g)) {} start k end_node)
   | Some p \<Rightarrow> valid_path (set (edges g)) (path_nodes p) (path_labels p) \<and>
       hd (path_nodes p) = start \<and> last (path_nodes p) = end_node \<and> self_loops p = [] \<and>
       (\<forall>k. walk (set (edges g)) {} start k end_node \<longrightarrow> length (path_labels p) \<le> k)"
  unfolding shortest_path_def by (rule shortest_path_loop_correct) (auto simp: bfs_inv_def)

lemma shortest_path_exists:
  assumes "(start, end_node) \<in> (step_rel (set (edges g)))\<^sup>*"
  shows "\<exists>p. shortest_path g start end_node = Some p \<and> valid_path (set (edges g)) (path_nodes p) (path_labels p) \<and>
    hd (path_nodes p) = start \<and> last (path_nodes p) = end_node"
proof -
  obtain ns ls where "valid_path (set (edges g)) ns ls" "hd ns = start" "last ns = end_node"
    using rtrancl_valid_path[OF assms] by blast
  then show ?thesis
    using shortest_path_result[of g start end_node] valid_path_walk by (fastforce split: option.splits)
qed

text \<open>
  C19: The search for a path between two nodes always ends. It returns nothing exactly if
  the second node cannot be reached from the first one; otherwise it returns a path of the
  graph from the first to the second node, with one label per edge, and no path between
  them has fewer edges.
\<close>

theorem shortest_path_correct:
  "case shortest_path g start end_node of
     None \<Rightarrow> (start, end_node) \<notin> (step_rel (set (edges g)))\<^sup>*
   | Some p \<Rightarrow> valid_path (set (edges g)) (path_nodes p) (path_labels p) \<and>
       hd (path_nodes p) = start \<and> last (path_nodes p) = end_node \<and> self_loops p = [] \<and>
       (\<nexists>ns ls. valid_path (set (edges g)) ns ls \<and> hd ns = start \<and> last ns = end_node \<and>
          length ls < length (path_labels p))"
proof -
  note * = shortest_path_result[of g start end_node]
  show ?thesis
  proof (cases "shortest_path g start end_node")
    case None
    then have "\<not> walk (set (edges g)) {} start k end_node" for k
      using * by simp
    then have "\<nexists>ns ls. valid_path (set (edges g)) ns ls \<and> hd ns = start \<and> last ns = end_node"
      using valid_path_walk by metis
    then show ?thesis
      using None rtrancl_valid_path[of start end_node "set (edges g)"] by auto
  next
    case (Some p)
    then have "length (path_labels p) \<le> length ls"
      if "valid_path (set (edges g)) ns ls" "hd ns = start" "last ns = end_node" for ns ls
      using * valid_path_walk[OF that(1)] that(2,3) by simp
    then show ?thesis
      using * Some by (auto simp: not_less)
  qed
qed

end
