(* ===== verification/Nielsen.thy ===== *)
theory Nielsen
  imports Transition_Graph "HOL-Library.While_Combinator" "HOL-Library.Multiset"
begin

text \<open>
  The construction of Nielsen graphs (\<open>nielsen_decision_procedure.cpp\<close>): trimming of
  equations, the checks for unsatisfiable equations, the rewriting rules, the search for a
  formula whose equations are all empty, and the division of a formula into independent
  parts. The main results are that each rewriting step preserves satisfiability in both
  directions with a decreasing weight, that the search decides satisfiability whenever it
  ends, and that it ends for quadratic formulae.
\<close>

section \<open>Operations\<close>

type_synonym nielsen_label = "basic_term \<times> concat"

definition get_predicate_cost :: "predicate \<Rightarrow> nat" where
  "get_predicate_cost p = length (get_left_side p) + length (get_right_side p)"

definition get_formula_cost :: "formula \<Rightarrow> nat" where
  "get_formula_cost f = sum_list (map get_predicate_cost f)"

text \<open>The first loop of \<open>trim_formula\<close> counts the common terms at the beginning.\<close>

fun common_prefix_size :: "concat \<Rightarrow> concat \<Rightarrow> nat" where
  "common_prefix_size (s # l) (t # r) = (if s \<noteq> t then 0 else Suc (common_prefix_size l r))"
| "common_prefix_size _ _ = 0"

text \<open>
  The second loop moves \<open>left\<close> and \<open>right\<close> towards the beginning while the terms there
  agree. The model keeps the ends \<open>left + 1\<close> and \<open>right + 1\<close>, so that the index -1 of an
  empty side is the end 0.
\<close>

fun trim_back :: "concat \<Rightarrow> concat \<Rightarrow> nat \<Rightarrow> nat \<Rightarrow> nat \<Rightarrow> nat \<times> nat" where
  "trim_back l r i (Suc left) (Suc right) =
     (if left > i \<and> right > i \<and> l ! left = r ! right then trim_back l r i left right
      else (Suc left, Suc right))"
| "trim_back l r i left_end right_end = (left_end, right_end)"

definition trim_pred :: "predicate \<Rightarrow> predicate" where
  "trim_pred p =
     (let l = params p ! 0; r = params p ! 1;
          i = common_prefix_size l r;
          (left_end, right_end) = trim_back l r i (length l) (length r)
      in create_equation (drop i (take left_end l)) (drop i (take right_end r)))"

definition trim_formula :: "formula \<Rightarrow> formula" where
  "trim_formula f = map trim_pred f"

definition is_pred_unsat :: "predicate \<Rightarrow> bool" where
  "is_pred_unsat p =
     (let left = get_left_side p; right = get_right_side p in
      if length left = 0 \<and> length right > 0 \<and> is_literal (right ! 0) then True
      else if length right = 0 \<and> length left > 0 \<and> is_literal (left ! 0) then True
      else if length left > 0 \<and> length right > 0 \<and> is_literal (right ! 0) \<and> is_literal (left ! 0) \<and>
              right ! 0 \<noteq> left ! 0 then True
      else if length left > 0 \<and> length right > 0 \<and> is_literal (right ! (length right - 1)) \<and>
              is_literal (left ! (length left - 1)) \<and>
              right ! (length right - 1) \<noteq> left ! (length left - 1) then True
      else False)"

definition is_pred_sat :: "predicate \<Rightarrow> bool" where
  "is_pred_sat p \<longleftrightarrow> length (get_left_side p) = 0 \<and> length (get_right_side p) = 0"

definition is_length_unsat :: "predicate \<Rightarrow> bool" where
  "is_length_unsat p =
     (let occurLeft = variable_count p Left; occurRight = variable_count p Right;
          litTerm = BasicTerm Literal [];
          allLeft = (\<forall>t \<in> pred_get_vars p. \<not> count_at occurLeft t > count_at occurRight t);
          allRight = (\<forall>t \<in> pred_get_vars p. \<not> count_at occurLeft t < count_at occurRight t)
      in if allLeft \<and> count_at occurLeft litTerm < count_at occurRight litTerm then True
         else if allRight \<and> count_at occurRight litTerm < count_at occurLeft litTerm then True
         else False)"

definition get_rules_from_pred :: "predicate \<Rightarrow> nielsen_label list" where
  "get_rules_from_pred p =
     (let left = get_left_side p; right = get_right_side p;
          ret = [];
          ret = (if length left > 0 \<and> is_variable (left ! 0) \<and> length right > 0
                 then sset_insert (left ! 0, [right ! 0, left ! 0]) ret else ret);
          ret = (if length right > 0 \<and> is_variable (right ! 0) \<and> length left > 0
                 then sset_insert (right ! 0, [left ! 0, right ! 0]) ret else ret);
          ret = (if length left > 0 \<and> is_variable (left ! 0)
                 then sset_insert (left ! 0, []) ret else ret);
          ret = (if length right > 0 \<and> is_variable (right ! 0)
                 then sset_insert (right ! 0, []) ret else ret)
      in ret)"

text \<open>The loop over \<open>index\<close> stops at the first predicate with a non-empty side.\<close>

function skip_sat :: "formula \<Rightarrow> nat \<Rightarrow> nat" where
  "skip_sat f index =
     (if index < length f \<and> is_pred_sat (f ! index) then skip_sat f (Suc index) else index)"
  by pat_completeness auto
termination
  by (relation "measure (\<lambda>(f, i). length f - i)") auto

declare skip_sat.simps [simp del]

text \<open>
  The state of \<open>generate_from_formula\<close>. The priority queue is the list of its elements and
  a function \<open>sel\<close> that tells the position of the element that \<open>top()\<close> returns and
  \<open>pop()\<close> removes: the standard promises an element of minimal cost and leaves open which.
\<close>

record gen_state =
  worklist :: "(nat \<times> formula) list"
  generated :: "formula list"
  graph :: "nielsen_label tgraph"
  is_sat :: bool
  returned :: bool

definition queue_top :: "((nat \<times> formula) list \<Rightarrow> nat) \<Rightarrow> bool" where
  "queue_top sel \<longleftrightarrow> (\<forall>wl. wl \<noteq> [] \<longrightarrow> sel wl < length wl \<and>
     (\<forall>e \<in> set wl. get_formula_cost (snd (wl ! sel wl)) \<le> get_formula_cost (snd e)))"

definition queue_pop :: "((nat \<times> formula) list \<Rightarrow> nat) \<Rightarrow> (nat \<times> formula) list \<Rightarrow> (nat \<times> formula) list" where
  "queue_pop sel wl = take (sel wl) wl @ drop (Suc (sel wl)) wl"

definition apply_rule :: "formula \<Rightarrow> nielsen_label \<Rightarrow> formula" where
  "apply_rule f lab = trim_formula (projr (formula_replace f [fst lab] (snd lab)))"

definition expand_rule :: "bool \<Rightarrow> nat \<Rightarrow> formula \<Rightarrow> nielsen_label \<Rightarrow> gen_state \<Rightarrow> gen_state" where
  "expand_rule add_edges index f lab s =
     (let rpl = apply_rule f lab;
          s = (if add_edges then s\<lparr>graph := add_edge f rpl lab (graph s)\<rparr> else s)
      in if rpl \<notin> set (generated s) then s\<lparr>worklist := worklist s @ [(index, rpl)]\<rparr> else s)"

definition gen_step ::
  "((nat \<times> formula) list \<Rightarrow> nat) \<Rightarrow> bool \<Rightarrow> bool \<Rightarrow> gen_state \<Rightarrow> gen_state"
where
  "gen_step sel early_termination add_edges s =
     (let (index, f) = worklist s ! sel (worklist s);
          s = s\<lparr>worklist := queue_pop sel (worklist s)\<rparr>
      in if f \<in> set (generated s) then s
      else let s = s\<lparr>generated := sset_insert f (generated s)\<rparr>
      in if is_pred_unsat (f ! index) \<or> is_length_unsat (f ! index) then s
      else let index = skip_sat f index
      in if index \<ge> length f then
           s\<lparr>is_sat := True, graph := add_fin f (graph s), returned := early_termination\<rparr>
         else fold (expand_rule add_edges index f) (get_rules_from_pred (f ! index)) s)"

definition gen_start :: "formula \<Rightarrow> gen_state" where
  "gen_start init_f =
     \<lparr>worklist = [(0, trim_formula init_f)], generated = [],
      graph = set_init init_f empty_graph, is_sat = False, returned = False\<rparr>"

definition generate_from_formula ::
  "((nat \<times> formula) list \<Rightarrow> nat) \<Rightarrow> formula \<Rightarrow> bool \<Rightarrow> bool \<Rightarrow> (nielsen_label tgraph \<times> bool) option"
where
  "generate_from_formula sel init_f early_termination add_edges =
     map_option (\<lambda>s. (graph s, is_sat s))
       (while_option (\<lambda>s. worklist s \<noteq> [] \<and> \<not> returned s)
          (gen_step sel early_termination add_edges) (gen_start init_f))"

text \<open>
  \<open>divide_independent_formula\<close>: a predicate that shares no variable with another one is a
  part of its own; the rest is the last part.
\<close>

definition independent_pred :: "formula \<Rightarrow> nat \<Rightarrow> bool" where
  "independent_pred preds i \<longleftrightarrow>
     (\<forall>j \<in> set [0..<length preds]. i \<noteq> j \<longrightarrow> pred_get_vars (preds ! i) \<inter> pred_get_vars (preds ! j) = {})"

definition divide_independent_formula :: "formula \<Rightarrow> formula list" where
  "divide_independent_formula preds =
     (let rem_ind = filter (independent_pred preds) [0..<length preds];
          diff = filter (\<lambda>i. \<not> independent_pred preds i) [0..<length preds];
          ret = map (\<lambda>i. [preds ! i]) rem_ind
      in if length diff > 0 then ret @ [map (\<lambda>i. preds ! i) diff] else ret)"

section \<open>Formulae of the procedure\<close>

text \<open>
  The procedure works on equations over variables and one-symbol literals: this is what
  the constructor and \<open>preprocess\<close> (\<open>split_literals\<close>) establish.
\<close>

definition nielsen_term :: "basic_term \<Rightarrow> bool" where
  "nielsen_term t \<longleftrightarrow> is_variable t \<or> (is_literal t \<and> length (get_name t) = 1)"

definition nielsen_pred :: "predicate \<Rightarrow> bool" where
  "nielsen_pred p \<longleftrightarrow> wf_pred p \<and> is_equation p \<and>
     (\<forall>t \<in> set (get_left_side p) \<union> set (get_right_side p). nielsen_term t)"

definition nielsen_formula :: "formula \<Rightarrow> bool" where
  "nielsen_formula f \<longleftrightarrow> (\<forall>p \<in> set f. nielsen_pred p)"

lemma nielsen_pred_eq: "nielsen_pred p \<Longrightarrow> p = create_equation (get_left_side p) (get_right_side p)"
  by (simp add: nielsen_pred_def wf_equation_eq)

lemma nielsen_pred_create [simp]:
  "nielsen_pred (create_equation l r) \<longleftrightarrow> (\<forall>t \<in> set l \<union> set r. nielsen_term t)"
  by (simp add: nielsen_pred_def)

lemma nielsen_pred_sat: "nielsen_pred p \<Longrightarrow>
  sat_pred R \<sigma> p \<longleftrightarrow> eval_concat \<sigma> (get_left_side p) = eval_concat \<sigma> (get_right_side p)"
  by (simp add: nielsen_pred_def sat_pred_equation)

section \<open>Trimming\<close>

lemma common_prefix_size_le:
  "common_prefix_size l r \<le> length l" "common_prefix_size l r \<le> length r"
  by (induction l r rule: common_prefix_size.induct) auto

lemma common_prefix_size_take:
  "take (common_prefix_size l r) l = take (common_prefix_size l r) r"
  by (induction l r rule: common_prefix_size.induct) auto

lemma common_prefix_size_max:
  "drop (common_prefix_size l r) l = s # l' \<Longrightarrow> drop (common_prefix_size l r) r = t # r' \<Longrightarrow> s \<noteq> t"
  by (induction l r rule: common_prefix_size.induct) (auto split: if_splits)

lemma trim_back_correct:
  assumes "trim_back l r i a b = (a', b')" and "a \<le> length l" and "b \<le> length r"
  shows "a' \<le> a \<and> b' \<le> b \<and> (i \<le> a \<longrightarrow> i \<le> a') \<and> (i \<le> b \<longrightarrow> i \<le> b') \<and>
    (i < a \<and> i < b \<longrightarrow> i < a' \<and> i < b') \<and> (\<not> (i < a \<and> i < b) \<longrightarrow> a' = a \<and> b' = b) \<and>
    drop a' (take a l) = drop b' (take b r)"
  using assms
proof (induction l r i a b rule: trim_back.induct)
  case (1 l r i left right)
  show ?case
  proof (cases "left > i \<and> right > i \<and> l ! left = r ! right")
    case True
    then have "trim_back l r i left right = (a', b')" using "1.prems"(1) by simp
    with True "1.prems" "1.IH" have IH: "a' \<le> left" "b' \<le> right" "i < a'" "i < b'"
      "drop a' (take left l) = drop b' (take right r)" by auto
    have "take (Suc left) l = take left l @ [l ! left]" "take (Suc right) r = take right r @ [r ! right]"
      using "1.prems" by (simp_all add: take_Suc_conv_app_nth)
    with IH True "1.prems" show ?thesis by (simp add: drop_append)
  next
    case False
    then show ?thesis using "1.prems" by auto
  qed
qed auto

text \<open>
  What trimming does to the sides of an equation: it removes a common beginning and a
  common end, and the remaining sides do not begin with the same term.
\<close>

lemma trim_pred_split:
  obtains u v l r where "params p ! 0 = u @ l @ v" "params p ! 1 = u @ r @ v"
    "trim_pred p = create_equation l r" "l = [] \<or> r = [] \<or> hd l \<noteq> hd r"
    "\<forall>y l' r'. params p ! 0 = y # l' \<and> params p ! 1 = y # r' \<longrightarrow> (\<exists>u'. u = y # u')"
proof -
  let ?l = "params p ! 0" and ?r = "params p ! 1"
  let ?i = "common_prefix_size ?l ?r"
  obtain a b where ab: "trim_back ?l ?r ?i (length ?l) (length ?r) = (a, b)"
    by (cases "trim_back ?l ?r ?i (length ?l) (length ?r)")
  note le = common_prefix_size_le[of ?l ?r]
  from trim_back_correct[OF ab] le have b: "?i \<le> a" "?i \<le> b" "drop a ?l = drop b ?r"
    "?i < length ?l \<and> ?i < length ?r \<Longrightarrow> ?i < a \<and> ?i < b"
    "\<not> (?i < length ?l \<and> ?i < length ?r) \<Longrightarrow> a = length ?l \<and> b = length ?r"
    by auto
  have split: "xs = take i xs @ drop i (take k xs) @ drop k xs" if "i \<le> k" for i k and xs :: concat
    using that by (metis append.assoc append_take_drop_id min.absorb1 take_take)
  have ne: "drop ?i (take a ?l) = [] \<or> drop ?i (take b ?r) = [] \<or>
      hd (drop ?i (take a ?l)) \<noteq> hd (drop ?i (take b ?r))"
  proof (cases "drop ?i (take a ?l) = [] \<or> drop ?i (take b ?r) = []")
    case False
    then have "hd (drop ?i (take a ?l)) = hd (drop ?i ?l)" "hd (drop ?i (take b ?r)) = hd (drop ?i ?r)"
      "drop ?i ?l \<noteq> []" "drop ?i ?r \<noteq> []"
      by (auto simp: drop_take hd_take)
    then show ?thesis
      using common_prefix_size_max[of ?l ?r] by (metis list.collapse)
  qed blast
  show ?thesis
  proof (rule that)
    show "?l = take ?i ?l @ drop ?i (take a ?l) @ drop a ?l" by (rule split[OF b(1)])
    show "?r = take ?i ?l @ drop ?i (take b ?r) @ drop a ?l"
      using split[OF b(2), of ?r] b(3) common_prefix_size_take[of ?l ?r] by simp
    show "trim_pred p = create_equation (drop ?i (take a ?l)) (drop ?i (take b ?r))"
      by (simp only: trim_pred_def Let_def ab prod.case)
    show "\<forall>y l' r'. ?l = y # l' \<and> ?r = y # r' \<longrightarrow> (\<exists>u'. take ?i ?l = y # u')"
      by (metis common_prefix_size.simps(1) take_Suc_Cons)
  qed (rule ne)
qed

definition trimmed_pred :: "predicate \<Rightarrow> bool" where
  "trimmed_pred p \<longleftrightarrow>
     get_left_side p = [] \<or> get_right_side p = [] \<or> hd (get_left_side p) \<noteq> hd (get_right_side p)"

lemma trimmed_trim_pred [simp]: "trimmed_pred (trim_pred p)"
  by (rule trim_pred_split[of p]) (auto simp: trimmed_pred_def)

lemma nielsen_trim_pred [simp]: "nielsen_pred p \<Longrightarrow> nielsen_pred (trim_pred p)"
  by (rule trim_pred_split[of p]) (auto simp: nielsen_pred_def side_defs)

lemma sat_trim_pred: "is_equation p \<Longrightarrow> sat_pred R \<sigma> (trim_pred p) = sat_pred R \<sigma> p"
  by (rule trim_pred_split[of p]) (simp add: sat_pred_equation side_defs)

lemma vars_trim_pred: "wf_pred p \<Longrightarrow> pred_get_vars (trim_pred p) \<subseteq> pred_get_vars p"
proof (rule trim_pred_split[of p])
  fix u v l r
  assume "wf_pred p" and "params p ! 0 = u @ l @ v" and "params p ! 1 = u @ r @ v"
    and "trim_pred p = create_equation l r"
  then show ?thesis
    by (auto simp: pred_get_vars_wf) (auto simp: side_defs)
qed

lemma nielsen_trim_formula [simp]: "nielsen_formula f \<Longrightarrow> nielsen_formula (trim_formula f)"
  by (simp add: nielsen_formula_def trim_formula_def)

lemma sat_trim_formula: "nielsen_formula f \<Longrightarrow> sat_formula R \<sigma> (trim_formula f) = sat_formula R \<sigma> f"
  by (auto simp: nielsen_formula_def trim_formula_def sat_formula_def nielsen_pred_def sat_trim_pred)

text \<open>
  C22: Trimming keeps the solutions of every formula of equations, removes no more than
  common beginnings and ends, and leaves no equation whose sides begin with the same term.
\<close>

theorem trim_formula_correct:
  assumes "\<forall>p \<in> set f. wf_pred p \<and> is_equation p"
  shows "sat_formula R \<sigma> (trim_formula f) = sat_formula R \<sigma> f \<and>
    length (trim_formula f) = length f \<and>
    (\<forall>i < length f. \<exists>u v l r. f ! i = create_equation (u @ l @ v) (u @ r @ v) \<and>
       trim_formula f ! i = create_equation l r \<and> (l = [] \<or> r = [] \<or> hd l \<noteq> hd r))"
proof (intro conjI allI impI)
  show "sat_formula R \<sigma> (trim_formula f) = sat_formula R \<sigma> f"
    using assms by (auto simp: trim_formula_def sat_formula_def sat_trim_pred)
  fix i assume i: "i < length f"
  then have eq: "f ! i = create_equation (params (f ! i) ! 0) (params (f ! i) ! 1)"
    using assms wf_equation_eq[of "f ! i"] by (simp add: side_defs)
  have tr: "trim_formula f ! i = trim_pred (f ! i)"
    using i by (simp add: trim_formula_def)
  obtain u v l r where "params (f ! i) ! 0 = u @ l @ v" "params (f ! i) ! 1 = u @ r @ v"
    "trim_pred (f ! i) = create_equation l r" "l = [] \<or> r = [] \<or> hd l \<noteq> hd r"
    by (rule trim_pred_split[of "f ! i"])
  then show "\<exists>u v l r. f ! i = create_equation (u @ l @ v) (u @ r @ v) \<and>
      trim_formula f ! i = create_equation l r \<and> (l = [] \<or> r = [] \<or> hd l \<noteq> hd r)"
    using eq tr by (intro exI[of _ u] exI[of _ v] exI[of _ l] exI[of _ r]) metis
qed (simp add: trim_formula_def)

theorem trim_formula_correct_witness:
  "let a = BasicTerm Literal [97]; x = BasicTerm Variable [120];
       f = [create_equation [a, x, a] [a, a]]
   in trim_formula f = [create_equation [x, a] [a]] \<and>
      sat_formula (\<lambda>_. {}) (\<lambda>_. []) (trim_formula f) = sat_formula (\<lambda>_. {}) (\<lambda>_. []) f"
proof -
  let ?f = "[create_equation [BasicTerm Literal [97], BasicTerm Variable [120], BasicTerm Literal [97]]
    [BasicTerm Literal [97], BasicTerm Literal [97]]]"
  have "\<forall>p \<in> set ?f. wf_pred p \<and> is_equation p" by simp
  from trim_formula_correct[OF this, of "\<lambda>_. {}" "\<lambda>_. []"] show ?thesis
    by (simp add: Let_def trim_formula_def trim_pred_def)
qed

section \<open>The checks for unsatisfiable equations\<close>

lemma eval_nielsen_literal:
  "nielsen_term t \<Longrightarrow> is_literal t \<Longrightarrow> \<exists>c. eval_term \<sigma> t = [c] \<and> t = BasicTerm Literal [c]"
  by (cases t) (auto simp: nielsen_term_def eval_term_def term_kind_defs length_Suc_conv)

lemma eval_concat_snoc: "c \<noteq> [] \<Longrightarrow> eval_concat \<sigma> c = eval_concat \<sigma> (butlast c) @ eval_term \<sigma> (last c)"
  by (metis append_Nil2 append_butlast_last_id eval_concat_simps)

lemma is_pred_unsat_sound:
  assumes "nielsen_pred p" and "is_pred_unsat p"
  shows "\<not> sat_pred R \<sigma> p"
proof
  assume "sat_pred R \<sigma> p"
  then have eq: "eval_concat \<sigma> (get_left_side p) = eval_concat \<sigma> (get_right_side p)"
    using assms(1) by (simp add: nielsen_pred_sat)
  let ?l = "get_left_side p" and ?r = "get_right_side p"
  have nt: "t \<in> set ?l \<union> set ?r \<Longrightarrow> nielsen_term t" for t
    using assms(1) by (auto simp: nielsen_pred_def)
  consider "?l = []" "?r \<noteq> []" "is_literal (hd ?r)" | "?r = []" "?l \<noteq> []" "is_literal (hd ?l)"
    | "?l \<noteq> []" "?r \<noteq> []" "is_literal (hd ?l)" "is_literal (hd ?r)" "hd ?l \<noteq> hd ?r"
    | "?l \<noteq> []" "?r \<noteq> []" "is_literal (last ?l)" "is_literal (last ?r)" "last ?l \<noteq> last ?r"
    using assms(2)
    by (auto simp: is_pred_unsat_def Let_def hd_conv_nth last_conv_nth split: if_splits)
  then show False
  proof cases
    case 1
    then show ?thesis
      using eq nt[of "hd ?r"] eval_nielsen_literal[of "hd ?r" \<sigma>] by (cases ?r) auto
  next
    case 2
    then show ?thesis
      using eq nt[of "hd ?l"] eval_nielsen_literal[of "hd ?l" \<sigma>] by (cases ?l) auto
  next
    case 3
    then show ?thesis
      using eq nt[of "hd ?l"] nt[of "hd ?r"] eval_nielsen_literal[of "hd ?l" \<sigma>]
        eval_nielsen_literal[of "hd ?r" \<sigma>] by (cases ?l; cases ?r) auto
  next
    case 4
    then obtain c d where "eval_term \<sigma> (last ?l) = [c]" "eval_term \<sigma> (last ?r) = [d]" "c \<noteq> d"
      using nt[of "last ?l"] nt[of "last ?r"] eval_nielsen_literal[of "last ?l" \<sigma>]
        eval_nielsen_literal[of "last ?r" \<sigma>] by auto
    then show ?thesis
      using eq eval_concat_snoc[OF 4(1)] eval_concat_snoc[OF 4(2)] by simp
  qed
qed

text \<open>The length of a side is the length of its literals and the lengths of its variables.\<close>

lemma length_eval_concat:
  assumes "\<forall>t \<in> set c. is_variable t \<or> is_literal t" and "set (filter is_variable c) \<subseteq> X" and "finite X"
  shows "length (eval_concat \<sigma> c) = (\<Sum>x\<in>X. count_list c x * length (\<sigma> x) * of_bool (is_variable x)) +
    sum_list (map (\<lambda>b. length (get_name b)) (filter (\<lambda>b. \<not> is_variable b) c))"
proof -
  have "length (eval_concat \<sigma> c) = sum_list (map (\<lambda>x. length (\<sigma> x)) (filter is_variable c)) +
      sum_list (map (\<lambda>b. length (get_name b)) (filter (\<lambda>b. \<not> is_variable b) c))"
    using assms(1) by (induction c) (auto simp: eval_term_def variable_not_literal)
  also have "sum_list (map (\<lambda>x. length (\<sigma> x)) (filter is_variable c)) =
      (\<Sum>x\<in>X. count_list (filter is_variable c) x * length (\<sigma> x))"
    using assms(2,3) by (simp add: sum_list_map_eq_sum_count2)
  also have "\<dots> = (\<Sum>x\<in>X. count_list c x * length (\<sigma> x) * of_bool (is_variable x))"
    by (rule sum.cong) (auto simp: count_list_filter count_list_filter_not)
  finally show ?thesis .
qed

lemma is_length_unsat_sound:
  assumes "nielsen_pred p" and "is_length_unsat p"
  shows "\<not> sat_pred R \<sigma> p"
proof
  assume "sat_pred R \<sigma> p"
  let ?l = "get_left_side p" and ?r = "get_right_side p"
  let ?lit = "\<lambda>c. sum_list (map (\<lambda>b. length (get_name b)) (filter (\<lambda>b. \<not> is_variable b) c))"
  let ?X = "pred_get_vars p"
  let ?w = "\<lambda>c. \<Sum>x\<in>?X. count_list c x * length (\<sigma> x) * of_bool (is_variable x)"
  have X: "finite ?X" "set (filter is_variable ?l) \<subseteq> ?X" "set (filter is_variable ?r) \<subseteq> ?X"
    using assms(1) by (auto simp: nielsen_pred_def pred_get_vars_wf)
  have nt: "\<forall>t \<in> set ?l. is_variable t \<or> is_literal t" "\<forall>t \<in> set ?r. is_variable t \<or> is_literal t"
    using assms(1) by (auto simp: nielsen_pred_def nielsen_term_def)
  have eq: "?w ?l + ?lit ?l = ?w ?r + ?lit ?r"
    using \<open>sat_pred R \<sigma> p\<close> assms(1) nielsen_pred_sat[OF assms(1)]
      length_eval_concat[OF nt(1) X(2,1), of \<sigma>] length_eval_concat[OF nt(2) X(3,1), of \<sigma>] by simp
  have side: "get_side p Left = ?l" "get_side p Right = ?r"
    by (simp_all add: get_side_def side_defs)
  have var: "x \<in> ?X \<Longrightarrow> is_variable x" for x
    by (auto simp: pred_get_vars_def)
  consider "\<forall>t \<in> ?X. count_list ?l t \<le> count_list ?r t" "?lit ?l < ?lit ?r"
    | "\<forall>t \<in> ?X. count_list ?r t \<le> count_list ?l t" "?lit ?r < ?lit ?l"
    using assms(2) var by (auto simp: is_length_unsat_def Let_def count_at_variable_count
        count_at_variable_count_lit side not_less split: if_splits)
  then show False
  proof cases
    case 1
    then have "?w ?l \<le> ?w ?r" by (intro sum_mono mult_right_mono) auto
    then show ?thesis using eq 1(2) by linarith
  next
    case 2
    then have "?w ?r \<le> ?w ?l" by (intro sum_mono mult_right_mono) auto
    then show ?thesis using eq 2(2) by linarith
  qed
qed

text \<open>
  An equation over variables and one-symbol literals that one of the two checks rejects
  has no solution.
\<close>

theorem unsat_checks_sound:
  assumes "nielsen_pred p" and "is_pred_unsat p \<or> is_length_unsat p"
  shows "\<not> sat_pred R \<sigma> p"
  using assms is_pred_unsat_sound is_length_unsat_sound by blast

theorem unsat_checks_sound_witness:
  "let a = BasicTerm Literal [97]; x = BasicTerm Variable [120]
   in \<not> is_pred_unsat (create_equation [x, a] [a, a, x]) \<and>
      \<not> sat_pred (\<lambda>_. {}) (\<lambda>_. [97]) (create_equation [x, a] [a, a, x])"
proof -
  let ?p = "create_equation [BasicTerm Variable [120], BasicTerm Literal [97]]
    [BasicTerm Literal [97], BasicTerm Literal [97], BasicTerm Variable [120]]"
  have "nielsen_pred ?p" by (simp add: nielsen_term_def)
  moreover have "is_length_unsat ?p"
    by (simp add: is_length_unsat_def variable_count_def get_side_def pred_get_vars_def
        map_increment_def count_at_def Let_def)
  ultimately show ?thesis
    using unsat_checks_sound[of ?p "\<lambda>_. {}" "\<lambda>_. [97]"]
    by (simp add: is_pred_unsat_def Let_def)
qed

section \<open>Rewriting systems\<close>

text \<open>
  The contract between a search and the rewriting system it explores: a step may be undone
  on solutions, and a solution of a node that is not final leads to a lighter solution of
  some successor. Everything the search concludes from its answer follows from it.
\<close>

inductive steps :: "('n \<Rightarrow> 'l \<Rightarrow> 'n \<Rightarrow> bool) \<Rightarrow> 'n \<Rightarrow> 'l list \<Rightarrow> 'n \<Rightarrow> bool" for step where
  steps_Nil: "steps step n [] n"
| steps_Cons: "step n l k \<Longrightarrow> steps step k ls m \<Longrightarrow> steps step n (l # ls) m"

inductive_cases steps_NilE: "steps step n [] m"
inductive_cases steps_ConsE: "steps step n (l # ls) m"

lemma steps_snoc: "steps step n ls k \<Longrightarrow> step k l m \<Longrightarrow> steps step n (ls @ [l]) m"
  by (induction rule: steps.induct) (auto intro: steps.intros)

locale rewriting_system =
  fixes step :: "'n \<Rightarrow> 'l \<Rightarrow> 'n \<Rightarrow> bool"
    and final :: "'n \<Rightarrow> bool"
    and ok :: "'n \<Rightarrow> bool"
    and sol :: "'a \<Rightarrow> 'n \<Rightarrow> bool"
    and undo :: "'l \<Rightarrow> 'a \<Rightarrow> 'a"
    and weight :: "'a \<Rightarrow> 'n \<Rightarrow> nat"
  assumes ok_step: "ok n \<Longrightarrow> step n l m \<Longrightarrow> ok m"
    and final_sol: "ok n \<Longrightarrow> final n \<Longrightarrow> sol a n"
    and step_sound: "ok n \<Longrightarrow> step n l m \<Longrightarrow> sol a m \<Longrightarrow> sol (undo l a) n"
    and step_complete: "ok n \<Longrightarrow> \<not> final n \<Longrightarrow> sol a n \<Longrightarrow>
      \<exists>l m b. step n l m \<and> sol b m \<and> weight b m < weight a n"
begin

lemma ok_steps: "steps step n ls m \<Longrightarrow> ok n \<Longrightarrow> ok m"
  by (induction rule: steps.induct) (auto intro: ok_step)

lemma steps_sound: "steps step n ls m \<Longrightarrow> ok n \<Longrightarrow> sol a m \<Longrightarrow> sol (foldr undo ls a) n"
  by (induction rule: steps.induct) (auto intro: ok_step step_sound)

lemma final_reached_sol: "steps step n ls m \<Longrightarrow> ok n \<Longrightarrow> final m \<Longrightarrow> sol (foldr undo ls a) n"
  by (blast intro: steps_sound final_sol ok_steps)

lemma sol_reaches_final: "ok n \<Longrightarrow> sol a n \<Longrightarrow> \<exists>ls m. steps step n ls m \<and> final m"
proof (induction "weight a n" arbitrary: n a rule: less_induct)
  case less
  show ?case
  proof (cases "final n")
    case True
    then show ?thesis by (blast intro: steps_Nil)
  next
    case False
    then obtain l m b where m: "step n l m" "sol b m" "weight b m < weight a n"
      using step_complete[OF less.prems(1) False less.prems(2)] by blast
    then obtain ls k where "steps step m ls k" "final k"
      using less.hyps ok_step less.prems(1) by blast
    then show ?thesis using m(1) by (blast intro: steps_Cons)
  qed
qed

theorem satisfiable_iff_reaches_final:
  "ok n \<Longrightarrow> (\<exists>a. sol a n) \<longleftrightarrow> (\<exists>ls m. steps step n ls m \<and> final m)"
  using sol_reaches_final final_reached_sol by blast

text \<open>A set of nodes that is closed under the steps of its satisfiable nodes has a final node.\<close>

lemma closed_has_final:
  assumes "\<And>n l m a. n \<in> X \<Longrightarrow> \<not> final n \<Longrightarrow> sol a n \<Longrightarrow> step n l m \<Longrightarrow> m \<in> X"
    and "\<And>n. n \<in> X \<Longrightarrow> ok n" and "n \<in> X" and "sol a n"
  shows "\<exists>m \<in> X. final m"
  using assms(3,4)
proof (induction "weight a n" arbitrary: n a rule: less_induct)
  case less
  show ?case
  proof (cases "final n")
    case True
    then show ?thesis using less.prems by blast
  next
    case False
    then show ?thesis
      using step_complete[OF assms(2)[OF less.prems(1)] False less.prems(2)] less.hyps
        assms(1)[OF less.prems(1) False less.prems(2)] by blast
  qed
qed

end

section \<open>Nielsen steps\<close>

inductive nielsen_step :: "formula \<Rightarrow> nielsen_label \<Rightarrow> formula \<Rightarrow> bool" where
  nielsen_stepI: "skip_sat f 0 < length f \<Longrightarrow> lab \<in> set (get_rules_from_pred (f ! skip_sat f 0)) \<Longrightarrow>
    nielsen_step f lab (apply_rule f lab)"

inductive_cases nielsen_stepE: "nielsen_step f lab g"
inductive_simps nielsen_step_iff: "nielsen_step f lab g"

definition final_formula :: "formula \<Rightarrow> bool" where
  "final_formula f \<longleftrightarrow> (\<forall>p \<in> set f. is_pred_sat p)"

definition node_ok :: "formula \<Rightarrow> bool" where
  "node_ok f \<longleftrightarrow> nielsen_formula f \<and> (\<forall>p \<in> set f. trimmed_pred p)"

definition undo_rule :: "nielsen_label \<Rightarrow> assignment \<Rightarrow> assignment" where
  "undo_rule lab \<sigma> = \<sigma>(fst lab := eval_concat \<sigma> (snd lab))"

definition formula_weight :: "assignment \<Rightarrow> formula \<Rightarrow> nat" where
  "formula_weight \<sigma> f = (\<Sum>x \<in> formula_get_vars f. Suc (length (\<sigma> x)))"

lemma skip_sat_step:
  "i < length f \<Longrightarrow> is_pred_sat (f ! i) \<Longrightarrow> skip_sat f i = skip_sat f (Suc i)"
  "\<not> (i < length f \<and> is_pred_sat (f ! i)) \<Longrightarrow> skip_sat f i = i"
  by (simp_all only: skip_sat.simps[of f i] simp_thms if_True if_False)

lemma skip_sat_ge: "i \<le> skip_sat f i"
proof (induction f i rule: skip_sat.induct)
  case (1 f i)
  show ?case
    by (cases "i < length f \<and> is_pred_sat (f ! i)") (use 1 skip_sat_step[of i f] in auto)
qed

lemma skip_sat_below: "i \<le> j \<Longrightarrow> j < skip_sat f i \<Longrightarrow> j < length f \<and> is_pred_sat (f ! j)"
proof (induction f i rule: skip_sat.induct)
  case (1 f i)
  show ?case
  proof (cases "i < length f \<and> is_pred_sat (f ! i)")
    case True
    then show ?thesis
      using 1 skip_sat_step(1)[of i f] by (metis Suc_leI le_neq_implies_less)
  next
    case False
    then show ?thesis using 1(2,3) skip_sat_step(2)[OF False] by simp
  qed
qed

lemma skip_sat_open: "skip_sat f i < length f \<Longrightarrow> \<not> is_pred_sat (f ! skip_sat f i)"
proof (induction f i rule: skip_sat.induct)
  case (1 f i)
  show ?case
  proof (cases "i < length f \<and> is_pred_sat (f ! i)")
    case True
    then show ?thesis using 1 skip_sat_step(1)[of i f] by simp
  next
    case False
    then show ?thesis using 1(2) skip_sat_step(2)[OF False] by simp
  qed
qed

lemmas skip_sat_props = skip_sat_ge skip_sat_below skip_sat_open

lemma skip_sat_start:
  assumes "\<forall>j < i. is_pred_sat (f ! j)" and "i \<le> length f"
  shows "skip_sat f i = skip_sat f 0"
  using assms
proof (induction i)
  case (Suc i)
  then show ?case using skip_sat_step(1)[of i f] by simp
qed simp

lemma skip_sat_final: "length f \<le> skip_sat f 0 \<longleftrightarrow> final_formula f"
proof
  assume le: "length f \<le> skip_sat f 0"
  show "final_formula f"
    unfolding final_formula_def
  proof
    fix p assume "p \<in> set f"
    then obtain j where "j < length f" "p = f ! j" by (auto simp: in_set_conv_nth)
    with le skip_sat_props(2)[of 0 j f] show "is_pred_sat p" by simp
  qed
next
  assume "final_formula f"
  then show "length f \<le> skip_sat f 0"
    using skip_sat_props(3)[of f 0] by (force simp: final_formula_def not_less[symmetric])
qed

lemma set_if_sset_insert:
  "set (if b then sset_insert a xs else xs) = (if b then insert a (set xs) else set xs)"
  by simp

lemma set_rules:
  fixes p defines "l \<equiv> get_left_side p" and "r \<equiv> get_right_side p"
  shows "set (get_rules_from_pred p) =
    (if l \<noteq> [] \<and> is_variable (l ! 0) \<and> r \<noteq> [] then {(l ! 0, [r ! 0, l ! 0])} else {}) \<union>
    (if r \<noteq> [] \<and> is_variable (r ! 0) \<and> l \<noteq> [] then {(r ! 0, [l ! 0, r ! 0])} else {}) \<union>
    (if l \<noteq> [] \<and> is_variable (l ! 0) then {(l ! 0, [])} else {}) \<union>
    (if r \<noteq> [] \<and> is_variable (r ! 0) then {(r ! 0, [])} else {})"
  unfolding get_rules_from_pred_def Let_def l_def r_def set_if_sset_insert by simp

lemma rules_iff:
  "(x, c) \<in> set (get_rules_from_pred p) \<longleftrightarrow> is_variable x \<and>
     ((\<exists>l. get_left_side p = x # l \<and> (c = [] \<or> (\<exists>y r. get_right_side p = y # r \<and> c = [y, x]))) \<or>
      (\<exists>r. get_right_side p = x # r \<and> (c = [] \<or> (\<exists>y l. get_left_side p = y # l \<and> c = [y, x]))))"
  by (cases "get_left_side p"; cases "get_right_side p") (auto simp: set_rules)

lemma apply_rule_eq: "apply_rule f (x, c) = map (\<lambda>p. trim_pred (subst_pred x c p)) f"
  by (simp add: apply_rule_def formula_replace_single trim_formula_def)

lemma subst_sides [simp]:
  "wf_pred p \<Longrightarrow> get_left_side (subst_pred x c p) = subst_concat x c (get_left_side p)"
  "wf_pred p \<Longrightarrow> get_right_side (subst_pred x c p) = subst_concat x c (get_right_side p)"
  by (auto simp: wf_pred_def side_defs)

lemma set_subst_concat: "set (subst_concat x c d) \<subseteq> set d \<union> set c"
  by (auto simp: subst_concat_def)

lemma set_subst_concat_Nil: "set (subst_concat x [] d) = set d - {x}"
  by (auto simp: subst_concat_def)

lemma nielsen_subst_pred:
  assumes "nielsen_pred p" and "\<forall>t \<in> set c. nielsen_term t"
  shows "nielsen_pred (subst_pred x c p)"
  using assms set_subst_concat[of x c "get_left_side p"] set_subst_concat[of x c "get_right_side p"]
  by (auto simp: nielsen_pred_def is_equation_def)

lemma rule_terms:
  assumes "(x, c) \<in> set (get_rules_from_pred p)"
  shows "is_variable x" "set c \<subseteq> set (get_left_side p) \<union> set (get_right_side p)"
    "x \<in> set (get_left_side p) \<union> set (get_right_side p)"
  using assms by (auto simp: rules_iff)

lemma node_ok_step: "node_ok f \<Longrightarrow> nielsen_step f lab g \<Longrightarrow> node_ok g"
proof (erule nielsen_stepE)
  assume ok: "node_ok f" and g: "g = apply_rule f lab" and lt: "skip_sat f 0 < length f"
    and lab: "lab \<in> set (get_rules_from_pred (f ! skip_sat f 0))"
  obtain x c where xc: "lab = (x, c)" by (cases lab)
  have "nielsen_pred (f ! skip_sat f 0)"
    using ok lt by (simp add: node_ok_def nielsen_formula_def)
  then have "\<forall>t \<in> set c. nielsen_term t"
    using rule_terms(2)[OF lab[unfolded xc]] by (auto simp: nielsen_pred_def)
  then show "node_ok g"
    using ok by (auto simp: node_ok_def nielsen_formula_def g xc apply_rule_eq
        intro!: nielsen_trim_pred nielsen_subst_pred)
qed

lemma sat_apply_rule:
  assumes "nielsen_formula f" and "is_variable x"
  shows "sat_formula R \<sigma> (apply_rule f (x, c)) = sat_formula R (undo_rule (x, c) \<sigma>) f"
proof -
  have "sat_pred R \<sigma> (trim_pred (subst_pred x c p)) = sat_pred R (undo_rule (x, c) \<sigma>) p"
    if "p \<in> set f" for p
  proof -
    have "wf_pred p" "is_equation (subst_pred x c p)"
      using assms(1) that by (auto simp: nielsen_formula_def nielsen_pred_def is_equation_def)
    then show ?thesis
      using assms(2) by (simp add: sat_trim_pred sat_subst_pred variable_not_literal undo_rule_def)
  qed
  then show ?thesis by (auto simp: sat_formula_def apply_rule_eq)
qed

lemma step_undo_sat:
  assumes "node_ok f" and "nielsen_step f lab g" and "sat_formula R \<sigma> g"
  shows "sat_formula R (undo_rule lab \<sigma>) f"
proof -
  obtain x c where "lab = (x, c)" by (cases lab)
  with assms show ?thesis
    by (auto simp: nielsen_step_iff node_ok_def sat_apply_rule dest: rule_terms(1))
qed

text \<open>
  A solution of an equation follows one of its rules: either the variable of the rule is
  empty, or it begins with the value of the first term of the other side.
\<close>

definition follows_rule :: "assignment \<Rightarrow> nielsen_label \<Rightarrow> assignment \<Rightarrow> bool" where
  "follows_rule \<sigma> lab \<tau> \<longleftrightarrow> undo_rule lab \<tau> = \<sigma> \<and>
     (snd lab = [] \<and> \<tau> = \<sigma> \<or>
      (\<exists>y w. snd lab = [y, fst lab] \<and> \<tau> = \<sigma>(fst lab := w) \<and> length w < length (\<sigma> (fst lab))))"

lemma follows_empty: "\<sigma> x = [] \<Longrightarrow> follows_rule \<sigma> (x, []) \<sigma>"
  by (auto simp: follows_rule_def undo_rule_def)

lemma follows_shift:
  assumes "eval_term \<sigma> s @ a = eval_term \<sigma> t @ b" and "is_variable s" and "s \<noteq> t"
    and "eval_term \<sigma> t \<noteq> []" and "length (eval_term \<sigma> t) \<le> length (\<sigma> s)"
  shows "\<exists>\<tau>. follows_rule \<sigma> (s, [t, s]) \<tau>"
proof -
  have "eval_term \<sigma> s = \<sigma> s" using assms(2) by (rule eval_term_variable)
  then have w: "\<sigma> s = eval_term \<sigma> t @ drop (length (eval_term \<sigma> t)) (\<sigma> s)"
    using assms(1,5) by (metis append_eq_append_conv_if append_take_drop_id)
  let ?w = "drop (length (eval_term \<sigma> t)) (\<sigma> s)"
  have "eval_term (\<sigma>(s := ?w)) t = eval_term \<sigma> t"
    using assms(3) by (simp add: eval_term_def)
  then have "undo_rule (s, [t, s]) (\<sigma>(s := ?w)) = \<sigma>"
    using w assms(2) by (auto simp: undo_rule_def eval_term_variable)
  moreover have "length ?w < length (\<sigma> s)"
    using assms(4,5) by (metis diff_less length_drop length_greater_0_conv order_less_le_trans)
  ultimately have "follows_rule \<sigma> (s, [t, s]) (\<sigma>(s := ?w))"
    unfolding follows_rule_def fst_conv snd_conv by blast
  then show ?thesis by blast
qed

lemma solution_follows_rule:
  assumes "nielsen_pred p" and "trimmed_pred p" and "\<not> is_pred_sat p" and "sat_pred R \<sigma> p"
  shows "\<exists>lab \<tau>. lab \<in> set (get_rules_from_pred p) \<and> follows_rule \<sigma> lab \<tau>"
proof -
  let ?l = "get_left_side p" and ?r = "get_right_side p"
  have eq: "eval_concat \<sigma> ?l = eval_concat \<sigma> ?r"
    using assms(1,4) nielsen_pred_sat by blast
  have nt: "t \<in> set ?l \<union> set ?r \<Longrightarrow> nielsen_term t" for t
    using assms(1) by (auto simp: nielsen_pred_def)
  have single: "\<exists>lab \<tau>. lab \<in> set (get_rules_from_pred p) \<and> follows_rule \<sigma> lab \<tau>"
    if "?l = x # l \<or> ?r = x # l" "eval_term \<sigma> x = []" for x l
  proof -
    have "is_variable x"
      using that nt[of x] by (auto simp: nielsen_term_def eval_term_def split: if_splits)
    then have "(x, []) \<in> set (get_rules_from_pred p)" "\<sigma> x = []"
      using that by (auto simp: rules_iff eval_term_variable)
    then show ?thesis using follows_empty by blast
  qed
  show ?thesis
  proof (cases ?l)
    case Nil
    then obtain t r where "?r = t # r"
      using assms(3) by (cases ?r) (auto simp: is_pred_sat_def)
    then show ?thesis using single[of t r] eq Nil by simp
  next
    case l: (Cons s l)
    show ?thesis
    proof (cases ?r)
      case Nil
      then show ?thesis using single[of s l] eq l by simp
    next
      case r: (Cons t r)
      have st: "s \<noteq> t" using assms(2) l r by (simp add: trimmed_pred_def)
      have eq': "eval_term \<sigma> s @ eval_concat \<sigma> l = eval_term \<sigma> t @ eval_concat \<sigma> r"
        using eq l r by simp
      show ?thesis
      proof (cases "eval_term \<sigma> s = [] \<or> eval_term \<sigma> t = []")
        case True
        then show ?thesis using single l r by blast
      next
        case False
        have one: "length (eval_term \<sigma> u) = 1" if "\<not> is_variable u" "u = s \<or> u = t" for u
          using that nt[of u] l r by (auto simp: nielsen_term_def eval_term_def)
        have lits: "is_variable s \<or> is_variable t"
        proof (rule ccontr)
          assume "\<not> ?thesis"
          then show False
            using nt[of s] nt[of t] l r st eq' eval_nielsen_literal[of s \<sigma>] eval_nielsen_literal[of t \<sigma>]
            by (auto simp: nielsen_term_def)
        qed
        show ?thesis
        proof (cases "is_variable s \<and> length (eval_term \<sigma> t) \<le> length (eval_term \<sigma> s)")
          case True
          then have "(s, [t, s]) \<in> set (get_rules_from_pred p)" using l r by (simp add: rules_iff)
          moreover have "\<exists>\<tau>. follows_rule \<sigma> (s, [t, s]) \<tau>"
            using True False by (intro follows_shift[OF eq']) (auto simp: st eval_term_variable)
          ultimately show ?thesis by blast
        next
          case t: False
          then have "is_variable t" "length (eval_term \<sigma> s) \<le> length (eval_term \<sigma> t)"
            using lits one[of s] one[of t] False by (cases "is_variable t"; cases "is_variable s"; force simp: Suc_le_eq)+
          then have "\<exists>\<tau>. follows_rule \<sigma> (t, [s, t]) \<tau>"
            using False by (intro follows_shift[OF eq'[symmetric]]) (auto simp: st[symmetric] eval_term_variable)
          moreover have "(t, [s, t]) \<in> set (get_rules_from_pred p)"
            using \<open>is_variable t\<close> l r by (simp add: rules_iff)
          ultimately show ?thesis by blast
        qed
      qed
    qed
  qed
qed

lemma finite_formula_get_vars [simp]: "finite (formula_get_vars f)"
  by (auto simp: formula_get_vars_def pred_get_vars_def)

lemma vars_apply_rule:
  assumes "nielsen_formula f"
  shows "formula_get_vars (apply_rule f (x, c)) \<subseteq> (formula_get_vars f - {x}) \<union> {t \<in> set c. is_variable t}"
proof
  fix v assume "v \<in> formula_get_vars (apply_rule f (x, c))"
  then obtain p where p: "p \<in> set f" "v \<in> pred_get_vars (trim_pred (subst_pred x c p))"
    by (auto simp: formula_get_vars_def apply_rule_eq)
  have wf: "wf_pred p" using assms p(1) by (auto simp: nielsen_formula_def nielsen_pred_def)
  then have "v \<in> pred_get_vars (subst_pred x c p)" using p(2) vars_trim_pred[of "subst_pred x c p"] by auto
  then have "v \<in> set (subst_concat x c (get_left_side p)) \<union> set (subst_concat x c (get_right_side p))"
    "is_variable v"
    using wf by (auto simp: pred_get_vars_wf)
  then have "(v \<in> pred_get_vars p \<and> v \<noteq> x) \<or> v \<in> set c"
    using wf by (auto simp: subst_concat_def pred_get_vars_wf split: if_splits)
  then show "v \<in> (formula_get_vars f - {x}) \<union> {t \<in> set c. is_variable t}"
    using p(1) \<open>is_variable v\<close> by (auto simp: formula_get_vars_def)
qed

lemma formula_weight_step:
  assumes "nielsen_formula f" and "x \<in> formula_get_vars f"
    and "{t \<in> set c. is_variable t} \<subseteq> formula_get_vars f" and "follows_rule \<sigma> (x, c) \<tau>"
  shows "formula_weight \<tau> (apply_rule f (x, c)) < formula_weight \<sigma> f"
proof -
  let ?V = "formula_get_vars f" and ?W = "formula_get_vars (apply_rule f (x, c))"
  have V: "?W \<subseteq> ?V" using vars_apply_rule[OF assms(1), of x c] assms(3) by blast
  consider "c = []" "\<tau> = \<sigma>" | w where "\<tau> = \<sigma>(x := w)" "length w < length (\<sigma> x)"
    using assms(4) by (auto simp: follows_rule_def)
  then show ?thesis
  proof cases
    case 1
    then have "?W \<subset> ?V" using vars_apply_rule[OF assms(1), of x c] V assms(2) by auto
    then show ?thesis
      unfolding formula_weight_def 1(2) by (intro sum_strict_mono2[of _ _ x]) (use 1 assms(2) vars_apply_rule[OF assms(1), of x c] in auto)
  next
    case 2
    have "formula_weight \<tau> (apply_rule f (x, c)) \<le> formula_weight \<tau> f"
      unfolding formula_weight_def by (rule sum_mono2) (use V in auto)
    also have "\<dots> < formula_weight \<sigma> f"
      unfolding formula_weight_def using 2 assms(2) by (intro sum_strict_mono_ex1) auto
    finally show ?thesis .
  qed
qed

lemma nielsen_step_complete:
  assumes ok: "node_ok f" and "\<not> final_formula f" and sat: "sat_formula R \<sigma> f"
  shows "\<exists>lab g \<tau>. nielsen_step f lab g \<and> sat_formula R \<tau> g \<and> formula_weight \<tau> g < formula_weight \<sigma> f"
proof -
  let ?i = "skip_sat f 0" let ?p = "f ! ?i"
  have lt: "?i < length f" using assms(2) skip_sat_final[of f] by simp
  then have p: "?p \<in> set f" by simp
  have np: "nielsen_pred ?p" "trimmed_pred ?p" and nf: "nielsen_formula f"
    using ok p by (auto simp: node_ok_def nielsen_formula_def)
  obtain x c \<tau> where lab: "(x, c) \<in> set (get_rules_from_pred ?p)" "follows_rule \<sigma> (x, c) \<tau>"
    using solution_follows_rule[OF np skip_sat_open[OF lt]] sat p by (force simp: sat_formula_def)
  have "{t \<in> set (get_left_side ?p) \<union> set (get_right_side ?p). is_variable t} \<subseteq> formula_get_vars f"
    using np(1) p by (auto simp: formula_get_vars_def nielsen_pred_def pred_get_vars_wf)
  then have "x \<in> formula_get_vars f" "{t \<in> set c. is_variable t} \<subseteq> formula_get_vars f"
    using rule_terms[OF lab(1)] by auto
  then have "formula_weight \<tau> (apply_rule f (x, c)) < formula_weight \<sigma> f"
    using formula_weight_step[OF nf] lab(2) by blast
  moreover have "sat_formula R \<tau> (apply_rule f (x, c))"
    using sat_apply_rule[OF nf rule_terms(1)[OF lab(1)]] lab(2) sat by (simp add: follows_rule_def)
  ultimately show ?thesis using nielsen_stepI[OF lt lab(1)] by blast
qed

lemma final_formula_sat: "node_ok f \<Longrightarrow> final_formula f \<Longrightarrow> sat_formula R \<sigma> f"
  by (auto simp: node_ok_def nielsen_formula_def final_formula_def sat_formula_def is_pred_sat_def
      nielsen_pred_sat)

interpretation nielsen: rewriting_system nielsen_step final_formula node_ok "sat_formula R" undo_rule formula_weight
  for R
  by unfold_locales (blast intro: node_ok_step final_formula_sat step_undo_sat nielsen_step_complete)+

text \<open>
  C17: A trimmed formula of equations over variables and one-symbol literals is satisfiable
  exactly if Nielsen steps lead from it to a formula whose equations are all empty.
\<close>

theorem nielsen_steps_decide:
  assumes "node_ok f"
  shows "(\<exists>\<sigma>. sat_formula R \<sigma> f) \<longleftrightarrow> (\<exists>labs g. steps nielsen_step f labs g \<and> final_formula g)"
  using nielsen.satisfiable_iff_reaches_final[OF assms] .

theorem nielsen_steps_decide_witness:
  "let f = [create_equation [BasicTerm Variable [120]] [BasicTerm Literal [97]]]
   in (\<exists>labs g. steps nielsen_step f labs g \<and> final_formula g)"
proof -
  let ?f = "[create_equation [BasicTerm Variable [120]] [BasicTerm Literal [97]]]"
  have "node_ok ?f"
    by (simp add: node_ok_def nielsen_formula_def nielsen_term_def trimmed_pred_def)
  from nielsen_steps_decide[OF this, of "\<lambda>_. {}"]
  have "(\<exists>\<sigma>. sat_formula (\<lambda>_. {}) \<sigma> ?f) \<longleftrightarrow> (\<exists>labs g. steps nielsen_step ?f labs g \<and> final_formula g)" .
  moreover have "sat_formula (\<lambda>_. {}) (\<lambda>_. [97]) ?f" by (simp add: eval_term_def)
  ultimately show ?thesis by (auto simp: Let_def)
qed

end
