(* ===== verification/Nielsen_Search.thy ===== *)
theory Nielsen_Search
  imports Nielsen
begin

text \<open>
  Correctness of \<open>generate_from_formula\<close>: the invariant of the search over the priority
  queue, the answer it gives when it ends, and that it ends for every formula that
  \<open>is_quadratic\<close> accepts, because a rule never makes a quadratic formula longer.
\<close>

section \<open>The invariant of the search\<close>

lemma queue_pop_set:
  assumes "queue_top sel" and "wl \<noteq> []"
  shows "set wl = insert (wl ! sel wl) (set (queue_pop sel wl))" "length (queue_pop sel wl) < length wl"
proof -
  have lt: "sel wl < length wl" using assms by (simp add: queue_top_def)
  then have "wl = take (sel wl) wl @ wl ! sel wl # drop (Suc (sel wl)) wl"
    by (rule id_take_nth_drop)
  then show "set wl = insert (wl ! sel wl) (set (queue_pop sel wl))"
    unfolding queue_pop_def by (metis Un_insert_right list.simps(15) set_append)
  show "length (queue_pop sel wl) < length wl"
    using lt by (simp add: queue_pop_def)
qed

lemma expand_fold:
  fixes add index f labs s
  defines "t \<equiv> fold (expand_rule add index f) labs s"
  shows "generated t = generated s" "is_sat t = is_sat s" "returned t = returned s"
    "set (worklist t) = set (worklist s) \<union>
       {(index, apply_rule f lab) | lab. lab \<in> set labs \<and> apply_rule f lab \<notin> set (generated s)}"
    "init (graph t) = init (graph s)" "fins (graph t) = fins (graph s)"
    "set (edges (graph t)) = set (edges (graph s)) \<union>
       (if add then {(f, apply_rule f lab, lab) | lab. lab \<in> set labs} else {})"
proof -
  have "generated t = generated s \<and> is_sat t = is_sat s \<and> returned t = returned s \<and>
      set (worklist t) = set (worklist s) \<union>
        {(index, apply_rule f lab) | lab. lab \<in> set labs \<and> apply_rule f lab \<notin> set (generated s)} \<and>
      init (graph t) = init (graph s) \<and> fins (graph t) = fins (graph s) \<and>
      set (edges (graph t)) = set (edges (graph s)) \<union>
        (if add then {(f, apply_rule f lab, lab) | lab. lab \<in> set labs} else {})"
    unfolding t_def
    by (induction labs arbitrary: s) (auto simp: expand_rule_def Let_def)
  then show "generated t = generated s" "is_sat t = is_sat s" "returned t = returned s"
    "set (worklist t) = set (worklist s) \<union>
       {(index, apply_rule f lab) | lab. lab \<in> set labs \<and> apply_rule f lab \<notin> set (generated s)}"
    "init (graph t) = init (graph s)" "fins (graph t) = fins (graph s)"
    "set (edges (graph t)) = set (edges (graph s)) \<union>
       (if add then {(f, apply_rule f lab, lab) | lab. lab \<in> set labs} else {})"
    by blast+
qed

text \<open>
  A queue entry is reachable by Nielsen steps and the predicates before its index are
  settled; with edges, it is also reachable in the graph. The invariant relates the queue
  entries \<open>W\<close>, the generated formulae \<open>G\<close>, the final nodes \<open>F\<close> and the edges \<open>E\<close>.
\<close>

type_synonym nielsen_edges = "(formula \<times> formula \<times> nielsen_label) set"

definition entry_ok :: "formula \<Rightarrow> bool \<Rightarrow> nielsen_edges \<Rightarrow> formula \<Rightarrow> bool" where
  "entry_ok f0 add E f \<longleftrightarrow> (\<exists>labs. steps nielsen_step f0 labs f) \<and> (add \<longrightarrow> (f0, f) \<in> (step_rel E)\<^sup>*)"

definition entries_ok :: "formula \<Rightarrow> bool \<Rightarrow> nielsen_edges \<Rightarrow> (nat \<times> formula) set \<Rightarrow> formula set \<Rightarrow> bool" where
  "entries_ok f0 add E W G \<longleftrightarrow> (\<forall>f \<in> G \<union> snd ` W. entry_ok f0 add E f) \<and>
     (\<forall>e \<in> W. fst e < length (snd e) \<and> (\<forall>j < fst e. is_pred_sat (snd e ! j)))"

definition covered :: "(nat \<times> formula) set \<Rightarrow> formula set \<Rightarrow> bool" where
  "covered W G \<longleftrightarrow> (\<forall>f \<in> G. \<forall>R \<sigma> lab g. sat_formula R \<sigma> f \<longrightarrow> nielsen_step f lab g \<longrightarrow> g \<in> G \<union> snd ` W)"

definition search_ok ::
  "formula \<Rightarrow> bool \<Rightarrow> (nat \<times> formula) set \<Rightarrow> formula set \<Rightarrow> bool \<Rightarrow> formula set \<Rightarrow> nielsen_edges \<Rightarrow> bool"
where
  "search_ok f0 add W G sat F E \<longleftrightarrow> entries_ok f0 add E W G \<and> covered W G \<and>
     f0 \<in> G \<union> snd ` W \<and> F = {f \<in> G. final_formula f} \<and> (sat \<longleftrightarrow> F \<noteq> {}) \<and>
     (\<forall>(f, g, lab) \<in> E. node_ok f \<and> nielsen_step f lab g)"

lemmas search_ok_defs = search_ok_def entries_ok_def covered_def

lemma step_rel_mono: "E \<subseteq> F \<Longrightarrow> step_rel E \<subseteq> step_rel F"
  by (auto simp: step_rel_def)

lemma entry_ok_mono: "entry_ok f0 add E f \<Longrightarrow> E \<subseteq> E' \<Longrightarrow> entry_ok f0 add E' f"
  unfolding entry_ok_def by (meson rtrancl_mono step_rel_mono subsetD)

lemma search_ok_skip:
  assumes "search_ok f0 add (insert (i, f) W) G sat F E" and "f \<in> G"
  shows "search_ok f0 add W G sat F E"
proof -
  have "G \<union> snd ` insert (i, f) W = G \<union> snd ` W" using assms(2) by auto
  then show ?thesis
    using assms(1) unfolding search_ok_def entries_ok_def covered_def by simp
qed

lemma union_insert_snd: "G \<union> snd ` insert (i, f) W = insert f G \<union> snd ` W"
  by auto

lemma final_no_step: "final_formula f \<Longrightarrow> \<not> nielsen_step f lab g"
  by (auto simp: nielsen_step_iff skip_sat_final[symmetric])

text \<open>A formula without a solution or without open predicates needs no successors.\<close>

lemma search_ok_settled:
  assumes ok: "search_ok f0 add (insert (i, f) W) G sat F E"
    and settled: "(\<forall>R \<sigma>. \<not> sat_formula R \<sigma> f) \<or> final_formula f"
  shows "search_ok f0 add W (insert f G) (sat \<or> final_formula f)
    (if final_formula f then insert f F else F) E"
proof -
  have "covered W (insert f G)"
    using ok settled final_no_step unfolding search_ok_def covered_def union_insert_snd by blast
  then show ?thesis
    using ok unfolding search_ok_def entries_ok_def union_insert_snd by auto
qed

lemma is_pred_sat_rule:
  assumes "nielsen_formula f" and "j < length f" and "is_pred_sat (f ! j)"
  shows "is_pred_sat (apply_rule f lab ! j)"
proof -
  obtain x c where lab: "lab = (x, c)" by (cases lab)
  have "nielsen_pred (f ! j)" using assms(1,2) by (simp add: nielsen_formula_def)
  then have "f ! j = create_equation [] []"
    using nielsen_pred_eq[of "f ! j"] assms(3) by (simp add: is_pred_sat_def)
  then show ?thesis
    using assms(2) by (simp add: lab apply_rule_eq trim_pred_def is_pred_sat_def subst_pred_def Let_def)
qed

lemma search_ok_expand:
  assumes node: "node_ok f0" and ok: "search_ok f0 add (insert (i, f) W) G sat F E"
    and open_f: "skip_sat f i < length f"
  defines "labs \<equiv> set (get_rules_from_pred (f ! skip_sat f i))"
  defines "E' \<equiv> E \<union> (if add then {(f, apply_rule f lab, lab) | lab. lab \<in> labs} else {})"
  defines "W' \<equiv> W \<union> {(skip_sat f i, apply_rule f lab) | lab. lab \<in> labs \<and> apply_rule f lab \<notin> insert f G}"
  shows "search_ok f0 add W' (insert f G) sat F E'"
proof -
  let ?i = "skip_sat f i"
  have entry: "i < length f" "\<forall>j < i. is_pred_sat (f ! j)" "entry_ok f0 add E f"
    using ok by (auto simp: search_ok_def entries_ok_def)
  then have i0: "?i = skip_sat f 0" using skip_sat_start[of i f] by simp
  have step: "nielsen_step f lab g \<longleftrightarrow> lab \<in> labs \<and> g = apply_rule f lab" for lab g
    using open_f by (auto simp: nielsen_step_iff i0 labs_def)
  have okf: "node_ok f" using entry(3) nielsen.ok_steps node by (auto simp: entry_ok_def)
  then have nf: "nielsen_formula f" by (simp add: node_ok_def)
  have new: "entry_ok f0 add E' (apply_rule f lab)" if lab: "lab \<in> labs" for lab
  proof -
    have "(f, apply_rule f lab) \<in> step_rel E'" if add
      using that lab by (cases lab) (auto simp: E'_def intro!: step_relI[of _ _ lab])
    moreover have "nielsen_step f lab (apply_rule f lab)" using step lab by blast
    moreover have "entry_ok f0 add E' f"
      using entry(3) by (rule entry_ok_mono) (simp add: E'_def)
    ultimately show ?thesis
      unfolding entry_ok_def by (meson rtrancl.rtrancl_into_rtrancl steps_snoc)
  qed
  have old: "entry_ok f0 add E' h" if "h \<in> insert f G \<union> snd ` W" for h
  proof (rule entry_ok_mono)
    show "entry_ok f0 add E h"
      using ok that unfolding search_ok_def entries_ok_def union_insert_snd by blast
  qed (simp add: E'_def)
  have index: "?i < length (apply_rule f lab) \<and> (\<forall>j < ?i. is_pred_sat (apply_rule f lab ! j))" for lab
    using open_f is_pred_sat_rule[OF nf] skip_sat_below[of 0 _ f] i0
    by (cases lab) (auto simp: apply_rule_eq)
  have "entries_ok f0 add E' W' (insert f G)"
    using ok old new index unfolding entries_ok_def search_ok_def W'_def by auto
  moreover have "covered W' (insert f G)"
    unfolding covered_def
  proof (intro ballI allI impI)
    fix h R \<sigma> lab g
    assume h: "h \<in> insert f G" and sat: "sat_formula R \<sigma> h" and hg: "nielsen_step h lab g"
    show "g \<in> insert f G \<union> snd ` W'"
    proof (cases "h = f")
      case True
      then have lab: "lab \<in> labs" "g = apply_rule f lab" using hg step by auto
      then have "g \<notin> insert f G \<Longrightarrow> (skip_sat f i, g) \<in> W'" unfolding W'_def by blast
      then show ?thesis by force
    next
      case False
      have "covered (insert (i, f) W) G" using ok by (simp add: search_ok_def)
      then have "g \<in> G \<union> snd ` insert (i, f) W" using False h sat hg unfolding covered_def by blast
      then show ?thesis unfolding W'_def by auto
    qed
  qed
  moreover have "\<not> final_formula f" using open_f i0 skip_sat_final[of f] by simp
  moreover have "\<forall>(f, g, lab) \<in> E'. node_ok f \<and> nielsen_step f lab g"
    using ok step okf unfolding search_ok_def E'_def by auto
  ultimately show ?thesis
    using ok unfolding search_ok_def union_insert_snd W'_def by auto
qed

definition search_inv :: "formula \<Rightarrow> bool \<Rightarrow> gen_state \<Rightarrow> bool" where
  "search_inv f0 add s \<longleftrightarrow>
     search_ok f0 add (set (worklist s)) (set (generated s)) (is_sat s)
       (set (fins (graph s))) (set (edges (graph s))) \<and>
     (returned s \<longrightarrow> is_sat s)"

lemma search_inv_step:
  assumes node: "node_ok f0" and sel: "queue_top sel" and inv: "search_inv f0 add s"
    and wl: "worklist s \<noteq> []" and "\<not> returned s"
  shows "search_inv f0 add (gen_step sel early add s)"
proof -
  obtain i f where e: "worklist s ! sel (worklist s) = (i, f)"
    by (cases "worklist s ! sel (worklist s)")
  let ?W = "set (queue_pop sel (worklist s))"
  have ok: "search_ok f0 add (insert (i, f) ?W) (set (generated s)) (is_sat s)
      (set (fins (graph s))) (set (edges (graph s)))"
    using inv queue_pop_set(1)[OF sel wl] e by (simp add: search_inv_def)
  have entry: "i < length f" "\<forall>j < i. is_pred_sat (f ! j)" "node_ok f"
    using ok nielsen.ok_steps node by (auto simp: search_ok_def entries_ok_def entry_ok_def)
  have i0: "skip_sat f i = skip_sat f 0" using entry skip_sat_start[of i f] by simp
  consider "f \<in> set (generated s)"
    | "f \<notin> set (generated s)" "is_pred_unsat (f ! i) \<or> is_length_unsat (f ! i)"
    | "f \<notin> set (generated s)" "\<not> (is_pred_unsat (f ! i) \<or> is_length_unsat (f ! i))" "length f \<le> skip_sat f i"
    | "f \<notin> set (generated s)" "\<not> (is_pred_unsat (f ! i) \<or> is_length_unsat (f ! i))" "skip_sat f i < length f"
    by linarith
  then show ?thesis
  proof cases
    case 1
    then show ?thesis
      using search_ok_skip[OF ok] assms(5) by (simp add: gen_step_def e search_inv_def)
  next
    case 2
    have "nielsen_pred (f ! i)" "f ! i \<in> set f"
      using entry by (auto simp: node_ok_def nielsen_formula_def)
    then have "\<not> sat_formula R \<sigma> f" for R \<sigma>
      using 2(2) is_pred_unsat_sound is_length_unsat_sound unfolding sat_formula_def by blast
    moreover from this have "\<not> final_formula f" using final_formula_sat[OF entry(3)] by blast
    ultimately show ?thesis
      using search_ok_settled[OF ok] 2 assms(5) by (simp add: gen_step_def e search_inv_def)
  next
    case 3
    then have "final_formula f" using i0 skip_sat_final by simp
    then show ?thesis
      using search_ok_settled[OF ok] 3 by (simp add: gen_step_def e search_inv_def Let_def)
  next
    case 4
    then have "gen_step sel early add s =
        fold (expand_rule add (skip_sat f i) f) (get_rules_from_pred (f ! skip_sat f i))
          (s\<lparr>worklist := queue_pop sel (worklist s), generated := sset_insert f (generated s)\<rparr>)"
      by (simp add: gen_step_def e Let_def)
    then show ?thesis
      using search_ok_expand[OF node ok 4(3)] assms(5)
      unfolding search_inv_def by (simp only: expand_fold) simp
  qed
qed

lemma search_inv_start:
  assumes "node_ok (trim_formula f)" and "f \<noteq> []"
  shows "search_inv (trim_formula f) add (gen_start f)"
  using assms
  by (auto simp: search_inv_def search_ok_def entries_ok_def covered_def gen_start_def entry_ok_def
      trim_formula_def intro: steps_Nil)

text \<open>What the final state of the search says.\<close>

lemma search_inv_is_sat: "search_inv f0 add s \<Longrightarrow> is_sat s \<longleftrightarrow> (\<exists>f \<in> set (generated s). final_formula f)"
proof -
  assume "search_inv f0 add s"
  then have "is_sat s \<longleftrightarrow> {f \<in> set (generated s). final_formula f} \<noteq> {}"
    unfolding search_inv_def search_ok_def by metis
  then show ?thesis by auto
qed

lemma search_inv_queue:
  assumes "search_inv f0 add s" and "(i, f) \<in> set (worklist s)"
  shows "entry_ok f0 add (set (edges (graph s))) f"
proof -
  have "\<forall>f \<in> set (generated s) \<union> snd ` set (worklist s). entry_ok f0 add (set (edges (graph s))) f"
    using assms(1) unfolding search_inv_def search_ok_def entries_ok_def by (elim conjE)
  moreover have "f \<in> snd ` set (worklist s)" using assms(2) by force
  ultimately show ?thesis by blast
qed

lemma search_inv_reach: "search_inv f0 add s \<Longrightarrow> f \<in> set (generated s) \<Longrightarrow> entry_ok f0 add (set (edges (graph s))) f"
  unfolding search_inv_def search_ok_def entries_ok_def by simp

lemma search_inv_end:
  assumes node: "node_ok f0" and inv: "search_inv f0 add s" and stop: "\<not> (worklist s \<noteq> [] \<and> \<not> returned s)"
  shows "is_sat s \<longleftrightarrow> (\<exists>\<sigma>. sat_formula R \<sigma> f0)"
proof
  assume "is_sat s"
  then obtain f labs where "steps nielsen_step f0 labs f" "final_formula f"
    using search_inv_is_sat[OF inv] search_inv_reach[OF inv] unfolding entry_ok_def by blast
  then show "\<exists>\<sigma>. sat_formula R \<sigma> f0"
    using nielsen.satisfiable_iff_reaches_final[OF node] by blast
next
  assume sat: "\<exists>\<sigma>. sat_formula R \<sigma> f0"
  show "is_sat s"
  proof (cases "returned s")
    case True
    then show ?thesis using inv by (simp add: search_inv_def)
  next
    case False
    with stop have W: "worklist s = []" by simp
    have "\<exists>f \<in> set (generated s). final_formula f"
    proof (rule nielsen.closed_has_final)
      show "m \<in> set (generated s)"
        if "n \<in> set (generated s)" "sat_formula R a n" "nielsen_step n l m" for n l m a
      proof -
        have "covered {} (set (generated s))" using inv W by (simp add: search_inv_def search_ok_def)
        then show ?thesis using that unfolding covered_def by blast
      qed
      show "node_ok n" if "n \<in> set (generated s)" for n
        using search_inv_reach[OF inv that] node nielsen.ok_steps by (auto simp: entry_ok_def)
      show "f0 \<in> set (generated s)" using inv W by (auto simp: search_inv_def search_ok_def)
      show "sat_formula R (SOME \<sigma>. sat_formula R \<sigma> f0) f0" using sat by (rule someI_ex)
    qed
    then show ?thesis using search_inv_is_sat[OF inv] by simp
  qed
qed

section \<open>Quadratic formulae\<close>

definition pred_count :: "basic_term \<Rightarrow> predicate \<Rightarrow> nat" where
  "pred_count t p = count_list (get_left_side p) t + count_list (get_right_side p) t"

definition formula_terms :: "formula \<Rightarrow> basic_term set" where
  "formula_terms f = (\<Union>p \<in> set f. set (get_left_side p) \<union> set (get_right_side p))"

definition quadratic_node :: "formula \<Rightarrow> bool" where
  "quadratic_node f \<longleftrightarrow> node_ok f \<and> (\<forall>x. is_variable x \<longrightarrow> formula_occurrences f x \<le> 2)"

lemma formula_occurrences_pred_count: "formula_occurrences f t = sum_list (map (pred_count t) f)"
  by (simp add: formula_occurrences_def pred_count_def[abs_def])

lemma trim_pred_le:
  "pred_count t (trim_pred p) \<le> pred_count t p"
  "get_predicate_cost (trim_pred p) \<le> get_predicate_cost p"
  "set (get_left_side (trim_pred p)) \<subseteq> set (get_left_side p)"
  "set (get_right_side (trim_pred p)) \<subseteq> set (get_right_side p)"
proof -
  obtain u v l r where uv: "params p ! 0 = u @ l @ v" "params p ! 1 = u @ r @ v"
    "trim_pred p = create_equation l r"
    by (rule trim_pred_split[of p])
  then show "pred_count t (trim_pred p) \<le> pred_count t p"
    and "get_predicate_cost (trim_pred p) \<le> get_predicate_cost p"
    and "set (get_left_side (trim_pred p)) \<subseteq> set (get_left_side p)"
    and "set (get_right_side (trim_pred p)) \<subseteq> set (get_right_side p)"
    by (auto simp: pred_count_def get_predicate_cost_def side_defs)
qed

lemma trim_pred_common_head:
  assumes "get_left_side p = y # l'" and "get_right_side p = y # r'"
  shows "pred_count t (trim_pred p) + (if t = y then 2 else 0) \<le> pred_count t p"
    "get_predicate_cost (trim_pred p) + 2 \<le> get_predicate_cost p"
proof -
  obtain u v l r where uv: "params p ! 0 = u @ l @ v" "params p ! 1 = u @ r @ v"
    "trim_pred p = create_equation l r" "l = [] \<or> r = [] \<or> hd l \<noteq> hd r"
    "\<forall>y l' r'. params p ! 0 = y # l' \<and> params p ! 1 = y # r' \<longrightarrow> (\<exists>u'. u = y # u')"
    by (rule trim_pred_split[of p])
  then obtain u' where "u = y # u'" using assms unfolding side_defs by blast
  then show "pred_count t (trim_pred p) + (if t = y then 2 else 0) \<le> pred_count t p"
    and "get_predicate_cost (trim_pred p) + 2 \<le> get_predicate_cost p"
    using uv(1-3) by (auto simp: pred_count_def get_predicate_cost_def side_defs)
qed

lemma count_subst_concat:
  "count_list (subst_concat x c d) t = (if t = x then 0 else count_list d t) + count_list d x * count_list c t"
  by (induction d) auto

lemma length_subst_concat:
  "length (subst_concat x c d) + count_list d x = length d + count_list d x * length c"
  by (induction d) auto

lemma pred_count_subst:
  "wf_pred p \<Longrightarrow> pred_count t (subst_pred x c p) =
     (if t = x then 0 else pred_count t p) + pred_count x p * count_list c t"
  by (simp add: pred_count_def count_subst_concat algebra_simps)

lemma cost_subst:
  "wf_pred p \<Longrightarrow> get_predicate_cost (subst_pred x c p) + pred_count x p =
     get_predicate_cost p + pred_count x p * length c"
  using length_subst_concat[of x c "get_left_side p"] length_subst_concat[of x c "get_right_side p"]
  by (simp add: pred_count_def get_predicate_cost_def algebra_simps)

lemma sum_list_update_le:
  fixes g h :: "'a \<Rightarrow> nat"
  assumes "\<And>p. p \<in> set f \<Longrightarrow> g p \<le> h p" and "i < length f" and "g (f ! i) + k \<le> h (f ! i)"
  shows "sum_list (map g f) + k \<le> sum_list (map h f)"
proof -
  have f: "f = take i f @ f ! i # drop (Suc i) f" by (rule id_take_nth_drop[OF assms(2)])
  have "sum_list (map g (take i f)) \<le> sum_list (map h (take i f))"
    "sum_list (map g (drop (Suc i) f)) \<le> sum_list (map h (drop (Suc i) f))"
    using assms(1) by (auto intro!: sum_list_mono dest: in_set_takeD in_set_dropD)
  then show ?thesis
    using assms(3) by (subst f, subst (2) f) simp
qed

lemma sum_list_map_add: "sum_list (map (\<lambda>p. g p + h p) f) = sum_list (map g f) + sum_list (map h f)"
  for g h :: "'a \<Rightarrow> nat"
  by (simp add: sum_list_addf)

text \<open>
  The effect of a rule on the number of occurrences of a term and on the cost: the terms
  that the rule inserts are paid for by the terms that trimming removes.
\<close>

lemma rule_heads:
  assumes "wf_pred p" and "trimmed_pred p" and "(x, [y, z]) \<in> set (get_rules_from_pred p)"
  shows "z = x" "y \<noteq> x"
    "\<exists>l r. get_left_side (subst_pred x [y, x] p) = y # l \<and> get_right_side (subst_pred x [y, x] p) = y # r"
  using assms by (auto simp: rules_iff trimmed_pred_def)

lemma shift_effect:
  assumes ok: "node_ok f" and i: "i < length f" and lab: "(x, [y, z]) \<in> set (get_rules_from_pred (f ! i))"
  shows "formula_occurrences (apply_rule f (x, [y, z])) t + (if t = y then 2 else 0) \<le>
      formula_occurrences f t + (if t = y then formula_occurrences f x else 0)"
    and "get_formula_cost (apply_rule f (x, [y, z])) + 2 \<le> get_formula_cost f + formula_occurrences f x"
proof -
  have wf: "p \<in> set f \<Longrightarrow> wf_pred p" for p
    using ok by (auto simp: node_ok_def nielsen_formula_def nielsen_pred_def)
  have tr: "trimmed_pred (f ! i)" using ok i by (simp add: node_ok_def)
  note heads = rule_heads[OF wf[OF nth_mem[OF i]] tr lab]
  let ?s = "\<lambda>p. subst_pred x [y, x] p" let ?r = "\<lambda>p. trim_pred (?s p)"
  have count: "pred_count t (?s p) = pred_count t p + (if t = y then pred_count x p else 0)" if "p \<in> set f" for p
    using wf[OF that] heads(2) by (auto simp: pred_count_subst)
  have cost: "get_predicate_cost (?s p) = get_predicate_cost p + pred_count x p" if "p \<in> set f" for p
    using cost_subst[OF wf[OF that], of x "[y, x]"] by simp
  obtain l r where lr: "get_left_side (?s (f ! i)) = y # l" "get_right_side (?s (f ! i)) = y # r"
    using heads(3) by blast
  have "sum_list (map (\<lambda>p. pred_count t (?r p)) f) + (if t = y then 2 else 0) \<le>
      sum_list (map (\<lambda>p. pred_count t p + (if t = y then pred_count x p else 0)) f)"
    using trim_pred_le(1)[of t] trim_pred_common_head(1)[OF lr, of t] count i
    by (intro sum_list_update_le[of f _ _ i]) (metis nth_mem)+
  then show "formula_occurrences (apply_rule f (x, [y, z])) t + (if t = y then 2 else 0) \<le>
      formula_occurrences f t + (if t = y then formula_occurrences f x else 0)"
    by (cases "t = y")
       (simp_all add: formula_occurrences_pred_count heads(1) apply_rule_eq comp_def sum_list_addf)
  have "sum_list (map (\<lambda>p. get_predicate_cost (?r p)) f) + 2 \<le>
      sum_list (map (\<lambda>p. get_predicate_cost p + pred_count x p) f)"
    using trim_pred_le(2) trim_pred_common_head(2)[OF lr] cost i
    by (intro sum_list_update_le[of f _ _ i]) (metis nth_mem)+
  then show "get_formula_cost (apply_rule f (x, [y, z])) + 2 \<le> get_formula_cost f + formula_occurrences f x"
    by (simp add: formula_occurrences_pred_count get_formula_cost_def heads(1) apply_rule_eq comp_def sum_list_addf)
qed

lemma erase_effect:
  assumes ok: "node_ok f"
  shows "formula_occurrences (apply_rule f (x, [])) t \<le> formula_occurrences f t"
    and "get_formula_cost (apply_rule f (x, [])) \<le> get_formula_cost f"
proof -
  have wf: "p \<in> set f \<Longrightarrow> wf_pred p" for p
    using ok by (auto simp: node_ok_def nielsen_formula_def nielsen_pred_def)
  have "pred_count t (trim_pred (subst_pred x [] p)) \<le> pred_count t p" if "p \<in> set f" for p
    using trim_pred_le(1)[of t "subst_pred x [] p"] pred_count_subst[OF wf[OF that], of t x "[]"]
    by (simp split: if_splits)
  moreover have "get_predicate_cost (trim_pred (subst_pred x [] p)) \<le> get_predicate_cost p" if "p \<in> set f" for p
    using trim_pred_le(2)[of "subst_pred x [] p"] cost_subst[OF wf[OF that], of x "[]"] by simp
  ultimately show "formula_occurrences (apply_rule f (x, [])) t \<le> formula_occurrences f t"
    and "get_formula_cost (apply_rule f (x, [])) \<le> get_formula_cost f"
    by (auto simp: formula_occurrences_pred_count get_formula_cost_def apply_rule_eq comp_def intro!: sum_list_mono)
qed

lemma quadratic_step:
  assumes q: "quadratic_node f" and step: "nielsen_step f lab g"
  shows "quadratic_node g" "get_formula_cost g \<le> get_formula_cost f"
    "length g = length f" "formula_terms g \<subseteq> formula_terms f"
proof -
  obtain x c where xc: "lab = (x, c)" by (cases lab)
  let ?i = "skip_sat f 0"
  have g: "g = apply_rule f (x, c)" and i: "?i < length f" and lab: "(x, c) \<in> set (get_rules_from_pred (f ! ?i))"
    using step by (auto simp: nielsen_step_iff xc)
  have ok: "node_ok f" and occ: "\<And>x. is_variable x \<Longrightarrow> formula_occurrences f x \<le> 2"
    using q by (auto simp: quadratic_node_def)
  have "is_variable x" by (rule rule_terms(1)[OF lab])
  have le: "formula_occurrences g t \<le> formula_occurrences f t \<and> get_formula_cost g \<le> get_formula_cost f" for t
  proof (cases "c = []")
    case True
    then show ?thesis using erase_effect[OF ok] by (simp add: g)
  next
    case False
    then obtain y z where c: "c = [y, z]" using lab by (auto simp: rules_iff)
    show ?thesis
      using shift_effect(1)[OF ok i lab[unfolded c], of t] shift_effect(2)[OF ok i lab[unfolded c]]
        occ[OF \<open>is_variable x\<close>] by (simp add: g c split: if_splits)
  qed
  then show "get_formula_cost g \<le> get_formula_cost f" by blast
  show "quadratic_node g"
    using le occ node_ok_step[OF ok step] by (auto simp: quadratic_node_def intro: order_trans)
  show "length g = length f" by (simp add: g apply_rule_eq)
  have c: "set c \<subseteq> formula_terms f"
    using rule_terms(2)[OF lab] i by (force simp: formula_terms_def)
  have "set (get_left_side (trim_pred (subst_pred x c p))) \<union> set (get_right_side (trim_pred (subst_pred x c p)))
      \<subseteq> formula_terms f" if "p \<in> set f" for p
  proof -
    have "wf_pred p" using ok that by (auto simp: node_ok_def nielsen_formula_def nielsen_pred_def)
    then show ?thesis
      using trim_pred_le(3,4)[of "subst_pred x c p"] c that
        set_subst_concat[of x c "get_left_side p"] set_subst_concat[of x c "get_right_side p"]
      by (fastforce simp: formula_terms_def)
  qed
  then have "formula_terms (apply_rule f (x, c)) \<subseteq> formula_terms f"
    unfolding apply_rule_eq formula_terms_def[of "map (\<lambda>p. trim_pred (subst_pred x c p)) f"] by force
  then show "formula_terms g \<subseteq> formula_terms f" by (simp only: g)
qed

section \<open>Termination of the search\<close>

lemma finite_bounded_formulae:
  assumes "finite T"
  shows "finite {f. length f = n \<and> get_formula_cost f \<le> N \<and> nielsen_formula f \<and> formula_terms f \<subseteq> T}"
    (is "finite ?S")
proof -
  let ?L = "{c. set c \<subseteq> T \<and> length c \<le> N}"
  let ?P = "(\<lambda>(l, r). create_equation l r) ` (?L \<times> ?L)"
  have "finite ?P" using finite_lists_length_le[OF assms] by simp
  then have "finite {f. set f \<subseteq> ?P \<and> length f = n}" by (rule finite_lists_length_eq)
  moreover have "?S \<subseteq> {f. set f \<subseteq> ?P \<and> length f = n}"
  proof clarsimp
    fix f p
    assume *: "get_formula_cost f \<le> N" "nielsen_formula f" "formula_terms f \<subseteq> T" "p \<in> set f"
    then have "get_predicate_cost p \<le> N"
      using member_le_sum_list[of "get_predicate_cost p" "map get_predicate_cost f"]
      by (auto simp: get_formula_cost_def)
    then show "p \<in> ?P"
      using * nielsen_pred_eq[of p]
      by (auto simp: nielsen_formula_def formula_terms_def get_predicate_cost_def
          intro!: image_eqI[of _ _ "(get_left_side p, get_right_side p)"])
  qed
  ultimately show ?thesis by (rule finite_subset[rotated])
qed

lemma quadratic_steps:
  assumes "steps nielsen_step f labs g" and "quadratic_node f"
  shows "quadratic_node g \<and> get_formula_cost g \<le> get_formula_cost f \<and> length g = length f \<and>
    formula_terms g \<subseteq> formula_terms f"
  using assms
proof (induction rule: steps.induct)
  case (steps_Cons f lab g labs h)
  with quadratic_step[OF steps_Cons.prems steps_Cons.hyps(1)] show ?case by force
qed simp

lemma quadratic_finite_reachable:
  assumes "quadratic_node f"
  shows "finite {g. \<exists>labs. steps nielsen_step f labs g}"
proof (rule finite_subset)
  have "finite (formula_terms f)" by (auto simp: formula_terms_def)
  then show "finite {g. length g = length f \<and> get_formula_cost g \<le> get_formula_cost f \<and>
      nielsen_formula g \<and> formula_terms g \<subseteq> formula_terms f}"
    by (rule finite_bounded_formulae)
  show "{g. \<exists>labs. steps nielsen_step f labs g} \<subseteq> {g. length g = length f \<and>
      get_formula_cost g \<le> get_formula_cost f \<and> nielsen_formula g \<and> formula_terms g \<subseteq> formula_terms f}"
    using quadratic_steps[OF _ assms] by (auto simp: quadratic_node_def node_ok_def)
qed

text \<open>Each iteration generates a new formula or shortens the queue.\<close>

lemma gen_step_measure:
  assumes sel: "queue_top sel" and inv: "search_inv f0 add s" and wl: "worklist s \<noteq> []"
    and fin: "finite {g. \<exists>labs. steps nielsen_step f0 labs g}" (is "finite ?S")
  shows "(gen_step sel early add s, s) \<in>
    measures [\<lambda>s. card (?S - set (generated s)), \<lambda>s. length (worklist s)]"
proof -
  obtain i f where e: "worklist s ! sel (worklist s) = (i, f)"
    by (cases "worklist s ! sel (worklist s)")
  show ?thesis
  proof (cases "f \<in> set (generated s)")
    case True
    then show ?thesis using queue_pop_set(2)[OF sel wl] by (simp add: gen_step_def e)
  next
    case False
    have "(i, f) \<in> set (worklist s)" using queue_pop_set(1)[OF sel wl] e by simp
    then have "f \<in> ?S"
      using search_inv_queue[OF inv] unfolding entry_ok_def by blast
    moreover have "set (generated (gen_step sel early add s)) = insert f (set (generated s))"
      using False by (simp add: gen_step_def e Let_def expand_fold)
    ultimately have "?S - set (generated (gen_step sel early add s)) \<subset> ?S - set (generated s)"
      using False by auto
    then have "card (?S - set (generated (gen_step sel early add s))) < card (?S - set (generated s))"
      using fin by (intro psubset_card_mono) auto
    then show ?thesis by simp
  qed
qed

lemma generate_ends:
  assumes sel: "queue_top sel" and f: "nielsen_formula f" "f \<noteq> []"
    and fin: "finite {g. \<exists>labs. steps nielsen_step (trim_formula f) labs g}"
  shows "\<exists>s. while_option (\<lambda>s. worklist s \<noteq> [] \<and> \<not> returned s) (gen_step sel early add) (gen_start f) = Some s"
proof (rule wf_while_option_Some[of "search_inv (trim_formula f) add"])
  let ?m = "measures [\<lambda>s. card ({g. \<exists>labs. steps nielsen_step (trim_formula f) labs g} - set (generated s)),
    \<lambda>s. length (worklist s)]"
  show "wf {(t, s). (search_inv (trim_formula f) add s \<and> worklist s \<noteq> [] \<and> \<not> returned s) \<and>
      t = gen_step sel early add s}"
  proof (rule wf_subset[of ?m])
    show "wf ?m" by simp
  qed (clarify, rule gen_step_measure[OF sel _ _ fin])
  have node: "node_ok (trim_formula f)"
    using f(1) by (simp add: node_ok_def) (auto simp: trim_formula_def)
  show "search_inv (trim_formula f) add (gen_step sel early add s)"
    if "search_inv (trim_formula f) add s" "worklist s \<noteq> [] \<and> \<not> returned s" for s
    using search_inv_step[OF node sel] that by blast
  show "search_inv (trim_formula f) add (gen_start f)" by (rule search_inv_start[OF node f(2)])
qed

section \<open>The answer of the search\<close>

lemma nielsen_node_trim: "nielsen_formula f \<Longrightarrow> node_ok (trim_formula f)"
  by (simp add: node_ok_def) (auto simp: trim_formula_def)

lemma generate_state:
  assumes sel: "queue_top sel" and f: "nielsen_formula f" "f \<noteq> []"
    and run: "generate_from_formula sel f early add = Some (g, b)"
  obtains s where "search_inv (trim_formula f) add s" "\<not> (worklist s \<noteq> [] \<and> \<not> returned s)"
    "graph s = g" "is_sat s = b" "init g = f"
proof -
  let ?P = "\<lambda>s. search_inv (trim_formula f) add s \<and> init (graph s) = f"
  obtain s where w: "while_option (\<lambda>s. worklist s \<noteq> [] \<and> \<not> returned s) (gen_step sel early add) (gen_start f) = Some s"
    and s: "graph s = g" "is_sat s = b"
    using run by (auto simp: generate_from_formula_def)
  have node: "node_ok (trim_formula f)" by (rule nielsen_node_trim[OF f(1)])
  have init: "init (graph (gen_step sel early add s)) = init (graph s)" for s
    by (simp add: gen_step_def Let_def expand_fold split: prod.split)
  have "?P s"
  proof (rule while_option_rule[OF _ w, of ?P])
    show "?P (gen_start f)"
      using search_inv_start[OF node f(2)] by (simp add: gen_start_def)
    show "?P (gen_step sel early add s)" if "?P s" "worklist s \<noteq> [] \<and> \<not> returned s" for s
      using search_inv_step[OF node sel] that by (simp add: init)
  qed
  then show ?thesis
    using that s while_option_stop[OF w] by auto
qed

lemma generate_correct:
  assumes sel: "queue_top sel" and f: "nielsen_formula f" "f \<noteq> []"
    and run: "generate_from_formula sel f early add = Some (g, b)"
  shows "b \<longleftrightarrow> (\<exists>\<sigma>. sat_formula R \<sigma> f)"
proof -
  obtain s where s: "search_inv (trim_formula f) add s" "\<not> (worklist s \<noteq> [] \<and> \<not> returned s)" "is_sat s = b"
    by (rule generate_state[OF assms]) blast
  show ?thesis
    using search_inv_end[OF nielsen_node_trim[OF f(1)] s(1,2), of R] s(3) sat_trim_formula[OF f(1)] by simp
qed

lemma quadratic_trim:
  assumes "nielsen_formula f" and "is_quadratic f"
  shows "quadratic_node (trim_formula f)"
proof -
  have "formula_occurrences (trim_formula f) x \<le> formula_occurrences f x" for x
    unfolding formula_occurrences_pred_count trim_formula_def map_map
    by (rule sum_list_mono) (simp add: trim_pred_le)
  moreover have "is_variable x \<Longrightarrow> formula_occurrences f x \<le> 2" for x
    using assms(2) is_quadratic_from_iff[of "[]" f] by (auto simp: is_quadratic_def dest!: spec[of _ x])
  ultimately show ?thesis
    using nielsen_node_trim[OF assms(1)] by (auto simp: quadratic_node_def intro: order_trans)
qed

lemma generate_total:
  assumes "queue_top sel" and "nielsen_formula f" and "f \<noteq> []" and "is_quadratic f"
  shows "\<exists>g b. generate_from_formula sel f early add = Some (g, b)"
  using generate_ends[OF assms(1-3) quadratic_finite_reachable[OF quadratic_trim[OF assms(2,4)]]]
  by (auto simp: generate_from_formula_def)

text \<open>
  C6: For every quadratic formula of equations over variables and one-symbol literals, and
  whatever minimal element the priority queue hands out, the generation of the Nielsen graph
  ends, with or without early termination and edges, and it reports \<open>is_sat\<close> exactly if the
  formula has a solution.
\<close>

theorem generate_from_formula_decides:
  assumes "queue_top sel" and "nielsen_formula f" and "f \<noteq> []" and "is_quadratic f"
  shows "\<exists>g b. generate_from_formula sel f early_termination add_edges = Some (g, b) \<and>
    (b \<longleftrightarrow> (\<exists>\<sigma>. sat_formula R \<sigma> f))"
  using generate_total[OF assms] generate_correct[OF assms(1-3)] by blast

text \<open>A queue that hands out the first element of minimal cost.\<close>

fun first_minimal :: "(nat \<times> formula) list \<Rightarrow> nat" where
  "first_minimal [] = 0"
| "first_minimal [e] = 0"
| "first_minimal (e # d # es) =
     (let k = first_minimal (d # es)
      in if get_formula_cost (snd e) \<le> get_formula_cost (snd ((d # es) ! k)) then 0 else Suc k)"

lemma queue_top_first_minimal: "queue_top first_minimal"
proof -
  have "wl \<noteq> [] \<Longrightarrow> first_minimal wl < length wl \<and>
      (\<forall>e \<in> set wl. get_formula_cost (snd (wl ! first_minimal wl)) \<le> get_formula_cost (snd e))" for wl
    by (induction wl rule: first_minimal.induct) (auto simp: Let_def)
  then show ?thesis by (simp add: queue_top_def)
qed

theorem generate_from_formula_decides_witness:
  "let x = BasicTerm Variable [120]; a = BasicTerm Literal [97]; b = BasicTerm Literal [98];
       f = [create_equation [x, a] [b, x]]
   in \<exists>g r. generate_from_formula first_minimal f True False = Some (g, r) \<and>
      (r \<longleftrightarrow> (\<exists>\<sigma>. sat_formula (\<lambda>_. {}) \<sigma> f))"
  unfolding Let_def
  by (rule generate_from_formula_decides[OF queue_top_first_minimal])
     (simp_all add: nielsen_formula_def nielsen_term_def is_quadratic_def count_occurrences_def map_increment_def)

end
