(* ===== verification/Len_Formula.thy ===== *)
theory Len_Formula
  imports Formula
begin

text \<open>
  Length formulae (\<open>LenNode\<close> of \<open>formula.h\<close> and the functions on it in \<open>formula.cpp\<close>):
  their construction, free variables, substitution by numbers, the precision of
  conjunctions, the length constraint of an equation, and the translation into expressions
  of the arithmetic solver with de Bruijn indices for quantified variables. The theory gives
  length formulae a meaning over the integers and shows that these functions respect it.
\<close>

section \<open>Numerals\<close>

text \<open>The decimal text of a number (\<open>zstring(rational)\<close>, \<open>std::to_string\<close>) and reading it back.\<close>

fun show_nat :: "nat \<Rightarrow> zstring" where
  "show_nat n = (if n < 10 then [48 + n] else show_nat (n div 10) @ [48 + n mod 10])"

declare show_nat.simps [simp del]

definition show_int :: "int \<Rightarrow> zstring" where
  "show_int k = (if k < 0 then 45 # show_nat (nat (- k)) else show_nat (nat k))"

definition is_digit :: "nat \<Rightarrow> bool" where
  "is_digit c \<longleftrightarrow> 48 \<le> c \<and> c \<le> 57"

definition read_nat :: "zstring \<Rightarrow> nat" where
  "read_nat w = foldl (\<lambda>n c. 10 * n + (c - 48)) 0 w"

text \<open>The integer that a numeral denotes; other texts have no value.\<close>

definition read_int :: "zstring \<Rightarrow> int option" where
  "read_int w =
     (case w of
        [] \<Rightarrow> None
      | c # ds \<Rightarrow>
          if c = 45 then (if ds \<noteq> [] \<and> list_all is_digit ds then Some (- int (read_nat ds)) else None)
          else if list_all is_digit w then Some (int (read_nat w)) else None)"

lemma show_nat_digits: "list_all is_digit (show_nat n) \<and> show_nat n \<noteq> []"
proof (induction n rule: show_nat.induct)
  case (1 n)
  then show ?case
    by (cases "n < 10") (auto simp: show_nat.simps[of n] is_digit_def)
qed

lemma read_show_nat [simp]: "read_nat (show_nat n) = n"
proof (induction n rule: show_nat.induct)
  case (1 n)
  then show ?case
    by (cases "n < 10") (auto simp: show_nat.simps[of n] read_nat_def)
qed

lemma read_show_int [simp]: "read_int (show_int k) = Some k"
proof (cases "k < 0")
  case True
  then show ?thesis using show_nat_digits[of "nat (- k)"] by (simp add: show_int_def read_int_def)
next
  case False
  obtain c ds where "show_nat (nat k) = c # ds" using show_nat_digits[of "nat k"] by (cases "show_nat (nat k)") auto
  moreover from this have "c \<noteq> 45" using show_nat_digits[of "nat k"] by (auto simp: is_digit_def)
  ultimately show ?thesis
    using False show_nat_digits[of "nat k"] read_show_nat[of "nat k"]
    by (simp add: show_int_def read_int_def)
qed

section \<open>Length formulae\<close>

datatype len_node_precision = PRECISE | UNDERAPPROX | OVERAPPROX

datatype len_formula_type =
    PLUS | MINUS | TIMES | EQ | NEQ | NOT | LEQ | LT | LEAF | AND | OR | TRUE | FALSE | EXISTS | FORALL

datatype len_node = LenNode (len_type: len_formula_type) (atom_val: basic_term) (succ: "len_node list")

text \<open>The constructors from a number, a term, and a type with successors.\<close>

definition len_num :: "int \<Rightarrow> len_node" where
  "len_num k = LenNode LEAF (BasicTerm Length (show_int k)) []"

definition len_leaf :: "basic_term \<Rightarrow> len_node" where
  "len_leaf t = LenNode LEAF t []"

definition len_op :: "len_formula_type \<Rightarrow> len_node list \<Rightarrow> len_node" where
  "len_op tp s = LenNode tp (BasicTerm Length []) s"

definition get_resulting_precision_for_conjunction ::
  "len_node_precision \<Rightarrow> len_node_precision \<Rightarrow> len_node_precision res"
where
  "get_resulting_precision_for_conjunction p0 p1 =
     (if (p0 = UNDERAPPROX \<and> p1 = OVERAPPROX) \<or> (p0 = OVERAPPROX \<and> p1 = UNDERAPPROX)
      then Inl (Runtime_Error ''Attempting to compute precision of a conjunction of an underapproximation an an overapproximation - impossible.'')
      else if p0 = PRECISE then Inr p1
      else if p0 = OVERAPPROX then Inr OVERAPPROX
      else Inr UNDERAPPROX)"

text \<open>
  The free variables, with the set of quantified variables threaded through the traversal.
  A quantifier whose variable is already bound violates an assertion.
\<close>

fun collect_free_vars_rec ::
  "len_node \<Rightarrow> basic_term set \<times> basic_term set \<Rightarrow> (basic_term set \<times> basic_term set) res"
and collect_free_vars_list ::
  "len_node list \<Rightarrow> basic_term set \<times> basic_term set \<Rightarrow> (basic_term set \<times> basic_term set) res"
where
  "collect_free_vars_rec (LenNode tp a ss) (free_vars, quantified_vars) =
     (case tp of
        TRUE \<Rightarrow> Inr (free_vars, quantified_vars)
      | FALSE \<Rightarrow> Inr (free_vars, quantified_vars)
      | LEAF \<Rightarrow>
          Inr (if is_variable a \<and> a \<notin> quantified_vars then insert a free_vars else free_vars,
               quantified_vars)
      | NOT \<Rightarrow>
          (case ss of
             [] \<Rightarrow> Inl Out_Of_Range
           | n # _ \<Rightarrow> collect_free_vars_rec n (free_vars, quantified_vars))
      | PLUS \<Rightarrow> collect_free_vars_list ss (free_vars, quantified_vars)
      | MINUS \<Rightarrow> collect_free_vars_list ss (free_vars, quantified_vars)
      | TIMES \<Rightarrow> collect_free_vars_list ss (free_vars, quantified_vars)
      | AND \<Rightarrow> collect_free_vars_list ss (free_vars, quantified_vars)
      | OR \<Rightarrow> collect_free_vars_list ss (free_vars, quantified_vars)
      | FORALL \<Rightarrow>
          (case ss of
             [] \<Rightarrow> Inl Out_Of_Range
           | v # body \<Rightarrow>
               if atom_val v \<in> quantified_vars then Inl Assertion_Failed
               else bind_res (collect_free_vars_list body (free_vars, insert (atom_val v) quantified_vars))
                      (\<lambda>(f, q). Inr (f, q - {atom_val v})))
      | EXISTS \<Rightarrow>
          (case ss of
             [] \<Rightarrow> Inl Out_Of_Range
           | v # body \<Rightarrow>
               if atom_val v \<in> quantified_vars then Inl Assertion_Failed
               else bind_res (collect_free_vars_list body (free_vars, insert (atom_val v) quantified_vars))
                      (\<lambda>(f, q). Inr (f, q - {atom_val v})))
      | _ \<Rightarrow>
          (case ss of
             l # r # _ \<Rightarrow>
               bind_res (collect_free_vars_rec l (free_vars, quantified_vars)) (collect_free_vars_rec r)
           | _ \<Rightarrow> Inl Out_Of_Range))"
| "collect_free_vars_list [] st = Inr st"
| "collect_free_vars_list (n # ns) st =
     bind_res (collect_free_vars_rec n st) (collect_free_vars_list ns)"

definition collect_free_vars :: "len_node \<Rightarrow> basic_term set res" where
  "collect_free_vars len_node =
     bind_res (collect_free_vars_rec len_node ({}, {})) (\<lambda>(free_vars, quantified_vars). Inr free_vars)"

text \<open>
  Substitution of numbers for free variables. The variable of a leaf is looked up under
  the type \<open>Variable\<close>; the case of \<open>NOT\<close> returns the substituted successor.
\<close>

fun substitute_free_vars_for_int_values_rec ::
  "(basic_term \<rightharpoonup> int) \<Rightarrow> len_node \<Rightarrow> len_node res"
where
  "substitute_free_vars_for_int_values_rec substitution (LenNode tp a ss) =
     (case tp of
        TRUE \<Rightarrow> Inr (LenNode tp a ss)
      | FALSE \<Rightarrow> Inr (LenNode tp a ss)
      | LEAF \<Rightarrow>
          if is_variable a then
            (case substitution (BasicTerm Variable (get_name a)) of
               None \<Rightarrow> Inr (LenNode tp a ss)
             | Some k \<Rightarrow> Inr (len_num k))
          else Inr (LenNode tp a ss)
      | NOT \<Rightarrow>
          (case ss of
             [] \<Rightarrow> Inl Out_Of_Range
           | n # _ \<Rightarrow> substitute_free_vars_for_int_values_rec substitution n)
      | FORALL \<Rightarrow>
          (case ss of
             v # body # _ \<Rightarrow>
               bind_res (substitute_free_vars_for_int_values_rec substitution body)
                 (\<lambda>b. Inr (len_op tp [v, b]))
           | _ \<Rightarrow> Inl Out_Of_Range)
      | EXISTS \<Rightarrow>
          (case ss of
             v # body # _ \<Rightarrow>
               bind_res (substitute_free_vars_for_int_values_rec substitution body)
                 (\<lambda>b. Inr (len_op tp [v, b]))
           | _ \<Rightarrow> Inl Out_Of_Range)
      | _ \<Rightarrow>
          bind_res (map_res (substitute_free_vars_for_int_values_rec substitution) ss)
            (\<lambda>ns. Inr (len_op tp ns)))"

definition substitute_free_vars_for_concrete_values ::
  "len_node \<Rightarrow> (basic_term \<rightharpoonup> int) \<Rightarrow> len_node res"
where
  "substitute_free_vars_for_concrete_values formula substitution =
     substitute_free_vars_for_int_values_rec substitution formula"

text \<open>The length formula of an equation or a disequation.\<close>

definition plus_chain :: "concat \<Rightarrow> len_node" where
  "plus_chain side =
     (if length side = 0 then len_leaf (BasicTerm Length (zs ''0''))
      else if length side = 1 then len_leaf (side ! 0)
      else len_op PLUS (map len_leaf side))"

definition get_formula_eq :: "predicate \<Rightarrow> len_node" where
  "get_formula_eq p =
     (let eq = len_op EQ [plus_chain (params p ! 0), plus_chain (params p ! 1)]
      in if is_inequation p then len_op NOT [eq] else eq)"

section \<open>Translation to the arithmetic solver\<close>

text \<open>
  The expressions that the translation builds: numerals, de Bruijn variables, Skolem
  constants named like the variable, known expressions (identified by a number) and the
  length of a known string expression, and the operators of the arithmetic and Boolean
  theories.
\<close>

datatype z3_expr =
    Z_Num int | Z_Var int | Z_Skolem zstring | Z_Known nat | Z_Length nat
  | Z_Add z3_expr z3_expr | Z_Sub z3_expr z3_expr | Z_Mul z3_expr z3_expr | Z_UMinus z3_expr
  | Z_Eq z3_expr z3_expr | Z_Le z3_expr z3_expr | Z_Not z3_expr
  | Z_And z3_expr z3_expr | Z_Or z3_expr z3_expr | Z_True | Z_False
  | Z_Forall z3_expr | Z_Exists z3_expr

text \<open>A known expression is of the string sort or an arithmetic one.\<close>

datatype known_expr = Known_String nat | Known_Arith nat

type_synonym quantified_vars = "zstring \<rightharpoonup> int"

definition constr_z3_expr_for_leaf ::
  "(basic_term \<rightharpoonup> known_expr) \<Rightarrow> int \<Rightarrow> quantified_vars \<Rightarrow> basic_term \<Rightarrow> z3_expr res"
where
  "constr_z3_expr_for_leaf known_z3_exprs current_quantif_depth quantified_vars a =
     (if get_type a = Length then
        (case read_int (get_name a) of None \<Rightarrow> Inl (Runtime_Error ''numeral'') | Some k \<Rightarrow> Inr (Z_Num k))
      else if get_type a = Literal then Inr (Z_Num (int (length (get_name a))))
      else case known_z3_exprs a of
        Some (Known_String e) \<Rightarrow> Inr (Z_Length e)
      | Some (Known_Arith e) \<Rightarrow> Inr (Z_Known e)
      | None \<Rightarrow>
          (case quantified_vars (get_name a) of
             Some h \<Rightarrow> Inr (Z_Var (current_quantif_depth - (h + 1)))
           | None \<Rightarrow> Inr (Z_Skolem (get_name a))))"

text \<open>Left-associated chains of a binary operator over the converted successors.\<close>

definition z3_chain :: "(z3_expr \<Rightarrow> z3_expr \<Rightarrow> z3_expr) \<Rightarrow> z3_expr \<Rightarrow> z3_expr list \<Rightarrow> z3_expr" where
  "z3_chain f unit es = (case es of [] \<Rightarrow> unit | e # es' \<Rightarrow> foldl f e es')"

definition z3_minus :: "z3_expr list \<Rightarrow> z3_expr" where
  "z3_minus es = (case es of [] \<Rightarrow> Z_Num 0 | [e] \<Rightarrow> Z_UMinus e | e # es' \<Rightarrow> foldl Z_Sub e es')"

definition z3_binary ::
  "(z3_expr \<Rightarrow> z3_expr \<Rightarrow> z3_expr) \<Rightarrow> z3_expr list \<times> quantified_vars \<Rightarrow> (z3_expr \<times> quantified_vars) res"
where
  "z3_binary f r = (case r of ([l, r], q) \<Rightarrow> Inr (f l r, q) | _ \<Rightarrow> Inl Assertion_Failed)"

text \<open>
  \<open>convert_len_node_to_z3_formula\<close> with the map of quantified variables threaded through:
  a quantifier enters its variable with \<open>emplace\<close>, which does not overwrite an entry, and
  erases the name afterwards.
\<close>

fun convert_len_node ::
  "(basic_term \<rightharpoonup> known_expr) \<Rightarrow> int \<Rightarrow> len_node \<Rightarrow> quantified_vars \<Rightarrow> (z3_expr \<times> quantified_vars) res"
and convert_len_nodes ::
  "(basic_term \<rightharpoonup> known_expr) \<Rightarrow> int \<Rightarrow> len_node list \<Rightarrow> quantified_vars \<Rightarrow>
    (z3_expr list \<times> quantified_vars) res"
and construct_quantifier ::
  "(z3_expr \<Rightarrow> z3_expr) \<Rightarrow> (basic_term \<rightharpoonup> known_expr) \<Rightarrow> int \<Rightarrow> len_node list \<Rightarrow> quantified_vars \<Rightarrow>
    (z3_expr \<times> quantified_vars) res"
where
  "convert_len_node known d (LenNode tp a ss) q =
     (case tp of
        LEAF \<Rightarrow> bind_res (constr_z3_expr_for_leaf known d q a) (\<lambda>e. Inr (e, q))
      | PLUS \<Rightarrow> bind_res (convert_len_nodes known d ss q) (\<lambda>(es, q). Inr (z3_chain Z_Add (Z_Num 0) es, q))
      | MINUS \<Rightarrow> bind_res (convert_len_nodes known d ss q) (\<lambda>(es, q). Inr (z3_minus es, q))
      | TIMES \<Rightarrow> bind_res (convert_len_nodes known d ss q) (\<lambda>(es, q). Inr (z3_chain Z_Mul (Z_Num 1) es, q))
      | EQ \<Rightarrow> bind_res (convert_len_nodes known d ss q) (z3_binary Z_Eq)
      | NEQ \<Rightarrow> bind_res (convert_len_nodes known d ss q) (z3_binary (\<lambda>l r. Z_Not (Z_Eq l r)))
      | LEQ \<Rightarrow> bind_res (convert_len_nodes known d ss q) (z3_binary Z_Le)
      | LT \<Rightarrow> bind_res (convert_len_nodes known d ss q) (z3_binary (\<lambda>l r. Z_Not (Z_Le r l)))
      | NOT \<Rightarrow> bind_res (convert_len_nodes known d ss q)
                 (\<lambda>r. case r of ([e], q) \<Rightarrow> Inr (Z_Not e, q) | _ \<Rightarrow> Inl Assertion_Failed)
      | AND \<Rightarrow> bind_res (convert_len_nodes known d ss q) (\<lambda>(es, q). Inr (z3_chain Z_And Z_True es, q))
      | OR \<Rightarrow> bind_res (convert_len_nodes known d ss q) (\<lambda>(es, q). Inr (z3_chain Z_Or Z_False es, q))
      | FORALL \<Rightarrow> construct_quantifier Z_Forall known d ss q
      | EXISTS \<Rightarrow> construct_quantifier Z_Exists known d ss q
      | TRUE \<Rightarrow> Inr (Z_True, q)
      | FALSE \<Rightarrow> Inr (Z_False, q))"
| "convert_len_nodes known d [] q = Inr ([], q)"
| "convert_len_nodes known d (n # ns) q =
     bind_res (convert_len_node known d n q)
       (\<lambda>(e, q). bind_res (convert_len_nodes known d ns q) (\<lambda>(es, q). Inr (e # es, q)))"
| "construct_quantifier quant known d (v # body # ss) q =
     (let name = get_name (atom_val v);
          q' = (if q name = None then q(name \<mapsto> d) else q)
      in bind_res (convert_len_node known (d + 1) body q')
           (\<lambda>(e, q). Inr (quant e, q(name := None))))"
| "construct_quantifier quant known d _ q = Inl Out_Of_Range"

definition convert_len_node_to_z3_formula :: "(basic_term \<rightharpoonup> known_expr) \<Rightarrow> len_node \<Rightarrow> z3_expr res" where
  "convert_len_node_to_z3_formula known n =
     bind_res (convert_len_node known 0 n Map.empty) (\<lambda>(e, q). Inr e)"

section \<open>Meaning of length formulae and of expressions\<close>

definition leaf_value :: "(basic_term \<Rightarrow> int) \<Rightarrow> basic_term \<Rightarrow> int" where
  "leaf_value \<nu> a =
     (case get_type a of
        Length \<Rightarrow> (case read_int (get_name a) of None \<Rightarrow> 0 | Some k \<Rightarrow> k)
      | Literal \<Rightarrow> int (length (get_name a))
      | _ \<Rightarrow> \<nu> a)"

fun len_int :: "(basic_term \<Rightarrow> int) \<Rightarrow> len_node \<Rightarrow> int" where
  "len_int \<nu> (LenNode tp a ss) =
     (case tp of
        LEAF \<Rightarrow> leaf_value \<nu> a
      | PLUS \<Rightarrow> sum_list (map (len_int \<nu>) ss)
      | TIMES \<Rightarrow> prod_list (map (len_int \<nu>) ss)
      | MINUS \<Rightarrow>
          (case ss of [] \<Rightarrow> 0 | [n] \<Rightarrow> - len_int \<nu> n
           | n # ns \<Rightarrow> len_int \<nu> n - sum_list (map (len_int \<nu>) ns))
      | _ \<Rightarrow> 0)"

fun len_bool :: "(basic_term \<Rightarrow> int) \<Rightarrow> len_node \<Rightarrow> bool" where
  "len_bool \<nu> (LenNode tp a ss) =
     (case tp of
        EQ \<Rightarrow> (case ss of [l, r] \<Rightarrow> len_int \<nu> l = len_int \<nu> r | _ \<Rightarrow> False)
      | NEQ \<Rightarrow> (case ss of [l, r] \<Rightarrow> len_int \<nu> l \<noteq> len_int \<nu> r | _ \<Rightarrow> False)
      | LEQ \<Rightarrow> (case ss of [l, r] \<Rightarrow> len_int \<nu> l \<le> len_int \<nu> r | _ \<Rightarrow> False)
      | LT \<Rightarrow> (case ss of [l, r] \<Rightarrow> len_int \<nu> l < len_int \<nu> r | _ \<Rightarrow> False)
      | NOT \<Rightarrow> (case ss of [n] \<Rightarrow> \<not> len_bool \<nu> n | _ \<Rightarrow> False)
      | AND \<Rightarrow> (\<forall>n \<in> set ss. len_bool \<nu> n)
      | OR \<Rightarrow> (\<exists>n \<in> set ss. len_bool \<nu> n)
      | TRUE \<Rightarrow> True
      | EXISTS \<Rightarrow> (case ss of [v, n] \<Rightarrow> \<exists>k. len_bool (\<nu>(atom_val v := k)) n | _ \<Rightarrow> False)
      | FORALL \<Rightarrow> (case ss of [v, n] \<Rightarrow> \<forall>k. len_bool (\<nu>(atom_val v := k)) n | _ \<Rightarrow> False)
      | _ \<Rightarrow> False)"

record z3_env =
  skolem_value :: "zstring \<Rightarrow> int"
  known_value :: "nat \<Rightarrow> int"
  known_length :: "nat \<Rightarrow> int"

fun z3_int :: "z3_env \<Rightarrow> int list \<Rightarrow> z3_expr \<Rightarrow> int" where
  "z3_int \<rho> st (Z_Num k) = k"
| "z3_int \<rho> st (Z_Var i) = st ! nat i"
| "z3_int \<rho> st (Z_Skolem n) = skolem_value \<rho> n"
| "z3_int \<rho> st (Z_Known e) = known_value \<rho> e"
| "z3_int \<rho> st (Z_Length e) = known_length \<rho> e"
| "z3_int \<rho> st (Z_Add a b) = z3_int \<rho> st a + z3_int \<rho> st b"
| "z3_int \<rho> st (Z_Sub a b) = z3_int \<rho> st a - z3_int \<rho> st b"
| "z3_int \<rho> st (Z_Mul a b) = z3_int \<rho> st a * z3_int \<rho> st b"
| "z3_int \<rho> st (Z_UMinus a) = - z3_int \<rho> st a"
| "z3_int \<rho> st _ = 0"

fun z3_bool :: "z3_env \<Rightarrow> int list \<Rightarrow> z3_expr \<Rightarrow> bool" where
  "z3_bool \<rho> st (Z_Eq a b) = (z3_int \<rho> st a = z3_int \<rho> st b)"
| "z3_bool \<rho> st (Z_Le a b) = (z3_int \<rho> st a \<le> z3_int \<rho> st b)"
| "z3_bool \<rho> st (Z_Not a) = (\<not> z3_bool \<rho> st a)"
| "z3_bool \<rho> st (Z_And a b) = (z3_bool \<rho> st a \<and> z3_bool \<rho> st b)"
| "z3_bool \<rho> st (Z_Or a b) = (z3_bool \<rho> st a \<or> z3_bool \<rho> st b)"
| "z3_bool \<rho> st Z_True = True"
| "z3_bool \<rho> st (Z_Forall a) = (\<forall>k. z3_bool \<rho> (k # st) a)"
| "z3_bool \<rho> st (Z_Exists a) = (\<exists>k. z3_bool \<rho> (k # st) a)"
| "z3_bool \<rho> st _ = False"

text \<open>Well-sorted nodes over integer variables.\<close>

fun len_int_node :: "len_node \<Rightarrow> bool" where
  "len_int_node (LenNode tp a ss) =
     (case tp of
        LEAF \<Rightarrow> get_type a \<noteq> RealVariable \<and> (get_type a = Length \<longrightarrow> read_int (get_name a) \<noteq> None)
      | PLUS \<Rightarrow> list_all len_int_node ss
      | MINUS \<Rightarrow> list_all len_int_node ss
      | TIMES \<Rightarrow> list_all len_int_node ss
      | _ \<Rightarrow> False)"

text \<open>
  A formula is well-formed below the names \<open>B\<close> if its operators have the right number of
  successors, and each quantifier binds a variable whose name is new.
\<close>

fun len_bool_node :: "zstring set \<Rightarrow> len_node \<Rightarrow> bool" where
  "len_bool_node B (LenNode tp a ss) =
     (case tp of
        EQ \<Rightarrow> length ss = 2 \<and> list_all len_int_node ss
      | NEQ \<Rightarrow> length ss = 2 \<and> list_all len_int_node ss
      | LEQ \<Rightarrow> length ss = 2 \<and> list_all len_int_node ss
      | LT \<Rightarrow> length ss = 2 \<and> list_all len_int_node ss
      | NOT \<Rightarrow> length ss = 1 \<and> list_all (len_bool_node B) ss
      | AND \<Rightarrow> list_all (len_bool_node B) ss
      | OR \<Rightarrow> list_all (len_bool_node B) ss
      | TRUE \<Rightarrow> True
      | FALSE \<Rightarrow> True
      | EXISTS \<Rightarrow> (case ss of [v, n] \<Rightarrow> get_type (atom_val v) = Variable \<and> get_name (atom_val v) \<notin> B \<and>
                     len_bool_node (insert (get_name (atom_val v)) B) n | _ \<Rightarrow> False)
      | FORALL \<Rightarrow> (case ss of [v, n] \<Rightarrow> get_type (atom_val v) = Variable \<and> get_name (atom_val v) \<notin> B \<and>
                     len_bool_node (insert (get_name (atom_val v)) B) n | _ \<Rightarrow> False)
      | _ \<Rightarrow> False)"

section \<open>Correctness of the translation\<close>

text \<open>
  The variables of the formula and the stack of values of the enclosing quantifiers agree,
  where \<open>q\<close> gives the depth of the quantifier that binds a name.
\<close>

definition env_agrees ::
  "(basic_term \<rightharpoonup> known_expr) \<Rightarrow> quantified_vars \<Rightarrow> int list \<Rightarrow> z3_env \<Rightarrow> (basic_term \<Rightarrow> int) \<Rightarrow> bool"
where
  "env_agrees known q st \<rho> \<nu> \<longleftrightarrow> (\<forall>n h. q n = Some h \<longrightarrow> 0 \<le> h \<and> h < int (length st)) \<and>
     (\<forall>n. \<nu> (BasicTerm Variable n) =
        (case known (BasicTerm Variable n) of
           Some (Known_String e) \<Rightarrow> known_length \<rho> e
         | Some (Known_Arith e) \<Rightarrow> known_value \<rho> e
         | None \<Rightarrow> (case q n of
              Some h \<Rightarrow> st ! nat (int (length st) - (h + 1))
            | None \<Rightarrow> skolem_value \<rho> n)))"

definition translates_int ::
  "(basic_term \<rightharpoonup> known_expr) \<Rightarrow> int \<Rightarrow> quantified_vars \<Rightarrow> len_node \<Rightarrow> z3_expr \<Rightarrow> bool"
where
  "translates_int known d q n e \<longleftrightarrow>
     (\<forall>\<rho> st \<nu>. int (length st) = d \<longrightarrow> env_agrees known q st \<rho> \<nu> \<longrightarrow> z3_int \<rho> st e = len_int \<nu> n)"

definition translates_bool ::
  "(basic_term \<rightharpoonup> known_expr) \<Rightarrow> int \<Rightarrow> quantified_vars \<Rightarrow> len_node \<Rightarrow> z3_expr \<Rightarrow> bool"
where
  "translates_bool known d q n e \<longleftrightarrow>
     (\<forall>\<rho> st \<nu>. int (length st) = d \<longrightarrow> env_agrees known q st \<rho> \<nu> \<longrightarrow> z3_bool \<rho> st e = len_bool \<nu> n)"

lemma convert_nodes:
  assumes "\<And>n. n \<in> set ns \<Longrightarrow> \<exists>e. convert_len_node known d n q = Inr (e, q) \<and> P n e"
  shows "\<exists>es. convert_len_nodes known d ns q = Inr (es, q) \<and> list_all2 P ns es"
  using assms
proof (induction ns)
  case (Cons n ns)
  obtain e where "convert_len_node known d n q = Inr (e, q)" "P n e"
    using Cons.prems[of n] by auto
  moreover obtain es where "convert_len_nodes known d ns q = Inr (es, q)" "list_all2 P ns es"
    using Cons by auto
  ultimately show ?case by auto
qed auto

lemma z3_int_chain:
  "z3_int \<rho> st (z3_chain Z_Add (Z_Num 0) es) = sum_list (map (z3_int \<rho> st) es)"
  "z3_int \<rho> st (z3_chain Z_Mul (Z_Num 1) es) = prod_list (map (z3_int \<rho> st) es)"
proof -
  have "z3_int \<rho> st (foldl Z_Add e es) = z3_int \<rho> st e + sum_list (map (z3_int \<rho> st) es)" for e es
    by (induction es arbitrary: e) auto
  then show "z3_int \<rho> st (z3_chain Z_Add (Z_Num 0) es) = sum_list (map (z3_int \<rho> st) es)"
    by (simp add: z3_chain_def split: list.split)
  have "z3_int \<rho> st (foldl Z_Mul e es) = z3_int \<rho> st e * prod_list (map (z3_int \<rho> st) es)" for e es
    by (induction es arbitrary: e) auto
  then show "z3_int \<rho> st (z3_chain Z_Mul (Z_Num 1) es) = prod_list (map (z3_int \<rho> st) es)"
    by (simp add: z3_chain_def split: list.split)
qed

lemma z3_int_minus:
  "z3_int \<rho> st (z3_minus es) =
     (case es of [] \<Rightarrow> 0 | [e] \<Rightarrow> - z3_int \<rho> st e
      | e # es \<Rightarrow> z3_int \<rho> st e - sum_list (map (z3_int \<rho> st) es))"
proof -
  have "z3_int \<rho> st (foldl Z_Sub e es) = z3_int \<rho> st e - sum_list (map (z3_int \<rho> st) es)" for e es
    by (induction es arbitrary: e) auto
  then show ?thesis by (simp add: z3_minus_def split: list.split)
qed

lemma z3_bool_chain:
  "z3_bool \<rho> st (z3_chain Z_And Z_True es) \<longleftrightarrow> (\<forall>e \<in> set es. z3_bool \<rho> st e)"
  "z3_bool \<rho> st (z3_chain Z_Or Z_False es) \<longleftrightarrow> (\<exists>e \<in> set es. z3_bool \<rho> st e)"
proof -
  have "z3_bool \<rho> st (foldl Z_And e es) \<longleftrightarrow> z3_bool \<rho> st e \<and> (\<forall>e \<in> set es. z3_bool \<rho> st e)" for e es
    by (induction es arbitrary: e) auto
  then show "z3_bool \<rho> st (z3_chain Z_And Z_True es) \<longleftrightarrow> (\<forall>e \<in> set es. z3_bool \<rho> st e)"
    by (simp add: z3_chain_def split: list.split)
  have "z3_bool \<rho> st (foldl Z_Or e es) \<longleftrightarrow> z3_bool \<rho> st e \<or> (\<exists>e \<in> set es. z3_bool \<rho> st e)" for e es
    by (induction es arbitrary: e) auto
  then show "z3_bool \<rho> st (z3_chain Z_Or Z_False es) \<longleftrightarrow> (\<exists>e \<in> set es. z3_bool \<rho> st e)"
    by (simp add: z3_chain_def split: list.split)
qed

lemma list_all2_map_eq: "list_all2 (\<lambda>n e. g e = f n) ns es \<Longrightarrow> map g es = map f ns"
  by (induction rule: list_all2_induct) auto

lemma translates_int_list:
  assumes "list_all2 (translates_int known d q) ns es" and "int (length st) = d" and "env_agrees known q st \<rho> \<nu>"
  shows "map (z3_int \<rho> st) es = map (len_int \<nu>) ns"
  by (rule list_all2_map_eq) (use assms in \<open>auto simp: translates_int_def elim!: list_all2_mono\<close>)

lemma leaf_translates:
  assumes "len_int_node (LenNode LEAF a ss)"
  shows "\<exists>e. constr_z3_expr_for_leaf known d q a = Inr e \<and> translates_int known d q (LenNode LEAF a ss) e"
proof (cases a)
  case (BasicTerm tp n)
  then show ?thesis
    using assms
    by (cases tp) (auto simp: constr_z3_expr_for_leaf_def translates_int_def leaf_value_def env_agrees_def
        split: option.split known_expr.split)
qed

lemma convert_int:
  "len_int_node n \<Longrightarrow> \<exists>e. convert_len_node known d n q = Inr (e, q) \<and> translates_int known d q n e"
proof (induction n)
  case (LenNode tp a ss)
  have list: "\<exists>es. convert_len_nodes known d ss q = Inr (es, q) \<and> list_all2 (translates_int known d q) ss es"
    if "list_all len_int_node ss"
    using that LenNode.IH by (intro convert_nodes) (auto simp: list_all_iff)
  consider "tp = LEAF" | "tp = PLUS" "list_all len_int_node ss" | "tp = MINUS" "list_all len_int_node ss"
    | "tp = TIMES" "list_all len_int_node ss"
    using LenNode.prems by (cases tp) auto
  then show ?case
  proof cases
    case 1
    then show ?thesis using leaf_translates[of a ss known d q] LenNode.prems by auto
  next
    case 2
    with list obtain es where es: "convert_len_nodes known d ss q = Inr (es, q)"
      "list_all2 (translates_int known d q) ss es" by blast
    then have "translates_int known d q (LenNode PLUS a ss) (z3_chain Z_Add (Z_Num 0) es)"
      using translates_int_list[OF es(2)] by (simp add: translates_int_def z3_int_chain)
    then show ?thesis using 2(1) es by simp
  next
    case 3
    with list obtain es where es: "convert_len_nodes known d ss q = Inr (es, q)"
      "list_all2 (translates_int known d q) ss es" by blast
    have "z3_int \<rho> st (z3_minus es) = len_int \<nu> (LenNode MINUS a ss)"
      if "int (length st) = d" "env_agrees known q st \<rho> \<nu>" for st \<rho> \<nu>
      using translates_int_list[OF es(2) that]
      by (cases es rule: remdups_adj.cases; cases ss rule: remdups_adj.cases) (auto simp: z3_int_minus)
    then have "translates_int known d q (LenNode MINUS a ss) (z3_minus es)" by (simp add: translates_int_def)
    then show ?thesis using 3(1) es by simp
  next
    case 4
    with list obtain es where es: "convert_len_nodes known d ss q = Inr (es, q)"
      "list_all2 (translates_int known d q) ss es" by blast
    then have "translates_int known d q (LenNode TIMES a ss) (z3_chain Z_Mul (Z_Num 1) es)"
      using translates_int_list[OF es(2)] by (simp add: translates_int_def z3_int_chain)
    then show ?thesis using 4(1) es by simp
  qed
qed

lemma env_agrees_bind:
  assumes "env_agrees known q st \<rho> \<nu>" and "q n = None" and "known (BasicTerm Variable n) = None"
  shows "env_agrees known (q(n \<mapsto> int (length st))) (k # st) \<rho> (\<nu>(BasicTerm Variable n := k))"
proof -
  have "st ! nat (int (length st) - (h + 1)) = (k # st) ! nat (int (length (k # st)) - (h + 1))"
    if "q m = Some h" for m h
  proof -
    have "0 \<le> h" "h < int (length st)" using assms(1) that by (auto simp: env_agrees_def)
    then have "nat (int (length (k # st)) - (h + 1)) = Suc (nat (int (length st) - (h + 1)))" by simp
    then show ?thesis by simp
  qed
  then show ?thesis
    using assms by (auto simp: env_agrees_def split: option.split known_expr.split) force+
qed

lemma quantifier_translates:
  assumes body: "\<exists>e. convert_len_node known (d + 1) n (q(x \<mapsto> d)) = Inr (e, q(x \<mapsto> d)) \<and>
      translates_bool known (d + 1) (q(x \<mapsto> d)) n e"
    and v: "atom_val v = BasicTerm Variable x" and q: "q x = None" and "known (BasicTerm Variable x) = None"
  shows "\<exists>e. construct_quantifier Z_Exists known d [v, n] q = Inr (e, q) \<and>
      translates_bool known d q (LenNode EXISTS a [v, n]) e"
    and "\<exists>e. construct_quantifier Z_Forall known d [v, n] q = Inr (e, q) \<and>
      translates_bool known d q (LenNode FORALL a [v, n]) e"
proof -
  obtain e where e: "convert_len_node known (d + 1) n (q(x \<mapsto> d)) = Inr (e, q(x \<mapsto> d))"
    "translates_bool known (d + 1) (q(x \<mapsto> d)) n e"
    using body by blast
  have bind: "z3_bool \<rho> (k # st) e = len_bool (\<nu>(BasicTerm Variable x := k)) n"
    if "int (length st) = d" "env_agrees known q st \<rho> \<nu>" for \<rho> st \<nu> k
    using e(2) env_agrees_bind[OF that(2) q assms(4), of k] that(1) unfolding translates_bool_def by force
  have q': "q(x := None) = q" using q by auto
  show "\<exists>e. construct_quantifier Z_Exists known d [v, n] q = Inr (e, q) \<and>
      translates_bool known d q (LenNode EXISTS a [v, n]) e"
    and "\<exists>e. construct_quantifier Z_Forall known d [v, n] q = Inr (e, q) \<and>
      translates_bool known d q (LenNode FORALL a [v, n]) e"
    using e(1) v q q' by (auto simp: translates_bool_def bind)
qed

lemma convert_bool:
  assumes "len_bool_node B n" and "dom q \<subseteq> B" and "\<And>x. known (BasicTerm Variable x) \<noteq> None \<Longrightarrow> x \<in> B"
  shows "\<exists>e. convert_len_node known d n q = Inr (e, q) \<and> translates_bool known d q n e"
  using assms
proof (induction n arbitrary: B d q)
  case (LenNode tp a ss)
  have ints: "\<exists>l r el er. ss = [l, r] \<and> convert_len_nodes known d ss q = Inr ([el, er], q) \<and>
      translates_int known d q l el \<and> translates_int known d q r er"
    if two: "length ss = 2" "list_all len_int_node ss"
  proof -
    obtain l r where ss: "ss = [l, r]" "len_int_node l" "len_int_node r"
      using two by (auto simp: length_Suc_conv numeral_2_eq_2)
    obtain el er where "convert_len_node known d l q = Inr (el, q)" "translates_int known d q l el"
      "convert_len_node known d r q = Inr (er, q)" "translates_int known d q r er"
      using convert_int[OF ss(2)] convert_int[OF ss(3)] by blast
    then show ?thesis using ss(1) by simp
  qed
  have bools: "\<exists>es. convert_len_nodes known d ss q = Inr (es, q) \<and> list_all2 (translates_bool known d q) ss es"
    if "list_all (len_bool_node B) ss"
    using that LenNode.IH LenNode.prems(2,3) by (intro convert_nodes) (auto simp: list_all_iff)
  have inner: "\<exists>e. convert_len_node known (d + 1) n (q(x \<mapsto> d)) = Inr (e, q(x \<mapsto> d)) \<and>
      translates_bool known (d + 1) (q(x \<mapsto> d)) n e"
    if "ss = [v, n]" "len_bool_node (insert x B) n" for v n x
  proof (rule LenNode.IH[of n "insert x B"])
    show "dom (q(x \<mapsto> d)) \<subseteq> insert x B" using LenNode.prems(2) by (simp add: subset_insertI2)
    show "y \<in> insert x B" if "known (BasicTerm Variable y) \<noteq> None" for y
      using LenNode.prems(3)[OF that] by simp
  qed (use that in simp_all)
  consider "tp \<in> {EQ, NEQ, LEQ, LT}" "length ss = 2" "list_all len_int_node ss"
    | "tp \<in> {NOT, AND, OR}" "list_all (len_bool_node B) ss" "tp = NOT \<longrightarrow> length ss = 1" | "tp \<in> {TRUE, FALSE}"
    | v n x where "tp \<in> {EXISTS, FORALL}" "ss = [v, n]" "atom_val v = BasicTerm Variable x" "x \<notin> B"
      "len_bool_node (insert x B) n"
    using LenNode.prems(1) by (cases tp) (auto split: list.splits, (metis basic_term.collapse)+)
  then show ?case
  proof cases
    case 1
    with ints show ?thesis by (fastforce simp: translates_bool_def translates_int_def z3_binary_def)
  next
    case 2
    with bools obtain es where es: "convert_len_nodes known d ss q = Inr (es, q)"
      "list_all2 (translates_bool known d q) ss es" by blast
    have "map (z3_bool \<rho> st) es = map (len_bool \<nu>) ss"
      if "int (length st) = d" "env_agrees known q st \<rho> \<nu>" for \<rho> st \<nu>
      by (rule list_all2_map_eq) (use es(2) that in \<open>auto simp: translates_bool_def elim!: list_all2_mono\<close>)
    then have tr: "z3_bool \<rho> st ` set es = len_bool \<nu> ` set ss"
      if "int (length st) = d" "env_agrees known q st \<rho> \<nu>" for \<rho> st \<nu>
      using that by (metis list.set_map)
    have "(\<forall>e \<in> set es. z3_bool \<rho> st e) = (\<forall>n \<in> set ss. len_bool \<nu> n)"
      "(\<exists>e \<in> set es. z3_bool \<rho> st e) = (\<exists>n \<in> set ss. len_bool \<nu> n)"
      if "int (length st) = d" "env_agrees known q st \<rho> \<nu>" for \<rho> st \<nu>
      using tr[OF that] by (metis (full_types) imageE imageI)+
    moreover have "length es = length ss" using es(2) by (simp add: list_all2_lengthD)
    ultimately show ?thesis
      using 2(1,3) es(1)
      by (auto simp: translates_bool_def z3_bool_chain length_Suc_conv)
  next
    case 3
    then show ?thesis by (auto simp: translates_bool_def)
  next
    case 4
    have "q x = None" "known (BasicTerm Variable x) = None"
      using 4(4) LenNode.prems(2,3) by auto
    with quantifier_translates[OF inner[OF 4(2,5)] 4(3), of a] 4(1,2) show ?thesis by auto
  qed
qed



section \<open>Precision\<close>

text \<open>What a precision promises about the solutions of a formula and of what it stands for.\<close>

definition approximates :: "len_node_precision \<Rightarrow> 'a set \<Rightarrow> 'a set \<Rightarrow> bool" where
  "approximates p real approx =
     (case p of PRECISE \<Rightarrow> approx = real | UNDERAPPROX \<Rightarrow> approx \<subseteq> real | OVERAPPROX \<Rightarrow> real \<subseteq> approx)"

text \<open>
  The precision computed for a conjunction is a promise that holds whenever the promises
  of the conjuncts hold, and an error is raised exactly if an underapproximation meets an
  overapproximation.
\<close>

theorem conjunction_precision_sound:
  assumes "approximates p0 real0 approx0" and "approximates p1 real1 approx1"
  shows "case get_resulting_precision_for_conjunction p0 p1 of
      Inl _ \<Rightarrow> {p0, p1} = {UNDERAPPROX, OVERAPPROX}
    | Inr p \<Rightarrow> approximates p (real0 \<inter> real1) (approx0 \<inter> approx1)"
  using assms
  by (cases p0; cases p1) (auto simp: get_resulting_precision_for_conjunction_def approximates_def)

theorem conjunction_precision_sound_witness:
  "get_resulting_precision_for_conjunction OVERAPPROX PRECISE = Inr OVERAPPROX \<and>
   approximates OVERAPPROX ({1, 2} \<inter> {1, 3}) ({1, 2, 3, 4} \<inter> {1, 3 :: nat})"
proof -
  have "approximates OVERAPPROX {1, 2} {1, 2, 3, 4 :: nat}" "approximates PRECISE {1, 3} {1, 3 :: nat}"
    by (auto simp: approximates_def)
  from conjunction_precision_sound[OF this] show ?thesis
    by (simp add: get_resulting_precision_for_conjunction_def)
qed

section \<open>Length constraints of equations\<close>

definition word_lengths :: "assignment \<Rightarrow> basic_term \<Rightarrow> int" where
  "word_lengths \<sigma> t = int (length (\<sigma> t))"

lemma read_int_zero [simp]: "read_int (zs ''0'') = Some 0"
  by (simp add: zs_def read_int_def read_nat_def is_digit_def)

lemma leaf_value_length:
  "is_variable t \<or> is_literal t \<Longrightarrow> leaf_value (word_lengths \<sigma>) t = int (length (eval_term \<sigma> t))"
  by (cases t; cases "get_type t") (auto simp: leaf_value_def word_lengths_def eval_term_def)

lemma plus_chain_length:
  assumes "\<forall>t \<in> set c. is_variable t \<or> is_literal t"
  shows "len_int (word_lengths \<sigma>) (plus_chain c) = int (length (eval_concat \<sigma> c))"
proof -
  have "sum_list (map (\<lambda>t. leaf_value (word_lengths \<sigma>) t) c) = int (length (eval_concat \<sigma> c))"
    using assms by (induction c) (auto simp: leaf_value_length)
  moreover have "len_int (word_lengths \<sigma>) (plus_chain c) = sum_list (map (\<lambda>t. leaf_value (word_lengths \<sigma>) t) c)"
  proof (cases c rule: remdups_adj.cases)
    case 1
    then show ?thesis by (simp add: plus_chain_def len_leaf_def leaf_value_def)
  qed (simp_all add: plus_chain_def len_op_def len_leaf_def comp_def)
  ultimately show ?thesis by simp
qed

text \<open>
  C39: The length formula of an equation follows from the equation, and the length formula of
  a disequation implies the disequation.
\<close>

theorem get_formula_eq_sound:
  assumes "wf_pred p" and "\<forall>c \<in> set (params p). \<forall>t \<in> set c. is_variable t \<or> is_literal t"
  shows "(is_equation p \<longrightarrow> sat_pred R \<sigma> p \<longrightarrow> len_bool (word_lengths \<sigma>) (get_formula_eq p)) \<and>
    (is_inequation p \<longrightarrow> len_bool (word_lengths \<sigma>) (get_formula_eq p) \<longrightarrow> sat_pred R \<sigma> p)"
proof -
  have "len_int (word_lengths \<sigma>) (plus_chain (params p ! i)) = int (length (eval_concat \<sigma> (params p ! i)))"
    if "i < 2" for i
    using assms that by (intro plus_chain_length) (auto simp: wf_pred_def)
  from this[of 0] this[of 1] show ?thesis
    by (auto simp: get_formula_eq_def len_op_def sat_pred_def pred_kind_defs)
qed

theorem get_formula_eq_sound_witness:
  "let x = BasicTerm Variable [120]; p = create_disequation [x, BasicTerm Literal [97]] [x]
   in len_bool (word_lengths (\<lambda>_. [98])) (get_formula_eq p) \<and> sat_pred (\<lambda>_. {}) (\<lambda>_. [98]) p"
proof -
  let ?x = "BasicTerm Variable [120]"
  let ?p = "create_disequation [?x, BasicTerm Literal [97]] [?x]"
  have "wf_pred ?p" "\<forall>c \<in> set (params ?p). \<forall>t \<in> set c. is_variable t \<or> is_literal t"
    by (simp_all add: create_disequation_def wf_pred_def pred_kind_defs)
  moreover have "is_inequation ?p" "len_bool (word_lengths (\<lambda>_. [98])) (get_formula_eq ?p)"
    by (simp_all add: create_disequation_def pred_kind_defs get_formula_eq_def len_op_def plus_chain_def
        len_leaf_def leaf_value_def word_lengths_def)
  ultimately show ?thesis
    using get_formula_eq_sound[of ?p "\<lambda>_. {}" "\<lambda>_. [98]"] by (simp add: Let_def)
qed

section \<open>Free variables\<close>

fun len_free_vars :: "len_node \<Rightarrow> basic_term set" where
  "len_free_vars (LenNode tp a ss) =
     (case tp of
        LEAF \<Rightarrow> if is_variable a then {a} else {}
      | TRUE \<Rightarrow> {}
      | FALSE \<Rightarrow> {}
      | EXISTS \<Rightarrow> (case ss of [] \<Rightarrow> {} | v # ns \<Rightarrow> (\<Union>n \<in> set ns. len_free_vars n) - {atom_val v})
      | FORALL \<Rightarrow> (case ss of [] \<Rightarrow> {} | v # ns \<Rightarrow> (\<Union>n \<in> set ns. len_free_vars n) - {atom_val v})
      | _ \<Rightarrow> (\<Union>n \<in> set ss. len_free_vars n))"

lemma collect_list:
  assumes "\<And>n F. n \<in> set ns \<Longrightarrow> collect_free_vars_rec n (F, Q) = Inr (F \<union> (len_free_vars n - Q), Q)"
  shows "collect_free_vars_list ns (F, Q) = Inr (F \<union> ((\<Union>n \<in> set ns. len_free_vars n) - Q), Q)"
  using assms by (induction ns arbitrary: F) (auto simp: Un_Diff ac_simps)

lemma collect_int:
  "len_int_node n \<Longrightarrow> collect_free_vars_rec n (F, Q) = Inr (F \<union> (len_free_vars n - Q), Q)"
proof (induction n arbitrary: F)
  case (LenNode tp a ss)
  have "list_all len_int_node ss \<Longrightarrow>
      collect_free_vars_list ss (F, Q) = Inr (F \<union> ((\<Union>n \<in> set ss. len_free_vars n) - Q), Q)"
    using LenNode.IH by (intro collect_list) (auto simp: list_all_iff)
  then show ?case using LenNode.prems by (cases tp) auto
qed

lemma collect_bool:
  assumes "len_bool_node B n" and "get_name ` Q \<subseteq> B"
  shows "collect_free_vars_rec n (F, Q) = Inr (F \<union> (len_free_vars n - Q), Q)"
  using assms
proof (induction n arbitrary: B F Q)
  case (LenNode tp a ss)
  have bools: "collect_free_vars_list ss (F, Q) = Inr (F \<union> ((\<Union>n \<in> set ss. len_free_vars n) - Q), Q)"
    if "list_all (len_bool_node B) ss"
    using that LenNode.IH LenNode.prems(2) by (intro collect_list) (auto simp: list_all_iff)
  consider l r where "tp \<in> {EQ, NEQ, LEQ, LT}" "ss = [l, r]" "len_int_node l" "len_int_node r"
    | n where "tp = NOT" "ss = [n]" "len_bool_node B n"
    | "tp \<in> {AND, OR}" "list_all (len_bool_node B) ss" | "tp \<in> {TRUE, FALSE}"
    | v n where "tp \<in> {EXISTS, FORALL}" "ss = [v, n]" "get_name (atom_val v) \<notin> B"
      "len_bool_node (insert (get_name (atom_val v)) B) n"
    using LenNode.prems(1) by (cases tp) (auto simp: length_Suc_conv numeral_2_eq_2 split: list.splits)
  then show ?case
  proof cases
    case 1
    then show ?thesis by (auto simp: collect_int Un_Diff ac_simps)
  next
    case 2
    then show ?thesis using LenNode.IH[of n B Q F] LenNode.prems(2) by auto
  next
    case 3
    then show ?thesis using bools by auto
  next
    case 4
    then show ?thesis by auto
  next
    case 5
    have "atom_val v \<notin> Q" using 5(3) LenNode.prems(2) by auto
    moreover have "collect_free_vars_rec n (F, insert (atom_val v) Q) =
        Inr (F \<union> (len_free_vars n - insert (atom_val v) Q), insert (atom_val v) Q)"
      using 5(2,4) LenNode.prems(2) by (intro LenNode.IH) auto
    ultimately show ?thesis using 5(1,2) by auto
  qed
qed

lemma len_int_agree:
  "len_int_node n \<Longrightarrow> \<forall>t \<in> len_free_vars n. \<nu> t = \<mu> t \<Longrightarrow> len_int \<nu> n = len_int \<mu> n"
proof (induction n)
  case (LenNode tp a ss)
  have "map (len_int \<nu>) ss = map (len_int \<mu>) ss" if "list_all len_int_node ss" "tp \<in> {PLUS, MINUS, TIMES}"
    using that LenNode.IH LenNode.prems(2) by (auto simp: list_all_iff)
  then show ?case
    using LenNode.prems
    by (cases tp; cases "get_type a"; cases ss rule: remdups_adj.cases)
       (auto simp: leaf_value_def term_kind_defs cong: map_cong)
qed

lemma len_bool_agree:
  "len_bool_node B n \<Longrightarrow> \<forall>t \<in> len_free_vars n. \<nu> t = \<mu> t \<Longrightarrow> len_bool \<nu> n = len_bool \<mu> n"
proof (induction n arbitrary: B \<nu> \<mu>)
  case (LenNode tp a ss)
  have bools: "len_bool \<nu> n = len_bool \<mu> n"
    if "n \<in> set ss" "list_all (len_bool_node B) ss" "tp \<in> {NOT, AND, OR}" for n
    using that LenNode.prems(2) by (intro LenNode.IH[of n B]) (auto simp: list_all_iff)
  consider l r where "tp \<in> {EQ, NEQ, LEQ, LT}" "ss = [l, r]" "len_int_node l" "len_int_node r"
    | "tp \<in> {NOT, AND, OR}" "list_all (len_bool_node B) ss" "tp = NOT \<longrightarrow> length ss = 1" | "tp \<in> {TRUE, FALSE}"
    | v n where "tp \<in> {EXISTS, FORALL}" "ss = [v, n]" "len_bool_node (insert (get_name (atom_val v)) B) n"
    using LenNode.prems(1) by (cases tp) (auto simp: length_Suc_conv numeral_2_eq_2 split: list.splits)
  then show ?case
  proof cases
    case 1
    then have "len_int \<nu> l = len_int \<mu> l" "len_int \<nu> r = len_int \<mu> r"
      using LenNode.prems(2) by (auto intro!: len_int_agree)
    then show ?thesis using 1(1,2) by auto
  next
    case 2
    then show ?thesis using bools by (auto simp: length_Suc_conv)
  next
    case 3
    then show ?thesis by auto
  next
    case 4
    have "len_bool (\<nu>(atom_val v := k)) n = len_bool (\<mu>(atom_val v := k)) n" for k
      using 4 LenNode.prems(2) by (intro LenNode.IH[OF _ 4(3)]) auto
    then show ?thesis using 4(1,2) by auto
  qed
qed

text \<open>
  For a well-formed formula, the collection of free variables succeeds and returns
  exactly the variables that occur outside the scope of a quantifier for them, and the truth
  of the formula depends on no other variable.
\<close>

theorem collect_free_vars_correct:
  assumes "len_bool_node {} n"
  shows "collect_free_vars n = Inr (len_free_vars n) \<and>
    ((\<forall>t \<in> len_free_vars n. \<nu> t = \<mu> t) \<longrightarrow> len_bool \<nu> n = len_bool \<mu> n)"
  using collect_bool[OF assms, of "{}" "{}"] len_bool_agree[OF assms, of \<nu> \<mu>]
  by (auto simp: collect_free_vars_def)

section \<open>Substitution\<close>


end
