(* ===== verification/Fresh_Vars.thy ===== *)
theory Fresh_Vars
  imports Len_Formula
begin

text \<open>
  Internal and fresh variables of the solver (\<open>util.h\<close>), and the meaning of the length terms
  that the procedures build from them.
\<close>

text \<open>
  \<open>mk_noodler_var_fresh\<close> numbers the variables of each name; its static map is part of the
  state. The counters are natural numbers: the model does not cover runs that create
  \<open>2^32\<close> variables of one name, where the counter of the code starts again.
\<close>

type_synonym fresh_ids = "(zstring \<times> nat) list"

definition mk_internal_noodler_var :: "zstring \<Rightarrow> basic_term" where
  "mk_internal_noodler_var name = BasicTerm Variable (zs ''@'' @ name)"

definition mk_noodler_var_fresh :: "zstring \<Rightarrow> fresh_ids \<Rightarrow> basic_term \<times> fresh_ids" where
  "mk_noodler_var_fresh name ids =
     (mk_internal_noodler_var (name @ zs ''!n'' @ show_nat (count_at ids name)), map_increment name ids)"

lemma len_int_simps [simp]:
  "len_int \<nu> (len_num k) = k"
  "get_type t = Variable \<or> get_type t = RealVariable \<Longrightarrow> len_int \<nu> (len_leaf t) = \<nu> t"
  by (auto simp: len_num_def len_leaf_def leaf_value_def)

lemma len_op_simps [simp]:
  "len_int \<nu> (len_op PLUS [a, b]) = len_int \<nu> a + len_int \<nu> b"
  "len_int \<nu> (len_op TIMES [a, b]) = len_int \<nu> a * len_int \<nu> b"
  "len_bool \<nu> (len_op EQ [a, b]) \<longleftrightarrow> len_int \<nu> a = len_int \<nu> b"
  "len_bool \<nu> (len_op LEQ [a, b]) \<longleftrightarrow> len_int \<nu> a \<le> len_int \<nu> b"
  by (simp_all add: len_op_def)

lemma fresh_var_is_variable [simp]: "get_type (fst (mk_noodler_var_fresh name ids)) = Variable"
  by (simp add: mk_noodler_var_fresh_def mk_internal_noodler_var_def)

lemma fresh_name_inject:
  assumes "name @ zs ''!n'' @ show_nat i = name' @ zs ''!n'' @ show_nat j"
  shows "name = name' \<and> i = j"
proof -
  have suffix: "takeWhile is_digit (rev (n @ zs ''!n'' @ show_nat k)) = rev (show_nat k)" for n k
    using show_nat_digits[of k] by (simp add: takeWhile_append list_all_iff zs_def is_digit_def)
  have "rev (show_nat i) = rev (show_nat j)" using suffix assms by metis
  then have "show_nat i = show_nat j" by simp
  then have "i = j" by (metis read_show_nat)
  then show ?thesis using assms by simp
qed

lemma mk_noodler_var_fresh_inject:
  assumes "fst (mk_noodler_var_fresh name ids) = fst (mk_noodler_var_fresh name' ids')"
  shows "name = name' \<and> count_at ids name = count_at ids' name'"
proof (rule fresh_name_inject)
  show "name @ zs ''!n'' @ show_nat (count_at ids name) = name' @ zs ''!n'' @ show_nat (count_at ids' name')"
    using assms by (simp add: mk_noodler_var_fresh_def mk_internal_noodler_var_def)
qed

text \<open>A sequence of calls with the given names.\<close>

fun mk_fresh_vars :: "zstring list \<Rightarrow> fresh_ids \<Rightarrow> basic_term list \<times> fresh_ids" where
  "mk_fresh_vars [] ids = ([], ids)"
| "mk_fresh_vars (name # names) ids =
     (let (v, ids) = mk_noodler_var_fresh name ids; (vs, ids) = mk_fresh_vars names ids
      in (v # vs, ids))"

lemma count_at_increment: "count_at (map_increment k ids) x = count_at ids x + (if x = k then 1 else 0)"
  using count_at_fold[of "[k]" ids x] by simp

lemma mk_fresh_vars_later:
  "v \<in> set (fst (mk_fresh_vars names ids)) \<Longrightarrow>
     \<exists>name ids'. v = fst (mk_noodler_var_fresh name ids') \<and> count_at ids name \<le> count_at ids' name"
proof (induction names arbitrary: ids)
  case (Cons name names)
  let ?ids = "map_increment name ids"
  consider "v = fst (mk_noodler_var_fresh name ids)" | "v \<in> set (fst (mk_fresh_vars names ?ids))"
    using Cons.prems by (auto simp: Let_def mk_noodler_var_fresh_def split: prod.splits)
  then show ?case
  proof cases
    case 2
    then obtain n ids' where "v = fst (mk_noodler_var_fresh n ids')" "count_at ?ids n \<le> count_at ids' n"
      using Cons.IH by blast
    moreover have "count_at ids n \<le> count_at ?ids n" by (simp add: count_at_increment)
    ultimately show ?thesis using order_trans by blast
  qed blast
qed simp

text \<open>
  \<open>mk_noodler_var_fresh\<close> never returns a variable twice: in every sequence of calls, with
  any names and from any state of the counters, all returned variables are different.
\<close>

theorem fresh_vars_distinct: "distinct (fst (mk_fresh_vars names ids))"
proof (induction names arbitrary: ids)
  case (Cons name names)
  let ?ids = "map_increment name ids"
  have split: "fst (mk_fresh_vars (name # names) ids) =
      fst (mk_noodler_var_fresh name ids) # fst (mk_fresh_vars names ?ids)"
    by (simp add: Let_def mk_noodler_var_fresh_def split: prod.splits)
  have "fst (mk_noodler_var_fresh name ids) \<notin> set (fst (mk_fresh_vars names ?ids))"
  proof
    assume "fst (mk_noodler_var_fresh name ids) \<in> set (fst (mk_fresh_vars names ?ids))"
    then obtain n ids' where n: "fst (mk_noodler_var_fresh name ids) = fst (mk_noodler_var_fresh n ids')"
        "count_at ?ids n \<le> count_at ids' n"
      using mk_fresh_vars_later by blast
    then show False using mk_noodler_var_fresh_inject[OF n(1)] by (auto simp: count_at_increment)
  qed
  then show ?case using Cons unfolding split by simp
qed simp

end
