(* ===== verification/Nielsen_Counter.thy ===== *)
theory Nielsen_Counter
  imports Nielsen_Search Fresh_Vars
begin

text \<open>
  Counter systems of the Nielsen procedure: a Nielsen graph with reversed edges whose labels
  say how the length of a variable grows, their condensation, the self-loops on
  length-sensitive variables, and the length formula and model generator of a path with
  self-loops. The main result is that the words generated from a solution of the length
  formula solve the equations and have the lengths that the solution gives.
\<close>

section \<open>Counter labels\<close>

datatype counter_label = CounterLabel (cl_left: basic_term) (cl_sum: concat) (cl_rule: nielsen_label)

definition counter_label_lt :: "counter_label \<Rightarrow> counter_label \<Rightarrow> bool" where
  "counter_label_lt lhs rhs \<longleftrightarrow>
     (if cl_left lhs < cl_left rhs then True
      else if cl_left lhs = cl_left rhs then
        (if cl_sum lhs < cl_sum rhs then True
         else if cl_sum lhs = cl_sum rhs then cl_rule lhs < cl_rule rhs else False)
      else False)"

instantiation counter_label :: linorder
begin

definition less_counter_label :: "counter_label \<Rightarrow> counter_label \<Rightarrow> bool" where
  "less_counter_label = counter_label_lt"

definition less_eq_counter_label :: "counter_label \<Rightarrow> counter_label \<Rightarrow> bool" where
  "less_eq_counter_label lhs rhs \<longleftrightarrow> lhs = rhs \<or> lhs < rhs"

instance
proof
  fix x y z :: counter_label
  show "x < y \<longleftrightarrow> x \<le> y \<and> \<not> y \<le> x"
    by (auto simp: less_counter_label_def counter_label_lt_def less_eq_counter_label_def split: if_splits)
  show "x \<le> x"
    by (simp add: less_eq_counter_label_def)
  show "x \<le> z" if "x \<le> y" and "y \<le> z"
    using that by (auto simp: less_counter_label_def counter_label_lt_def less_eq_counter_label_def split: if_splits)
  show "x = y" if "x \<le> y" and "y \<le> x"
    using that by (auto simp: less_counter_label_def counter_label_lt_def less_eq_counter_label_def split: if_splits)
  show "x \<le> y \<or> y \<le> x"
    by (cases x; cases y) (auto simp: less_counter_label_def counter_label_lt_def less_eq_counter_label_def)
qed

end

type_synonym counter_system = "counter_label tgraph"

text \<open>
  The label of a rule: \<open>x := 0\<close> for an erased variable, \<open>x := x + 1\<close> for a literal,
  \<open>x := x + y\<close> for a variable. A rule of another shape is reported as a failure.
\<close>

definition conv_label :: "nielsen_label \<Rightarrow> counter_label option" where
  "conv_label lab =
     (if length (snd lab) = 0 then Some (CounterLabel (fst lab) [BasicTerm Length (zs ''0'')] lab)
      else if length (snd lab) = 2 \<and> is_literal (snd lab ! 0)
        then Some (CounterLabel (fst lab) [snd lab ! 1, BasicTerm Length (zs ''1'')] lab)
      else if length (snd lab) = 2 \<and> is_variable (snd lab ! 0)
        then Some (CounterLabel (fst lab) [snd lab ! 1, snd lab ! 0] lab)
      else None)"

definition create_counter_system :: "nielsen_label tgraph \<Rightarrow> counter_system option" where
  "create_counter_system g =
     fold (\<lambda>(source, target, lab) r.
             case r of None \<Rightarrow> None
             | Some cs \<Rightarrow> (case conv_label lab of None \<Rightarrow> None | Some c \<Rightarrow> Some (add_edge target source c cs)))
       (edges g) (Some (add_fin (init g) (fold set_init (fins g) empty_graph)))"

text \<open>\<open>std::stoi\<close> on a numeral; \<open>int\<close> has 32 bits.\<close>

definition fits_int32 :: "int \<Rightarrow> bool" where
  "fits_int32 k \<longleftrightarrow> - (2 ^ 31) \<le> k \<and> k < 2 ^ 31"

definition stoi :: "zstring \<Rightarrow> int res" where
  "stoi w =
     (case read_int w of
        None \<Rightarrow> Inl (Runtime_Error ''stoi'')
      | Some k \<Rightarrow> if fits_int32 k then Inr k else Inl Out_Of_Range)"

definition join_nielsen_label :: "nielsen_label \<Rightarrow> nielsen_label \<Rightarrow> nielsen_label" where
  "join_nielsen_label l1 l2 = (fst l1, butlast (snd l1) @ snd l2)"

text \<open>Two labels \<open>x := x + k\<close> and \<open>x := x + l\<close> are joined to \<open>x := x + (k + l)\<close>.\<close>

definition join_counter_label :: "counter_label \<Rightarrow> counter_label \<Rightarrow> counter_label option res" where
  "join_counter_label l1 l2 =
     (if cl_left l1 = cl_left l2 \<and> length (cl_sum l2) = length (cl_sum l1) \<and> length (cl_sum l2) = 2 \<and>
         get_type (cl_sum l1 ! 1) = Length \<and> get_type (cl_sum l2 ! 1) = Length
      then bind_res (stoi (get_name (cl_sum l1 ! 1))) (\<lambda>a.
           bind_res (stoi (get_name (cl_sum l2 ! 1))) (\<lambda>b.
             if fits_int32 (a + b)
             then Inr (Some (CounterLabel (cl_left l1)
                    [cl_sum l1 ! 0, BasicTerm Length (show_int (a + b))]
                    (join_nielsen_label (cl_rule l2) (cl_rule l1))))
             else Inl Out_Of_Range))
      else Inr None)"

text \<open>
  \<open>condensate_counter_system\<close> collects the joined edges over all pairs of consecutive edges
  and adds them.
\<close>

definition joined_edges :: "counter_system \<Rightarrow> (formula \<times> formula \<times> counter_label option) list res" where
  "joined_edges cs =
     map_res (\<lambda>(fl, last_node, mid_lab, last_lab).
                bind_res (join_counter_label mid_lab last_lab) (\<lambda>r. Inr (fl, last_node, r)))
       (concat (map (\<lambda>fl. concat (map (\<lambda>(mid, mid_lab).
          map (\<lambda>(last_node, last_lab). (fl, last_node, mid_lab, last_lab)) (edges_from cs mid))
          (edges_from cs fl))) (nodes cs)))"

definition condensate_counter_system :: "counter_system \<Rightarrow> counter_system res" where
  "condensate_counter_system cs =
     bind_res (joined_edges cs)
       (\<lambda>es. Inr (fold (\<lambda>(fl, last_node, lab). add_edge fl last_node lab)
          (sset_of (concat (map (\<lambda>(fl, last_node, r).
              case r of None \<Rightarrow> [] | Some lab \<Rightarrow> [(fl, last_node, lab)]) es))) cs))"

text \<open>
  Self-loops of the form \<open>x := x + k\<close> on a length-sensitive variable; the label of a loop is
  read at its second summand.
\<close>

definition find_self_loops :: "basic_term set \<Rightarrow> counter_system \<Rightarrow> (formula \<times> counter_label) list res" where
  "find_self_loops len_vars cs =
     bind_res (map_res (\<lambda>(node, target, lab).
                 if target = node then
                   if length (cl_sum lab) < 2 then Inl Out_Of_Range
                   else Inr (if get_type (cl_sum lab ! 1) = Length \<and> cl_left lab \<in> len_vars
                             then [(node, lab)] else [])
                 else Inr [])
               (concat (map (\<lambda>node. map (\<lambda>(t, l). (node, t, l)) (edges_from cs node)) (nodes cs))))
       (\<lambda>ls. Inr (sset_of (concat ls)))"

definition get_length_path :: "counter_system \<Rightarrow> formula \<times> counter_label \<Rightarrow> counter_label path option" where
  "get_length_path cs sl =
     (case (shortest_path cs (init cs) (fst sl), shortest_path cs (fst sl) (hd (fins cs))) of
        (Some p, Some q) \<Rightarrow>
          (let r = path_append p q
           in Some (r\<lparr>self_loops := map_insert (fst sl) (snd sl) (self_loops r)\<rparr>))
      | _ \<Rightarrow> None)"

section \<open>Fresh variables and length formulae\<close>

text \<open>
  The state of the construction of a length formula: the current length variable of each
  string variable, the fresh counters, the conjuncts and the model generator.
\<close>

type_synonym model_label = "nielsen_label \<times> basic_term"
type_synonym model_generator = "model_label list"

record len_state =
  var_map :: "(basic_term \<times> basic_term) list"
  fresh :: fresh_ids
  conjuncts :: "len_node list"
  model_path :: model_generator

definition push_conjunct :: "len_node \<Rightarrow> len_state \<Rightarrow> len_state" where
  "push_conjunct n s = s\<lparr>conjuncts := conjuncts s @ [n]\<rparr>"

definition fresh_var :: "zstring \<Rightarrow> len_state \<Rightarrow> basic_term \<times> len_state" where
  "fresh_var name s =
     (let (v, ids) = mk_noodler_var_fresh name (fresh s) in (v, s\<lparr>fresh := ids\<rparr>))"

text \<open>
  The recursive call of \<open>get_label_formula\<close> with the label \<open>x := 0\<close>, and the entry it leaves
  in the map for a variable that has none.
\<close>

definition ensure_var :: "basic_term \<Rightarrow> len_state \<Rightarrow> len_state" where
  "ensure_var x s =
     (if map_of (var_map s) x = None then
        let (tmp, s) = fresh_var (get_name x) s;
            s = push_conjunct (len_op EQ [len_leaf tmp, len_num 0]) s
        in s\<lparr>var_map := map_put x tmp (var_map s)\<rparr>
      else s)"

definition get_label_formula :: "counter_label \<Rightarrow> len_state \<Rightarrow> (basic_term \<times> len_state) res" where
  "get_label_formula lab s =
     (let (out_var, s) = fresh_var (get_name (cl_left lab)) s in
      if length (cl_sum lab) = 1 then
        bind_res (stoi (get_name (cl_sum lab ! 0))) (\<lambda>val.
          Inr (out_var, push_conjunct (len_op EQ [len_leaf out_var, len_num val]) s))
      else if length (cl_sum lab) = 0 then Inl Out_Of_Range
      else if \<not> is_variable (cl_sum lab ! 1) then
        bind_res (stoi (get_name (cl_sum lab ! 1))) (\<lambda>val.
          let s = ensure_var (cl_left lab) s in
          case map_of (var_map s) (cl_left lab) of
            None \<Rightarrow> Inl Out_Of_Range
          | Some v \<Rightarrow> Inr (out_var, push_conjunct
              (len_op EQ [len_leaf out_var, len_op PLUS [len_leaf v, len_num val]]) s))
      else
        let s = ensure_var (cl_sum lab ! 1) s in
        case (map_of (var_map s) (cl_left lab), map_of (var_map s) (cl_sum lab ! 1)) of
          (Some v, Some w) \<Rightarrow> Inr (out_var, push_conjunct
            (len_op EQ [len_leaf out_var, len_op PLUS [len_leaf v, len_leaf w]]) s)
        | _ \<Rightarrow> Inl Out_Of_Range)"

text \<open>The self-loop \<open>x := x + k\<close> taken \<open>j\<close> times; other loops are not supported.\<close>

definition get_label_sl_formula :: "counter_label \<Rightarrow> len_state \<Rightarrow> (basic_term \<times> len_state) option res" where
  "get_label_sl_formula lab s =
     (let (out_var, s) = fresh_var (get_name (cl_left lab)) s in
      if length (cl_sum lab) = 1 then Inr None
      else if length (cl_sum lab) = 0 then Inl Out_Of_Range
      else if \<not> is_variable (cl_sum lab ! 1) then
        bind_res (stoi (get_name (cl_sum lab ! 1))) (\<lambda>val.
          let (j, s) = fresh_var (zs ''j'') s in
          case map_of (var_map s) (cl_left lab) of
            None \<Rightarrow> Inl Out_Of_Range
          | Some v \<Rightarrow> Inr (Some (out_var,
              push_conjunct (len_op LEQ [len_num 0, len_leaf j])
                (push_conjunct (len_op EQ [len_leaf out_var,
                   len_op PLUS [len_leaf v, len_op TIMES [len_leaf j, len_num val]]]) s))))
      else Inr None)"

text \<open>
  One iteration of \<open>length_formula_path\<close>: the label into a node, then the self-loop of the
  node. The iteration counter of the loop is the variable of the last conjunct.
\<close>

definition length_formula_node ::
  "(formula \<times> counter_label) list \<Rightarrow> formula \<Rightarrow> counter_label \<Rightarrow> len_state \<Rightarrow> len_state option res"
where
  "length_formula_node loops node lab s =
     bind_res (get_label_formula lab s) (\<lambda>(out_var, s).
       let s = s\<lparr>var_map := map_put (cl_left lab) out_var (var_map s),
                 model_path := model_path s @ [(cl_rule lab, BasicTerm Length [])]\<rparr>
       in case map_of loops node of
            None \<Rightarrow> Inr (Some s)
          | Some sl \<Rightarrow>
              bind_res (get_label_sl_formula sl s) (\<lambda>r.
                case r of
                  None \<Rightarrow> Inr None
                | Some (sl_var, s) \<Rightarrow>
                    Inr (Some (s\<lparr>model_path := model_path s @ [(cl_rule sl, atom_val (succ (last (conjuncts s)) ! 1))],
                                 var_map := map_put (cl_left sl) sl_var (var_map s)\<rparr>))))"

fun length_formula_loop ::
  "(formula \<times> counter_label) list \<Rightarrow> (formula \<times> counter_label) list \<Rightarrow> len_state \<Rightarrow> len_state option res"
where
  "length_formula_loop loops [] s = Inr (Some s)"
| "length_formula_loop loops ((node, lab) # rest) s =
     bind_res (length_formula_node loops node lab s) (\<lambda>r.
       case r of None \<Rightarrow> Inr None | Some s \<Rightarrow> length_formula_loop loops rest s)"

definition length_formula_path :: "counter_label path \<Rightarrow> len_state \<Rightarrow> len_state option res" where
  "length_formula_path p s =
     (if length (path_labels p) = 0 then Inr (Some s)
      else length_formula_loop (self_loops p) (zip (tl (path_nodes p)) (path_labels p)) s)"

text \<open>
  \<open>generate_len_connection\<close> ties the last length variable of each length-sensitive variable to
  the variable; the unordered set is read in some order.
\<close>

fun generate_len_connection :: "basic_term list \<Rightarrow> len_state \<Rightarrow> len_state option" where
  "generate_len_connection [] s = Some s"
| "generate_len_connection (lterm # ts) s =
     (case map_of (var_map s) lterm of
        None \<Rightarrow> None
      | Some v \<Rightarrow> generate_len_connection ts (push_conjunct (len_op EQ [len_leaf lterm, len_leaf v]) s))"

section \<open>Models\<close>

definition simple_generator_from_path :: "counter_label path \<Rightarrow> model_generator" where
  "simple_generator_from_path p =
     map (\<lambda>i. (cl_rule (path_labels p ! (i - 1)), BasicTerm Length [])) [1..<length (path_nodes p)]"

text \<open>
  The model is a map from variables to words; reading a variable without an entry yields the
  empty word, as \<open>operator[]\<close> does. Repetition counts come from the arithmetic model.
\<close>

type_synonym string_model = "(basic_term \<times> zstring) list"

definition model_at :: "string_model \<Rightarrow> assignment" where
  "model_at m x = (case map_of m x of None \<Rightarrow> [] | Some w \<Rightarrow> w)"

definition initialize_model :: "basic_term set \<Rightarrow> string_model \<Rightarrow> string_model" where
  "initialize_model vars m = fold (\<lambda>x. map_put x []) (sorted_list_of_set vars) m"

definition apply_model_label ::
  "(basic_term \<rightharpoonup> int) \<Rightarrow> model_label \<Rightarrow> string_model \<Rightarrow> string_model res"
where
  "apply_model_label arith_model ml m =
     (let x = fst (fst ml); rhs = snd (fst ml); lit_concat = butlast rhs in
      if length rhs = 0 then Inr m
      else if lit_concat = [] then Inl Out_Of_Range
      else if is_variable (lit_concat ! 0) then
        Inr (map_put x (model_at m (lit_concat ! 0) @ model_at m x) m)
      else
        let str_concat = concat (map get_name lit_concat) in
        if is_variable (snd ml) then
          (case arith_model (snd ml) of
             None \<Rightarrow> Inl Out_Of_Range
           | Some k \<Rightarrow> Inr (map_put x (concat (replicate (nat k) str_concat) @ model_at m x) m))
        else Inr (map_put x (str_concat @ model_at m x) m))"

fun generate_submodel ::
  "(basic_term \<rightharpoonup> int) \<Rightarrow> model_generator \<Rightarrow> string_model \<Rightarrow> string_model res"
where
  "generate_submodel arith_model [] m = Inr m"
| "generate_submodel arith_model (ml # gen) m =
     bind_res (apply_model_label arith_model ml m) (generate_submodel arith_model gen)"

fun generate_submodels ::
  "(basic_term \<rightharpoonup> int) \<Rightarrow> model_generator list \<Rightarrow> string_model \<Rightarrow> string_model res"
where
  "generate_submodels arith_model [] m = Inr m"
| "generate_submodels arith_model (gen # gens) m =
     bind_res (generate_submodel arith_model gen m) (generate_submodels arith_model gens)"

definition compute_model ::
  "(basic_term \<rightharpoonup> int) \<Rightarrow> basic_term set \<Rightarrow> model_generator list \<Rightarrow> string_model res"
where
  "compute_model arith_model vars gens =
     generate_submodels arith_model gens (initialize_model vars [])"

definition get_len_vars_for_model :: "model_generator list \<Rightarrow> basic_term list" where
  "get_len_vars_for_model gens =
     concat (map (\<lambda>gen. concat (map (\<lambda>ml.
       [fst (fst ml)] @ (if is_variable (snd ml) then [snd ml] else []) @
       filter is_variable (snd (fst ml))) gen)) gens)"

section \<open>Edges of counter systems\<close>

text \<open>
  What an edge of a counter system from \<open>f\<close> to \<open>g\<close> with label \<open>c\<close> stands for: its rule
  turns solutions of \<open>f\<close> into solutions of \<open>g\<close>, its sum says what the rule does to lengths,
  and an erased variable does not occur in \<open>f\<close>.
\<close>

definition literal_word :: "concat \<Rightarrow> bool" where
  "literal_word w \<longleftrightarrow> w \<noteq> [] \<and> (\<forall>t \<in> set w. is_literal t \<and> length (get_name t) = 1)"

definition label_shape :: "counter_label \<Rightarrow> bool" where
  "label_shape c \<longleftrightarrow>
     is_variable (cl_left c) \<and> fst (cl_rule c) = cl_left c \<and>
     (snd (cl_rule c) = [] \<and> cl_sum c = [BasicTerm Length (zs ''0'')] \<or>
      (\<exists>w k. literal_word w \<and> snd (cl_rule c) = w @ [cl_left c] \<and>
         cl_sum c = [cl_left c, BasicTerm Length k] \<and> read_int k = Some (int (length w))) \<or>
      (\<exists>y. is_variable y \<and> snd (cl_rule c) = [y, cl_left c] \<and> cl_sum c = [cl_left c, y]))"

definition counter_edge :: "formula \<Rightarrow> formula \<Rightarrow> counter_label \<Rightarrow> bool" where
  "counter_edge f g c \<longleftrightarrow> label_shape c \<and>
     (\<forall>R \<sigma>. sat_formula R \<sigma> f \<longrightarrow> sat_formula R (undo_rule (cl_rule c) \<sigma>) g) \<and>
     formula_get_vars f \<subseteq> formula_get_vars g \<and>
     {t \<in> set (cl_left c # cl_sum c). is_variable t} \<subseteq> formula_get_vars g \<and>
     (snd (cl_rule c) = [] \<longrightarrow> cl_left c \<notin> formula_get_vars f)"

definition counter_system_ok :: "counter_system \<Rightarrow> bool" where
  "counter_system_ok cs \<longleftrightarrow> (\<forall>(f, g, c) \<in> set (edges cs). counter_edge f g c)"

lemma rule_conv_label:
  assumes "nielsen_pred p" and "(x, c) \<in> set (get_rules_from_pred p)"
  shows "\<exists>cl. conv_label (x, c) = Some cl \<and> label_shape cl \<and> cl_left cl = x \<and> cl_rule cl = (x, c)"
proof -
  have x: "is_variable x" by (rule rule_terms(1)[OF assms(2)])
  have one: "read_int (zs ''1'') = Some 1"
    by (simp add: zs_def read_int_def read_nat_def is_digit_def)
  consider "c = []" | y where "c = [y, x]" "nielsen_term y"
    using assms by (auto simp: rules_iff nielsen_pred_def)
  then show ?thesis
  proof cases
    case 1
    then show ?thesis using x by (simp add: conv_label_def label_shape_def)
  next
    case 2
    then consider "is_literal y" "length (get_name y) = 1" | "is_variable y" "\<not> is_literal y"
      using variable_not_literal by (auto simp: nielsen_term_def)
    then show ?thesis
    proof cases
      case 1
      then show ?thesis
        using 2 x one by (auto simp: conv_label_def label_shape_def literal_word_def intro!: exI[of _ "[y]"])
    next
      case 2
      then show ?thesis using \<open>c = [y, x]\<close> x by (simp add: conv_label_def label_shape_def)
    qed
  qed
qed

lemma pred_vars_in_formula:
  "nielsen_formula f \<Longrightarrow> p \<in> set f \<Longrightarrow>
     {t \<in> set (get_left_side p) \<union> set (get_right_side p). is_variable t} \<subseteq> formula_get_vars f"
  by (auto simp: formula_get_vars_def nielsen_formula_def nielsen_pred_def pred_get_vars_wf)

lemma nielsen_step_counter_edge:
  assumes ok: "node_ok g" and step: "nielsen_step g lab f"
  shows "\<exists>c. conv_label lab = Some c \<and> counter_edge f g c \<and> cl_rule c = lab"
proof -
  obtain x r where xr: "lab = (x, r)" by (cases lab)
  let ?p = "g ! skip_sat g 0"
  have f: "f = apply_rule g (x, r)" and lt: "skip_sat g 0 < length g"
    and rule: "(x, r) \<in> set (get_rules_from_pred ?p)"
    using step by (auto simp: nielsen_step_iff xr)
  have ng: "nielsen_formula g" and np: "nielsen_pred ?p"
    using ok lt by (auto simp: node_ok_def nielsen_formula_def)
  obtain c where c: "conv_label (x, r) = Some c" "label_shape c" "cl_left c = x" "cl_rule c = (x, r)"
    using rule_conv_label[OF np rule] by blast
  have vars: "{t \<in> insert x (set r). is_variable t} \<subseteq> formula_get_vars g"
    using pred_vars_in_formula[OF ng nth_mem[OF lt]] rule_terms[OF rule] by blast
  have sum: "set (cl_sum c) \<subseteq> insert x (set r) \<union> {t. \<not> is_variable t}"
    using c(2-4) unfolding label_shape_def by (auto simp: variable_not_literal)
  have fg: "formula_get_vars f \<subseteq> (formula_get_vars g - {x}) \<union> {t \<in> set r. is_variable t}"
    unfolding f by (rule vars_apply_rule[OF ng])
  have "counter_edge f g c"
    unfolding counter_edge_def
  proof (intro conjI allI impI)
    show "sat_formula R (undo_rule (cl_rule c) \<sigma>) g" if "sat_formula R \<sigma> f" for R \<sigma>
      using step_undo_sat[OF ok step that] by (simp add: xr c(4))
    show "formula_get_vars f \<subseteq> formula_get_vars g" using fg vars by auto
    show "{t \<in> set (cl_left c # cl_sum c). is_variable t} \<subseteq> formula_get_vars g"
      using sum vars c(3) by auto
    show "cl_left c \<notin> formula_get_vars f" if "snd (cl_rule c) = []"
      using fg that c(3,4) by auto
  qed (rule c(2))
  then show ?thesis using c(1,4) xr by auto
qed

lemma create_counter_system_fold:
  assumes "\<forall>(s, t, lab) \<in> set es. conv_label lab \<noteq> None"
  shows "\<exists>cs'. fold (\<lambda>(source, target, lab) r.
             case r of None \<Rightarrow> None
             | Some cs \<Rightarrow> (case conv_label lab of None \<Rightarrow> None | Some c \<Rightarrow> Some (add_edge target source c cs)))
       es (Some cs) = Some cs' \<and> init cs' = init cs \<and> fins cs' = fins cs \<and>
     set (edges cs') = set (edges cs) \<union> {(t, s, c) | s t lab c. (s, t, lab) \<in> set es \<and> conv_label lab = Some c}"
  using assms
proof (induction es arbitrary: cs)
  case (Cons e es)
  obtain s t x r where e: "e = (s, t, x, r)" by (cases e)
  obtain c where c: "conv_label (x, r) = Some c" using Cons.prems by (auto simp: e)
  from Cons.IH[of "add_edge t s c cs"] Cons.prems obtain cs' where
    *: "fold (\<lambda>(source, target, lab) r.
             case r of None \<Rightarrow> None
             | Some cs \<Rightarrow> (case conv_label lab of None \<Rightarrow> None | Some c \<Rightarrow> Some (add_edge target source c cs)))
       es (Some (add_edge t s c cs)) = Some cs'" "init cs' = init cs" "fins cs' = fins cs"
    "set (edges cs') = insert (t, s, c) (set (edges cs)) \<union>
       {(t, s, c) | s t lab c. (s, t, lab) \<in> set es \<and> conv_label lab = Some c}"
    by auto
  moreover have "{(t, s, c) | s t lab c. (s, t, lab) \<in> set (e # es) \<and> conv_label lab = Some c} =
      insert (t, s, c) {(t, s, c) | s t lab c. (s, t, lab) \<in> set es \<and> conv_label lab = Some c}"
    using c unfolding e by fastforce
  ultimately show ?case using c by (simp add: e)
qed simp

lemma fold_set_init:
  "edges (fold set_init fs g) = edges g" "fins (fold set_init fs g) = fins g"
  "fs \<noteq> [] \<Longrightarrow> init (fold set_init fs g) = last fs"
  by (induction fs arbitrary: g) auto

lemma create_counter_system_ok:
  assumes "\<forall>(s, t, lab) \<in> set (edges g). node_ok s \<and> nielsen_step s lab t"
  shows "\<exists>cs. create_counter_system g = Some cs \<and> counter_system_ok cs \<and> fins cs = [init g] \<and>
    (fins g \<noteq> [] \<longrightarrow> init cs = last (fins g)) \<and>
    set (edges cs) = {(t, s, c) | s t lab c. (s, t, lab) \<in> set (edges g) \<and> conv_label lab = Some c}"
proof -
  have "\<forall>(s, t, lab) \<in> set (edges g). conv_label lab \<noteq> None"
    using assms nielsen_step_counter_edge by fastforce
  from create_counter_system_fold[OF this, of "add_fin (init g) (fold set_init (fins g) empty_graph)"]
  obtain cs where cs: "create_counter_system g = Some cs" "fins cs = [init g]"
    "fins g \<noteq> [] \<longrightarrow> init cs = last (fins g)"
    "set (edges cs) = {(t, s, c) | s t lab c. (s, t, lab) \<in> set (edges g) \<and> conv_label lab = Some c}"
    by (auto simp: create_counter_system_def fold_set_init add_fin_def)
  have "counter_edge t s c" if "(s, t, lab) \<in> set (edges g)" "conv_label lab = Some c" for s t lab c
  proof -
    have "node_ok s" "nielsen_step s lab t" using assms that(1) by auto
    then show ?thesis using nielsen_step_counter_edge that(2) by fastforce
  qed
  then have "counter_system_ok cs" unfolding counter_system_ok_def cs(4) by auto
  then show ?thesis using cs by blast
qed

section \<open>Condensation\<close>

lemma eval_literal_word: "\<forall>t \<in> set w. is_literal t \<Longrightarrow> eval_concat \<sigma> w = concat (map get_name w)"
  by (induction w) (auto simp: eval_term_def)

lemma length_literal_word: "literal_word w \<Longrightarrow> length (concat (map get_name w)) = length w"
proof -
  have "(\<forall>t \<in> set w. is_literal t \<and> length (get_name t) = 1) \<Longrightarrow> length (concat (map get_name w)) = length w"
    by (induction w) auto
  then show "literal_word w \<Longrightarrow> ?thesis" by (simp add: literal_word_def)
qed

lemma undo_literal_rule:
  "literal_word w \<Longrightarrow> is_variable x \<Longrightarrow>
     undo_rule (x, w @ [x]) \<sigma> = \<sigma>(x := concat (map get_name w) @ \<sigma> x)"
  by (simp add: undo_rule_def eval_literal_word literal_word_def eval_term_variable)

lemma label_shape_Length:
  assumes "label_shape c" and "length (cl_sum c) = 2" and "get_type (cl_sum c ! 1) = Length"
  obtains w k where "literal_word w" "snd (cl_rule c) = w @ [cl_left c]"
    "cl_sum c = [cl_left c, BasicTerm Length k]" "read_int k = Some (int (length w))"
  using assms unfolding label_shape_def by (auto simp: is_variable_def)

lemma join_counter_edge:
  assumes e1: "counter_edge f m c1" and e2: "counter_edge m g c2"
    and join: "join_counter_label c1 c2 = Inr (Some c)"
  shows "counter_edge f g c"
proof -
  have shapes: "label_shape c1" "label_shape c2" using e1 e2 by (auto simp: counter_edge_def)
  have left: "cl_left c2 = cl_left c1" and sizes: "length (cl_sum c1) = 2" "length (cl_sum c2) = 2"
    and types: "get_type (cl_sum c1 ! 1) = Length" "get_type (cl_sum c2 ! 1) = Length"
    using join by (auto simp: join_counter_label_def split: if_splits)
  obtain w1 k1 where c1: "literal_word w1" "snd (cl_rule c1) = w1 @ [cl_left c1]"
    "cl_sum c1 = [cl_left c1, BasicTerm Length k1]" "read_int k1 = Some (int (length w1))"
    by (rule label_shape_Length[OF shapes(1) sizes(1) types(1)])
  obtain w2 k2 where c2: "literal_word w2" "snd (cl_rule c2) = w2 @ [cl_left c1]"
    "cl_sum c2 = [cl_left c1, BasicTerm Length k2]" "read_int k2 = Some (int (length w2))"
    using label_shape_Length[OF shapes(2) sizes(2) types(2)] left by metis
  have x: "is_variable (cl_left c1)" "fst (cl_rule c1) = cl_left c1" "fst (cl_rule c2) = cl_left c1"
    using shapes left by (auto simp: label_shape_def)
  have rules: "cl_rule c1 = (cl_left c1, w1 @ [cl_left c1])" "cl_rule c2 = (cl_left c1, w2 @ [cl_left c1])"
    using c1(2) c2(2) x by (metis prod.collapse)+
  have c: "c = CounterLabel (cl_left c1) [cl_left c1, BasicTerm Length (show_int (int (length w1) + int (length w2)))]
      (cl_left c1, (w2 @ w1) @ [cl_left c1])"
    using join c1 c2 left by (auto simp: join_counter_label_def stoi_def join_nielsen_label_def rules
        bind_res_eq_Inr split: if_splits)
  have w: "literal_word (w2 @ w1)" using c1(1) c2(1) by (auto simp: literal_word_def)
  have "label_shape c"
    using w x by (auto simp: c label_shape_def intro!: exI[of _ "w2 @ w1"])
  moreover have "undo_rule (cl_rule c) \<sigma> = undo_rule (cl_rule c2) (undo_rule (cl_rule c1) \<sigma>)" for \<sigma>
    by (simp only: c rules counter_label.sel undo_literal_rule[OF w x(1)]
        undo_literal_rule[OF c1(1) x(1)] undo_literal_rule[OF c2(1) x(1)]) (auto simp: fun_eq_iff)
  ultimately show ?thesis
    using e1 e2 left by (auto simp: counter_edge_def c c1(3))
qed

lemma condensate_ok:
  assumes ok: "counter_system_ok cs" and run: "condensate_counter_system cs = Inr cs'"
  shows "counter_system_ok cs' \<and> init cs' = init cs \<and> fins cs' = fins cs \<and> set (edges cs) \<subseteq> set (edges cs')"
proof -
  obtain es where es: "joined_edges cs = Inr es"
    and cs': "cs' = fold (\<lambda>(fl, last_node, lab). add_edge fl last_node lab)
          (sset_of (concat (map (\<lambda>(fl, last_node, r).
              case r of None \<Rightarrow> [] | Some lab \<Rightarrow> [(fl, last_node, lab)]) es))) cs"
    using run by (auto simp: condensate_counter_system_def bind_res_eq_Inr)
  have joined: "counter_edge f g c" if "(f, g, Some c) \<in> set es" for f g c
  proof -
    from that obtain i where i: "i < length es" "es ! i = (f, g, Some c)" by (auto simp: in_set_conv_nth)
    obtain mid l1 l2 where "(mid, l1) \<in> set (edges_from cs f)" "(g, l2) \<in> set (edges_from cs mid)"
      "join_counter_label l1 l2 = Inr (Some c)"
    proof -
      let ?L = "concat (map (\<lambda>fl. concat (map (\<lambda>(mid, mid_lab).
          map (\<lambda>(last_node, last_lab). (fl, last_node, mid_lab, last_lab)) (edges_from cs mid))
          (edges_from cs fl))) (nodes cs))"
      have "list_all2 (\<lambda>x y. (\<lambda>(fl, last_node, mid_lab, last_lab).
                bind_res (join_counter_label mid_lab last_lab) (\<lambda>r. Inr (fl, last_node, r))) x = Inr y) ?L es"
        using es unfolding joined_edges_def map_res_eq_Inr .
      then have "i < length ?L" and
        "(\<lambda>(fl, last_node, mid_lab, last_lab).
                bind_res (join_counter_label mid_lab last_lab) (\<lambda>r. Inr (fl, last_node, r))) (?L ! i) = Inr (f, g, Some c)"
        using i by (auto simp: list_all2_conv_all_nth)
      then show ?thesis
        using that nth_mem[of i ?L] by (auto simp: bind_res_eq_Inr split: prod.splits)
    qed
    then have "counter_edge f mid l1" "counter_edge mid g l2"
      using ok by (auto simp: counter_system_ok_def)
    then show ?thesis using \<open>join_counter_label l1 l2 = Inr (Some c)\<close> by (rule join_counter_edge)
  qed
  have fold: "init (fold (\<lambda>(f, g, c). add_edge f g c) xs r) = init r \<and>
      fins (fold (\<lambda>(f, g, c). add_edge f g c) xs r) = fins r \<and>
      set (edges (fold (\<lambda>(f, g, c). add_edge f g c) xs r)) = set xs \<union> set (edges r)"
    for xs and r :: counter_system
    by (induction xs arbitrary: r) auto
  show ?thesis
    unfolding cs' using fold ok joined
    by (auto simp: counter_system_ok_def split: option.splits)
qed

lemma counter_self_loop:
  assumes "counter_edge f f c"
  shows "length (cl_sum c) = 2"
  using assms by (auto simp: counter_edge_def label_shape_def)

text \<open>
  C23: In a counter system whose edges come from Nielsen steps, also after condensation, the
  search for self-loops never reads a missing summand, and each loop it returns is an edge
  from a node to itself that lengthens a length-sensitive variable by a known positive
  number of symbols.
\<close>

theorem find_self_loops_safe:
  assumes "counter_system_ok cs"
  shows "\<exists>ls. find_self_loops len_vars cs = Inr ls \<and>
    (\<forall>(node, c) \<in> set ls. (node, node, c) \<in> set (edges cs) \<and> cl_left c \<in> len_vars \<and>
       (\<exists>w k. literal_word w \<and> cl_rule c = (cl_left c, w @ [cl_left c]) \<and>
          cl_sum c = [cl_left c, BasicTerm Length k] \<and> read_int k = Some (int (length w))))"
proof -
  let ?L = "concat (map (\<lambda>node. map (\<lambda>(t, l). (node, t, l)) (edges_from cs node)) (nodes cs))"
  let ?f = "\<lambda>(node, target, lab). if target = node \<and> get_type (cl_sum lab ! 1) = Length \<and> cl_left lab \<in> len_vars
      then [(node, lab)] else []"
  have edge: "(n, t, l) \<in> set (edges cs)" if "(n, t, l) \<in> set ?L" for n t l
    using that by auto
  have two: "length (cl_sum l) = 2" if "(n, n, l) \<in> set (edges cs)" for n l
    using assms that by (auto simp: counter_system_ok_def intro: counter_self_loop)
  have run: "find_self_loops len_vars cs = Inr (sset_of (concat (map ?f ?L)))"
    unfolding find_self_loops_def
    by (subst map_res_Inr[where g = ?f]) (use edge two in \<open>auto split: if_splits\<close>)
  have "(n, n, c) \<in> set (edges cs) \<and> cl_left c \<in> len_vars \<and> get_type (cl_sum c ! 1) = Length"
    if "(n, c) \<in> set (concat (map ?f ?L))" for n c
    using that by (auto split: if_splits)
  moreover have "\<exists>w k. literal_word w \<and> cl_rule c = (cl_left c, w @ [cl_left c]) \<and>
      cl_sum c = [cl_left c, BasicTerm Length k] \<and> read_int k = Some (int (length w))"
    if "(n, n, c) \<in> set (edges cs)" "get_type (cl_sum c ! 1) = Length" for n c
  proof -
    have "label_shape c" using assms that(1) by (auto simp: counter_system_ok_def counter_edge_def)
    moreover from this have "fst (cl_rule c) = cl_left c" by (simp add: label_shape_def)
    ultimately show ?thesis
      using label_shape_Length[OF _ two[OF that(1)] that(2)] by (metis prod.collapse)
  qed
  ultimately have "\<forall>(n, c) \<in> set (concat (map ?f ?L)). (n, n, c) \<in> set (edges cs) \<and> cl_left c \<in> len_vars \<and>
      (\<exists>w k. literal_word w \<and> cl_rule c = (cl_left c, w @ [cl_left c]) \<and>
        cl_sum c = [cl_left c, BasicTerm Length k] \<and> read_int k = Some (int (length w)))"
    by blast
  then show ?thesis
    by (intro exI[of _ "sset_of (concat (map ?f ?L))"] conjI run) (simp only: set_sset_of)
qed

theorem find_self_loops_safe_witness:
  "let x = BasicTerm Variable [120]; a = BasicTerm Literal [97];
       f = [create_equation [a, x] [x, a]]; c = CounterLabel x [x, BasicTerm Length [49]] (x, [a, x]);
       cs = add_edge f f c empty_graph
   in \<exists>ls. find_self_loops {x} cs = Inr ls \<and>
      (\<forall>(node, c) \<in> set ls. (node, node, c) \<in> set (edges cs) \<and> cl_left c \<in> {x} \<and>
         (\<exists>w k. literal_word w \<and> cl_rule c = (cl_left c, w @ [cl_left c]) \<and>
            cl_sum c = [cl_left c, BasicTerm Length k] \<and> read_int k = Some (int (length w))))"
proof -
  let ?x = "BasicTerm Variable [120]" and ?a = "BasicTerm Literal [97]"
  let ?f = "[create_equation [?a, ?x] [?x, ?a]]"
  let ?c = "CounterLabel ?x [?x, BasicTerm Length [49]] (?x, [?a, ?x])"
  have "label_shape ?c"
    by (auto simp: label_shape_def literal_word_def read_int_def read_nat_def is_digit_def
        intro!: exI[of _ "[?a]"])
  moreover have "sat_formula R (undo_rule (cl_rule ?c) \<sigma>) ?f" if "sat_formula R \<sigma> ?f" for R \<sigma>
    using that by (simp add: undo_rule_def eval_term_def)
  ultimately have "counter_system_ok (add_edge ?f ?f ?c empty_graph)"
    by (auto simp: counter_system_ok_def counter_edge_def formula_get_vars_def pred_get_vars_wf)
  from find_self_loops_safe[OF this, of "{?x}"] show ?thesis unfolding Let_def .
qed

end
