(* ===== verification/Nielsen_Lengths.thy ===== *)
theory Nielsen_Lengths
  imports Nielsen_Counter
begin

text \<open>
  Soundness of the models of the Nielsen procedure: the words that \<open>generate_submodel\<close>
  builds along a path of a counter system solve the formula at the end of the path, and
  for a path with self-loops their lengths are the values that a solution of the length
  formula of the path gives to the length variables.
\<close>

section \<open>Models along paths\<close>

text \<open>
  The model satisfies the formula of the current node, and the variables of the instance
  that do not occur in it are still empty.
\<close>

definition model_inv :: "basic_term set \<Rightarrow> formula \<Rightarrow> string_model \<Rightarrow> bool" where
  "model_inv V f m \<longleftrightarrow> (\<forall>R. sat_formula R (model_at m) f) \<and>
     (\<forall>x \<in> V. x \<notin> formula_get_vars f \<longrightarrow> model_at m x = [])"

lemma model_at_put [simp]: "model_at (map_put x w m) = (model_at m)(x := w)"
  by (auto simp: model_at_def fun_eq_iff)

definition plain :: "counter_label \<Rightarrow> model_label" where
  "plain c = (cl_rule c, BasicTerm Length [])"

lemma apply_plain:
  assumes "label_shape c" and "snd (cl_rule c) = [] \<Longrightarrow> model_at m (cl_left c) = []"
  shows "\<exists>m'. apply_model_label \<mu> (plain c) m = Inr m' \<and> model_at m' = undo_rule (cl_rule c) (model_at m)"
proof -
  have x: "is_variable (cl_left c)" "fst (cl_rule c) = cl_left c"
    using assms(1) by (auto simp: label_shape_def)
  consider "snd (cl_rule c) = []"
    | w where "literal_word w" "snd (cl_rule c) = w @ [cl_left c]"
    | y where "is_variable y" "snd (cl_rule c) = [y, cl_left c]"
    using assms(1) by (auto simp: label_shape_def)
  then show ?thesis
  proof cases
    case 1
    then show ?thesis
      using assms(2) x by (auto simp: apply_model_label_def plain_def undo_rule_def fun_eq_iff Let_def)
  next
    case 2
    then have "cl_rule c = (cl_left c, w @ [cl_left c])" using x(2) by (metis prod.collapse)
    moreover have "w \<noteq> []" "\<not> is_variable (w ! 0)"
      using 2(1) nth_mem[of 0 w] by (auto simp: literal_word_def dest: variable_not_literal)
    ultimately show ?thesis
      using undo_literal_rule[OF 2(1) x(1)] by (auto simp: apply_model_label_def plain_def Let_def)
  next
    case 3
    then have "cl_rule c = (cl_left c, [y, cl_left c])" using x(2) by (metis prod.collapse)
    then show ?thesis
      using 3(1) x by (auto simp: apply_model_label_def plain_def undo_rule_def eval_term_variable Let_def)
  qed
qed

lemma model_inv_step:
  assumes inv: "model_inv V f m" and edge: "counter_edge f g c" and V: "formula_get_vars g \<subseteq> V"
  shows "\<exists>m'. apply_model_label \<mu> (plain c) m = Inr m' \<and> model_at m' = undo_rule (cl_rule c) (model_at m) \<and>
    model_inv V g m' \<and> (\<forall>y. y \<notin> V \<longrightarrow> model_at m' y = model_at m y)"
proof -
  have x: "cl_left c \<in> formula_get_vars g" "fst (cl_rule c) = cl_left c" "label_shape c"
    using edge by (auto simp: counter_edge_def label_shape_def)
  have "model_at m (cl_left c) = []" if "snd (cl_rule c) = []"
    using inv edge that V x(1) by (auto simp: model_inv_def counter_edge_def)
  then obtain m' where m': "apply_model_label \<mu> (plain c) m = Inr m'"
    "model_at m' = undo_rule (cl_rule c) (model_at m)"
    using apply_plain[OF x(3), of m \<mu>] by blast
  have "sat_formula R (model_at m') g" for R
    using inv edge by (auto simp: m'(2) model_inv_def counter_edge_def)
  moreover have "model_at m' y = []" if "y \<in> V" "y \<notin> formula_get_vars g" for y
    using inv edge that x by (auto simp: m'(2) undo_rule_def model_inv_def counter_edge_def)
  moreover have "model_at m' y = model_at m y" if "y \<notin> V" for y
    using that x V by (auto simp: m'(2) undo_rule_def)
  ultimately show ?thesis using m' by (auto simp: model_inv_def)
qed

lemma model_inv_path:
  assumes "valid_path (set (edges cs)) ns ls" and "counter_system_ok cs" and "model_inv V (hd ns) m"
    and "\<forall>n \<in> set ns. formula_get_vars n \<subseteq> V"
  shows "\<exists>m'. generate_submodel \<mu> (map plain ls) m = Inr m' \<and> model_inv V (last ns) m' \<and>
    (\<forall>y. y \<notin> V \<longrightarrow> model_at m' y = model_at m y)"
  using assms
proof (induction "set (edges cs)" ns ls arbitrary: m rule: valid_path.induct)
  case (2 n n' ns l ls)
  have "counter_edge n n' l" using 2 by (auto simp: counter_system_ok_def)
  then obtain m1 where m1: "apply_model_label \<mu> (plain l) m = Inr m1" "model_inv V n' m1"
    "\<forall>y. y \<notin> V \<longrightarrow> model_at m1 y = model_at m y"
    using model_inv_step[of V n m n' l \<mu>] 2 by auto
  have "\<exists>m2. generate_submodel \<mu> (map plain ls) m1 = Inr m2 \<and> model_inv V (last (n' # ns)) m2 \<and>
      (\<forall>y. y \<notin> V \<longrightarrow> model_at m2 y = model_at m1 y)"
    by (rule "2.hyps") (use "2.prems" m1(2) in auto)
  then show ?case using m1 by auto
qed auto

lemma simple_generator_plain:
  assumes "valid_path E (path_nodes p) (path_labels p)"
  shows "simple_generator_from_path p = map plain (path_labels p)"
  using valid_path_length[OF assms]
  by (intro nth_equalityI) (simp_all add: simple_generator_from_path_def plain_def del: upt_Suc)

section \<open>Length formulae of paths\<close>

text \<open>The length variables of the string variables in \<open>V\<close> hold the lengths of their words.\<close>

definition lengths_agree ::
  "basic_term set \<Rightarrow> (basic_term \<Rightarrow> int) \<Rightarrow> len_state \<Rightarrow> string_model \<Rightarrow> bool"
where
  "lengths_agree V \<nu> s m \<longleftrightarrow>
     (\<forall>x \<in> V. case map_of (var_map s) x of
        None \<Rightarrow> model_at m x = []
      | Some v \<Rightarrow> int (length (model_at m x)) = \<nu> v)"

definition conjuncts_hold :: "(basic_term \<Rightarrow> int) \<Rightarrow> len_state \<Rightarrow> bool" where
  "conjuncts_hold \<nu> s \<longleftrightarrow> (\<forall>n \<in> set (conjuncts s). len_bool \<nu> n)"

definition extends_state :: "len_state \<Rightarrow> len_state \<Rightarrow> bool" where
  "extends_state s t \<longleftrightarrow> set (conjuncts s) \<subseteq> set (conjuncts t)"

lemma conjuncts_hold_extends: "conjuncts_hold \<nu> t \<Longrightarrow> extends_state s t \<Longrightarrow> conjuncts_hold \<nu> s"
  by (auto simp: conjuncts_hold_def extends_state_def)

lemma extends_trans [trans]: "extends_state s t \<Longrightarrow> extends_state t u \<Longrightarrow> extends_state s u"
  by (auto simp: extends_state_def)

lemma state_simps [simp]:
  "var_map (push_conjunct n s) = var_map s" "conjuncts (push_conjunct n s) = conjuncts s @ [n]"
  "model_path (push_conjunct n s) = model_path s"
  "var_map (snd (fresh_var n' s)) = var_map s" "conjuncts (snd (fresh_var n' s)) = conjuncts s"
  "model_path (snd (fresh_var n' s)) = model_path s"
  by (simp_all add: push_conjunct_def fresh_var_def split: prod.split)

lemma fresh_var_variable: "get_type (fst (fresh_var n s)) = Variable"
  by (simp add: fresh_var_def mk_noodler_var_fresh_def mk_internal_noodler_var_def)

text \<open>The length variables are of the type \<open>Variable\<close>.\<close>

definition var_map_ok :: "len_state \<Rightarrow> bool" where
  "var_map_ok s \<longleftrightarrow> (\<forall>x v. map_of (var_map s) x = Some v \<longrightarrow> get_type v = Variable)"

lemma var_map_ok_leaf: "var_map_ok s \<Longrightarrow> map_of (var_map s) x = Some v \<Longrightarrow> len_int \<nu> (len_leaf v) = \<nu> v"
  by (simp add: var_map_ok_def)

lemma ensure_var_props:
  assumes "var_map_ok s"
  shows "var_map_ok (ensure_var x s)" "extends_state s (ensure_var x s)"
    "model_path (ensure_var x s) = model_path s" "map_of (var_map (ensure_var x s)) x \<noteq> None"
    "conjuncts_hold \<nu> (ensure_var x s) \<Longrightarrow> lengths_agree V \<nu> s m \<Longrightarrow> lengths_agree V \<nu> (ensure_var x s) m"
proof -
  obtain v s1 where v: "fresh_var (get_name x) s = (v, s1)" by (cases "fresh_var (get_name x) s")
  then have s1: "var_map s1 = var_map s" "conjuncts s1 = conjuncts s" "model_path s1 = model_path s"
    "get_type v = Variable"
    using state_simps(4-6)[of "get_name x" s] fresh_var_variable[of "get_name x" s] by auto
  show "var_map_ok (ensure_var x s)" "extends_state s (ensure_var x s)"
    "model_path (ensure_var x s) = model_path s" "map_of (var_map (ensure_var x s)) x \<noteq> None"
    using assms s1 v by (auto simp: ensure_var_def extends_state_def var_map_ok_def)
  show "lengths_agree V \<nu> (ensure_var x s) m" if "conjuncts_hold \<nu> (ensure_var x s)" "lengths_agree V \<nu> s m"
    using that s1 v by (auto simp: ensure_var_def lengths_agree_def conjuncts_hold_def split: option.splits if_splits)
qed

lemma get_label_formula_cases:
  assumes shape: "label_shape c" and run: "get_label_formula c s = Inr (out, t)"
  obtains (erase) s1 where "fresh_var (get_name (cl_left c)) s = (out, s1)" "cl_rule c = (cl_left c, [])"
      "t = push_conjunct (len_op EQ [len_leaf out, len_num 0]) s1"
  | (literal) s1 w v where "fresh_var (get_name (cl_left c)) s = (out, s1)" "literal_word w"
      "cl_rule c = (cl_left c, w @ [cl_left c])" "map_of (var_map (ensure_var (cl_left c) s1)) (cl_left c) = Some v"
      "t = push_conjunct (len_op EQ [len_leaf out, len_op PLUS [len_leaf v, len_num (int (length w))]])
         (ensure_var (cl_left c) s1)"
  | (var) s1 y v u where "fresh_var (get_name (cl_left c)) s = (out, s1)" "is_variable y" "cl_sum c = [cl_left c, y]"
      "cl_rule c = (cl_left c, [y, cl_left c])" "map_of (var_map (ensure_var y s1)) (cl_left c) = Some v"
      "map_of (var_map (ensure_var y s1)) y = Some u"
      "t = push_conjunct (len_op EQ [len_leaf out, len_op PLUS [len_leaf v, len_leaf u]]) (ensure_var y s1)"
proof -
  obtain o1 s1 where v: "fresh_var (get_name (cl_left c)) s = (o1, s1)"
    by (cases "fresh_var (get_name (cl_left c)) s")
  have x: "is_variable (cl_left c)" "fst (cl_rule c) = cl_left c" using shape by (auto simp: label_shape_def)
  consider "snd (cl_rule c) = []" "cl_sum c = [BasicTerm Length (zs ''0'')]"
    | w k where "literal_word w" "snd (cl_rule c) = w @ [cl_left c]" "cl_sum c = [cl_left c, BasicTerm Length k]"
      "read_int k = Some (int (length w))"
    | y where "is_variable y" "snd (cl_rule c) = [y, cl_left c]" "cl_sum c = [cl_left c, y]"
    using shape unfolding label_shape_def by blast
  then show ?thesis
  proof cases
    case 1
    have "cl_rule c = (cl_left c, [])" using 1(1) x(2) by (metis prod.collapse)
    moreover have "o1 = out" "t = push_conjunct (len_op EQ [len_leaf out, len_num 0]) s1"
      using run v 1(2) by (auto simp: get_label_formula_def stoi_def fits_int32_def)
    ultimately show ?thesis using erase v by blast
  next
    case 2
    have "cl_rule c = (cl_left c, w @ [cl_left c])" using 2(2) x(2) by (metis prod.collapse)
    moreover have "o1 = out" and
      "\<exists>v. map_of (var_map (ensure_var (cl_left c) s1)) (cl_left c) = Some v \<and>
        t = push_conjunct (len_op EQ [len_leaf out, len_op PLUS [len_leaf v, len_num (int (length w))]])
         (ensure_var (cl_left c) s1)"
      using run v 2(3,4)
      by (auto simp: get_label_formula_def stoi_def Let_def split: if_splits option.splits)
    ultimately show ?thesis using literal v 2(1) by blast
  next
    case 3
    have "cl_rule c = (cl_left c, [y, cl_left c])" using 3(2) x(2) by (metis prod.collapse)
    moreover have "o1 = out" and
      "\<exists>v u. map_of (var_map (ensure_var y s1)) (cl_left c) = Some v \<and> map_of (var_map (ensure_var y s1)) y = Some u \<and>
        t = push_conjunct (len_op EQ [len_leaf out, len_op PLUS [len_leaf v, len_leaf u]]) (ensure_var y s1)"
      using run v 3(1,3)
      by (auto simp: get_label_formula_def Let_def split: if_splits option.splits)
    ultimately show ?thesis using var v 3(1,3) by blast
  qed
qed

lemma fresh_var_props:
  assumes "fresh_var n s = (v, s1)"
  shows "var_map s1 = var_map s" "conjuncts s1 = conjuncts s" "model_path s1 = model_path s"
    "get_type v = Variable" "var_map_ok s1 = var_map_ok s" "extends_state s s1"
    "lengths_agree V \<nu> s1 m = lengths_agree V \<nu> s m"
  using assms state_simps(4-6)[of n s] fresh_var_variable[of n s]
  by (auto simp: var_map_ok_def extends_state_def lengths_agree_def)

lemma push_conjunct_props [simp]:
  "var_map_ok (push_conjunct n s) = var_map_ok s" "lengths_agree V \<nu> (push_conjunct n s) m = lengths_agree V \<nu> s m"
  "conjuncts_hold \<nu> (push_conjunct n s) \<longleftrightarrow> conjuncts_hold \<nu> s \<and> len_bool \<nu> n"
  "extends_state s (push_conjunct n s)"
  by (auto simp: var_map_ok_def lengths_agree_def conjuncts_hold_def extends_state_def)

lemma get_label_formula_state:
  assumes shape: "label_shape c" and run: "get_label_formula c s = Inr (out, t)" and ok: "var_map_ok s"
  shows "var_map_ok t \<and> get_type out = Variable \<and> extends_state s t \<and> model_path t = model_path s"
  using shape run
proof (cases rule: get_label_formula_cases)
  case (erase s1)
  then show ?thesis using fresh_var_props[OF erase(1)] ok by (auto simp: extends_state_def)
next
  case (literal s1 w v)
  then show ?thesis
    using fresh_var_props[OF literal(1)] ok ensure_var_props(1-3)[of s1 "cl_left c"]
    by (auto intro: extends_trans)
next
  case (var s1 y v u)
  then show ?thesis
    using fresh_var_props[OF var(1)] ok ensure_var_props(1-3)[of s1 y]
    by (auto intro: extends_trans)
qed

lemma lengths_agree_at: "lengths_agree V \<nu> s m \<Longrightarrow> x \<in> V \<Longrightarrow> map_of (var_map s) x = Some v \<Longrightarrow>
    int (length (model_at m x)) = \<nu> v"
  by (force simp: lengths_agree_def)

lemma get_label_formula_sound:
  assumes shape: "label_shape c" and run: "get_label_formula c s = Inr (out, t)" and ok: "var_map_ok s"
    and hold: "conjuncts_hold \<nu> t" and agree: "lengths_agree V \<nu> s m"
    and V: "{z \<in> set (cl_left c # cl_sum c). is_variable z} \<subseteq> V"
    and empty: "snd (cl_rule c) = [] \<Longrightarrow> model_at m (cl_left c) = []"
  shows "lengths_agree V \<nu> t m \<and> int (length (undo_rule (cl_rule c) (model_at m) (cl_left c))) = \<nu> out"
  using shape run
proof (cases rule: get_label_formula_cases)
  case (erase s1)
  then show ?thesis
    using fresh_var_props[OF erase(1)] hold agree by (simp add: undo_rule_def)
next
  case (literal s1 w v)
  note fr = fresh_var_props[OF literal(1)]
  have x: "is_variable (cl_left c)" "cl_left c \<in> V" using shape V by (auto simp: label_shape_def)
  have ag: "lengths_agree V \<nu> (ensure_var (cl_left c) s1) m"
    using ensure_var_props(5)[of s1] fr ok hold agree literal(5) by simp
  have "get_type v = Variable"
    using ensure_var_props(1)[of s1] fr ok literal(4) by (auto simp: var_map_ok_def)
  then show ?thesis
    using hold literal(5) ag lengths_agree_at[OF ag x(2) literal(4)] fr(4)
      undo_literal_rule[OF literal(2) x(1)] length_literal_word[OF literal(2)] literal(3) by simp
next
  case (var s1 y v u)
  note fr = fresh_var_props[OF var(1)]
  have x: "is_variable (cl_left c)" "cl_left c \<in> V" "y \<in> V" using shape V var(2,3) by (auto simp: label_shape_def)
  have ag: "lengths_agree V \<nu> (ensure_var y s1) m"
    using ensure_var_props(5)[of s1] fr ok hold agree var(7) by simp
  have "get_type v = Variable" "get_type u = Variable"
    using ensure_var_props(1)[of s1] fr ok var(5,6) by (auto simp: var_map_ok_def)
  then show ?thesis
    using hold var(7) ag lengths_agree_at[OF ag x(2) var(5)] lengths_agree_at[OF ag x(3) var(6)] fr(4)
      var(2,4) x(1) by (simp add: undo_rule_def eval_term_variable)
qed

lemma lengths_agree_update:
  assumes "lengths_agree V \<nu> s m" and "model_at m' = (model_at m)(x := w)" and "int (length w) = \<nu> out"
    and "var_map t = map_put x out (var_map s)"
  shows "lengths_agree V \<nu> t m'"
  unfolding lengths_agree_def
proof
  fix z assume "z \<in> V"
  then have "case map_of (var_map s) z of None \<Rightarrow> model_at m z = [] | Some v \<Rightarrow> int (length (model_at m z)) = \<nu> v"
    using assms(1) by (auto simp: lengths_agree_def)
  then show "case map_of (var_map t) z of None \<Rightarrow> model_at m' z = [] | Some v \<Rightarrow> int (length (model_at m' z)) = \<nu> v"
    using assms(2-4) by (cases "z = x") (simp_all split: option.splits)
qed

section \<open>Self-loops\<close>

lemma loop_iterates:
  assumes edge: "counter_edge g g sl" and rule: "cl_rule sl = (x, w @ [x])" "literal_word w" "is_variable x"
    and sat: "sat_formula R \<sigma> g"
  shows "sat_formula R (\<sigma>(x := concat (replicate n (concat (map get_name w))) @ \<sigma> x)) g"
proof (induction n)
  case 0
  then show ?case using sat by simp
next
  case (Suc n)
  have "undo_rule (cl_rule sl) (\<sigma>(x := concat (replicate n (concat (map get_name w))) @ \<sigma> x)) =
      \<sigma>(x := concat (replicate (Suc n) (concat (map get_name w))) @ \<sigma> x)"
    unfolding rule(1) undo_literal_rule[OF rule(2,3)] by (simp add: fun_eq_iff)
  then show ?case using edge Suc unfolding counter_edge_def by metis
qed

lemma get_label_sl_formula_cases:
  assumes shape: "label_shape sl" and run: "get_label_sl_formula sl s = Inr (Some (out, t))"
  obtains w s1 s2 j v where "literal_word w" "cl_rule sl = (cl_left sl, w @ [cl_left sl])"
    "fresh_var (get_name (cl_left sl)) s = (out, s1)" "fresh_var (zs ''j'') s1 = (j, s2)"
    "map_of (var_map s2) (cl_left sl) = Some v"
    "t = push_conjunct (len_op LEQ [len_num 0, len_leaf j]) (push_conjunct (len_op EQ [len_leaf out,
       len_op PLUS [len_leaf v, len_op TIMES [len_leaf j, len_num (int (length w))]]]) s2)"
proof -
  obtain o1 s1 where o1: "fresh_var (get_name (cl_left sl)) s = (o1, s1)"
    by (cases "fresh_var (get_name (cl_left sl)) s")
  obtain j s2 where j: "fresh_var (zs ''j'') s1 = (j, s2)" by (cases "fresh_var (zs ''j'') s1")
  have x: "fst (cl_rule sl) = cl_left sl" using shape by (auto simp: label_shape_def)
  consider "cl_sum sl = [BasicTerm Length (zs ''0'')]"
    | w k where "literal_word w" "snd (cl_rule sl) = w @ [cl_left sl]" "cl_sum sl = [cl_left sl, BasicTerm Length k]"
      "read_int k = Some (int (length w))"
    | y where "is_variable y" "cl_sum sl = [cl_left sl, y]"
    using shape unfolding label_shape_def by blast
  then show ?thesis
  proof cases
    case 1
    then show ?thesis using run o1 by (simp add: get_label_sl_formula_def)
  next
    case 2
    have "cl_rule sl = (cl_left sl, w @ [cl_left sl])" using 2(2) x by (metis prod.collapse)
    moreover have "o1 = out" "\<exists>v. map_of (var_map s2) (cl_left sl) = Some v \<and>
        t = push_conjunct (len_op LEQ [len_num 0, len_leaf j]) (push_conjunct (len_op EQ [len_leaf out,
         len_op PLUS [len_leaf v, len_op TIMES [len_leaf j, len_num (int (length w))]]]) s2)"
      using run o1 j 2(3,4)
      by (auto simp: get_label_sl_formula_def stoi_def split: if_splits option.splits)
    ultimately show ?thesis using that o1 j 2(1) by blast
  next
    case 3
    then show ?thesis using run o1 by (simp add: get_label_sl_formula_def)
  qed
qed

lemma get_label_sl_formula_state:
  assumes "label_shape sl" and "get_label_sl_formula sl s = Inr (Some (out, t))"
  shows "model_path t = model_path s" "extends_state s t" "var_map t = var_map s" "get_type out = Variable"
proof -
  obtain w s1 s2 j v where "literal_word w" and o1: "fresh_var (get_name (cl_left sl)) s = (out, s1)"
    and j: "fresh_var (zs ''j'') s1 = (j, s2)"
    and t: "t = push_conjunct (len_op LEQ [len_num 0, len_leaf j]) (push_conjunct (len_op EQ [len_leaf out,
       len_op PLUS [len_leaf v, len_op TIMES [len_leaf j, len_num (int (length w))]]]) s2)"
    by (rule get_label_sl_formula_cases[OF assms]) blast
  note f1 = fresh_var_props(1-4)[OF o1] and f2 = fresh_var_props(1-3)[OF j]
  show "model_path t = model_path s" "extends_state s t" "var_map t = var_map s" "get_type out = Variable"
    using f1 f2 by (auto simp: t extends_state_def)
qed

lemma self_loop_sound:
  assumes edge: "counter_edge g g sl" and run: "get_label_sl_formula sl s = Inr (Some (out, t))"
    and ok: "var_map_ok s" and hold: "conjuncts_hold \<nu> t" and agree: "lengths_agree V \<nu> s m"
    and inv: "model_inv V g m" and V: "formula_get_vars g \<subseteq> V"
  defines "ml \<equiv> (cl_rule sl, atom_val (succ (last (conjuncts t)) ! 1))"
  defines "u \<equiv> t\<lparr>model_path := model_path t @ [ml], var_map := map_put (cl_left sl) out (var_map t)\<rparr>"
  shows "\<exists>m'. apply_model_label (\<lambda>z. Some (\<nu> z)) ml m = Inr m' \<and> model_inv V g m' \<and> lengths_agree V \<nu> u m' \<and>
    (\<forall>y. y \<notin> V \<longrightarrow> model_at m' y = model_at m y)"
proof -
  have shape: "label_shape sl" using edge by (simp add: counter_edge_def)
  obtain w s1 s2 j v where w: "literal_word w" "cl_rule sl = (cl_left sl, w @ [cl_left sl])"
    and o1: "fresh_var (get_name (cl_left sl)) s = (out, s1)" and j: "fresh_var (zs ''j'') s1 = (j, s2)"
    and v: "map_of (var_map s2) (cl_left sl) = Some v"
    and t: "t = push_conjunct (len_op LEQ [len_num 0, len_leaf j]) (push_conjunct (len_op EQ [len_leaf out,
       len_op PLUS [len_leaf v, len_op TIMES [len_leaf j, len_num (int (length w))]]]) s2)"
    using shape run by (rule get_label_sl_formula_cases)
  note f1 = fresh_var_props[OF o1] and f2 = fresh_var_props[OF j]
  have x: "is_variable (cl_left sl)" "cl_left sl \<in> formula_get_vars g" "cl_left sl \<in> V"
    using shape edge V by (auto simp: label_shape_def counter_edge_def)
  have vt: "get_type v = Variable" using ok v f1(1) f2(1) by (auto simp: var_map_ok_def)
  let ?W = "concat (map get_name w)" let ?n = "nat (\<nu> j)"
  have ml: "ml = ((cl_left sl, w @ [cl_left sl]), j)"
    unfolding ml_def t w(2) by (simp add: len_op_def len_leaf_def)
  have nu: "\<nu> out = \<nu> v + \<nu> j * int (length w)" "0 \<le> \<nu> j"
    using hold f1(4) f2(4) vt by (auto simp: t)
  have w0: "w \<noteq> []" "\<not> is_variable (w ! 0)"
    using w(1) nth_mem[of 0 w] by (auto simp: literal_word_def dest: variable_not_literal)
  have app: "apply_model_label (\<lambda>z. Some (\<nu> z)) ml m =
      Inr (map_put (cl_left sl) (concat (replicate ?n ?W) @ model_at m (cl_left sl)) m)"
    using w0 f2(4) by (simp add: apply_model_label_def ml is_variable_def Let_def)
  have "int (length (model_at m (cl_left sl))) = \<nu> v"
    using lengths_agree_at[OF _ x(3) v] agree f1(7) f2(7) by blast
  then have len: "int (length (concat (replicate ?n ?W) @ model_at m (cl_left sl))) = \<nu> out"
    using nu length_literal_word[OF w(1)] by (simp add: length_concat sum_list_replicate)
  have "sat_formula R ((model_at m)(cl_left sl := concat (replicate ?n ?W) @ model_at m (cl_left sl))) g" for R
    using loop_iterates[OF edge w(2,1) x(1)] inv by (simp add: model_inv_def)
  then have "model_inv V g (map_put (cl_left sl) (concat (replicate ?n ?W) @ model_at m (cl_left sl)) m)"
    using inv x by (auto simp: model_inv_def)
  moreover have "lengths_agree V \<nu> t m" using agree f1(7) f2(7) by (simp add: t)
  then have "lengths_agree V \<nu> u (map_put (cl_left sl) (concat (replicate ?n ?W) @ model_at m (cl_left sl)) m)"
    by (rule lengths_agree_update[where \<nu> = \<nu> and out = out, OF _ model_at_put]) (use len in \<open>simp_all add: u_def\<close>)
  ultimately show ?thesis using app x(3) by auto
qed

section \<open>Paths with self-loops\<close>

lemma generate_submodel_append:
  "generate_submodel \<mu> (a @ b) m = bind_res (generate_submodel \<mu> a m) (generate_submodel \<mu> b)"
proof (induction a arbitrary: m)
  case (Cons ml a)
  then show ?case by (cases "apply_model_label \<mu> ml m") simp_all
qed simp

text \<open>What the construction of the length formula preserves from node to node.\<close>

definition len_step ::
  "basic_term set \<Rightarrow> (basic_term \<Rightarrow> int) \<Rightarrow> formula \<Rightarrow> len_state \<Rightarrow> string_model \<Rightarrow> len_state \<Rightarrow> bool"
where
  "len_step V \<nu> g s m t \<longleftrightarrow> (\<exists>gen m'. model_path t = model_path s @ gen \<and>
     generate_submodel (\<lambda>z. Some (\<nu> z)) gen m = Inr m' \<and> model_inv V g m' \<and> lengths_agree V \<nu> t m' \<and>
     (\<forall>y. y \<notin> V \<longrightarrow> model_at m' y = model_at m y))"

lemma length_formula_node_state:
  assumes edge: "counter_edge f g c" and loop: "\<And>sl. map_of loops g = Some sl \<Longrightarrow> counter_edge g g sl"
    and run: "length_formula_node loops g c s = Inr (Some t)" and ok: "var_map_ok s"
  shows "var_map_ok t \<and> extends_state s t"
proof -
  have shape: "label_shape c" using edge by (simp add: counter_edge_def)
  obtain out s1 where lab: "get_label_formula c s = Inr (out, s1)"
    using run by (auto simp: length_formula_node_def bind_res_eq_Inr)
  note st = get_label_formula_state[OF shape lab ok]
  let ?s1 = "s1\<lparr>var_map := map_put (cl_left c) out (var_map s1),
    model_path := model_path s1 @ [(cl_rule c, BasicTerm Length [])]\<rparr>"
  have ok1: "var_map_ok ?s1" "extends_state s ?s1" using st by (auto simp: var_map_ok_def extends_state_def)
  show ?thesis
  proof (cases "map_of loops g")
    case None
    then have "t = ?s1" using run lab by (simp add: length_formula_node_def)
    then show ?thesis using ok1 by simp
  next
    case (Some sl)
    obtain sv s2 where sl: "get_label_sl_formula sl ?s1 = Inr (Some (sv, s2))"
      and t: "t = s2\<lparr>model_path := model_path s2 @ [(cl_rule sl, atom_val (succ (last (conjuncts s2)) ! 1))],
        var_map := map_put (cl_left sl) sv (var_map s2)\<rparr>"
      using run lab Some by (auto simp: length_formula_node_def bind_res_eq_Inr Let_def split: option.splits)
    have "label_shape sl" using loop[OF Some] by (simp add: counter_edge_def)
    note sl_st = get_label_sl_formula_state[OF this sl]
    have "var_map_ok s2" using sl_st(3) ok1(1) by (simp add: var_map_ok_def)
    moreover have "extends_state s s2" using ok1(2) sl_st(2) by (rule extends_trans)
    ultimately show ?thesis using sl_st(4) by (auto simp: t var_map_ok_def extends_state_def)
  qed
qed

lemma length_formula_node_sound:
  assumes edge: "counter_edge f g c" and loop: "\<And>sl. map_of loops g = Some sl \<Longrightarrow> counter_edge g g sl"
    and run: "length_formula_node loops g c s = Inr (Some t)" and ok: "var_map_ok s" and hold: "conjuncts_hold \<nu> t"
    and inv: "model_inv V f m" and agree: "lengths_agree V \<nu> s m" and V: "formula_get_vars g \<subseteq> V"
  shows "len_step V \<nu> g s m t"
proof -
  have shape: "label_shape c" using edge by (simp add: counter_edge_def)
  obtain out s1 where lab: "get_label_formula c s = Inr (out, s1)"
    using run by (auto simp: length_formula_node_def bind_res_eq_Inr)
  note st = get_label_formula_state[OF shape lab ok]
  let ?s1 = "s1\<lparr>var_map := map_put (cl_left c) out (var_map s1),
    model_path := model_path s1 @ [(cl_rule c, BasicTerm Length [])]\<rparr>"
  have ok1: "var_map_ok ?s1" using st by (auto simp: var_map_ok_def)
  obtain m1 where m1: "apply_model_label (\<lambda>z. Some (\<nu> z)) (plain c) m = Inr m1"
    "model_at m1 = undo_rule (cl_rule c) (model_at m)" "model_inv V g m1"
    "\<forall>y. y \<notin> V \<longrightarrow> model_at m1 y = model_at m y"
    using model_inv_step[OF inv edge V] by blast
  have xg: "cl_left c \<in> V" using edge V by (auto simp: counter_edge_def label_shape_def)
  have agree1: "lengths_agree V \<nu> ?s1 m1" if "conjuncts_hold \<nu> s1"
  proof -
    have "lengths_agree V \<nu> s1 m \<and> int (length (undo_rule (cl_rule c) (model_at m) (cl_left c))) = \<nu> out"
      using edge V inv xg by (intro get_label_formula_sound[OF shape lab ok that agree])
        (auto simp: counter_edge_def model_inv_def)
    moreover have "model_at m1 = (model_at m)(cl_left c := undo_rule (cl_rule c) (model_at m) (cl_left c))"
      using shape by (auto simp: m1(2) undo_rule_def label_shape_def)
    ultimately show ?thesis by (intro lengths_agree_update[of V \<nu> s1 m m1 "cl_left c" _ out]) auto
  qed
  show ?thesis
  proof (cases "map_of loops g")
    case None
    then have t: "t = ?s1" using run lab by (simp add: length_formula_node_def)
    then have "conjuncts_hold \<nu> s1" using hold by (simp add: conjuncts_hold_def)
    then show ?thesis
      using m1 agree1 st unfolding len_step_def t
      by (intro exI[of _ "[plain c]"] exI[of _ m1]) (simp add: plain_def)
  next
    case (Some sl)
    obtain sv s2 where sl: "get_label_sl_formula sl ?s1 = Inr (Some (sv, s2))"
      and t: "t = s2\<lparr>model_path := model_path s2 @ [(cl_rule sl, atom_val (succ (last (conjuncts s2)) ! 1))],
        var_map := map_put (cl_left sl) sv (var_map s2)\<rparr>"
      using run lab Some by (auto simp: length_formula_node_def bind_res_eq_Inr Let_def split: option.splits)
    have hold2: "conjuncts_hold \<nu> s2" using hold by (simp add: t conjuncts_hold_def)
    have "label_shape sl" using loop[OF Some] by (simp add: counter_edge_def)
    note sl_st = get_label_sl_formula_state[OF this sl]
    have hold1: "conjuncts_hold \<nu> s1"
      using conjuncts_hold_extends[OF hold2 sl_st(2)] by (simp add: conjuncts_hold_def)
    obtain m2 where "apply_model_label (\<lambda>z. Some (\<nu> z))
        (cl_rule sl, atom_val (succ (last (conjuncts s2)) ! 1)) m1 = Inr m2" "model_inv V g m2"
      "lengths_agree V \<nu> t m2" "\<forall>y. y \<notin> V \<longrightarrow> model_at m2 y = model_at m1 y"
      using self_loop_sound[OF loop[OF Some] sl ok1 hold2 agree1[OF hold1] m1(3) V] unfolding t by blast
    then show ?thesis
      using m1 st sl_st(1) unfolding len_step_def
      by (intro exI[of _ "[plain c, (cl_rule sl, atom_val (succ (last (conjuncts s2)) ! 1))]"] exI[of _ m2])
        (simp add: plain_def t)
  qed
qed

lemma length_formula_loop_sound:
  assumes "valid_path (set (edges cs)) ns ls" and "counter_system_ok cs"
    and "\<And>g sl. map_of loops g = Some sl \<Longrightarrow> counter_edge g g sl"
    and "length_formula_loop loops (zip (tl ns) ls) s = Inr (Some t)" and "var_map_ok s"
    and "\<forall>n \<in> set ns. formula_get_vars n \<subseteq> V"
  shows "var_map_ok t \<and> extends_state s t \<and>
    (conjuncts_hold \<nu> t \<longrightarrow> model_inv V (hd ns) m \<longrightarrow> lengths_agree V \<nu> s m \<longrightarrow> len_step V \<nu> (last ns) s m t)"
  using assms
proof (induction "set (edges cs)" ns ls arbitrary: s m rule: valid_path.induct)
  case (1 n)
  then show ?case by (auto simp: len_step_def extends_state_def intro!: exI[of _ "[]"])
next
  case (2 n n' ns l ls)
  have edge: "counter_edge n n' l" using "2.prems" by (auto simp: counter_system_ok_def)
  obtain s1 where s1: "length_formula_node loops n' l s = Inr (Some s1)"
    and rest: "length_formula_loop loops (zip ns ls) s1 = Inr (Some t)"
    using "2.prems"(4) by (auto simp: bind_res_eq_Inr split: option.splits)
  have st: "var_map_ok s1 \<and> extends_state s s1"
    by (rule length_formula_node_state[OF edge "2.prems"(3) s1 "2.prems"(5)])
  have IH: "var_map_ok t \<and> extends_state s1 t \<and>
    (conjuncts_hold \<nu> t \<longrightarrow> model_inv V (hd (n' # ns)) m \<longrightarrow> lengths_agree V \<nu> s1 m \<longrightarrow>
       len_step V \<nu> (last (n' # ns)) s1 m t)" for m
    by (rule "2.hyps") (use "2.prems" rest st in auto)
  have "len_step V \<nu> (last (n # n' # ns)) s m t"
    if hold: "conjuncts_hold \<nu> t" and inv: "model_inv V n m" and ag: "lengths_agree V \<nu> s m"
  proof -
    have "conjuncts_hold \<nu> s1" using hold IH conjuncts_hold_extends by blast
    then have "len_step V \<nu> n' s m s1"
      using "2.prems"(6) by (intro length_formula_node_sound[OF edge "2.prems"(3) s1 "2.prems"(5) _ inv ag]) auto
    then obtain gen m1 where g1: "model_path s1 = model_path s @ gen"
      "generate_submodel (\<lambda>z. Some (\<nu> z)) gen m = Inr m1" "model_inv V n' m1" "lengths_agree V \<nu> s1 m1"
      "\<forall>y. y \<notin> V \<longrightarrow> model_at m1 y = model_at m y"
      unfolding len_step_def by blast
    then have "len_step V \<nu> (last (n' # ns)) s1 m1 t" using IH hold by simp
    then obtain gen2 m2 where "model_path t = model_path s1 @ gen2"
      "generate_submodel (\<lambda>z. Some (\<nu> z)) gen2 m1 = Inr m2" "model_inv V (last (n' # ns)) m2" "lengths_agree V \<nu> t m2"
      "\<forall>y. y \<notin> V \<longrightarrow> model_at m2 y = model_at m1 y"
      unfolding len_step_def by blast
    then show ?thesis
      using g1 unfolding len_step_def
      by (intro exI[of _ "gen @ gen2"] exI[of _ m2]) (simp add: generate_submodel_append)
  qed
  then show ?case using IH st extends_trans by auto
qed auto

lemma valid_path_vars:
  assumes "valid_path (set (edges cs)) ns ls" and "counter_system_ok cs" and "n \<in> set ns"
  shows "formula_get_vars n \<subseteq> formula_get_vars (last ns)"
  using assms
proof (induction "set (edges cs)" ns ls arbitrary: n rule: valid_path.induct)
  case (2 k k' ns l ls)
  have sub: "formula_get_vars m \<subseteq> formula_get_vars (last (k' # ns))" if "m \<in> set (k' # ns)" for m
    using "2.hyps" "2.prems"(1,2) that by auto
  have "counter_edge k k' l" using "2.prems"(1,2) by (auto simp: counter_system_ok_def)
  then have "formula_get_vars k \<subseteq> formula_get_vars (last (k' # ns))"
    using sub[of k'] by (auto simp: counter_edge_def)
  then show ?case using sub[of n] "2.prems"(3) by (cases "n = k") auto
qed auto

lemma model_at_initialize: "model_at (initialize_model vars []) x = []"
proof -
  have "(\<And>x. model_at m x = []) \<Longrightarrow> model_at (fold (\<lambda>x. map_put x []) xs m) x = []" for xs m
    by (induction xs arbitrary: m) auto
  then show ?thesis by (simp add: initialize_model_def model_at_def)
qed

lemma model_inv_start:
  assumes "node_ok f" and "final_formula f" and "\<And>x. x \<in> V \<Longrightarrow> model_at m x = []"
  shows "model_inv V f m"
  using assms final_formula_sat by (auto simp: model_inv_def)

text \<open>
  C7: Take a path with self-loops in a counter system, from a formula of empty equations
  to a formula \<open>g\<close>, whose length formula was built without running into an unsupported
  case. Whenever integers satisfy all conjuncts of the length formula, the model generator of
  the path builds words from them that solve \<open>g\<close>, and the word of each variable of \<open>g\<close> that
  has a length variable has the length which the integers give to that variable.
\<close>

theorem length_formula_path_sound:
  assumes cs: "counter_system_ok cs" and path: "valid_path (set (edges cs)) (path_nodes p) (path_labels p)"
    and loops: "\<forall>(n, sl) \<in> set (self_loops p). (n, n, sl) \<in> set (edges cs)"
    and start: "node_ok (hd (path_nodes p))" "final_formula (hd (path_nodes p))"
    and run: "length_formula_path p \<lparr>var_map = [], fresh = ids, conjuncts = [], model_path = []\<rparr> = Inr (Some t)"
    and sat: "\<forall>n \<in> set (conjuncts t). len_bool \<nu> n"
  shows "\<exists>m. generate_submodel (\<lambda>z. Some (\<nu> z)) (model_path t) (initialize_model vars []) = Inr m \<and>
    sat_formula R (model_at m) (last (path_nodes p)) \<and>
    (\<forall>x \<in> formula_get_vars (last (path_nodes p)). \<forall>v. map_of (var_map t) x = Some v \<longrightarrow>
       int (length (model_at m x)) = \<nu> v)"
proof -
  let ?s = "\<lparr>var_map = [], fresh = ids, conjuncts = [], model_path = []\<rparr>" let ?m = "initialize_model vars []"
  let ?g = "last (path_nodes p)" let ?V = "formula_get_vars ?g"
  have loop: "counter_edge g g sl" if "map_of (self_loops p) g = Some sl" for g sl
    using loops cs map_of_SomeD[OF that] by (auto simp: counter_system_ok_def)
  have "length_formula_loop (self_loops p) (zip (tl (path_nodes p)) (path_labels p)) ?s = Inr (Some t)"
    using run by (cases "path_labels p = []") (auto simp: length_formula_path_def)
  from length_formula_loop_sound[OF path cs loop this, of ?V \<nu> ?m]
  have "len_step ?V \<nu> ?g ?s ?m t"
    using sat valid_path_vars[OF path cs] start model_inv_start[OF start, of ?V ?m]
    by (auto simp: var_map_ok_def conjuncts_hold_def lengths_agree_def model_at_initialize)
  then obtain m where "generate_submodel (\<lambda>z. Some (\<nu> z)) (model_path t) ?m = Inr m" "model_inv ?V ?g m"
    "lengths_agree ?V \<nu> t m"
    unfolding len_step_def by auto
  then show ?thesis
    using lengths_agree_at[of ?V \<nu> t m] by (auto simp: model_inv_def)
qed

theorem length_formula_path_sound_witness:
  "let x = BasicTerm Variable [120]; a = BasicTerm Literal [97];
       fin = [create_equation [] []]; f = [create_equation [x, a] [a, x]];
       c0 = CounterLabel x [BasicTerm Length (zs ''0'')] (x, []);
       c1 = CounterLabel x [x, BasicTerm Length (zs ''1'')] (x, [a, x]);
       p = \<lparr>path_nodes = [fin, f], path_labels = [c0], self_loops = [(f, c1)]\<rparr>;
       \<nu> = (\<lambda>v. if get_name v = zs ''@x!n0'' then 0 else 2)
   in \<exists>t m. length_formula_path p \<lparr>var_map = [], fresh = [], conjuncts = [], model_path = []\<rparr> = Inr (Some t) \<and>
        generate_submodel (\<lambda>z. Some (\<nu> z)) (model_path t) (initialize_model {x} []) = Inr m \<and>
        sat_formula (\<lambda>_. {}) (model_at m) f \<and> length (model_at m x) = 2"
proof -
  let ?x = "BasicTerm Variable [120]" and ?a = "BasicTerm Literal [97]"
  let ?fin = "[create_equation [] []]" and ?f = "[create_equation [?x, ?a] [?a, ?x]]"
  let ?c0 = "CounterLabel ?x [BasicTerm Length (zs ''0'')] (?x, [])"
  let ?c1 = "CounterLabel ?x [?x, BasicTerm Length (zs ''1'')] (?x, [?a, ?x])"
  let ?p = "\<lparr>path_nodes = [?fin, ?f], path_labels = [?c0], self_loops = [(?f, ?c1)]\<rparr>"
  let ?\<nu> = "\<lambda>v. if get_name v = zs ''@x!n0'' then 0 else (2 :: int)"
  let ?cs = "add_edge ?fin ?f ?c0 (add_edge ?f ?f ?c1 empty_graph)"
  let ?s = "\<lparr>var_map = [], fresh = [], conjuncts = [], model_path = []\<rparr>"
  have one: "read_int (zs ''1'') = Some 1"
    by (simp add: zs_def read_int_def read_nat_def is_digit_def)
  have shapes: "label_shape ?c0" "label_shape ?c1"
    by (auto simp: label_shape_def literal_word_def one intro!: exI[of _ "[?a]"])
  have vars: "formula_get_vars ?fin = {}" "formula_get_vars ?f = {?x}"
    by (auto simp: formula_get_vars_def pred_get_vars_wf)
  have cs: "counter_system_ok ?cs"
    using shapes by (auto simp: counter_system_ok_def counter_edge_def vars undo_rule_def eval_term_def)
  have start: "node_ok (hd (path_nodes ?p))" "final_formula (hd (path_nodes ?p))"
    by (simp_all add: node_ok_def nielsen_formula_def trimmed_pred_def final_formula_def is_pred_sat_def)
  let ?v0 = "BasicTerm Variable (zs ''@x!n0'')" and ?v1 = "BasicTerm Variable (zs ''@x!n1'')"
    and ?j = "BasicTerm Variable (zs ''@j!n0'')"
  let ?s1 = "?s\<lparr>fresh := [([120], 1)], conjuncts := [len_op EQ [len_leaf ?v0, len_num 0]]\<rparr>"
  let ?s2 = "?s1\<lparr>var_map := [(?x, ?v0)], model_path := [((?x, []), BasicTerm Length [])]\<rparr>"
  let ?s3 = "?s2\<lparr>fresh := [([106], 1), ([120], 2)], conjuncts := conjuncts ?s2 @
    [len_op EQ [len_leaf ?v1, len_op PLUS [len_leaf ?v0, len_op TIMES [len_leaf ?j, len_num 1]]],
     len_op LEQ [len_num 0, len_leaf ?j]]\<rparr>"
  let ?t = "?s3\<lparr>var_map := [(?x, ?v1)], model_path := model_path ?s3 @ [((?x, [?a, ?x]), ?j)]\<rparr>"
  note fresh_defs = fresh_var_def mk_noodler_var_fresh_def mk_internal_noodler_var_def show_nat.simps
    count_at_def map_increment_def zs_def
  have f0: "fresh_var [120] ?s = (?v0, ?s\<lparr>fresh := [([120], 1)]\<rparr>)" by (simp add: fresh_defs)
  have f1: "fresh_var [120] ?s2 = (?v1, ?s2\<lparr>fresh := [([120], 2)]\<rparr>)" by (simp add: fresh_defs)
  have f2: "fresh_var (zs ''j'') (?s2\<lparr>fresh := [([120], 2)]\<rparr>) =
      (?j, ?s2\<lparr>fresh := [([106], 1), ([120], 2)]\<rparr>)" by (simp add: fresh_defs)
  have nums: "stoi (zs ''0'') = Inr 0" "stoi (zs ''1'') = Inr 1" by (simp_all add: stoi_def one fits_int32_def)
  have l0: "get_label_formula ?c0 ?s = Inr (?v0, ?s1)"
    by (simp add: get_label_formula_def f0 nums push_conjunct_def)
  have l1: "get_label_sl_formula ?c1 ?s2 = Inr (Some (?v1, ?s3))"
    unfolding get_label_sl_formula_def counter_label.sel basic_term.sel f1
    by (simp add: f2[simplified] nums push_conjunct_def)
  have run: "length_formula_path ?p ?s = Inr (Some ?t)"
    using l1 by (simp add: length_formula_path_def length_formula_node_def l0 len_op_def len_leaf_def)
  have t: "map_of (var_map ?t) ?x = Some ?v1" "\<forall>n \<in> set (conjuncts ?t). len_bool ?\<nu> n"
    by (simp_all add: zs_def)
  from length_formula_path_sound[OF cs _ _ start run t(2), of "{?x}" "\<lambda>_. {}"]
  obtain m where m: "generate_submodel (\<lambda>z. Some (?\<nu> z)) (model_path ?t) (initialize_model {?x} []) = Inr m"
    "sat_formula (\<lambda>_. {}) (model_at m) ?f" "int (length (model_at m ?x)) = ?\<nu> (BasicTerm Variable (zs ''@x!n1''))"
    using t(1) vars(2) by auto
  have "length (model_at m ?x) = 2" using m(3) by (simp add: zs_def)
  with m(1,2) show ?thesis
    unfolding Let_def by (intro exI[of _ ?t] exI[of _ m] conjI run) simp_all
qed

end
