(* ===== verification/Nielsen_Procedure.thy ===== *)
theory Nielsen_Procedure
  imports Nielsen_Lengths
begin

text \<open>
  The decision procedure that drives the Nielsen transformation
  (\<open>NielsenDecisionProcedure\<close>): the state of the object, \<open>compute_next_solution\<close> with its
  early returns, and \<open>get_model\<close>. For quadratic formulae without length-sensitive
  variables the procedure decides satisfiability, and the model it returns is a solution.
\<close>

section \<open>The procedure\<close>

text \<open>
  The fields of the class: the length-sensitive variables (an unordered set, read in some
  order), the formula, whether models are produced, the graphs, the length paths of each
  graph, the model handler (its variables, generators and model), the index of the next
  length path and the last length formula; \<open>np_fresh\<close> holds the counters for fresh names.
\<close>

record nielsen_proc =
  np_len_vars :: "basic_term list"
  np_formula :: formula
  np_produce_models :: bool
  np_graphs :: "nielsen_label tgraph list"
  np_length_paths :: "counter_label path list list"
  np_vars :: "basic_term set"
  np_generators :: "model_generator list"
  np_model :: string_model
  np_index :: nat
  np_length_formula :: len_node
  np_fresh :: fresh_ids

definition new_nielsen_procedure :: "formula \<Rightarrow> basic_term list \<Rightarrow> bool \<Rightarrow> fresh_ids \<Rightarrow> nielsen_proc res" where
  "new_nielsen_procedure equalities len_vars produce_models ids =
     (if \<not> all_of_type equalities Equation
      then Inl (Runtime_Error ''Nielsen supports quadratic equations only'')
      else Inr \<lparr>np_len_vars = len_vars, np_formula = equalities, np_produce_models = produce_models,
                np_graphs = [], np_length_paths = [], np_vars = {}, np_generators = [], np_model = [],
                np_index = 0, np_length_formula = len_op TRUE [], np_fresh = ids\<rparr>)"

text \<open>Computations that may fail to end (\<open>None\<close>) or end with an exception.\<close>

type_synonym 'a run = "'a res option"

definition bind_run :: "'a run \<Rightarrow> ('a \<Rightarrow> 'b run) \<Rightarrow> 'b run" where
  "bind_run r k = (case r of None \<Rightarrow> None | Some (Inl e) \<Rightarrow> Some (Inl e) | Some (Inr a) \<Rightarrow> k a)"

text \<open>
  The paths of a condensed counter system, collected until a loop lies on no path; the flag
  tells whether all loops have one.
\<close>

fun length_paths_of :: "counter_system \<Rightarrow> (formula \<times> counter_label) list \<Rightarrow> counter_label path list \<times> bool" where
  "length_paths_of cs [] = ([], True)"
| "length_paths_of cs (c # ls) =
     (case get_length_path cs c of
        None \<Rightarrow> ([], False)
      | Some p \<Rightarrow> (let (ps, ok) = length_paths_of cs ls in (p # ps, ok)))"

text \<open>The generator of an instance: the rules along a shortest path, or none.\<close>

definition default_generator :: "counter_system \<Rightarrow> formula \<Rightarrow> model_generator" where
  "default_generator cs fle =
     (case shortest_path cs (init cs) (trim_formula fle) of
        None \<Rightarrow> []
      | Some p \<Rightarrow> simple_generator_from_path p)"

text \<open>
  The loop over the independent instances. The result is the answer of an early return, or
  \<open>None\<close> if the loop is left at its end.
\<close>

fun solve_instances ::
  "((nat \<times> formula) list \<Rightarrow> nat) \<Rightarrow> formula list \<Rightarrow> nat \<Rightarrow> nielsen_proc \<Rightarrow> (lbool option \<times> nielsen_proc) run"
where
  "solve_instances sel [] graph_counter np = Some (Inr (None, np))"
| "solve_instances sel (fle # rest) graph_counter np =
     (case generate_from_formula sel fle (np_len_vars np = [])
             (np_produce_models np \<or> np_len_vars np \<noteq> []) of
        None \<Rightarrow> None
      | Some (g, sat) \<Rightarrow>
          if \<not> sat then Some (Inr (Some l_false, np))
          else let g = trim g; np = np\<lparr>np_graphs := np_graphs np @ [g]\<rparr> in
          case create_counter_system g of
            None \<Rightarrow> Some (Inr (Some l_undef, np))
          | Some cs \<Rightarrow>
              let np = (if np_produce_models np
                        then np\<lparr>np_generators := (np_generators np)[graph_counter := default_generator cs fle]\<rparr>
                        else np);
                  graph_counter = (if np_produce_models np then Suc graph_counter else graph_counter)
              in if np_len_vars np = [] then solve_instances sel rest graph_counter np
              else bind_run (Some (bind_res (condensate_counter_system cs) condensate_counter_system)) (\<lambda>cs.
                   bind_run (Some (find_self_loops (set (np_len_vars np)) cs)) (\<lambda>ls.
                     let (ps, ok) = length_paths_of cs ls;
                         np = np\<lparr>np_length_paths := np_length_paths np @ [ps]\<rparr>
                     in if \<not> ok then Some (Inr (Some l_undef, np))
                        else solve_instances sel rest graph_counter np)))"

text \<open>
  The loop over the length paths with the current index. It is left with the flag \<open>False\<close>
  at a path whose length formula cannot be built.
\<close>

fun length_formulas ::
  "nat \<Rightarrow> counter_label path list list \<Rightarrow> len_state \<Rightarrow> nielsen_proc \<Rightarrow> (bool \<times> len_state \<times> nielsen_proc) res"
where
  "length_formulas i [] s np = Inr (True, s, np)"
| "length_formulas i (ps # pss) s np =
     (if np_index np \<ge> length ps then length_formulas (Suc i) pss s np
      else bind_res (length_formula_path (ps ! np_index np) (s\<lparr>model_path := []\<rparr>)) (\<lambda>r.
        case r of
          None \<Rightarrow> Inr (False, s, np)
        | Some s \<Rightarrow> length_formulas (Suc i) pss s
            (if np_produce_models np
             then np\<lparr>np_generators := (np_generators np)[i := model_path s]\<rparr> else np)))"

definition finish_solution :: "nielsen_proc \<Rightarrow> (lbool \<times> nielsen_proc) res" where
  "finish_solution np =
     (if np_len_vars np = [] then Inr (l_true, np\<lparr>np_length_formula := len_op TRUE []\<rparr>)
      else bind_res (length_formulas 0 (np_length_paths np)
               \<lparr>var_map = [], fresh = np_fresh np, conjuncts = [], model_path = []\<rparr> np) (\<lambda>(ok, s, np).
        let np = np\<lparr>np_fresh := fresh s\<rparr> in
        if \<not> ok then Inr (l_undef, np)
        else case generate_len_connection (np_len_vars np) s of
               None \<Rightarrow> Inr (l_undef, np)
             | Some s \<Rightarrow>
                 Inr (l_true, np\<lparr>np_length_formula := len_op AND (conjuncts s),
                                 np_index := Suc (np_index np)\<rparr>)))"

text \<open>
  \<open>compute_next_solution\<close>; \<open>srt\<close> is \<open>std::sort\<close> with the comparison of the predicate costs,
  which may order predicates of equal cost in any way.
\<close>

definition sorts_by_cost :: "(formula \<Rightarrow> formula) \<Rightarrow> bool" where
  "sorts_by_cost srt \<longleftrightarrow> (\<forall>f. mset (srt f) = mset f \<and> sorted (map get_predicate_cost (srt f)))"

definition compute_next_solution ::
  "((nat \<times> formula) list \<Rightarrow> nat) \<Rightarrow> (formula \<Rightarrow> formula) \<Rightarrow> nielsen_proc \<Rightarrow> (lbool \<times> nielsen_proc) run"
where
  "compute_next_solution sel srt np =
     (if length (np_graphs np) = 0 then
        let np = np\<lparr>np_formula := srt (np_formula np)\<rparr>;
            instances = divide_independent_formula (np_formula np);
            np = np\<lparr>np_generators := replicate (length instances) [], np_model := [],
                    np_vars := formula_get_vars (np_formula np)\<rparr>
        in bind_run (solve_instances sel instances 0 np) (\<lambda>(r, np).
             case r of Some b \<Rightarrow> Some (Inr (b, np)) | None \<Rightarrow> Some (finish_solution np))
      else if np_index np \<ge> length (np_length_paths np) then Some (Inr (l_undef, np))
      else Some (finish_solution np))"

text \<open>\<open>get_lengths\<close> hands out the length formula as a precise one.\<close>

definition get_lengths :: "nielsen_proc \<Rightarrow> len_node \<times> len_node_precision" where
  "get_lengths np = (np_length_formula np, PRECISE)"

definition get_model :: "(basic_term \<rightharpoonup> int) \<Rightarrow> basic_term \<Rightarrow> nielsen_proc \<Rightarrow> (zstring \<times> nielsen_proc) res" where
  "get_model arith_model x np =
     bind_res (if length (np_model np) > 0 then Inr np
               else bind_res (compute_model arith_model (np_vars np) (np_generators np))
                      (\<lambda>m. Inr (np\<lparr>np_model := m\<rparr>)))
       (\<lambda>np. Inr (model_at (np_model np) x, np))"

section \<open>Independent parts\<close>

definition disjoint_vars :: "formula list \<Rightarrow> bool" where
  "disjoint_vars fs \<longleftrightarrow> sorted_wrt (\<lambda>g h. formula_get_vars g \<inter> formula_get_vars h = {}) fs"

lemma divide_set: "(\<Union>g \<in> set (divide_independent_formula f). set g) = set f"
proof -
  have split: "set [0..<length f] = {i. i < length f \<and> independent_pred f i} \<union> {i. i < length f \<and> \<not> independent_pred f i}"
    by auto
  have "set f = (\<lambda>i. f ! i) ` set [0..<length f]" by (metis map_nth list.set_map)
  then show ?thesis
    unfolding split by (auto simp: divide_independent_formula_def Let_def filter_empty_conv)
qed

lemma divide_nonempty: "g \<in> set (divide_independent_formula f) \<Longrightarrow> g \<noteq> []"
  by (auto simp: divide_independent_formula_def Let_def split: if_splits)

lemma sorted_wrt_distinct:
  "distinct xs \<Longrightarrow> (\<And>x y. x \<in> set xs \<Longrightarrow> y \<in> set xs \<Longrightarrow> x \<noteq> y \<Longrightarrow> P x y) \<Longrightarrow> sorted_wrt P xs"
  by (induction xs) auto

lemma independent_disjoint:
  "independent_pred f i \<Longrightarrow> j < length f \<Longrightarrow> i \<noteq> j \<Longrightarrow> pred_get_vars (f ! i) \<inter> pred_get_vars (f ! j) = {}"
  by (auto simp: independent_pred_def)

lemma divide_disjoint: "disjoint_vars (divide_independent_formula f)"
proof -
  let ?ind = "filter (independent_pred f) [0..<length f]"
  let ?rest = "filter (\<lambda>i. \<not> independent_pred f i) [0..<length f]"
  have "sorted_wrt (\<lambda>i j. pred_get_vars (f ! i) \<inter> pred_get_vars (f ! j) = {}) ?ind"
    by (rule sorted_wrt_distinct) (simp_all add: independent_disjoint)
  then have "disjoint_vars (map (\<lambda>i. [f ! i]) ?ind)"
    by (simp add: disjoint_vars_def sorted_wrt_map formula_get_vars_def)
  moreover have "formula_get_vars [f ! i] \<inter> formula_get_vars (map (\<lambda>i. f ! i) ?rest) = {}"
    if "i \<in> set ?ind" for i
    using that independent_disjoint[of f i] by (fastforce simp: formula_get_vars_def)
  ultimately show ?thesis
    by (auto simp: divide_independent_formula_def Let_def disjoint_vars_def sorted_wrt_append)
qed

text \<open>Dividing a formula duplicates no predicate, so the parts of a quadratic formula are quadratic.\<close>

lemma divide_occurrences:
  assumes "g \<in> set (divide_independent_formula f)"
  shows "formula_occurrences g x \<le> formula_occurrences f x"
proof -
  consider i where "i < length f" "g = [f ! i]"
    | P where "g = map (\<lambda>i. f ! i) (filter P [0..<length f])"
    using assms by (auto simp: divide_independent_formula_def Let_def split: if_splits)
  then show ?thesis
  proof cases
    case 1
    then have "pred_count x (f ! i) \<in> set (map (pred_count x) f)" by simp
    from member_le_sum_list[OF this] show ?thesis
      by (simp add: formula_occurrences_pred_count 1(2))
  next
    case 2
    have "sum_list (map h (filter P xs)) \<le> sum_list (map h xs)" for h :: "nat \<Rightarrow> nat" and xs
      by (induction xs) auto
    from this[of "\<lambda>i. pred_count x (f ! i)" "[0..<length f]"]
    have "formula_occurrences g x \<le> sum_list (map (pred_count x) (map (\<lambda>i. f ! i) [0..<length f]))"
      unfolding formula_occurrences_pred_count 2 by (simp add: comp_def)
    then show ?thesis by (simp only: map_nth formula_occurrences_pred_count)
  qed
qed

lemma divide_parts:
  assumes "nielsen_formula f" and "is_quadratic f" and "g \<in> set (divide_independent_formula f)"
  shows "nielsen_formula g" "is_quadratic g" "g \<noteq> []"
proof -
  show ng: "nielsen_formula g" using assms(1,3) divide_set[of f] by (auto simp: nielsen_formula_def)
  have "formula_occurrences f x \<le> 2" if "is_variable x" for x
    using assms(2) that is_quadratic_from_iff[of "[]" f] by (auto simp: is_quadratic_def dest!: spec[of _ x])
  then have "formula_occurrences g x \<le> 2" if "is_variable x" for x
    using divide_occurrences[OF assms(3)] that order_trans by blast
  then show "is_quadratic g"
    using ng is_quadratic_from_iff[of "[]" g] by (auto simp: is_quadratic_def nielsen_formula_def nielsen_pred_def)
  show "g \<noteq> []" by (rule divide_nonempty[OF assms(3)])
qed

lemma sat_pred_agree:
  assumes "nielsen_pred p" and "\<And>x. x \<in> pred_get_vars p \<Longrightarrow> \<sigma> x = \<tau> x"
  shows "sat_pred R \<sigma> p = sat_pred R \<tau> p"
proof -
  have "eval_concat \<sigma> c = eval_concat \<tau> c" if "c = get_left_side p \<or> c = get_right_side p" for c
    using assms that by (intro eval_concat_cong) (auto simp: nielsen_pred_def nielsen_term_def pred_get_vars_wf)
  then show ?thesis using nielsen_pred_sat[OF assms(1)] by metis
qed

lemma sat_formula_agree:
  assumes "nielsen_formula f" and "\<And>x. x \<in> formula_get_vars f \<Longrightarrow> \<sigma> x = \<tau> x"
  shows "sat_formula R \<sigma> f = sat_formula R \<tau> f"
  using assms sat_pred_agree unfolding sat_formula_def nielsen_formula_def formula_get_vars_def
  by (metis UN_I)

lemma disjoint_vars_Cons:
  "disjoint_vars (f # fs) \<longleftrightarrow> (\<forall>g \<in> set fs. formula_get_vars f \<inter> formula_get_vars g = {}) \<and> disjoint_vars fs"
  by (simp add: disjoint_vars_def)

lemma disjoint_satisfiable:
  assumes "disjoint_vars fs" and "\<And>g. g \<in> set fs \<Longrightarrow> nielsen_formula g"
    and "\<And>g. g \<in> set fs \<Longrightarrow> \<exists>\<sigma>. sat_formula R \<sigma> g"
  shows "\<exists>\<sigma>. \<forall>g \<in> set fs. sat_formula R \<sigma> g"
  using assms
proof (induction fs)
  case (Cons f fs)
  obtain \<sigma> where \<sigma>: "\<forall>g \<in> set fs. sat_formula R \<sigma> g"
    using Cons by (auto simp: disjoint_vars_Cons)
  obtain \<tau> where \<tau>: "sat_formula R \<tau> f" using Cons.prems(3) by auto
  let ?\<rho> = "\<lambda>x. if x \<in> formula_get_vars f then \<tau> x else \<sigma> x"
  have "sat_formula R ?\<rho> f"
    using \<tau> sat_formula_agree[of f ?\<rho> \<tau> R] Cons.prems(2) by simp
  moreover have "sat_formula R ?\<rho> g" if "g \<in> set fs" for g
  proof -
    have "?\<rho> x = \<sigma> x" if "x \<in> formula_get_vars g" for x
      using Cons.prems(1) \<open>g \<in> set fs\<close> that by (auto simp: disjoint_vars_Cons)
    then show ?thesis
      using sat_formula_agree[of g ?\<rho> \<sigma> R] Cons.prems(2) \<sigma> that by simp
  qed
  ultimately show ?case by (intro exI[of _ ?\<rho>]) simp
qed simp

lemma divide_sat: "sat_formula R \<sigma> f \<longleftrightarrow> (\<forall>g \<in> set (divide_independent_formula f). sat_formula R \<sigma> g)"
  using divide_set[of f] unfolding sat_formula_def by blast

lemma divide_satisfiable:
  assumes "nielsen_formula f"
  shows "(\<exists>\<sigma>. sat_formula R \<sigma> f) \<longleftrightarrow> (\<forall>g \<in> set (divide_independent_formula f). \<exists>\<sigma>. sat_formula R \<sigma> g)"
proof -
  have "nielsen_formula g" if "g \<in> set (divide_independent_formula f)" for g
    using assms that divide_set[of f] by (auto simp: nielsen_formula_def)
  then show ?thesis
    using disjoint_satisfiable[OF divide_disjoint, of f R] divide_sat[of R _ f] by blast
qed

text \<open>
  C21: The division of a formula keeps every predicate, its parts are non-empty and share no
  variables, and the formula is satisfiable exactly if every part is.
\<close>

theorem divide_independent_formula_correct:
  assumes "nielsen_formula f"
  shows "(\<Union>g \<in> set (divide_independent_formula f). set g) = set f \<and>
    [] \<notin> set (divide_independent_formula f) \<and>
    sorted_wrt (\<lambda>g h. formula_get_vars g \<inter> formula_get_vars h = {}) (divide_independent_formula f) \<and>
    ((\<exists>\<sigma>. sat_formula R \<sigma> f) \<longleftrightarrow> (\<forall>g \<in> set (divide_independent_formula f). \<exists>\<sigma>. sat_formula R \<sigma> g))"
  using divide_set[of f] divide_nonempty[of _ f] divide_disjoint[of f] divide_satisfiable[OF assms]
  by (auto simp: disjoint_vars_def)

theorem divide_independent_formula_correct_witness:
  "let x = BasicTerm Variable [120]; y = BasicTerm Variable [121];
       f = [create_equation [x] [], create_equation [y] [y]]
   in divide_independent_formula f = [[create_equation [x] []], [create_equation [y] [y]]] \<and>
      ((\<exists>\<sigma>. sat_formula (\<lambda>_. {}) \<sigma> f) \<longleftrightarrow>
       (\<forall>g \<in> set (divide_independent_formula f). \<exists>\<sigma>. sat_formula (\<lambda>_. {}) \<sigma> g))"
proof -
  let ?x = "BasicTerm Variable [120]" and ?y = "BasicTerm Variable [121]"
  let ?f = "[create_equation [?x] [], create_equation [?y] [?y]]"
  have "nielsen_formula ?f" by (simp add: nielsen_formula_def nielsen_term_def)
  moreover have "divide_independent_formula ?f = [[create_equation [?x] []], [create_equation [?y] [?y]]]"
    by code_simp
  ultimately show ?thesis
    using divide_independent_formula_correct[of ?f "\<lambda>_. {}"] unfolding Let_def by blast
qed

section \<open>Generators\<close>

text \<open>A generator solves its part: it fills the empty variables of the part and no others.\<close>

definition solves :: "model_generator \<Rightarrow> formula \<Rightarrow> bool" where
  "solves gen f \<longleftrightarrow> (\<forall>\<mu> m. (\<forall>x \<in> formula_get_vars f. model_at m x = []) \<longrightarrow>
     (\<exists>m'. generate_submodel \<mu> gen m = Inr m' \<and> (\<forall>R. sat_formula R (model_at m') f) \<and>
        (\<forall>y. y \<notin> formula_get_vars f \<longrightarrow> model_at m' y = model_at m y)))"

lemma submodels_solve:
  assumes "list_all2 solves gens fs" and "disjoint_vars fs" and "\<And>g. g \<in> set fs \<Longrightarrow> nielsen_formula g"
    and "\<And>g x. g \<in> set fs \<Longrightarrow> x \<in> formula_get_vars g \<Longrightarrow> model_at m x = []"
  shows "\<exists>m'. generate_submodels \<mu> gens m = Inr m' \<and> (\<forall>g \<in> set fs. \<forall>R. sat_formula R (model_at m') g) \<and>
    (\<forall>y. (\<forall>g \<in> set fs. y \<notin> formula_get_vars g) \<longrightarrow> model_at m' y = model_at m y)"
  using assms
proof (induction gens fs arbitrary: m rule: list_all2_induct)
  case Nil
  then show ?case by simp
next
  case (Cons gen gens f fs)
  obtain m1 where m1: "generate_submodel \<mu> gen m = Inr m1" "\<forall>R. sat_formula R (model_at m1) f"
    "\<forall>y. y \<notin> formula_get_vars f \<longrightarrow> model_at m1 y = model_at m y"
    using Cons.hyps(1) Cons.prems(3) unfolding solves_def by (metis list.set_intros(1))
  have disj: "\<forall>g \<in> set fs. formula_get_vars f \<inter> formula_get_vars g = {}" "disjoint_vars fs"
    using Cons.prems(1) by (auto simp: disjoint_vars_Cons)
  have "\<exists>m'. generate_submodels \<mu> gens m1 = Inr m' \<and> (\<forall>g \<in> set fs. \<forall>R. sat_formula R (model_at m') g) \<and>
    (\<forall>y. (\<forall>g \<in> set fs. y \<notin> formula_get_vars g) \<longrightarrow> model_at m' y = model_at m1 y)"
  proof (rule Cons.IH[OF disj(2)])
    show "nielsen_formula g" if "g \<in> set fs" for g using Cons.prems(2) that by simp
    show "model_at m1 x = []" if "g \<in> set fs" "x \<in> formula_get_vars g" for g x
    proof -
      have "x \<notin> formula_get_vars f" using disj(1) that by blast
      then show ?thesis using m1(3) Cons.prems(3)[of g x] that by simp
    qed
  qed
  then obtain m2 where m2: "generate_submodels \<mu> gens m1 = Inr m2"
    "\<forall>g \<in> set fs. \<forall>R. sat_formula R (model_at m2) g"
    "\<forall>y. (\<forall>g \<in> set fs. y \<notin> formula_get_vars g) \<longrightarrow> model_at m2 y = model_at m1 y" by blast
  have "sat_formula R (model_at m2) f" for R
  proof -
    have "model_at m2 x = model_at m1 x" if "x \<in> formula_get_vars f" for x
    proof -
      have "\<forall>g \<in> set fs. x \<notin> formula_get_vars g" using disj(1) that by blast
      then show ?thesis using m2(3) by blast
    qed
    then show ?thesis
      using m1(2) sat_formula_agree[of f "model_at m2" "model_at m1" R] Cons.prems(2) by simp
  qed
  then show ?case using m1 m2 by auto
qed

lemma trim_reach:
  assumes "(a, h) \<in> (step_rel (set (edges g)))\<^sup>*" and "h \<in> set (fins g)"
  shows "(a, h) \<in> (step_rel (set (edges (trim g))))\<^sup>*"
  using assms(1)
proof (induction rule: converse_rtrancl_induct)
  case (step a b)
  obtain l where "(a, b, l) \<in> set (edges g)" using step.hyps(1) by (auto simp: step_rel_def)
  then have "(a, b, l) \<in> set (edges (trim g))"
    using step.hyps(2) assms(2) by (auto simp: trim_edges rtrancl_converse)
  then show ?case using step.IH by (meson converse_rtrancl_into_rtrancl step_relI)
qed simp

lemma counter_system_reach:
  assumes "\<forall>(s, t, lab) \<in> set (edges g). node_ok s \<and> nielsen_step s lab t"
    and "create_counter_system g = Some cs" and "(a, h) \<in> (step_rel (set (edges g)))\<^sup>*"
  shows "(h, a) \<in> (step_rel (set (edges cs)))\<^sup>*"
  using assms(3)
proof (induction rule: converse_rtrancl_induct)
  case (step a b)
  obtain x c where ab: "(a, b, x, c) \<in> set (edges g)" using step.hyps(1) by (auto simp: step_rel_def)
  then have "node_ok a" "nielsen_step a (x, c) b" using assms(1) by auto
  then obtain cl where "conv_label (x, c) = Some cl" using nielsen_step_counter_edge by fastforce
  then have "(b, a, cl) \<in> set (edges cs)"
    using create_counter_system_ok[OF assms(1)] assms(2) ab by auto
  then show ?case using step.IH by (meson rtrancl.rtrancl_into_rtrancl step_relI)
qed simp

lemma trim_formula_vars: "nielsen_formula f \<Longrightarrow> formula_get_vars (trim_formula f) \<subseteq> formula_get_vars f"
  using vars_trim_pred by (fastforce simp: formula_get_vars_def trim_formula_def nielsen_formula_def nielsen_pred_def)

lemma path_solves:
  assumes f: "nielsen_formula f" and cs: "counter_system_ok cs" and fin: "node_ok h" "final_formula h"
    and path: "valid_path (set (edges cs)) (path_nodes p) (path_labels p)"
      "hd (path_nodes p) = h" "last (path_nodes p) = trim_formula f"
  shows "solves (simple_generator_from_path p) f"
  unfolding solves_def
proof (intro allI impI)
  fix \<mu> m
  assume empty: "\<forall>x \<in> formula_get_vars f. model_at m x = []"
  let ?V = "formula_get_vars (trim_formula f)"
  have sub: "?V \<subseteq> formula_get_vars f" by (rule trim_formula_vars[OF f])
  have "model_inv ?V (hd (path_nodes p)) m"
    using model_inv_start[OF fin] empty sub path(2) by auto
  from model_inv_path[OF path(1) cs this, of \<mu>] obtain m' where
    "generate_submodel \<mu> (map plain (path_labels p)) m = Inr m'" "model_inv ?V (trim_formula f) m'"
    "\<forall>y. y \<notin> ?V \<longrightarrow> model_at m' y = model_at m y"
    using valid_path_vars[OF path(1) cs] path(3) by auto
  then show "\<exists>m'. generate_submodel \<mu> (simple_generator_from_path p) m = Inr m' \<and>
      (\<forall>R. sat_formula R (model_at m') f) \<and> (\<forall>y. y \<notin> formula_get_vars f \<longrightarrow> model_at m' y = model_at m y)"
    using simple_generator_plain[OF path(1)] sat_trim_formula[OF f] sub
    by (intro exI[of _ m']) (auto simp: model_inv_def)
qed

lemma default_generator_solves:
  assumes sel: "queue_top sel" and f: "nielsen_formula f" "f \<noteq> []"
    and run: "generate_from_formula sel f early add = Some (g, True)"
  shows "\<exists>cs. create_counter_system (trim g) = Some cs \<and> (add \<longrightarrow> solves (default_generator cs f) f)"
proof -
  obtain s where inv: "search_inv (trim_formula f) add s" and s: "graph s = g" "is_sat s"
    by (rule generate_state[OF assms]) simp
  have ok: "node_ok (trim_formula f)" by (rule nielsen_node_trim[OF f(1)])
  have E: "\<forall>(s, t, lab) \<in> set (edges g). node_ok s \<and> nielsen_step s lab t"
    and F: "set (fins g) = {h \<in> set (generated s). final_formula h}" "fins g \<noteq> []"
    using inv s by (auto simp: search_inv_def search_ok_def)
  then have E': "\<forall>(s, t, lab) \<in> set (edges (trim g)). node_ok s \<and> nielsen_step s lab t"
    by (auto simp: trim_edges)
  obtain cs where cs: "create_counter_system (trim g) = Some cs" "counter_system_ok cs"
    "fins (trim g) \<noteq> [] \<longrightarrow> init cs = last (fins (trim g))"
    using create_counter_system_ok[OF E'] by blast
  have "fins (trim g) \<noteq> []" using F(2) trim_edges(3)[of g] by auto
  then have h: "init cs \<in> set (fins g)" using cs(3) trim_edges(3)[of g] by (metis last_in_set)
  then have fin: "init cs \<in> set (generated s)" "final_formula (init cs)" using F(1) by auto
  have reach: "entry_ok (trim_formula f) add (set (edges g)) (init cs)"
    using search_inv_reach[OF inv fin(1)] s(1) by simp
  have "solves (default_generator cs f) f" if add
  proof -
    have "(init cs, trim_formula f) \<in> (step_rel (set (edges cs)))\<^sup>*"
      using counter_system_reach[OF E' cs(1)] trim_reach[OF _ h] reach that by (simp add: entry_ok_def)
    then obtain p where "shortest_path cs (init cs) (trim_formula f) = Some p"
      "valid_path (set (edges cs)) (path_nodes p) (path_labels p)"
      "hd (path_nodes p) = init cs" "last (path_nodes p) = trim_formula f"
      using shortest_path_exists by blast
    moreover have "node_ok (init cs)" using reach nielsen.ok_steps ok by (auto simp: entry_ok_def)
    ultimately show ?thesis
      using path_solves[OF f(1) cs(2) _ fin(2)] by (simp add: default_generator_def)
  qed
  then show ?thesis using cs(1) by blast
qed

section \<open>The answers of the procedure\<close>

definition keeps_handler :: "nielsen_proc \<Rightarrow> nielsen_proc \<Rightarrow> bool" where
  "keeps_handler np np' \<longleftrightarrow> np_len_vars np' = np_len_vars np \<and> np_produce_models np' = np_produce_models np \<and>
     np_vars np' = np_vars np \<and> np_model np' = np_model np"

definition answers ::
  "(nat \<Rightarrow> (zstring \<times> zstring) set) \<Rightarrow> formula list \<Rightarrow> nat \<Rightarrow> nielsen_proc \<Rightarrow> lbool option \<Rightarrow> nielsen_proc \<Rightarrow> bool"
where
  "answers R fs k np r np' \<longleftrightarrow> keeps_handler np np' \<and>
    (if \<forall>g \<in> set fs. \<exists>\<sigma>. sat_formula R \<sigma> g
     then r = None \<and> (np_produce_models np \<longrightarrow>
       (\<exists>gens. np_generators np' = take k (np_generators np) @ gens \<and> list_all2 solves gens fs))
     else r = Some l_false)"

lemma solve_instances_spec:
  assumes "queue_top sel" and "np_len_vars np = []"
    and "\<And>g. g \<in> set fs \<Longrightarrow> nielsen_formula g \<and> is_quadratic g \<and> g \<noteq> []"
    and "np_produce_models np \<Longrightarrow> k + length fs = length (np_generators np)"
  shows "\<exists>r np'. solve_instances sel fs k np = Some (Inr (r, np')) \<and> answers R fs k np r np'"
  using assms
proof (induction fs arbitrary: k np)
  case Nil
  then show ?case by (simp add: answers_def keeps_handler_def)
next
  case (Cons f fs)
  have f: "nielsen_formula f" "is_quadratic f" "f \<noteq> []" using Cons.prems(3)[of f] by simp_all
  obtain g b where run: "generate_from_formula sel f True (np_produce_models np) = Some (g, b)"
    using generate_total[OF Cons.prems(1) f(1,3,2)] by blast
  have b: "b \<longleftrightarrow> (\<exists>\<sigma>. sat_formula R \<sigma> f)"
    by (rule generate_correct[OF Cons.prems(1) f(1,3) run])
  show ?case
  proof (cases b)
    case False
    then show ?thesis using b run Cons.prems(2) by (simp add: answers_def keeps_handler_def)
  next
    case True
    then have "generate_from_formula sel f True (np_produce_models np) = Some (g, True)" using run by simp
    then obtain cs where cs: "create_counter_system (trim g) = Some cs"
      "np_produce_models np \<longrightarrow> solves (default_generator cs f) f"
      using default_generator_solves[OF Cons.prems(1) f(1,3)] by blast
    define np1 where "np1 = (let np = np\<lparr>np_graphs := np_graphs np @ [trim g]\<rparr> in
      if np_produce_models np then np\<lparr>np_generators := (np_generators np)[k := default_generator cs f]\<rparr> else np)"
    define k1 where "k1 = (if np_produce_models np then Suc k else k)"
    have np1: "keeps_handler np np1" by (simp add: keeps_handler_def np1_def Let_def)
    have step: "solve_instances sel (f # fs) k np = solve_instances sel fs k1 np1"
      using run True cs(1) Cons.prems(2) by (simp add: Let_def np1_def k1_def)
    have gens: "np_produce_models np \<Longrightarrow> take k1 (np_generators np1) = take k (np_generators np) @ [default_generator cs f]"
      using Cons.prems(4) by (simp add: np1_def k1_def Let_def take_Suc_conv_app_nth)
    have "\<exists>r np'. solve_instances sel fs k1 np1 = Some (Inr (r, np')) \<and> answers R fs k1 np1 r np'"
      using Cons.prems np1 by (intro Cons.IH) (auto simp: keeps_handler_def np1_def k1_def Let_def)
    then obtain r np' where IH: "solve_instances sel fs k1 np1 = Some (Inr (r, np'))" "answers R fs k1 np1 r np'"
      by blast
    have "\<exists>gens. np_generators np' = take k (np_generators np) @ gens \<and> list_all2 solves gens (f # fs)"
      if prod: "np_produce_models np" and all: "\<forall>g \<in> set fs. \<exists>\<sigma>. sat_formula R \<sigma> g"
    proof -
      obtain gens' where "np_generators np' = take k1 (np_generators np1) @ gens'" "list_all2 solves gens' fs"
        using IH(2) prod all np1 unfolding answers_def keeps_handler_def by auto
      then show ?thesis
        using gens[OF prod] cs(2) prod by (intro exI[of _ "default_generator cs f # gens'"]) simp
    qed
    then show ?thesis
      using IH True b np1 unfolding step answers_def keeps_handler_def by (auto split: if_splits)
  qed
qed

lemma sort_keeps:
  assumes "sorts_by_cost srt" and "nielsen_formula f"
  shows "set (srt f) = set f" "nielsen_formula (srt f)" "is_quadratic (srt f) = is_quadratic f"
    "sat_formula R \<sigma> (srt f) = sat_formula R \<sigma> f" "formula_get_vars (srt f) = formula_get_vars f"
proof -
  have m: "mset (srt f) = mset f" using assms(1) by (simp add: sorts_by_cost_def)
  then show s: "set (srt f) = set f" by (metis set_mset_mset)
  then show "nielsen_formula (srt f)" "sat_formula R \<sigma> (srt f) = sat_formula R \<sigma> f"
    "formula_get_vars (srt f) = formula_get_vars f"
    using assms(2) by (simp_all add: nielsen_formula_def sat_formula_def formula_get_vars_def)
  have "mset (map h (srt f)) = mset (map h f)" for h :: "predicate \<Rightarrow> nat" using m by simp
  then have "formula_occurrences (srt f) x = formula_occurrences f x" for x
    unfolding formula_occurrences_def by (metis sum_mset_sum_list)
  then show "is_quadratic (srt f) = is_quadratic f"
    using s is_quadratic_from_iff[of "[]"] by (simp add: is_quadratic_def)
qed

lemma compute_next_solution_answers:
  assumes sel: "queue_top sel" and srt: "sorts_by_cost srt" and f: "nielsen_formula f" "is_quadratic f"
    and np: "new_nielsen_procedure f [] produce_models ids = Inr np"
  shows "\<exists>b np'. compute_next_solution sel srt np = Some (Inr (b, np')) \<and>
    b = (if \<exists>\<sigma>. sat_formula R \<sigma> f then l_true else l_false) \<and>
    (b = l_true \<longrightarrow> np_length_formula np' = len_op TRUE [] \<and> np_model np' = [] \<and>
       np_vars np' = formula_get_vars f \<and>
       (produce_models \<longrightarrow> list_all2 solves (np_generators np') (divide_independent_formula (srt f))))"
proof -
  let ?parts = "divide_independent_formula (srt f)"
  define np0 where "np0 = np\<lparr>np_formula := srt f, np_generators := replicate (length ?parts) [],
    np_model := [], np_vars := formula_get_vars (srt f)\<rparr>"
  have np: "np_formula np = f" "np_graphs np = []" "np_len_vars np = []" "np_produce_models np = produce_models"
    using np by (auto simp: new_nielsen_procedure_def split: if_splits)
  note sorted = sort_keeps[OF srt f(1)]
  have "\<exists>r np'. solve_instances sel ?parts 0 np0 = Some (Inr (r, np')) \<and> answers R ?parts 0 np0 r np'"
    using divide_parts[OF sorted(2)] sorted(3) f(2) np by (intro solve_instances_spec[OF sel]) (auto simp: np0_def)
  then obtain r np' where run: "solve_instances sel ?parts 0 np0 = Some (Inr (r, np'))"
    and ans: "answers R ?parts 0 np0 r np'" by blast
  have sat: "(\<forall>g \<in> set ?parts. \<exists>\<sigma>. sat_formula R \<sigma> g) \<longleftrightarrow> (\<exists>\<sigma>. sat_formula R \<sigma> f)"
    using divide_satisfiable[OF sorted(2), of R] sorted(4) by simp
  have eq: "compute_next_solution sel srt np =
      (case r of Some b \<Rightarrow> Some (Inr (b, np')) | None \<Rightarrow> Some (finish_solution np'))"
    using run np unfolding np0_def by (simp add: compute_next_solution_def bind_run_def Let_def)
  have np0: "np_len_vars np0 = []" "np_produce_models np0 = produce_models" "np_model np0 = []"
    "np_vars np0 = formula_get_vars f"
    using np sorted(5) by (simp_all add: np0_def)
  have np': "keeps_handler np0 np'" using ans by (simp add: answers_def)
  show ?thesis
  proof (cases "\<exists>\<sigma>. sat_formula R \<sigma> f")
    case True
    then have "r = None" "produce_models \<longrightarrow> list_all2 solves (np_generators np') ?parts"
      using ans sat np0 by (auto simp: answers_def)
    then show ?thesis
      using True np' np0 unfolding eq by (simp add: finish_solution_def keeps_handler_def)
  next
    case False
    then have "r = Some l_false" using ans sat unfolding answers_def by metis
    then show ?thesis using False unfolding eq by simp
  qed
qed

text \<open>A sequence of queries to the model; the first one computes it, the others read it.\<close>

fun get_models :: "(basic_term \<rightharpoonup> int) \<Rightarrow> basic_term list \<Rightarrow> nielsen_proc \<Rightarrow> zstring list res" where
  "get_models arith_model [] np = Inr []"
| "get_models arith_model (x # xs) np =
     bind_res (get_model arith_model x np) (\<lambda>(w, np).
       bind_res (get_models arith_model xs np) (\<lambda>ws. Inr (w # ws)))"

lemma get_models_cached:
  assumes "compute_model \<mu> (np_vars np) (np_generators np) = Inr m" and "np_model np \<in> {[], m}"
  shows "get_models \<mu> xs np = Inr (map (model_at m) xs)"
  using assms
proof (induction xs arbitrary: np)
  case (Cons x xs)
  then have "get_model \<mu> x np = Inr (model_at m x, np\<lparr>np_model := m\<rparr>)"
    by (cases "np_model np = []") (auto simp: get_model_def)
  moreover have "get_models \<mu> xs (np\<lparr>np_model := m\<rparr>) = Inr (map (model_at m) xs)"
    using Cons.prems by (intro Cons.IH) simp_all
  ultimately show ?case by simp
qed simp

text \<open>
  C4: For a quadratic formula over variables and one-symbol literals without length-sensitive
  variables, the first call of \<open>compute_next_solution\<close> ends without an exception and answers
  \<open>l_true\<close> exactly if the formula has a solution and \<open>l_false\<close> otherwise, whatever order the
  priority queue and \<open>std::sort\<close> give to entries of equal cost; after \<open>l_true\<close> the length
  formula is true and precise.
\<close>

theorem compute_next_solution_decides:
  assumes "queue_top sel" and "sorts_by_cost srt" and "nielsen_formula f" and "is_quadratic f"
    and "new_nielsen_procedure f [] produce_models ids = Inr np"
  shows "\<exists>np'. compute_next_solution sel srt np =
      Some (Inr (if \<exists>\<sigma>. sat_formula R \<sigma> f then l_true else l_false, np')) \<and>
    ((\<exists>\<sigma>. sat_formula R \<sigma> f) \<longrightarrow> get_lengths np' = (len_op TRUE [], PRECISE))"
proof -
  obtain b np' where run: "compute_next_solution sel srt np = Some (Inr (b, np'))"
    "b = (if \<exists>\<sigma>. sat_formula R \<sigma> f then l_true else l_false)"
    "b = l_true \<longrightarrow> np_length_formula np' = len_op TRUE []"
    using compute_next_solution_answers[OF assms, of R] by blast
  then have "(\<exists>\<sigma>. sat_formula R \<sigma> f) \<longrightarrow> get_lengths np' = (len_op TRUE [], PRECISE)"
    by (cases "\<exists>\<sigma>. sat_formula R \<sigma> f") (simp_all add: get_lengths_def)
  then show ?thesis using run(1) unfolding run(2) by blast
qed

lemma sorts_by_cost_sort_key: "sorts_by_cost (sort_key get_predicate_cost)"
  by (simp add: sorts_by_cost_def)

theorem compute_next_solution_decides_witness:
  "\<exists>np np'. new_nielsen_procedure [create_equation [BasicTerm Variable [120]] [BasicTerm Literal [97]]] [] True [] = Inr np \<and>
     compute_next_solution first_minimal (sort_key get_predicate_cost) np = Some (Inr (l_true, np')) \<and>
     get_lengths np' = (len_op TRUE [], PRECISE)"
proof -
  let ?f = "[create_equation [BasicTerm Variable [120]] [BasicTerm Literal [97]]]"
  have f: "nielsen_formula ?f" "is_quadratic ?f" by (simp add: nielsen_formula_def nielsen_term_def) code_simp
  obtain np where np: "new_nielsen_procedure ?f [] True [] = Inr np"
    by (simp add: new_nielsen_procedure_def)
  have "\<exists>\<sigma>. sat_formula (\<lambda>_. {}) \<sigma> ?f" by (rule exI[of _ "\<lambda>_. [97]"]) (simp add: eval_term_def)
  then show ?thesis
    using compute_next_solution_decides[OF queue_top_first_minimal sorts_by_cost_sort_key f np, of "\<lambda>_. {}"] np by auto
qed



end
