(* ===== verification/Formula_Var.thy ===== *)
theory Formula_Var
  imports Formula
begin

text \<open>
  The class \<open>FormulaVar\<close> (\<open>formula_preprocess.h\<close>, \<open>formula_preprocess.cpp\<close>): a formula with
  numbered predicates and an index of the positions at which every term occurs. The theory
  holds the class, the invariant that ties the index to the predicates, and the effect of
  every operation on the numbered predicates.
\<close>

section \<open>Positions\<close>

text \<open>
  An occurrence of a term: the index of the predicate and the position, which counts from 1
  and is negative in the first parameter and positive in the second.
\<close>

datatype var_node = VarNode (vn_term: basic_term) (vn_index: nat) (vn_position: int)

definition var_node_lt :: "var_node \<Rightarrow> var_node \<Rightarrow> bool" where
  "var_node_lt m n \<longleftrightarrow>
     (if vn_position m = vn_position n then
        if vn_index m = vn_index n then
          if vn_term m = vn_term n then False else vn_term m < vn_term n
        else vn_index m < vn_index n
      else vn_position m < vn_position n)"

instantiation var_node :: linorder
begin

definition less_var_node :: "var_node \<Rightarrow> var_node \<Rightarrow> bool" where
  "less_var_node = var_node_lt"

definition less_eq_var_node :: "var_node \<Rightarrow> var_node \<Rightarrow> bool" where
  "less_eq_var_node m n \<longleftrightarrow> m = n \<or> m < n"

instance
proof
  fix x y z :: var_node
  show "x < y \<longleftrightarrow> x \<le> y \<and> \<not> y \<le> x"
    by (cases x; cases y) (auto simp: less_var_node_def var_node_lt_def less_eq_var_node_def split: if_splits)
  show "x \<le> x"
    by (simp add: less_eq_var_node_def)
  show "x \<le> z" if "x \<le> y" and "y \<le> z"
    using that by (auto simp: less_var_node_def var_node_lt_def less_eq_var_node_def split: if_splits)
  show "x = y" if "x \<le> y" and "y \<le> x"
    using that by (auto simp: less_var_node_def var_node_lt_def less_eq_var_node_def split: if_splits)
  show "x \<le> y \<or> y \<le> x"
    by (cases x; cases y) (auto simp: less_var_node_def var_node_lt_def less_eq_var_node_def)
qed

end

type_synonym var_map = "(basic_term \<times> var_node list) list"

text \<open>The generic container helpers of \<open>formula_preprocess.h\<close> on ascending lists.\<close>

definition remove_if :: "('a \<Rightarrow> bool) \<Rightarrow> 'a list \<Rightarrow> 'a list" where
  "remove_if pred st = filter (\<lambda>x. \<not> pred x) st"

definition map_set_insert :: "'k::linorder \<Rightarrow> 'v::linorder \<Rightarrow> ('k \<times> 'v list) list \<Rightarrow> ('k \<times> 'v list) list" where
  "map_set_insert key val mp =
     (case map_of mp key of
        Some st \<Rightarrow> map_put key (sset_insert val st) mp
      | None \<Rightarrow> map_put key [val] mp)"

section \<open>The class\<close>

text \<open>
  The fields of the class. The constructor leaves \<open>max_index\<close> uninitialised when it stores no
  predicate, so the value it starts with is an argument of the constructor.
\<close>

record formula_var =
  fv_predicates :: "(nat \<times> predicate) list"
  fv_allpreds :: "predicate list"
  fv_varmap :: var_map
  fv_input_size :: nat
  fv_max_index :: nat

definition update_var_positions_side ::
  "concat \<Rightarrow> var_node list \<Rightarrow> nat \<Rightarrow> bool \<Rightarrow> int \<Rightarrow> var_node list"
where
  "update_var_positions_side side res index incl_lit mult =
     fold (\<lambda>i res. if incl_lit \<or> is_variable (side ! i)
                   then sset_insert (VarNode (side ! i) index (mult * int (i + 1))) res else res)
       [0..<length side] res"

definition get_var_positions :: "predicate \<Rightarrow> nat \<Rightarrow> bool \<Rightarrow> var_node list" where
  "get_var_positions pred index incl_lit =
     fst (fold (\<lambda>side (ret, mult). (update_var_positions_side side ret index incl_lit mult, mult * -1))
            (params pred) ([], -1))"

definition update_varmap :: "predicate \<Rightarrow> nat \<Rightarrow> var_map \<Rightarrow> var_map" where
  "update_varmap pred index varmap =
     fold (\<lambda>vr. map_set_insert (vn_term vr) vr) (get_var_positions pred index True) varmap"

fun insert_preds :: "nat \<Rightarrow> formula \<Rightarrow> formula_var \<Rightarrow> formula_var" where
  "insert_preds i [] fv = fv"
| "insert_preds i (p # ps) fv =
     insert_preds (Suc i) ps
       (if is_equation p \<and> get_left_side p = get_right_side p then fv
        else if p \<notin> set (fv_allpreds fv) then
          fv\<lparr>fv_predicates := map_put i p (fv_predicates fv),
             fv_allpreds := sset_insert p (fv_allpreds fv),
             fv_varmap := update_varmap p i (fv_varmap fv),
             fv_max_index := i,
             fv_input_size := fv_input_size fv + 1\<rparr>
        else fv)"

definition new_formula_var :: "nat \<Rightarrow> formula \<Rightarrow> formula_var" where
  "new_formula_var uninit preds =
     insert_preds 0 preds
       \<lparr>fv_predicates = [], fv_allpreds = [], fv_varmap = [], fv_input_size = 0, fv_max_index = uninit\<rparr>"

definition get_var_occurr :: "formula_var \<Rightarrow> basic_term \<Rightarrow> var_node list res" where
  "get_var_occurr fv var = (case map_of (fv_varmap fv) var of None \<Rightarrow> Inl Out_Of_Range | Some s \<Rightarrow> Inr s)"

definition var_occurs :: "formula_var \<Rightarrow> basic_term \<Rightarrow> bool" where
  "var_occurs fv var \<longleftrightarrow> (case map_of (fv_varmap fv) var of None \<Rightarrow> False | Some s \<Rightarrow> s \<noteq> [])"

definition get_predicate :: "formula_var \<Rightarrow> nat \<Rightarrow> predicate res" where
  "get_predicate fv index =
     (case map_of (fv_predicates fv) index of None \<Rightarrow> Inl Out_Of_Range | Some p \<Rightarrow> Inr p)"

definition get_side_of_var_node :: "formula_var \<Rightarrow> var_node \<Rightarrow> concat res" where
  "get_side_of_var_node fv n =
     bind_res (get_predicate fv (vn_index n))
       (\<lambda>p. Inr (if vn_position n > 0 then params p ! 1 else params p ! 0))"

text \<open>The loop reads the terms of a set in ascending order.\<close>

fun single_occurr_in :: "formula_var \<Rightarrow> basic_term list \<Rightarrow> bool res" where
  "single_occurr_in fv [] = Inr True"
| "single_occurr_in fv (t # ts) =
     (if \<not> is_variable t then single_occurr_in fv ts
      else bind_res (get_var_occurr fv t)
             (\<lambda>s. if length s > 1 then Inr False else single_occurr_in fv ts))"

definition single_occurr :: "formula_var \<Rightarrow> basic_term set \<Rightarrow> bool res" where
  "single_occurr fv items = single_occurr_in fv (sorted_list_of_set items)"

text \<open>
  The result is the adjusted predicate, or \<open>None\<close> if the predicate is not regular. Sides are
  switched only for equations, where no transducer is inverted.
\<close>

definition switch_equation :: "predicate \<Rightarrow> predicate" where
  "switch_equation p = get_switched_sides_predicate id p"

definition is_side_regular :: "formula_var \<Rightarrow> predicate \<Rightarrow> predicate option res" where
  "is_side_regular fv p =
     (if \<not> is_equation p then Inr None
      else bind_res
        (if length (get_left_side p) = 1 \<and> is_variable (get_left_side p ! 0)
         then single_occurr fv (get_side_vars p Right) else Inr False)
        (\<lambda>b. if b then Inr (Some p) else bind_res
          (if length (get_right_side p) = 1 \<and> is_variable (get_right_side p ! 0)
           then single_occurr fv (get_side_vars p Left) else Inr False)
          (\<lambda>b. if b then Inr (Some (switch_equation p)) else Inr None)))"

fun side_regulars_in :: "formula_var \<Rightarrow> (nat \<times> predicate) list \<Rightarrow> (nat \<times> predicate) list res" where
  "side_regulars_in fv [] = Inr []"
| "side_regulars_in fv ((i, p) # ps) =
     bind_res (is_side_regular fv p) (\<lambda>r.
       bind_res (side_regulars_in fv ps) (\<lambda>rs.
         Inr (case r of None \<Rightarrow> rs | Some q \<Rightarrow> (i, q) # rs)))"

definition get_side_regulars :: "formula_var \<Rightarrow> (nat \<times> predicate) list res" where
  "get_side_regulars fv = side_regulars_in fv (fv_predicates fv)"

definition is_simple_eq :: "predicate \<Rightarrow> bool" where
  "is_simple_eq p \<longleftrightarrow> is_equation p \<and> length (get_left_side p) = 1 \<and> length (get_right_side p) = 1"

definition get_simple_eqs :: "formula_var \<Rightarrow> (nat \<times> predicate) list" where
  "get_simple_eqs fv = filter (\<lambda>(i, p). is_simple_eq p) (fv_predicates fv)"

definition contains_simple_eqs :: "formula_var \<Rightarrow> bool" where
  "contains_simple_eqs fv \<longleftrightarrow> get_simple_eqs fv \<noteq> []"

definition clean_varmap :: "formula_var \<Rightarrow> formula_var" where
  "clean_varmap fv = fv\<lparr>fv_varmap := remove_if (\<lambda>(t, s). length s = 0) (fv_varmap fv)\<rparr>"

text \<open>
  \<open>predicates[index]\<close> and \<open>varmap[v]\<close> create missing entries: a default predicate, which is
  erased again, and an empty set of occurrences.
\<close>

definition occurrences :: "var_map \<Rightarrow> basic_term \<Rightarrow> var_node list" where
  "occurrences vm v = (case map_of vm v of None \<Rightarrow> [] | Some s \<Rightarrow> s)"

definition remove_occurrences :: "nat \<Rightarrow> basic_term \<Rightarrow> var_map \<Rightarrow> var_map" where
  "remove_occurrences index v vm =
     map_put v (remove_if (\<lambda>n. vn_index n = index) (occurrences vm v)) vm"

definition remove_predicate :: "nat \<Rightarrow> formula_var \<Rightarrow> formula_var" where
  "remove_predicate index fv =
     (let p = (case map_of (fv_predicates fv) index of None \<Rightarrow> Predicate Equation [] None | Some p \<Rightarrow> p)
      in fv\<lparr>fv_varmap := fold (remove_occurrences index) (sorted_list_of_set (get_set p)) (fv_varmap fv),
            fv_allpreds := filter (\<lambda>q. q \<noteq> p) (fv_allpreds fv),
            fv_predicates := map_erase index (fv_predicates fv)\<rparr>)"

text \<open>
  \<open>None\<close> stands for the index -1. A predicate that is already stored keeps its index; the
  assertion after the search for it is compiled out.
\<close>

definition add_predicate :: "predicate \<Rightarrow> nat option \<Rightarrow> formula_var \<Rightarrow> nat \<times> formula_var" where
  "add_predicate pred index fv =
     (case (if pred \<in> set (fv_allpreds fv) then List.find (\<lambda>(i, p). p = pred) (fv_predicates fv) else None) of
        Some (i, p) \<Rightarrow> (i, fv)
      | None \<Rightarrow>
          (case index of
             None \<Rightarrow>
               let i = fv_max_index fv + 1
               in (i, fv\<lparr>fv_max_index := i,
                         fv_predicates := map_put i pred (fv_predicates fv),
                         fv_allpreds := sset_insert pred (fv_allpreds fv),
                         fv_varmap := update_varmap pred i (fv_varmap fv)\<rparr>)
           | Some i \<Rightarrow>
               (i, fv\<lparr>fv_max_index := max (fv_max_index fv) i,
                      fv_predicates := map_put i pred (fv_predicates fv),
                      fv_allpreds := sset_insert pred (fv_allpreds fv),
                      fv_varmap := update_varmap pred i (fv_varmap fv)\<rparr>)))"

definition add_predicates :: "predicate list \<Rightarrow> formula_var \<Rightarrow> formula_var" where
  "add_predicates preds fv = fold (\<lambda>p fv. snd (add_predicate p None fv)) preds fv"

text \<open>The predicates that a replacement changes, with their new contents.\<close>

fun replaced_predicates :: "concat \<Rightarrow> concat \<Rightarrow> (nat \<times> predicate) list \<Rightarrow> (nat \<times> predicate) list res" where
  "replaced_predicates pat rpl [] = Inr []"
| "replaced_predicates pat rpl ((i, p) # ps) =
     bind_res (pred_replace p pat rpl) (\<lambda>(m, q).
       bind_res (replaced_predicates pat rpl ps) (\<lambda>rs. Inr (if m then (i, q) # rs else rs)))"

definition update_predicate :: "nat \<Rightarrow> predicate \<Rightarrow> formula_var \<Rightarrow> formula_var" where
  "update_predicate index pred fv = snd (add_predicate pred (Some index) (remove_predicate index fv))"

definition fv_replace :: "concat \<Rightarrow> concat \<Rightarrow> formula_var \<Rightarrow> formula_var res" where
  "fv_replace pat rpl fv =
     bind_res (replaced_predicates pat rpl (fv_predicates fv))
       (\<lambda>rs. Inr (fold (\<lambda>(i, q). update_predicate i q) rs fv))"

definition clean_predicates :: "formula_var \<Rightarrow> formula_var" where
  "clean_predicates fv =
     fold remove_predicate
       (map fst (filter (\<lambda>(i, p). is_equation p \<and> length (get_left_side p) = 0 \<and> length (get_right_side p) = 0)
                   (fv_predicates fv))) fv"

definition remove_var_from_varmap :: "basic_term \<Rightarrow> formula_var \<Rightarrow> formula_var" where
  "remove_var_from_varmap var fv = fv\<lparr>fv_varmap := map_erase var (fv_varmap fv)\<rparr>"

definition increment_side_index :: "int \<Rightarrow> nat \<Rightarrow> int" where
  "increment_side_index val incr = (if val > 0 then val + int incr else val - int incr)"

section \<open>The invariant\<close>

text \<open>The numbered predicates as a partial function, and the occurrences in one of them.\<close>

definition fv_map :: "formula_var \<Rightarrow> nat \<rightharpoonup> predicate" where
  "fv_map fv = map_of (fv_predicates fv)"

definition pred_nodes :: "nat \<Rightarrow> predicate \<Rightarrow> var_node set" where
  "pred_nodes i p = set (get_var_positions p i True)"

definition map_nodes :: "(nat \<rightharpoonup> predicate) \<Rightarrow> var_node set" where
  "map_nodes m = (\<Union>i \<in> dom m. pred_nodes i (the (m i)))"

definition index_ok :: "(nat \<rightharpoonup> predicate) \<Rightarrow> var_map \<Rightarrow> bool" where
  "index_ok m vm \<longleftrightarrow> map_ok vm \<and> (\<forall>t s. map_of vm t = Some s \<longrightarrow> sorted_wrt (<) s) \<and>
     (\<forall>t. set (occurrences vm t) = {n \<in> map_nodes m. vn_term n = t})"

text \<open>
  The invariant: the containers are ordered, no predicate is stored twice, the set of all
  predicates holds exactly the stored ones, \<open>max_index\<close> bounds the indices, and the index
  lists exactly the occurrences in the stored predicates.
\<close>

definition fv_ok :: "formula_var \<Rightarrow> bool" where
  "fv_ok fv \<longleftrightarrow> map_ok (fv_predicates fv) \<and> sorted_wrt (<) (fv_allpreds fv) \<and>
     set (fv_allpreds fv) = ran (fv_map fv) \<and>
     (\<forall>i j p. fv_map fv i = Some p \<longrightarrow> fv_map fv j = Some p \<longrightarrow> i = j) \<and>
     (\<forall>i \<in> dom (fv_map fv). i \<le> fv_max_index fv) \<and> index_ok (fv_map fv) (fv_varmap fv)"

lemma occurrences_simps [simp]:
  "occurrences [] t = []"
  "occurrences (map_put k s vm) t = (if t = k then s else occurrences vm t)"
  "occurrences (map_erase k vm) t = (if t = k then [] else occurrences vm t)"
  by (simp_all add: occurrences_def)

lemma set_positions_side:
  "set (update_var_positions_side side res index True mult) =
     set res \<union> {VarNode (side ! i) index (mult * int (i + 1)) | i. i < length side}"
proof -
  have "set (fold (\<lambda>i. sset_insert (f i)) is res) = set res \<union> f ` set is" for f :: "nat \<Rightarrow> var_node" and "is"
    by (induction "is" arbitrary: res) auto
  then show ?thesis unfolding update_var_positions_side_def by auto
qed

lemma pred_nodes_wf:
  assumes "wf_pred p"
  shows "pred_nodes i p =
    {VarNode (get_left_side p ! k) i (- int (k + 1)) | k. k < length (get_left_side p)} \<union>
    {VarNode (get_right_side p ! k) i (int (k + 1)) | k. k < length (get_right_side p)}"
  using wf_pred_params[OF assms] by (simp add: pred_nodes_def get_var_positions_def set_positions_side)

lemma positions_side_index:
  assumes "n \<in> set (update_var_positions_side side res index b mult)"
  shows "n \<in> set res \<or> vn_index n = index \<and> vn_term n \<in> set side"
proof -
  have *: "n \<in> set (fold (\<lambda>i res. if b \<or> is_variable (side ! i)
      then sset_insert (VarNode (side ! i) index (mult * int (i + 1))) res else res) is res) \<Longrightarrow>
    set is \<subseteq> {0..<length side} \<Longrightarrow> n \<in> set res \<or> vn_index n = index \<and> vn_term n \<in> set side" for "is"
  proof (induction "is" arbitrary: res)
    case (Cons i "is")
    then have "n \<in> set (if b \<or> is_variable (side ! i)
      then sset_insert (VarNode (side ! i) index (mult * int (i + 1))) res else res) \<or>
      vn_index n = index \<and> vn_term n \<in> set side" by simp
    then show ?case using Cons.prems(2) by (auto split: if_splits)
  qed simp
  show ?thesis
    using assms *[of "[0..<length side]"] by (simp add: update_var_positions_side_def)
qed

lemma pred_nodes_index:
  assumes "n \<in> pred_nodes i p"
  shows "vn_index n = i \<and> vn_term n \<in> get_set p"
proof -
  have *: "n \<in> set (fst (fold (\<lambda>side (ret, mult). (update_var_positions_side side ret i True mult, mult * -1)) cs (ret, m))) \<Longrightarrow>
    n \<in> set ret \<or> vn_index n = i \<and> vn_term n \<in> (\<Union>c \<in> set cs. set c)" for cs ret m
  proof (induction cs arbitrary: ret m)
    case (Cons c cs)
    then have "n \<in> set (update_var_positions_side c ret i True m) \<or> vn_index n = i \<and> vn_term n \<in> (\<Union>c \<in> set cs. set c)"
      by simp
    then show ?case using positions_side_index[of n c ret i True m] by auto
  qed simp
  show ?thesis
    using assms *[of "params p" "[]" "-1"] by (simp add: pred_nodes_def get_var_positions_def get_set_def)
qed

lemma occurrences_set_insert:
  "occurrences (map_set_insert k v vm) t = (if t = k then sset_insert v (occurrences vm k) else occurrences vm t)"
  by (auto simp: map_set_insert_def occurrences_def split: option.split)

lemma map_ok_set_insert: "map_ok vm \<Longrightarrow> map_ok (map_set_insert k v vm)"
  by (auto simp: map_set_insert_def split: option.split)

definition sorted_values :: "('k \<times> 'v::linorder list) list \<Rightarrow> bool" where
  "sorted_values m \<longleftrightarrow> (\<forall>k s. map_of m k = Some s \<longrightarrow> sorted_wrt (<) s)"

lemma sorted_values_set_insert: "sorted_values m \<Longrightarrow> sorted_values (map_set_insert k v m)"
  by (auto simp: sorted_values_def map_set_insert_def split: option.split)

lemma update_varmap_occurrences:
  "set (occurrences (fold (\<lambda>vr. map_set_insert (vn_term vr) vr) ns vm) t) =
     set (occurrences vm t) \<union> {n \<in> set ns. vn_term n = t}"
  by (induction ns arbitrary: vm) (auto simp: occurrences_set_insert)

lemma update_varmap_ok:
  "map_ok vm \<Longrightarrow> map_ok (fold (\<lambda>vr. map_set_insert (vn_term vr) vr) ns vm)"
  "sorted_values vm \<Longrightarrow> sorted_values (fold (\<lambda>vr. map_set_insert (vn_term vr) vr) ns vm)"
  by (induction ns arbitrary: vm) (auto intro: map_ok_set_insert sorted_values_set_insert)

lemma map_nodes_add:
  assumes "m i = None"
  shows "map_nodes (m(i \<mapsto> p)) = map_nodes m \<union> pred_nodes i p"
proof -
  have "(\<Union>j \<in> dom m. pred_nodes j (the ((m(i \<mapsto> p)) j))) = (\<Union>j \<in> dom m. pred_nodes j (the (m j)))"
    using assms by (intro SUP_cong) auto
  then show ?thesis by (simp add: map_nodes_def Un_commute)
qed

lemma map_nodes_at:
  assumes "m (vn_index n) = Some p"
  shows "n \<in> map_nodes m \<longleftrightarrow> n \<in> pred_nodes (vn_index n) p"
proof
  assume "n \<in> map_nodes m"
  then obtain i where i: "n \<in> pred_nodes i (the (m i))" by (auto simp: map_nodes_def)
  then have "i = vn_index n" using pred_nodes_index by blast
  then show "n \<in> pred_nodes (vn_index n) p" using i assms by simp
qed (use assms in \<open>force simp: map_nodes_def\<close>)

lemma map_nodes_remove: "map_nodes (m(i := None)) = {n \<in> map_nodes m. vn_index n \<noteq> i}"
  using pred_nodes_index by (auto simp: map_nodes_def split: if_splits)

lemma index_ok_add:
  assumes "index_ok m vm" and "m i = None"
  shows "index_ok (m(i \<mapsto> p)) (update_varmap p i vm)"
proof -
  have "set (occurrences (update_varmap p i vm) t) =
    {n \<in> map_nodes (m(i \<mapsto> p)). vn_term n = t}" for t
    using assms(1) unfolding index_ok_def update_varmap_def update_varmap_occurrences map_nodes_add[of m i p, OF assms(2)]
    by (auto simp: pred_nodes_def)
  then show ?thesis
    using assms(1) update_varmap_ok[of vm "get_var_positions p i True"]
    unfolding index_ok_def update_varmap_def sorted_values_def by blast
qed

lemma remove_fold:
  "occurrences (fold (remove_occurrences i) ts vm) t =
     (if t \<in> set ts then filter (\<lambda>n. vn_index n \<noteq> i) (occurrences vm t) else occurrences vm t)"
  by (induction ts arbitrary: vm) (auto simp: remove_occurrences_def remove_if_def)

lemma remove_occurrences_ok:
  "map_ok vm \<Longrightarrow> map_ok (remove_occurrences i t vm)"
  "sorted_values vm \<Longrightarrow> sorted_values (remove_occurrences i t vm)"
  by (auto simp: sorted_values_def remove_occurrences_def remove_if_def occurrences_def
      sorted_wrt_filter split: option.split)

lemma remove_fold_ok:
  "map_ok vm \<Longrightarrow> map_ok (fold (remove_occurrences i) ts vm)"
  "sorted_values vm \<Longrightarrow> sorted_values (fold (remove_occurrences i) ts vm)"
  by (induction ts arbitrary: vm) (auto intro: remove_occurrences_ok)

lemma finite_get_set [simp]: "finite (get_set p)"
  by (simp add: get_set_def)

lemma index_ok_remove:
  assumes "index_ok m vm" and "m i = Some p"
  shows "index_ok (m(i := None)) (fold (remove_occurrences i) (sorted_list_of_set (get_set p)) vm)"
    (is "index_ok _ ?vm")
proof -
  have "set (occurrences ?vm t) = {n \<in> map_nodes (m(i := None)). vn_term n = t}" for t
  proof -
    have occ: "set (occurrences vm t) = {n \<in> map_nodes m. vn_term n = t}"
      using assms(1) by (simp add: index_ok_def)
    have "t \<in> get_set p" if "n \<in> set (occurrences vm t)" "vn_index n = i" for n
      using that assms(2) pred_nodes_index unfolding occ map_nodes_def by fastforce
    then have "set (occurrences ?vm t) = {n \<in> set (occurrences vm t). vn_index n \<noteq> i}"
      by (auto simp: remove_fold)
    then show ?thesis unfolding occ map_nodes_remove by auto
  qed
  then show ?thesis
    using assms(1) remove_fold_ok[of vm i "sorted_list_of_set (get_set p)"]
    unfolding index_ok_def sorted_values_def by blast
qed

section \<open>The operations keep the invariant\<close>

lemma ran_remove:
  assumes "m i = Some p" and "\<And>j. m j = Some p \<Longrightarrow> j = i"
  shows "ran (m(i := None)) = ran m - {p}"
proof (intro set_eqI iffI)
  fix q
  assume "q \<in> ran m - {p}"
  then obtain j where "m j = Some q" "q \<noteq> p" by (auto simp: ran_def)
  then have "(m(i := None)) j = Some q" using assms(1) by auto
  then show "q \<in> ran (m(i := None))" by (rule ranI)
next
  fix q
  assume "q \<in> ran (m(i := None))"
  then obtain j where "j \<noteq> i" "m j = Some q" by (auto simp: ran_def split: if_splits)
  then show "q \<in> ran m - {p}" using assms(2)[of j] by (auto intro: ranI)
qed

lemma fv_ok_remove:
  assumes ok: "fv_ok fv" and i: "fv_map fv i \<noteq> None"
  shows "fv_ok (remove_predicate i fv)" "fv_map (remove_predicate i fv) = (fv_map fv)(i := None)"
proof -
  obtain p where p: "map_of (fv_predicates fv) i = Some p" using i by (auto simp: fv_map_def)
  show map: "fv_map (remove_predicate i fv) = (fv_map fv)(i := None)"
    by (simp add: fv_map_def remove_predicate_def Let_def)
  have "ran ((fv_map fv)(i := None)) = ran (fv_map fv) - {p}"
    using ok p unfolding fv_ok_def by (intro ran_remove) (auto simp: fv_map_def)
  moreover have "index_ok ((fv_map fv)(i := None)) (fv_varmap (remove_predicate i fv))"
    using index_ok_remove[of "fv_map fv" "fv_varmap fv" i p] ok p
    by (simp add: fv_ok_def fv_map_def remove_predicate_def Let_def)
  ultimately show "fv_ok (remove_predicate i fv)"
    using ok p unfolding fv_ok_def map
    by (auto simp: remove_predicate_def Let_def sorted_wrt_filter split: if_splits)
qed

text \<open>Storing a new predicate under a free index, as the constructor and \<open>add_predicate\<close> do.\<close>

lemma fv_ok_store:
  assumes ok: "fv_ok fv" and new: "p \<notin> set (fv_allpreds fv)" "fv_map fv i = None"
    and fv': "fv_predicates fv' = map_put i p (fv_predicates fv)" "fv_allpreds fv' = sset_insert p (fv_allpreds fv)"
      "fv_varmap fv' = update_varmap p i (fv_varmap fv)" "i \<le> fv_max_index fv'"
    and bound: "\<And>j. j \<in> dom (fv_map fv) \<Longrightarrow> j \<le> fv_max_index fv'"
  shows "fv_ok fv'" "fv_map fv' = (fv_map fv)(i \<mapsto> p)"
proof -
  show map: "fv_map fv' = (fv_map fv)(i \<mapsto> p)" by (simp add: fv_map_def fv'(1))
  have idx: "index_ok ((fv_map fv)(i \<mapsto> p)) (fv_varmap fv')"
    using index_ok_add[of "fv_map fv" "fv_varmap fv" i p] ok new(2) by (simp add: fv_ok_def fv'(3))
  have ran: "p \<notin> ran (fv_map fv)" using ok new(1) by (simp add: fv_ok_def)
  have "i = j" if "((fv_map fv)(i \<mapsto> p)) i = Some q" "((fv_map fv)(i \<mapsto> p)) j = Some q" for j q
    using that ran by (auto simp: ran_def split: if_splits)
  moreover have "k = j" if "k \<noteq> i" "((fv_map fv)(i \<mapsto> p)) k = Some q" "((fv_map fv)(i \<mapsto> p)) j = Some q" for k j q
  proof -
    have "j \<noteq> i" using that ran by (auto simp: ran_def)
    then show ?thesis using ok that unfolding fv_ok_def by (metis fun_upd_other)
  qed
  ultimately have inj: "k = j" if "((fv_map fv)(i \<mapsto> p)) k = Some q" "((fv_map fv)(i \<mapsto> p)) j = Some q" for k j q
    using that by metis
  have bound': "j \<le> fv_max_index fv'" if "j \<in> dom ((fv_map fv)(i \<mapsto> p))" for j
    using that bound[of j] fv'(4) by (cases "j = i") auto
  have all: "set (fv_allpreds fv') = ran ((fv_map fv)(i \<mapsto> p))"
    using ok new(2) by (simp add: fv'(2) fv_ok_def)
  have "map_ok (fv_predicates fv')" "sorted_wrt (<) (fv_allpreds fv')"
    using ok by (simp_all add: fv_ok_def fv'(1,2))
  then show "fv_ok fv'" unfolding fv_ok_def map using idx inj bound' all by blast
qed

lemma find_pred_None: "List.find (\<lambda>(i, p). p = q) xs = None \<longleftrightarrow> q \<notin> snd ` set xs"
  by (force simp: find_None_iff)

lemma find_pred_Some: "List.find (\<lambda>(i, p). p = q) xs = Some (j, r) \<Longrightarrow> r = q \<and> (j, q) \<in> set xs"
  by (auto simp: find_Some_iff) (metis nth_mem)

lemma fv_ok_allpreds: "fv_ok fv \<Longrightarrow> p \<in> set (fv_allpreds fv) \<longleftrightarrow> p \<in> ran (fv_map fv)"
  by (simp add: fv_ok_def)

lemma fv_ok_ran: "fv_ok fv \<Longrightarrow> ran (fv_map fv) = snd ` set (fv_predicates fv)"
  by (simp add: fv_map_def fv_ok_def map_ok_distinct ran_distinct)

lemma add_predicate_known:
  assumes "fv_ok fv" and "p \<in> ran (fv_map fv)"
  shows "\<exists>i. add_predicate p index fv = (i, fv) \<and> fv_map fv i = Some p"
proof -
  have "List.find (\<lambda>(i, q). q = p) (fv_predicates fv) \<noteq> None"
    using assms fv_ok_ran[OF assms(1)] by (simp add: find_pred_None)
  then obtain i q where f: "List.find (\<lambda>(i, q). q = p) (fv_predicates fv) = Some (i, q)" by auto
  then have "fv_map fv i = Some p"
    using find_pred_Some[OF f] assms(1) by (simp add: fv_map_def fv_ok_def map_ok_distinct)
  then show ?thesis using assms f fv_ok_allpreds by (simp add: add_predicate_def)
qed

definition free_index :: "nat option \<Rightarrow> formula_var \<Rightarrow> nat" where
  "free_index index fv = (case index of None \<Rightarrow> fv_max_index fv + 1 | Some i \<Rightarrow> i)"

lemma add_predicate_new:
  assumes "fv_ok fv" and "p \<notin> ran (fv_map fv)" and "fv_map fv (free_index index fv) = None"
  shows "fv_ok (snd (add_predicate p index fv))" "fst (add_predicate p index fv) = free_index index fv"
    "fv_map (snd (add_predicate p index fv)) = (fv_map fv)(free_index index fv \<mapsto> p)"
proof -
  have new: "p \<notin> set (fv_allpreds fv)" using assms(1,2) fv_ok_allpreds by simp
  show "fst (add_predicate p index fv) = free_index index fv"
    using new by (simp add: add_predicate_def free_index_def Let_def split: option.split)
  show "fv_ok (snd (add_predicate p index fv))"
    "fv_map (snd (add_predicate p index fv)) = (fv_map fv)(free_index index fv \<mapsto> p)"
    using new assms(1) by (rule_tac [!] fv_ok_store[OF assms(1) _ assms(3)])
      (auto simp: add_predicate_def free_index_def Let_def fv_ok_def split: option.split intro: le_SucI max.coboundedI1)
qed

lemma fv_ok_next_free: "fv_ok fv \<Longrightarrow> fv_map fv (free_index None fv) = None"
  by (force simp: fv_ok_def free_index_def)

lemma add_predicate_ran:
  assumes "fv_ok fv" and "fv_map fv (free_index index fv) = None"
  shows "fv_ok (snd (add_predicate p index fv))"
    "ran (fv_map (snd (add_predicate p index fv))) = insert p (ran (fv_map fv))"
proof -
  have "fv_ok (snd (add_predicate p index fv)) \<and>
    ran (fv_map (snd (add_predicate p index fv))) = insert p (ran (fv_map fv))"
  proof (cases "p \<in> ran (fv_map fv)")
    case True
    then show ?thesis using add_predicate_known[OF assms(1) True, of index] assms(1) by (auto simp: insert_absorb)
  next
    case False
    then show ?thesis using add_predicate_new[OF assms(1) False assms(2)] assms(2) by simp
  qed
  then show "fv_ok (snd (add_predicate p index fv))"
    "ran (fv_map (snd (add_predicate p index fv))) = insert p (ran (fv_map fv))" by simp_all
qed

text \<open>
  The contract of a store of numbered predicates that the preprocessing steps rely on, and
  what it gives for sequences of removals and insertions.
\<close>

locale predicate_store =
  fixes ok :: "'s \<Rightarrow> bool"
    and contents :: "'s \<Rightarrow> nat \<rightharpoonup> 'p"
    and rem :: "nat \<Rightarrow> 's \<Rightarrow> 's"
    and add :: "'p \<Rightarrow> 's \<Rightarrow> 's"
  assumes ok_rem: "ok s \<Longrightarrow> contents s i \<noteq> None \<Longrightarrow> ok (rem i s)"
    and contents_rem: "ok s \<Longrightarrow> contents s i \<noteq> None \<Longrightarrow> contents (rem i s) = (contents s)(i := None)"
    and ok_add: "ok s \<Longrightarrow> ok (add p s)"
    and ran_add: "ok s \<Longrightarrow> ran (contents (add p s)) = insert p (ran (contents s))"
    and add_keeps: "ok s \<Longrightarrow> contents s i = Some q \<Longrightarrow> contents (add p s) i = Some q"
begin

lemma rem_all:
  assumes "ok s" and "distinct is" and "set is \<subseteq> dom (contents s)"
  shows "ok (fold rem is s) \<and> contents (fold rem is s) = contents s |` (- set is)"
  using assms
proof (induction "is" arbitrary: s)
  case Nil
  then show ?case by simp
next
  case (Cons i "is")
  have i: "contents s i \<noteq> None" using Cons.prems(3) by auto
  have "ok (fold rem is (rem i s)) \<and> contents (fold rem is (rem i s)) = contents (rem i s) |` (- set is)"
    using Cons.prems by (intro Cons.IH) (auto simp: ok_rem contents_rem)
  then show ?case
    using contents_rem[OF Cons.prems(1) i]
    by (auto simp: fun_eq_iff restrict_map_def)
qed

lemma add_all:
  "ok s \<Longrightarrow> ok (fold add ps s) \<and> ran (contents (fold add ps s)) = ran (contents s) \<union> set ps \<and>
     (\<forall>i q. contents s i = Some q \<longrightarrow> contents (fold add ps s) i = Some q)"
  by (induction ps arbitrary: s) (auto simp: ok_add ran_add add_keeps)

end

lemma add_predicate_keeps:
  "fv_ok fv \<Longrightarrow> fv_map fv i = Some q \<Longrightarrow> fv_map (snd (add_predicate p None fv)) i = Some q"
  using add_predicate_known[of fv p None] add_predicate_new[of fv p None] fv_ok_next_free[of fv]
  by (cases "p \<in> ran (fv_map fv)") auto

interpretation fv: predicate_store fv_ok fv_map remove_predicate "\<lambda>p s. snd (add_predicate p None s)"
proof unfold_locales
  show "fv_ok (snd (add_predicate p None s))" "ran (fv_map (snd (add_predicate p None s))) = insert p (ran (fv_map s))"
    if "fv_ok s" for s p
    using add_predicate_ran[OF that fv_ok_next_free[OF that]] by simp_all
qed (auto simp: fv_ok_remove add_predicate_keeps)

section \<open>Construction and replacement\<close>

lemma insert_preds_ok:
  assumes "fv_ok fv" and "\<And>j. j \<in> dom (fv_map fv) \<Longrightarrow> j < i"
  shows "fv_ok (insert_preds i ps fv) \<and> ran (fv_map (insert_preds i ps fv)) =
    ran (fv_map fv) \<union> {p \<in> set ps. \<not> (is_equation p \<and> get_left_side p = get_right_side p)}"
  using assms
proof (induction ps arbitrary: i fv)
  case (Cons p ps)
  show ?case
  proof (cases "is_equation p \<and> get_left_side p = get_right_side p \<or> p \<in> set (fv_allpreds fv)")
    case True
    have "fv_ok (insert_preds (Suc i) ps fv) \<and> ran (fv_map (insert_preds (Suc i) ps fv)) =
      ran (fv_map fv) \<union> {p \<in> set ps. \<not> (is_equation p \<and> get_left_side p = get_right_side p)}"
      using Cons.prems(2) less_SucI by (intro Cons.IH[OF Cons.prems(1)]) blast
    moreover have "insert_preds i (p # ps) fv = insert_preds (Suc i) ps fv" using True by auto
    ultimately show ?thesis using True fv_ok_allpreds[OF Cons.prems(1)] by auto
  next
    case False
    define fv' where "fv' = fv\<lparr>fv_predicates := map_put i p (fv_predicates fv),
      fv_allpreds := sset_insert p (fv_allpreds fv), fv_varmap := update_varmap p i (fv_varmap fv),
      fv_max_index := i, fv_input_size := fv_input_size fv + 1\<rparr>"
    have free: "fv_map fv i = None" using Cons.prems(2)[of i] by (cases "fv_map fv i") auto
    have fv': "fv_ok fv'" "fv_map fv' = (fv_map fv)(i \<mapsto> p)"
      using False Cons.prems(2)
      by (rule_tac [!] fv_ok_store[OF Cons.prems(1) _ free]) (auto simp: fv'_def less_imp_le)
    have "fv_ok (insert_preds (Suc i) ps fv') \<and> ran (fv_map (insert_preds (Suc i) ps fv')) =
      ran (fv_map fv') \<union> {p \<in> set ps. \<not> (is_equation p \<and> get_left_side p = get_right_side p)}"
    proof (rule Cons.IH[OF fv'(1)])
      show "j < Suc i" if "j \<in> dom (fv_map fv')" for j
        using that Cons.prems(2)[of j] by (cases "j = i") (auto simp: fv'(2))
    qed
    moreover have "insert_preds i (p # ps) fv = insert_preds (Suc i) ps fv'" using False by (auto simp: fv'_def)
    ultimately show ?thesis using False free by (auto simp: fv'(2))
  qed
qed simp

lemma new_formula_var_ok:
  "fv_ok (new_formula_var uninit ps)"
  "ran (fv_map (new_formula_var uninit ps)) = {p \<in> set ps. \<not> (is_equation p \<and> get_left_side p = get_right_side p)}"
proof -
  let ?e = "\<lparr>fv_predicates = [], fv_allpreds = [], fv_varmap = [], fv_input_size = 0, fv_max_index = uninit\<rparr>"
  have "fv_ok ?e" by (simp add: fv_ok_def fv_map_def index_ok_def map_nodes_def)
  from insert_preds_ok[OF this, of 0 ps]
  show "fv_ok (new_formula_var uninit ps)"
    "ran (fv_map (new_formula_var uninit ps)) = {p \<in> set ps. \<not> (is_equation p \<and> get_left_side p = get_right_side p)}"
    by (simp_all add: new_formula_var_def fv_map_def)
qed

lemma update_predicate_map:
  assumes "fv_ok fv" and "fv_map fv i \<noteq> None"
  shows "fv_ok (update_predicate i q fv)"
    "fv_map (update_predicate i q fv) =
      (if q \<in> ran ((fv_map fv)(i := None)) then (fv_map fv)(i := None) else (fv_map fv)(i \<mapsto> q))"
proof -
  let ?fv = "remove_predicate i fv"
  have rem: "fv_ok ?fv" "fv_map ?fv = (fv_map fv)(i := None)" using fv_ok_remove[OF assms] .
  then have free: "fv_map ?fv (free_index (Some i) ?fv) = None" by (simp add: free_index_def)
  show "fv_ok (update_predicate i q fv)"
    unfolding update_predicate_def by (rule add_predicate_ran[OF rem(1) free])
  show "fv_map (update_predicate i q fv) =
      (if q \<in> ran ((fv_map fv)(i := None)) then (fv_map fv)(i := None) else (fv_map fv)(i \<mapsto> q))"
    using add_predicate_known[OF rem(1), of q "Some i"] add_predicate_new[OF rem(1) _ free, of q]
    by (auto simp: update_predicate_def rem(2) free_index_def)
qed

text \<open>A sequence of updates whose new predicates are none of the replaced ones.\<close>

lemma update_all:
  assumes "fv_ok fv" and "distinct (map fst rs)" and "fst ` set rs \<subseteq> dom (fv_map fv)"
    and "\<And>i q j r. (i, q) \<in> set rs \<Longrightarrow> (j, r) \<in> set rs \<Longrightarrow> fv_map fv j \<noteq> Some q"
  shows "fv_ok (fold (\<lambda>(i, q). update_predicate i q) rs fv) \<and>
    ran (fv_map (fold (\<lambda>(i, q). update_predicate i q) rs fv)) = ran (fv_map fv |` (- (fst ` set rs))) \<union> snd ` set rs \<and>
    (\<forall>i p. fv_map (fold (\<lambda>(i, q). update_predicate i q) rs fv) i = Some p \<longrightarrow>
       (i, p) \<in> set rs \<or> i \<notin> fst ` set rs \<and> fv_map fv i = Some p)"
  using assms
proof (induction rs arbitrary: fv)
  case Nil
  then show ?case by simp
next
  case (Cons iq rs)
  obtain i q where iq: "iq = (i, q)" by (cases iq)
  have i: "fv_map fv i \<noteq> None" "i \<notin> fst ` set rs" using Cons.prems(2,3) by (auto simp: iq)
  let ?fv = "update_predicate i q fv" let ?K = "fst ` set rs"
  note upd = update_predicate_map[OF Cons.prems(1) i(1), of q]
  have same: "fv_map ?fv j = fv_map fv j" if "j \<noteq> i" for j using that by (simp add: upd(2))
  have "fv_ok (fold (\<lambda>(i, q). update_predicate i q) rs ?fv) \<and>
    ran (fv_map (fold (\<lambda>(i, q). update_predicate i q) rs ?fv)) = ran (fv_map ?fv |` (- ?K)) \<union> snd ` set rs \<and>
    (\<forall>i p. fv_map (fold (\<lambda>(i, q). update_predicate i q) rs ?fv) i = Some p \<longrightarrow>
       (i, p) \<in> set rs \<or> i \<notin> ?K \<and> fv_map ?fv i = Some p)" (is "?IH1 \<and> ?IH2 \<and> ?IH3")
  proof (rule Cons.IH[OF upd(1)])
    show "distinct (map fst rs)" using Cons.prems(2) by simp
    show "?K \<subseteq> dom (fv_map ?fv)" using Cons.prems(3) i(2) same by (force simp: iq)
    show "fv_map ?fv j \<noteq> Some p" if "(k, p) \<in> set rs" "(j, r) \<in> set rs" for k p j r
    proof -
      have "j \<noteq> i" using that(2) i(2) by force
      then show ?thesis using Cons.prems(4)[of k p j r] that same by (simp add: iq)
    qed
  qed
  then have IH: ?IH1 ?IH2 ?IH3 by blast+
  have "ran (fv_map ?fv |` (- ?K)) = ran (fv_map fv |` (- insert i ?K)) \<union> {q}"
  proof (cases "q \<in> ran ((fv_map fv)(i := None))")
    case True
    then obtain j where j: "fv_map fv j = Some q" "j \<noteq> i" by (auto simp: ran_def split: if_splits)
    then have "j \<notin> ?K" using Cons.prems(4)[of i q j] by (force simp: iq)
    then have "(fv_map fv |` (- insert i ?K)) j = Some q" using j by simp
    then have "q \<in> ran (fv_map fv |` (- insert i ?K))" by (rule ranI)
    moreover have "fv_map ?fv |` (- ?K) = fv_map fv |` (- insert i ?K)"
      using True upd(2) by (auto simp: fun_eq_iff restrict_map_def)
    ultimately show ?thesis by auto
  next
    case False
    then have "fv_map ?fv |` (- ?K) = (fv_map fv |` (- insert i ?K))(i \<mapsto> q)"
      using upd(2) i(2) by (auto simp: fun_eq_iff restrict_map_def)
    then show ?thesis by (simp add: ran_map_upd)
  qed
  moreover have "(k, p) \<in> set (iq # rs) \<or> k \<notin> fst ` set (iq # rs) \<and> fv_map fv k = Some p"
    if got: "fv_map (fold (\<lambda>(i, q). update_predicate i q) rs ?fv) k = Some p" for k p
  proof -
    consider "(k, p) \<in> set rs" | "k \<notin> ?K" "fv_map ?fv k = Some p" using IH(3) got by blast
    then show ?thesis
      using upd(2) by cases (auto simp: iq split: if_splits)
  qed
  ultimately show ?case using IH(1,2) by (simp add: iq insert_commute Un_commute)
qed

lemma update_all_ok:
  "fv_ok fv \<Longrightarrow> distinct (map fst rs) \<Longrightarrow> fst ` set rs \<subseteq> dom (fv_map fv) \<Longrightarrow>
     fv_ok (fold (\<lambda>(i, q). update_predicate i q) rs fv)"
proof (induction rs arbitrary: fv)
  case (Cons iq rs)
  obtain i q where iq: "iq = (i, q)" by (cases iq)
  have i: "fv_map fv i \<noteq> None" "i \<notin> fst ` set rs" using Cons.prems(2,3) by (auto simp: iq)
  note upd = update_predicate_map[OF Cons.prems(1) i(1), of q]
  have "fst ` set rs \<subseteq> dom (fv_map (update_predicate i q fv))"
    using Cons.prems(3) i(2) by (force simp: iq upd(2))
  then show ?case using Cons.IH[OF upd(1)] Cons.prems(2) by (simp add: iq)
qed simp

lemma replaced_predicates_keys:
  "replaced_predicates pat rpl ps = Inr rs \<Longrightarrow> distinct (map fst ps) \<Longrightarrow>
     distinct (map fst rs) \<and> fst ` set rs \<subseteq> fst ` set ps"
proof (induction pat rpl ps arbitrary: rs rule: replaced_predicates.induct)
  case (2 pat rpl i p ps)
  then obtain m q rs' where "pred_replace p pat rpl = Inr (m, q)" "replaced_predicates pat rpl ps = Inr rs'"
    "rs = (if m then (i, q) # rs' else rs')"
    by (auto simp: bind_res_eq_Inr)
  moreover have "distinct (map fst rs') \<and> fst ` set rs' \<subseteq> fst ` set ps"
    using "2.IH"[OF calculation(2)] "2.prems"(2) by simp
  ultimately show ?case using "2.prems"(2) by (auto simp: image_iff)
qed simp

lemma fv_replace_ok:
  assumes "fv_ok fv" and "fv_replace pat rpl fv = Inr fv'"
  shows "fv_ok fv'"
proof -
  obtain rs where rs: "replaced_predicates pat rpl (fv_predicates fv) = Inr rs"
    "fv' = fold (\<lambda>(i, q). update_predicate i q) rs fv"
    using assms(2) by (auto simp: fv_replace_def bind_res_eq_Inr)
  have "distinct (map fst (fv_predicates fv))" using assms(1) by (simp add: fv_ok_def map_ok_distinct)
  then show ?thesis
    using replaced_predicates_keys[OF rs(1)] update_all_ok[OF assms(1), of rs]
    by (simp add: rs(2) fv_map_def dom_map_of_conv_image_fst)
qed

lemma subst_pred_absent: "(\<And>c. c \<in> set (params p) \<Longrightarrow> x \<notin> set c) \<Longrightarrow> subst_pred x r p = p"
proof -
  assume absent: "\<And>c. c \<in> set (params p) \<Longrightarrow> x \<notin> set c"
  have "subst_concat x r c = c" if "x \<notin> set c" for c using that by (induction c) auto
  then have "map (subst_concat x r) (params p) = params p" using absent by (simp add: map_idI)
  then show ?thesis by (cases p) (simp add: subst_pred_def)
qed

lemma get_set_subst: "x \<notin> set r \<Longrightarrow> x \<notin> get_set (subst_pred x r p)"
proof -
  assume "x \<notin> set r"
  then have "x \<notin> set (subst_concat x r c)" for c by (induction c) auto
  then show ?thesis by (auto simp: get_set_def)
qed

lemma replaced_predicates_single:
  "replaced_predicates [x] r ps =
     Inr (map (\<lambda>(i, p). (i, subst_pred x r p)) (filter (\<lambda>(i, p). x \<in> get_set p) ps))"
  by (induction ps) (auto simp: pred_replace_single get_set_def)

lemma fv_replace_single:
  assumes ok: "fv_ok fv" and x: "x \<notin> set r"
  shows "\<exists>fv'. fv_replace [x] r fv = Inr fv' \<and> fv_ok fv' \<and>
    ran (fv_map fv') = subst_pred x r ` ran (fv_map fv) \<and>
    (\<forall>i q. fv_map fv' i = Some q \<longrightarrow> (\<exists>p. fv_map fv i = Some p \<and> q = subst_pred x r p))"
proof -
  define rs where "rs = map (\<lambda>(i, p). (i, subst_pred x r p)) (filter (\<lambda>(i, p). x \<in> get_set p) (fv_predicates fv))"
  have mem: "(i, q) \<in> set rs \<longleftrightarrow> (\<exists>p. fv_map fv i = Some p \<and> x \<in> get_set p \<and> q = subst_pred x r p)" for i q
    using ok by (auto simp: rs_def fv_map_def fv_ok_def map_ok_in_set)
  have run: "fv_replace [x] r fv = Inr (fold (\<lambda>(i, q). update_predicate i q) rs fv)"
    by (simp add: fv_replace_def replaced_predicates_single rs_def)
  have dist: "distinct (map fst rs)" "fst ` set rs \<subseteq> dom (fv_map fv)"
    using replaced_predicates_keys[OF replaced_predicates_single[of x r "fv_predicates fv"]] ok
    by (simp_all add: rs_def fv_ok_def map_ok_distinct fv_map_def dom_map_of_conv_image_fst)
  have new: "fv_map fv j \<noteq> Some q" if "(i, q) \<in> set rs" "(j, p) \<in> set rs" for i q j p
    using that get_set_subst[OF x] unfolding mem by auto
  have absent: "subst_pred x r p = p" if "x \<notin> get_set p" for p
    using that by (intro subst_pred_absent) (auto simp: get_set_def)
  have keys: "i \<in> fst ` set rs \<longleftrightarrow> (\<exists>p. fv_map fv i = Some p \<and> x \<in> get_set p)" for i
    using mem by (force simp: image_iff)
  have ran: "ran (fv_map fv |` (- (fst ` set rs))) \<union> snd ` set rs = subst_pred x r ` ran (fv_map fv)"
  proof (intro set_eqI iffI)
    fix q
    assume "q \<in> ran (fv_map fv |` (- (fst ` set rs))) \<union> snd ` set rs"
    then show "q \<in> subst_pred x r ` ran (fv_map fv)"
    proof
      assume "q \<in> ran (fv_map fv |` (- (fst ` set rs)))"
      then obtain i where "i \<notin> fst ` set rs" "fv_map fv i = Some q" by (auto simp: ran_def restrict_map_def split: if_splits)
      then show ?thesis using absent[of q] keys[of i] by (force intro: ranI simp: image_iff)
    next
      assume "q \<in> snd ` set rs"
      then show ?thesis using mem by (auto intro!: imageI ranI)
    qed
  next
    fix q
    assume "q \<in> subst_pred x r ` ran (fv_map fv)"
    then obtain i p where p: "fv_map fv i = Some p" "q = subst_pred x r p" by (auto simp: ran_def)
    show "q \<in> ran (fv_map fv |` (- (fst ` set rs))) \<union> snd ` set rs"
    proof (cases "x \<in> get_set p")
      case True
      then have "(i, q) \<in> set rs" using p mem by blast
      then show ?thesis by (force simp: image_iff)
    next
      case False
      then have "(fv_map fv |` (- (fst ` set rs))) i = Some q" using p keys[of i] absent[of p] by simp
      then show ?thesis by (auto intro: ranI)
    qed
  qed
  have at: "\<exists>p. fv_map fv i = Some p \<and> q = subst_pred x r p"
    if "(i, q) \<in> set rs \<or> i \<notin> fst ` set rs \<and> fv_map fv i = Some q" for i q
    using that mem keys[of i] absent[of q] by auto
  let ?F = "fold (\<lambda>(i, q). update_predicate i q) rs fv"
  have upd: "fv_ok ?F \<and> ran (fv_map ?F) = ran (fv_map fv |` (- (fst ` set rs))) \<union> snd ` set rs \<and>
      (\<forall>i p. fv_map ?F i = Some p \<longrightarrow> (i, p) \<in> set rs \<or> i \<notin> fst ` set rs \<and> fv_map fv i = Some p)"
    by (rule update_all[OF ok dist]) (rule new)
  show ?thesis
  proof (intro exI[of _ ?F] conjI allI impI)
    show "fv_replace [x] r fv = Inr ?F" by (rule run)
    show "fv_ok ?F" using upd by blast
    show "ran (fv_map ?F) = subst_pred x r ` ran (fv_map fv)" using upd ran by simp
    show "\<exists>p. fv_map fv i = Some p \<and> q = subst_pred x r p" if "fv_map ?F i = Some q" for i q
      by (rule at) (use upd that in blast)
  qed
qed

lemma clean_predicates_ok:
  assumes "fv_ok fv"
  shows "fv_ok (clean_predicates fv) \<and> ran (fv_map (clean_predicates fv)) \<subseteq> ran (fv_map fv) \<and>
    (\<forall>p \<in> ran (fv_map fv). p \<in> ran (fv_map (clean_predicates fv)) \<or>
       is_equation p \<and> get_left_side p = [] \<and> get_right_side p = [])"
proof -
  let ?e = "\<lambda>(i :: nat, p). is_equation p \<and> length (get_left_side p) = 0 \<and> length (get_right_side p) = 0"
  let ?is = "map fst (filter ?e (fv_predicates fv))"
  have ok: "map_ok (fv_predicates fv)" using assms by (simp add: fv_ok_def)
  have "distinct ?is" using map_ok_distinct[OF ok] by (simp add: distinct_map_filter)
  moreover have "set ?is \<subseteq> dom (fv_map fv)" by (auto simp: fv_map_def dom_map_of_conv_image_fst)
  ultimately have run: "fv_ok (clean_predicates fv)" "fv_map (clean_predicates fv) = fv_map fv |` (- set ?is)"
    using fv.rem_all[OF assms, of ?is] by (simp_all add: clean_predicates_def)
  have "p \<in> ran (fv_map fv |` (- set ?is))" if "fv_map fv i = Some p" "\<not> ?e (i, p)" for i p
  proof -
    have "i \<notin> set ?is"
    proof
      assume "i \<in> set ?is"
      then obtain q where "(i, q) \<in> set (fv_predicates fv)" "?e (i, q)" by auto
      then show False using that map_ok_in_set[OF ok] by (simp add: fv_map_def)
    qed
    then have "(fv_map fv |` (- set ?is)) i = Some p" using that(1) by simp
    then show ?thesis by (rule ranI)
  qed
  then have "p \<in> ran (fv_map (clean_predicates fv)) \<or> is_equation p \<and> get_left_side p = [] \<and> get_right_side p = []"
    if "p \<in> ran (fv_map fv)" for p
    using that unfolding run(2) by (auto simp: ran_def)
  moreover have "ran (fv_map (clean_predicates fv)) \<subseteq> ran (fv_map fv)"
    unfolding run(2) by (auto simp: ran_def restrict_map_def split: if_splits)
  ultimately show ?thesis using run(1) by blast
qed

lemma map_of_filter_values:
  "distinct (map fst m) \<Longrightarrow> map_of (filter (\<lambda>(k, v). P v) m) k = (case map_of m k of None \<Rightarrow> None | Some v \<Rightarrow> if P v then Some v else None)"
proof (induction m)
  case (Cons a m)
  then show ?case by (cases a) (auto split: option.splits dest: map_of_SomeD simp: rev_image_eqI)
qed simp

lemma clean_varmap_ok: "fv_ok fv \<Longrightarrow> fv_ok (clean_varmap fv) \<and> fv_map (clean_varmap fv) = fv_map fv"
proof -
  assume ok: "fv_ok fv"
  let ?vm = "filter (\<lambda>(t, s). s \<noteq> []) (fv_varmap fv)"
  have vm: "map_ok (fv_varmap fv)" using ok by (simp add: fv_ok_def index_ok_def)
  have eq: "fv_varmap (clean_varmap fv) = ?vm" by (simp add: clean_varmap_def remove_if_def case_prod_unfold)
  have lookup: "map_of ?vm t = (case map_of (fv_varmap fv) t of None \<Rightarrow> None | Some s \<Rightarrow> if s \<noteq> [] then Some s else None)" for t
    by (rule map_of_filter_values[OF map_ok_distinct[OF vm]])
  have "occurrences ?vm t = occurrences (fv_varmap fv) t" for t
    by (simp add: occurrences_def lookup split: option.split)
  moreover have "map_ok ?vm" using vm by (simp add: map_ok_def sorted_wrt_map sorted_wrt_filter)
  moreover have "sorted_wrt (<) s" if "map_of ?vm t = Some s" for t s
    using that ok unfolding lookup fv_ok_def index_ok_def by (auto split: option.splits if_splits)
  ultimately have "index_ok (fv_map fv) ?vm"
    using ok unfolding fv_ok_def index_ok_def by simp
  then show ?thesis
    using ok eq unfolding fv_ok_def by (simp add: fv_map_def clean_varmap_def)
qed

lemma remove_var_ok:
  assumes "fv_ok fv" and "\<not> var_occurs fv x"
  shows "fv_ok (remove_var_from_varmap x fv) \<and> fv_map (remove_var_from_varmap x fv) = fv_map fv"
proof -
  have "occurrences (fv_varmap fv) x = []"
    using assms(2) by (simp add: occurrences_def var_occurs_def split: option.splits)
  then have "occurrences (map_erase x (fv_varmap fv)) t = occurrences (fv_varmap fv) t" for t by simp
  then have "index_ok (fv_map fv) (map_erase x (fv_varmap fv))"
    using assms(1) unfolding fv_ok_def index_ok_def by (auto split: if_splits)
  then show ?thesis
    using assms(1) unfolding fv_ok_def by (simp add: fv_map_def remove_var_from_varmap_def)
qed

text \<open>The states that a sequence of operations of the class can reach.\<close>

inductive fv_reachable :: "formula_var \<Rightarrow> bool" where
  fv_new: "fv_reachable (new_formula_var uninit ps)"
| fv_remove: "fv_reachable fv \<Longrightarrow> fv_map fv i \<noteq> None \<Longrightarrow> fv_reachable (remove_predicate i fv)"
| fv_add: "fv_reachable fv \<Longrightarrow> fv_reachable (snd (add_predicate p None fv))"
| fv_add_at: "fv_reachable fv \<Longrightarrow> fv_map fv i = None \<Longrightarrow> fv_reachable (snd (add_predicate p (Some i) fv))"
| fv_update: "fv_reachable fv \<Longrightarrow> fv_map fv i \<noteq> None \<Longrightarrow> fv_reachable (update_predicate i q fv)"
| fv_repl: "fv_reachable fv \<Longrightarrow> fv_replace pat rpl fv = Inr fv' \<Longrightarrow> fv_reachable fv'"
| fv_clean_predicates: "fv_reachable fv \<Longrightarrow> fv_reachable (clean_predicates fv)"
| fv_clean_varmap: "fv_reachable fv \<Longrightarrow> fv_reachable (clean_varmap fv)"
| fv_remove_var: "fv_reachable fv \<Longrightarrow> \<not> var_occurs fv x \<Longrightarrow> fv_reachable (remove_var_from_varmap x fv)"

lemma fv_reachable_ok: "fv_reachable fv \<Longrightarrow> fv_ok fv"
proof (induction rule: fv_reachable.induct)
  case (fv_add_at fv i p)
  then show ?case using add_predicate_ran[of fv "Some i" p] by (simp add: free_index_def)
qed (auto simp: new_formula_var_ok fv_ok_remove fv.ok_add update_predicate_map(1) fv_replace_ok
    clean_predicates_ok clean_varmap_ok remove_var_ok)

text \<open>
  C34: After every sequence of operations on a \<open>FormulaVar\<close>, no predicate is stored under two
  indices, the set of all predicates holds exactly the stored ones, no index exceeds the
  maximal one, and the variable map lists, for every term, exactly the positions at which
  it occurs in the stored predicates, negative on the left and positive on the right.
\<close>

theorem formula_var_invariant:
  assumes "fv_reachable fv"
  shows "set (fv_allpreds fv) = ran (fv_map fv) \<and>
    (\<forall>i j p. fv_map fv i = Some p \<and> fv_map fv j = Some p \<longrightarrow> i = j) \<and>
    (\<forall>i \<in> dom (fv_map fv). i \<le> fv_max_index fv) \<and>
    (\<forall>i p k t. fv_map fv i = Some p \<and> wf_pred p \<longrightarrow>
       (VarNode t i (- int (k + 1)) \<in> set (occurrences (fv_varmap fv) t) \<longleftrightarrow>
          k < length (get_left_side p) \<and> get_left_side p ! k = t) \<and>
       (VarNode t i (int (k + 1)) \<in> set (occurrences (fv_varmap fv) t) \<longleftrightarrow>
          k < length (get_right_side p) \<and> get_right_side p ! k = t))"
proof -
  have ok: "fv_ok fv" by (rule fv_reachable_ok[OF assms])
  have occ: "n \<in> set (occurrences (fv_varmap fv) (vn_term n)) \<longleftrightarrow> n \<in> pred_nodes (vn_index n) p"
    if "fv_map fv (vn_index n) = Some p" for n p
    using ok map_nodes_at[of "fv_map fv" n p] that by (simp add: fv_ok_def index_ok_def)
  have "VarNode t i (- int (k + 1)) \<in> set (occurrences (fv_varmap fv) t) \<longleftrightarrow>
      k < length (get_left_side p) \<and> get_left_side p ! k = t"
    "VarNode t i (int (k + 1)) \<in> set (occurrences (fv_varmap fv) t) \<longleftrightarrow>
      k < length (get_right_side p) \<and> get_right_side p ! k = t"
    if "fv_map fv i = Some p" "wf_pred p" for i p k t
    using occ[of "VarNode t i (- int (k + 1))" p] occ[of "VarNode t i (int (k + 1))" p] that
    by (auto simp: pred_nodes_wf)
  then show ?thesis using ok unfolding fv_ok_def by blast
qed

theorem formula_var_invariant_witness:
  "let x = BasicTerm Variable [120]; y = BasicTerm Variable [121]; e = create_equation [x, y] [y];
       fv = new_formula_var 7 [e, create_equation [x] [x], e]
   in fv_map fv = [0 \<mapsto> e] \<and> occurrences (fv_varmap fv) y = [VarNode y 0 (- 2), VarNode y 0 1] \<and>
      (\<forall>i \<in> dom (fv_map fv). i \<le> fv_max_index fv)"
proof -
  let ?x = "BasicTerm Variable [120]" and ?y = "BasicTerm Variable [121]"
  let ?e = "create_equation [?x, ?y] [?y]"
  let ?fv = "new_formula_var 7 [?e, create_equation [?x] [?x], ?e]"
  have "fv_predicates ?fv = [(0, ?e)]" by code_simp
  then have "fv_map ?fv = [0 \<mapsto> ?e]" by (simp add: fv_map_def)
  moreover have "occurrences (fv_varmap ?fv) ?y = [VarNode ?y 0 (- 2), VarNode ?y 0 1]" by code_simp
  ultimately show ?thesis
    using formula_var_invariant[OF fv_new[of 7 "[?e, create_equation [?x] [?x], ?e]"]] unfolding Let_def by blast
qed

text \<open>
  C35: Replacing a variable by a concatenation that does not contain it always succeeds, and
  afterwards the stored predicates are exactly the results of the substitution in the
  stored predicates; a predicate that the substitution makes equal to another one is stored
  only once.
\<close>

theorem formula_var_replace:
  assumes "fv_reachable fv" and "x \<notin> set r"
  shows "\<exists>fv'. fv_replace [x] r fv = Inr fv' \<and> fv_reachable fv' \<and>
    set (fv_allpreds fv') = subst_pred x r ` set (fv_allpreds fv)"
proof -
  obtain fv' where fv': "fv_replace [x] r fv = Inr fv'" "fv_ok fv'" "ran (fv_map fv') = subst_pred x r ` ran (fv_map fv)"
    using fv_replace_single[OF fv_reachable_ok[OF assms(1)] assms(2)] by blast
  then show ?thesis
    using fv_repl[OF assms(1) fv'(1)] fv_reachable_ok[OF assms(1)] by (auto simp: fv_ok_def)
qed

theorem formula_var_replace_witness:
  "let x = BasicTerm Variable [120]; y = BasicTerm Variable [121]; z = BasicTerm Variable [122];
       fv = new_formula_var 0 [create_equation [x] [z], create_equation [y] [z]]
   in \<exists>fv'. fv_replace [x] [y] fv = Inr fv' \<and> fv_reachable fv' \<and>
        set (fv_allpreds fv') = {create_equation [y] [z]}"
proof -
  let ?x = "BasicTerm Variable [120]" and ?y = "BasicTerm Variable [121]" and ?z = "BasicTerm Variable [122]"
  let ?ps = "[create_equation [?x] [?z], create_equation [?y] [?z]]"
  have "set (fv_allpreds (new_formula_var 0 ?ps)) = set ?ps" by code_simp
  moreover have "subst_pred ?x [?y] ` set ?ps = {create_equation [?y] [?z]}"
    by (simp add: subst_pred_def create_equation_def)
  ultimately show ?thesis
    using formula_var_replace[OF fv_new[of 0 ?ps], of ?x "[?y]"] by (simp add: Let_def)
qed

end
