(* ===== verification/Alphabet.thy ===== *)
theory Alphabet
  imports Noodler_Prelude "HOL-Library.Word"
begin

text \<open>
  The alphabets of the solver (\<open>regex.h\<close>, \<open>regex.cpp\<close>): sets of code points with a rolling
  64-bit hash, the dummy symbol that stands for all characters outside the alphabet, and the
  search for a character that is not in the alphabet yet.
\<close>

section \<open>Alphabets\<close>

datatype string_encoding = ascii | unicode | bmp

fun max_char :: "string_encoding \<Rightarrow> nat" where
  "max_char unicode = 196607"
| "max_char bmp = 65535"
| "max_char ascii = 255"

text \<open>The dummy symbol stands for all symbols outside the alphabet.\<close>

definition get_dummy_symbol :: "string_encoding \<Rightarrow> nat" where
  "get_dummy_symbol enc = max_char enc + 1"

definition is_dummy_symbol :: "string_encoding \<Rightarrow> nat \<Rightarrow> bool" where
  "is_dummy_symbol enc s \<longleftrightarrow> s = get_dummy_symbol enc"

text \<open>
  An alphabet keeps the ascending list of its symbols and a 64-bit hash. The copy of the
  symbols for the automata library always holds the same symbols.
\<close>

record alphabet =
  alph_symbols :: "nat list"
  alph_hash :: "64 word"

definition symbol_hash :: "nat \<Rightarrow> 64 word" where
  "symbol_hash s = (let x = word_of_nat s in (xor x (drop_bit 32 x)) * 0x517cc1b727220a95)"

definition add_or_remove_from_hash :: "nat \<Rightarrow> alphabet \<Rightarrow> alphabet" where
  "add_or_remove_from_hash s a = a\<lparr>alph_hash := xor (alph_hash a) (symbol_hash s)\<rparr>"

definition alphabet_of_set :: "nat set \<Rightarrow> alphabet" where
  "alphabet_of_set alph =
     fold add_or_remove_from_hash (sorted_list_of_set alph)
       \<lparr>alph_symbols = sorted_list_of_set alph, alph_hash = 0\<rparr>"

definition alphabet_clear :: "alphabet \<Rightarrow> alphabet" where
  "alphabet_clear a = \<lparr>alph_symbols = [], alph_hash = 0\<rparr>"

definition alphabet_insert :: "nat \<Rightarrow> alphabet \<Rightarrow> alphabet" where
  "alphabet_insert s a =
     (if s \<in> set (alph_symbols a) then a
      else add_or_remove_from_hash s (a\<lparr>alph_symbols := sset_insert s (alph_symbols a)\<rparr>))"

definition alphabet_insert_all :: "nat list \<Rightarrow> alphabet \<Rightarrow> alphabet" where
  "alphabet_insert_all ss a = fold alphabet_insert ss a"

definition alphabet_erase :: "nat \<Rightarrow> alphabet \<Rightarrow> alphabet" where
  "alphabet_erase s a =
     (if s \<in> set (alph_symbols a)
      then add_or_remove_from_hash s (a\<lparr>alph_symbols := filter (\<lambda>t. t \<noteq> s) (alph_symbols a)\<rparr>)
      else a)"

definition is_full :: "string_encoding \<Rightarrow> alphabet \<Rightarrow> bool" where
  "is_full enc a \<longleftrightarrow>
     (if get_dummy_symbol enc \<in> set (alph_symbols a) then length (alph_symbols a) = max_char enc + 2
      else length (alph_symbols a) = max_char enc + 1)"

definition insert_dummy_if_not_full :: "string_encoding \<Rightarrow> alphabet \<Rightarrow> bool \<times> alphabet" where
  "insert_dummy_if_not_full enc a =
     (if is_full enc a then (False, a) else (True, alphabet_insert (get_dummy_symbol enc) a))"

text \<open>The order in which unused symbols are tried; \<open>None\<close> is the error for the last symbol.\<close>

definition get_next_symbol :: "string_encoding \<Rightarrow> nat \<Rightarrow> nat option" where
  "get_next_symbol enc s =
     (if s = max_char enc then None
      else if s = 122 then Some 65
      else if s = 90 then Some 48
      else if s = 57 then Some 33
      else if s = 47 then Some 58
      else if s = 64 then Some 91
      else if s = 96 then Some 123
      else if s = 126 then Some 32
      else if s = 32 then Some 0
      else if s = 31 then Some 127
      else Some (s + 1))"

text \<open>
  The loop over the alphabet. It visits the symbols in an order of its own, and it ends
  because every step leads to a symbol with a greater position in that order; a walk above
  \<open>max_char\<close> is bounded by the greatest symbol of the alphabet.
\<close>

definition symbol_rank :: "nat \<Rightarrow> nat" where
  "symbol_rank s =
     (if 97 \<le> s \<and> s \<le> 122 then s - 97
      else if 65 \<le> s \<and> s \<le> 90 then 26 + (s - 65)
      else if 48 \<le> s \<and> s \<le> 57 then 52 + (s - 48)
      else if 33 \<le> s \<and> s \<le> 47 then 62 + (s - 33)
      else if 58 \<le> s \<and> s \<le> 64 then 77 + (s - 58)
      else if 91 \<le> s \<and> s \<le> 96 then 84 + (s - 91)
      else if 123 \<le> s \<and> s \<le> 126 then 90 + (s - 123)
      else if s = 32 then 94
      else if s \<le> 31 then 95 + s
      else s)"

lemma symbol_rank_small:
  "distinct (map symbol_rank [0..<127]) \<and> list_all (\<lambda>s. symbol_rank s < 127) [0..<127] \<and>
   list_all (\<lambda>s. s \<in> {122, 90, 57, 47, 64, 96, 126, 32, 31} \<or>
     symbol_rank (s + 1) = Suc (symbol_rank s)) [0..<127]"
  by code_simp

lemma symbol_rank_less: "s < 127 \<Longrightarrow> symbol_rank s < 127"
  using symbol_rank_small by (simp add: list_all_iff)

lemma symbol_rank_large: "127 \<le> s \<Longrightarrow> symbol_rank s = s"
  by (simp add: symbol_rank_def)

lemma symbol_rank_Suc:
  assumes "s \<notin> {122, 90, 57, 47, 64, 96, 126, 32, 31}"
  shows "symbol_rank (s + 1) = Suc (symbol_rank s)"
proof (cases "s < 127")
  case True
  then show ?thesis using symbol_rank_small assms by (auto simp: list_all_iff)
qed (simp add: symbol_rank_large)

lemma symbol_rank_next:
  assumes "get_next_symbol enc s = Some t"
  shows "symbol_rank t = Suc (symbol_rank s)"
proof (cases "s \<in> {122, 90, 57, 47, 64, 96, 126, 32, 31}")
  case True
  then show ?thesis using assms
    by (elim insertE) (simp_all add: get_next_symbol_def symbol_rank_def split: if_splits)
next
  case False
  then have "t = s + 1" using assms by (simp add: get_next_symbol_def split: if_splits)
  then show ?thesis using symbol_rank_Suc[OF False] by simp
qed

lemma symbol_rank_le: "symbol_rank s \<le> s + 127"
  using symbol_rank_less[of s] symbol_rank_large[of s] by (cases "s < 127") auto

lemma symbol_rank_bound: "127 \<le> m \<Longrightarrow> symbol_rank s \<le> m \<longleftrightarrow> s \<le> m"
  using symbol_rank_less[of s] symbol_rank_large[of s] by (cases "s < 127") auto

lemma symbol_rank_inj:
  assumes "symbol_rank s = symbol_rank t"
  shows "s = t"
proof (cases "s < 127")
  case True
  then have "t < 127"
    using assms symbol_rank_less[of s] symbol_rank_large[of t] by (cases "t < 127") auto
  moreover have "inj_on symbol_rank {0..<127}"
    using symbol_rank_small by (simp add: distinct_map)
  ultimately show ?thesis using True assms by (auto dest: inj_onD)
next
  case False
  then show ?thesis
    using assms symbol_rank_less[of t] symbol_rank_large[of s] symbol_rank_large[of t]
    by (cases "t < 127") auto
qed

function find_unused :: "string_encoding \<Rightarrow> nat list \<Rightarrow> nat \<Rightarrow> nat res" where
  "find_unused enc alph s =
     (if s \<in> set alph then
        (case get_next_symbol enc s of
           None \<Rightarrow> Inl (Runtime_Error ''Trying to get a fresh symbol in full alphabet'')
         | Some t \<Rightarrow> find_unused enc alph t)
      else Inr s)"
  by pat_completeness auto
termination
proof (relation "measure (\<lambda>(enc, alph, s). sum_list alph + 128 - symbol_rank s)", goal_cases)
  case (2 enc alph s t)
  then have "symbol_rank t = Suc (symbol_rank s)" using symbol_rank_next by blast
  moreover have "symbol_rank s \<le> sum_list alph + 127"
    using symbol_rank_le[of s] member_le_sum_list[of s alph] 2 by linarith
  ultimately show ?case by simp
qed simp

declare find_unused.simps [simp del]

definition get_unused_symbol :: "string_encoding \<Rightarrow> alphabet \<Rightarrow> nat res" where
  "get_unused_symbol enc a =
     (if is_full enc a then Inl (Runtime_Error ''Trying to get a fresh symbol in full alphabet'')
      else find_unused enc (alph_symbols a) 97)"

definition get_string_from_mata_word :: "string_encoding \<Rightarrow> alphabet \<Rightarrow> zstring \<Rightarrow> zstring res" where
  "get_string_from_mata_word enc a word =
     (if get_dummy_symbol enc \<in> set word then
        bind_res (get_unused_symbol enc a)
          (\<lambda>u. Inr (map (\<lambda>s. if s = get_dummy_symbol enc then u else s) word))
      else Inr word)"

subsection \<open>The hash depends on the symbols only\<close>

definition symbols_hash :: "nat list \<Rightarrow> 64 word" where
  "symbols_hash ss = fold (\<lambda>s h. xor h (symbol_hash s)) ss 0"

definition alphabet_ok :: "alphabet \<Rightarrow> bool" where
  "alphabet_ok a \<longleftrightarrow>
     sorted_wrt (<) (alph_symbols a) \<and> alph_hash a = symbols_hash (alph_symbols a)"

lemma fold_xor: "fold (\<lambda>s h. xor h (f s)) ss h = xor h (fold (\<lambda>s h. xor h (f s)) ss (0 :: 64 word))"
proof (induction ss arbitrary: h)
  case Nil
  show ?case by simp
next
  case (Cons s ss)
  have "fold (\<lambda>s h. xor h (f s)) (s # ss) h = xor (xor h (f s)) (fold (\<lambda>s h. xor h (f s)) ss 0)"
    using Cons.IH[of "xor h (f s)"] by simp
  also have "\<dots> = xor h (fold (\<lambda>s h. xor h (f s)) ss (f s))"
    using Cons.IH[of "f s"] by (simp add: xor.assoc)
  finally show ?case by simp
qed

lemma symbols_hash_Cons: "symbols_hash (s # ss) = xor (symbol_hash s) (symbols_hash ss)"
  using fold_xor[of symbol_hash ss "symbol_hash s"] by (simp add: symbols_hash_def)

lemma symbols_hash_Nil [simp]: "symbols_hash [] = 0"
  by (simp add: symbols_hash_def)

lemma symbols_hash_insert:
  "s \<notin> set ss \<Longrightarrow> symbols_hash (sset_insert s ss) = xor (symbols_hash ss) (symbol_hash s)"
  by (induction s ss rule: sset_insert.induct)
    (auto simp: symbols_hash_Cons ac_simps)

lemma symbols_hash_remove:
  "distinct ss \<Longrightarrow> s \<in> set ss \<Longrightarrow>
     symbols_hash (filter (\<lambda>t. t \<noteq> s) ss) = xor (symbols_hash ss) (symbol_hash s)"
proof (induction ss)
  case (Cons t ss)
  show ?case
  proof (cases "t = s")
    case True
    then have "filter (\<lambda>t. t \<noteq> s) ss = ss"
      using Cons.prems(1) by (intro filter_True) auto
    then show ?thesis using True by (simp add: symbols_hash_Cons xor.commute[of "symbol_hash s"] xor.assoc)
  next
    case False
    then show ?thesis using Cons by (simp add: symbols_hash_Cons xor.assoc)
  qed
qed simp

lemma fold_add_hash:
  "fold add_or_remove_from_hash ss a = a\<lparr>alph_hash := xor (alph_hash a) (symbols_hash ss)\<rparr>"
  by (induction ss arbitrary: a) (simp_all add: add_or_remove_from_hash_def symbols_hash_Cons xor.assoc)

lemma alphabet_ok_of_set: "alphabet_ok (alphabet_of_set alph)"
  by (simp add: alphabet_ok_def alphabet_of_set_def fold_add_hash)

lemma alphabet_ok_insert: "alphabet_ok a \<Longrightarrow> alphabet_ok (alphabet_insert s a)"
  by (simp add: alphabet_ok_def alphabet_insert_def add_or_remove_from_hash_def symbols_hash_insert)

lemma alphabet_ok_erase: "alphabet_ok a \<Longrightarrow> alphabet_ok (alphabet_erase s a)"
  by (simp add: alphabet_ok_def alphabet_erase_def add_or_remove_from_hash_def symbols_hash_remove
      sorted_wrt_filter strict_sorted_iff)

datatype alphabet_op = Alph_Insert nat | Alph_Insert_All "nat list" | Alph_Erase nat | Alph_Clear

fun run_alphabet_op :: "alphabet_op \<Rightarrow> alphabet \<Rightarrow> alphabet" where
  "run_alphabet_op (Alph_Insert s) a = alphabet_insert s a"
| "run_alphabet_op (Alph_Insert_All ss) a = alphabet_insert_all ss a"
| "run_alphabet_op (Alph_Erase s) a = alphabet_erase s a"
| "run_alphabet_op Alph_Clear a = alphabet_clear a"

lemma alphabet_ok_insert_all: "alphabet_ok a \<Longrightarrow> alphabet_ok (alphabet_insert_all ss a)"
  unfolding alphabet_insert_all_def by (induction ss arbitrary: a) (auto intro: alphabet_ok_insert)

lemma alphabet_ok_clear: "alphabet_ok (alphabet_clear a)"
  by (simp add: alphabet_clear_def alphabet_ok_def)

lemma alphabet_ok_run: "alphabet_ok a \<Longrightarrow> alphabet_ok (run_alphabet_op p a)"
  by (cases p)
    (auto intro: alphabet_ok_insert alphabet_ok_erase alphabet_ok_insert_all alphabet_ok_clear)

lemma alphabet_ok_ops: "alphabet_ok a \<Longrightarrow> alphabet_ok (fold run_alphabet_op ops a)"
  by (induction ops arbitrary: a) (auto intro: alphabet_ok_run)

text \<open>
  C32: The 64-bit hash of an alphabet does not depend on how the alphabet was built: two
  alphabets that hold the same symbols after any two sequences of insertions, removals and
  clearings have equal hashes, and their lists of symbols are equal too, so that equal
  alphabets fall into the same bucket of a hash table.
\<close>

theorem alphabet_hash_canonical:
  assumes "set (alph_symbols (fold run_alphabet_op ops (alphabet_of_set A))) =
           set (alph_symbols (fold run_alphabet_op ops' (alphabet_of_set B)))"
  shows "fold run_alphabet_op ops (alphabet_of_set A) =
         fold run_alphabet_op ops' (alphabet_of_set B)"
proof -
  let ?a = "fold run_alphabet_op ops (alphabet_of_set A)"
  let ?b = "fold run_alphabet_op ops' (alphabet_of_set B)"
  have a: "alphabet_ok ?a" and b: "alphabet_ok ?b"
    by (rule alphabet_ok_ops[OF alphabet_ok_of_set])+
  have "alph_symbols ?a = alph_symbols ?b"
    using assms a b by (auto simp: alphabet_ok_def intro: strict_sorted_equal)
  then show ?thesis
    using a b by (simp add: alphabet_ok_def)
qed

theorem alphabet_hash_canonical_witness:
  "fold run_alphabet_op [Alph_Insert 5, Alph_Insert 3, Alph_Erase 5] (alphabet_of_set {}) =
   fold run_alphabet_op [Alph_Insert 3] (alphabet_of_set {})"
  by (rule alphabet_hash_canonical)
    (simp add: alphabet_of_set_def alphabet_insert_def alphabet_erase_def add_or_remove_from_hash_def)

subsection \<open>Unused symbols\<close>

lemma max_char_ge: "255 \<le> max_char enc"
  by (cases enc) auto

lemma next_symbol_None: "get_next_symbol enc s = None \<longleftrightarrow> s = max_char enc"
  by (auto simp: get_next_symbol_def)

lemma max_char_rank: "symbol_rank (max_char enc) = max_char enc"
  using symbol_rank_large max_char_ge[of enc] by simp

lemma find_unused_first:
  assumes "u \<notin> set alph" and "u \<le> max_char enc" and "symbol_rank s \<le> symbol_rank u"
    and "\<forall>t. symbol_rank t < symbol_rank s \<longrightarrow> t \<in> set alph"
  shows "\<exists>r. find_unused enc alph s = Inr r \<and> r \<notin> set alph \<and> symbol_rank r \<le> symbol_rank u \<and>
           (\<forall>t. symbol_rank t < symbol_rank r \<longrightarrow> t \<in> set alph)"
  using assms
proof (induction enc alph s rule: find_unused.induct)
  case (1 enc alph s)
  show ?case
  proof (cases "s \<in> set alph")
    case False
    then show ?thesis using 1 by (subst find_unused.simps) auto
  next
    case True
    then have less: "symbol_rank s < symbol_rank u"
      using 1 symbol_rank_inj[of s u] by (cases "symbol_rank s = symbol_rank u") auto
    have bound: "symbol_rank u \<le> max_char enc"
      using 1(3) symbol_rank_bound max_char_ge[of enc] by simp
    have "s \<noteq> max_char enc"
      using less bound max_char_rank[of enc] by auto
    then obtain t where t: "get_next_symbol enc s = Some t"
      using next_symbol_None by (cases "get_next_symbol enc s") auto
    have rank: "symbol_rank t = Suc (symbol_rank s)" by (rule symbol_rank_next[OF t])
    have "\<forall>x. symbol_rank x < symbol_rank t \<longrightarrow> x \<in> set alph"
      using 1(5) True rank symbol_rank_inj by (metis less_antisym)
    then have "\<exists>r. find_unused enc alph t = Inr r \<and> r \<notin> set alph \<and> symbol_rank r \<le> symbol_rank u \<and>
           (\<forall>t. symbol_rank t < symbol_rank r \<longrightarrow> t \<in> set alph)"
      using 1(1)[OF True t 1(2,3)] less rank by simp
    then show ?thesis using True t by (subst find_unused.simps) simp
  qed
qed

lemma full_alphabet_iff:
  assumes "sorted_wrt (<) (alph_symbols a)" and "set (alph_symbols a) \<subseteq> {..get_dummy_symbol enc}"
  shows "is_full enc a \<longleftrightarrow> {..max_char enc} \<subseteq> set (alph_symbols a)"
proof -
  let ?S = "set (alph_symbols a)" and ?M = "max_char enc"
  have len: "length (alph_symbols a) = card ?S"
    using assms(1) by (simp add: distinct_card strict_sorted_iff)
  have split: "?S = (?S \<inter> {..?M}) \<union> (if Suc ?M \<in> ?S then {Suc ?M} else {})"
    using assms(2) by (auto simp: get_dummy_symbol_def le_Suc_eq)
  have "card ?S = card (?S \<inter> {..?M}) + (if Suc ?M \<in> ?S then 1 else 0)"
    by (subst split, subst card_Un_disjoint) auto
  then have "is_full enc a \<longleftrightarrow> card (?S \<inter> {..?M}) = card {..?M}"
    by (simp add: is_full_def get_dummy_symbol_def len)
  also have "\<dots> \<longleftrightarrow> ?S \<inter> {..?M} = {..?M}"
    using card_subset_eq[of "{..?M}" "?S \<inter> {..?M}"] by auto
  finally show ?thesis by blast
qed

text \<open>
  C31: For an alphabet whose symbols are characters or the dummy symbol, \<open>get_unused_symbol\<close>
  raises its error exactly if every character is in the alphabet. Otherwise it ends with a
  character outside the alphabet, the first one in the documented order of preference: lower
  case letters, upper case letters, digits, the other printable characters, the space, the
  control codes, and then all other characters.
\<close>

theorem get_unused_symbol_fresh:
  assumes "sorted_wrt (<) (alph_symbols a)" and "set (alph_symbols a) \<subseteq> {..get_dummy_symbol enc}"
  shows "(if {..max_char enc} \<subseteq> set (alph_symbols a)
          then get_unused_symbol enc a =
                 Inl (Runtime_Error ''Trying to get a fresh symbol in full alphabet'')
          else \<exists>s. get_unused_symbol enc a = Inr s \<and> s \<le> max_char enc \<and> s \<notin> set (alph_symbols a) \<and>
                 (\<forall>t. symbol_rank t < symbol_rank s \<longrightarrow> t \<in> set (alph_symbols a)))"
proof (cases "is_full enc a")
  case True
  then show ?thesis using full_alphabet_iff[OF assms] by (simp add: get_unused_symbol_def)
next
  case False
  then obtain u where u: "u \<notin> set (alph_symbols a)" "u \<le> max_char enc"
    using full_alphabet_iff[OF assms] by auto
  have "symbol_rank 97 = 0" by (simp add: symbol_rank_def)
  then obtain s where s: "find_unused enc (alph_symbols a) 97 = Inr s" "s \<notin> set (alph_symbols a)"
      "symbol_rank s \<le> symbol_rank u" "\<forall>t. symbol_rank t < symbol_rank s \<longrightarrow> t \<in> set (alph_symbols a)"
    using find_unused_first[OF u, of 97] by (metis le0 not_less0)
  have m: "127 \<le> max_char enc" using max_char_ge[of enc] by linarith
  have "s \<le> max_char enc"
    using s(3) u(2) symbol_rank_bound[OF m, of s] symbol_rank_bound[OF m, of u] by linarith
  then show ?thesis
    using False s full_alphabet_iff[OF assms] by (auto simp: get_unused_symbol_def)
qed

theorem get_unused_symbol_fresh_witness:
  "\<exists>s. get_unused_symbol ascii \<lparr>alph_symbols = [97, 98, 256], alph_hash = 0\<rparr> = Inr s \<and>
     s \<le> 255 \<and> s \<notin> {97, 98, 256}"
  using get_unused_symbol_fresh[of "\<lparr>alph_symbols = [97, 98, 256], alph_hash = 0\<rparr>" ascii]
  by (auto simp: get_dummy_symbol_def subset_iff split: if_splits)

end
