(* ===== verification/Automata.thy ===== *)
theory Automata
  imports Alphabet
begin

text \<open>
  Automata as the class \<open>AutAssignment\<close> handles them (\<open>aut_assignment.h\<close>,
  \<open>aut_assignment.cpp\<close>): the automata that it builds transition by transition, and its
  routines that walk over the states of an automaton. The language of an automaton is the
  set of words on its accepting paths.
\<close>

section \<open>Automata and their languages\<close>

text \<open>
  An automaton of the library is its number of states, the ordered sets of initial and final
  states, and the transitions ordered by source, symbol and target.
\<close>

record nfa =
  num_of_states :: nat
  initial :: "nat list"
  final :: "nat list"
  delta :: "(nat \<times> nat \<times> nat) list"

definition new_nfa :: "nat \<Rightarrow> nat list \<Rightarrow> nat list \<Rightarrow> nfa" where
  "new_nfa n is fs =
     \<lparr>num_of_states = foldr max (map Suc (is @ fs)) n, initial = sset_of is, final = sset_of fs,
      delta = []\<rparr>"

definition delta_add :: "nat \<Rightarrow> nat \<Rightarrow> nat \<Rightarrow> nfa \<Rightarrow> nfa" where
  "delta_add s a t A =
     A\<lparr>num_of_states := max (num_of_states A) (max (Suc s) (Suc t)),
       delta := sset_insert (s, a, t) (delta A)\<rparr>"

definition insert_initial :: "nat \<Rightarrow> nfa \<Rightarrow> nfa" where
  "insert_initial s A =
     A\<lparr>num_of_states := max (num_of_states A) (Suc s), initial := sset_insert s (initial A)\<rparr>"

definition insert_final :: "nat \<Rightarrow> nfa \<Rightarrow> nfa" where
  "insert_final s A =
     A\<lparr>num_of_states := max (num_of_states A) (Suc s), final := sset_insert s (final A)\<rparr>"

fun nfa_path :: "(nat \<times> nat \<times> nat) set \<Rightarrow> nat \<Rightarrow> zstring \<Rightarrow> nat \<Rightarrow> bool" where
  "nfa_path E s [] t \<longleftrightarrow> s = t"
| "nfa_path E s (a # w) t \<longleftrightarrow> (\<exists>q. (s, a, q) \<in> E \<and> nfa_path E q w t)"

abbreviation moves :: "nfa \<Rightarrow> (nat \<times> nat \<times> nat) set" where
  "moves A \<equiv> set (delta A)"

definition nfa_lang :: "nfa \<Rightarrow> zstring set" where
  "nfa_lang A = {w. \<exists>s \<in> set (initial A). \<exists>t \<in> set (final A). nfa_path (moves A) s w t}"

lemma nfa_path_append:
  "nfa_path E s (u @ v) t \<longleftrightarrow> (\<exists>q. nfa_path E s u q \<and> nfa_path E q v t)"
  by (induction u arbitrary: s) auto

lemma nfa_path_snoc: "nfa_path E s (u @ [a]) t \<longleftrightarrow> (\<exists>q. nfa_path E s u q \<and> (q, a, t) \<in> E)"
  by (auto simp: nfa_path_append)

named_theorems nfa_build

lemma nfa_add_simps [nfa_build]:
  "initial (delta_add s a t A) = initial A"
  "final (delta_add s a t A) = final A"
  "moves (delta_add s a t A) = insert (s, a, t) (moves A)"
  "initial (new_nfa n is fs) = sset_of is"
  "final (new_nfa n is fs) = sset_of fs"
  "moves (new_nfa n is fs) = {}"
  by (simp_all add: delta_add_def new_nfa_def)

text \<open>A loop that adds transitions adds the transitions of its rounds.\<close>

lemma moves_fold [nfa_build]:
  "(\<And>x A. moves (f x A) = T x \<union> moves A) \<Longrightarrow>
     moves (fold f xs A) = (\<Union>x \<in> set xs. T x) \<union> moves A"
  by (induction xs arbitrary: A) auto

lemma initial_fold [nfa_build]: "(\<And>x A. initial (f x A) = initial A) \<Longrightarrow> initial (fold f xs A) = initial A"
  by (induction xs arbitrary: A) auto

lemma final_fold [nfa_build]: "(\<And>x A. final (f x A) = final A) \<Longrightarrow> final (fold f xs A) = final A"
  by (induction xs arbitrary: A) auto

section \<open>The automata built by the assignment\<close>

definition empty_string_automaton :: nfa where
  "empty_string_automaton = new_nfa 1 [0] [0]"

definition sigma_star_automaton :: "alphabet \<Rightarrow> nfa" where
  "sigma_star_automaton a = fold (\<lambda>symb. delta_add 0 symb 0) (alph_symbols a) (new_nfa 0 [0] [0])"

definition sigma_automaton :: "alphabet \<Rightarrow> nfa" where
  "sigma_automaton a = fold (\<lambda>symb. delta_add 0 symb 1) (alph_symbols a) (new_nfa 0 [0] [1])"

definition sigma_automaton_of_length :: "alphabet \<Rightarrow> nat \<Rightarrow> nfa" where
  "sigma_automaton_of_length a len =
     fold (\<lambda>i. fold (\<lambda>symb. delta_add i symb (i + 1)) (alph_symbols a)) [0..<len]
       (new_nfa (len + 1) [0] [len])"

definition sigma_eps_automaton :: "alphabet \<Rightarrow> nfa" where
  "sigma_eps_automaton a = fold (\<lambda>symb. delta_add 0 symb 1) (alph_symbols a) (new_nfa 0 [0] [0, 1])"

definition DIGIT_SYMBOL_START :: nat where
  "DIGIT_SYMBOL_START = 48"

definition DIGIT_SYMBOL_END :: nat where
  "DIGIT_SYMBOL_END = 57"

definition REAL_NUMBER_DELIMITER :: nat where
  "REAL_NUMBER_DELIMITER = 46"

definition digit_symbols :: "nat list" where
  "digit_symbols = [DIGIT_SYMBOL_START..<Suc DIGIT_SYMBOL_END]"

definition digit_automaton :: nfa where
  "digit_automaton =
     fold (\<lambda>digit A. delta_add 1 digit 1 (delta_add 0 digit 1 A)) digit_symbols (new_nfa 2 [0] [1])"

definition digit_automaton_with_epsilon :: nfa where
  "digit_automaton_with_epsilon = fold (\<lambda>digit. delta_add 0 digit 0) digit_symbols (new_nfa 1 [0] [0])"

definition digit_automaton_of_length :: "nat \<Rightarrow> nfa" where
  "digit_automaton_of_length len =
     fold (\<lambda>i. fold (\<lambda>digit. delta_add i digit (i + 1)) digit_symbols) [0..<len]
       (new_nfa (len + 1) [0] [len])"

definition decimal_automaton :: nfa where
  "decimal_automaton =
     delta_add 0 REAL_NUMBER_DELIMITER 1
       (fold (\<lambda>digit A. delta_add 1 digit 1 (delta_add 0 digit 0 A)) digit_symbols
         (new_nfa 2 [0] [1]))"

definition decimal_automaton_of_lengths :: "nat \<Rightarrow> nat \<Rightarrow> nfa" where
  "decimal_automaton_of_lengths whole decimal =
     fold (\<lambda>i. fold (\<lambda>digit. delta_add i digit (i + 1)) digit_symbols)
       [whole + 1..<whole + decimal + 1]
       (delta_add whole REAL_NUMBER_DELIMITER (whole + 1)
         (fold (\<lambda>i. fold (\<lambda>digit. delta_add i digit (i + 1)) digit_symbols) [0..<whole]
           (new_nfa (whole + decimal + 2) [0] [whole + decimal + 1])))"

definition create_word_nfa :: "zstring \<Rightarrow> nfa" where
  "create_word_nfa word =
     insert_final (length word)
       (fold (\<lambda>state. delta_add state (word ! state) (state + 1)) [0..<length word]
         (insert_initial 0 (new_nfa (length word) [0] [length word])))"

subsection \<open>Their languages\<close>

text \<open>An automaton in which state \<open>i\<close> leads to state \<open>i + 1\<close> only reads one layer after the other.\<close>

lemma chain_path:
  "nfa_path {(i, a, Suc i) | i a. i < n \<and> a \<in> S i} s w t \<longleftrightarrow>
     t = s + length w \<and> (\<forall>k < length w. s + k < n \<and> w ! k \<in> S (s + k))"
proof (induction w arbitrary: s)
  case Nil
  show ?case by auto
next
  case (Cons a w)
  show ?case by (auto simp: Cons All_less_Suc2)
qed

lemma chain_lang:
  assumes "moves A = {(i, a, Suc i) | i a. i < n \<and> a \<in> S i}" and "initial A = [0]" and "final A = [n]"
  shows "nfa_lang A = {w. length w = n \<and> (\<forall>k < n. w ! k \<in> S k)}"
  unfolding nfa_lang_def assms chain_path by auto

lemma loop_path: "nfa_path {(q, a, q) | a. a \<in> S} q w t \<longleftrightarrow> t = q \<and> set w \<subseteq> S"
  by (induction w) auto

definition words_over :: "nat set \<Rightarrow> nat \<Rightarrow> zstring set" where
  "words_over S n = {w. length w = n \<and> set w \<subseteq> S}"

abbreviation digits :: "nat set" where
  "digits \<equiv> {DIGIT_SYMBOL_START..DIGIT_SYMBOL_END}"

lemma set_digit_symbols: "set digit_symbols = digits"
  unfolding digit_symbols_def set_upt by (rule atLeastLessThanSuc_atLeastAtMost)

lemma words_over_nth: "w \<in> words_over S n \<longleftrightarrow> length w = n \<and> (\<forall>k < n. w ! k \<in> S)"
  by (auto simp: words_over_def set_conv_nth)

lemma lang_empty_string: "nfa_lang empty_string_automaton = {[]}"
proof -
  have "nfa_path {} 0 w 0 \<longleftrightarrow> w = []" for w by (cases w) auto
  then show ?thesis by (simp add: nfa_lang_def empty_string_automaton_def nfa_build sset_of_def)
qed

lemma moves_fold_symbols:
  "moves (fold (\<lambda>symb. delta_add s symb t) ss A) = {(s, a, t) | a. a \<in> set ss} \<union> moves A"
  by (subst moves_fold[where T = "\<lambda>a. {(s, a, t)}"]) (auto simp: nfa_build)

lemma moves_fold_layers:
  "moves (fold (\<lambda>i. fold (\<lambda>symb. delta_add i symb (Suc i)) ss) is A) =
     {(i, a, Suc i) | i a. i \<in> set is \<and> a \<in> set ss} \<union> moves A"
  by (subst moves_fold[where T = "\<lambda>i. {(i, a, Suc i) | a. a \<in> set ss}"])
    (auto simp: moves_fold_symbols)

lemma ends_fold_symbols [nfa_build]:
  "initial (fold (\<lambda>symb. delta_add s symb t) ss A) = initial A"
  "final (fold (\<lambda>symb. delta_add s symb t) ss A) = final A"
  by (auto simp: nfa_build)

lemma ends_fold_layers [nfa_build]:
  "initial (fold (\<lambda>i. fold (\<lambda>symb. delta_add i symb (Suc i)) ss) is A) = initial A"
  "final (fold (\<lambda>i. fold (\<lambda>symb. delta_add i symb (Suc i)) ss) is A) = final A"
  by (rule initial_fold final_fold, simp only: ends_fold_symbols)+

lemma layers_lang:
  assumes "moves A = {(i, a, Suc i) | i a. i < n \<and> a \<in> S}" and "initial A = [0]" and "final A = [n]"
  shows "nfa_lang A = words_over S n"
  using chain_lang[of A n "\<lambda>_. S"] assms by (auto simp: words_over_nth)

lemma lang_sigma_of_length: "nfa_lang (sigma_automaton_of_length a n) = words_over (set (alph_symbols a)) n"
  unfolding sigma_automaton_of_length_def
  by (rule layers_lang) (simp_all add: moves_fold_layers ends_fold_layers nfa_add_simps sset_of_def)

lemma lang_digit_of_length: "nfa_lang (digit_automaton_of_length n) = words_over digits n"
  unfolding digit_automaton_of_length_def
  by (rule layers_lang)
    (simp_all add: moves_fold_layers ends_fold_layers nfa_add_simps sset_of_def set_digit_symbols)

lemma lang_sigma: "nfa_lang (sigma_automaton a) = words_over (set (alph_symbols a)) 1"
  unfolding sigma_automaton_def
  by (rule layers_lang) (auto simp add: moves_fold_symbols nfa_build sset_of_def)

lemma lang_loop:
  assumes "moves A = {(0, a, 0) | a. a \<in> S}" and "initial A = [0]" and "final A = [0]"
  shows "nfa_lang A = lists S"
  unfolding nfa_lang_def assms by (simp add: loop_path lists_eq_set)

lemma lang_sigma_star: "nfa_lang (sigma_star_automaton a) = lists (set (alph_symbols a))"
  unfolding sigma_star_automaton_def
  by (rule lang_loop) (simp_all add: moves_fold_symbols ends_fold_symbols nfa_add_simps sset_of_def)

lemma lang_digit_eps: "nfa_lang digit_automaton_with_epsilon = lists digits"
  unfolding digit_automaton_with_epsilon_def
  by (rule lang_loop)
    (simp_all add: moves_fold_symbols ends_fold_symbols nfa_add_simps sset_of_def set_digit_symbols)

lemma lang_sigma_eps: "nfa_lang (sigma_eps_automaton a) = insert [] (words_over (set (alph_symbols a)) 1)"
proof -
  have path: "nfa_path {(0, a, Suc 0) | a. a \<in> S} 0 w t \<longleftrightarrow>
      (w = [] \<and> t = 0) \<or> (t = Suc 0 \<and> w \<in> words_over S (Suc 0))"
    for S w t
  proof (cases w)
    case (Cons b v)
    then show ?thesis by (cases v) (auto simp: words_over_def)
  qed (auto simp: words_over_def)
  show ?thesis
    unfolding nfa_lang_def sigma_eps_automaton_def moves_fold_symbols ends_fold_symbols nfa_add_simps
    by (auto simp: path sset_of_def)
qed

lemma lang_create_word: "nfa_lang (create_word_nfa w) = {w}"
proof -
  have ends: "initial (create_word_nfa w) = [0]" "final (create_word_nfa w) = [length w]"
    unfolding create_word_nfa_def insert_initial_def insert_final_def
    by (simp_all add: nfa_build sset_of_def)
  have "moves (create_word_nfa w) = {(i, a, Suc i) | i a. i < length w \<and> a \<in> {w ! i}}"
    unfolding create_word_nfa_def insert_initial_def insert_final_def
    by (simp, subst moves_fold[where T = "\<lambda>i. {(i, w ! i, i + 1)}"]) (auto simp: nfa_build)
  from chain_lang[OF this ends] show ?thesis by (auto intro: nth_equalityI)
qed

lemma lang_digit: "nfa_lang digit_automaton = lists digits - {[]}"
proof -
  let ?E = "{(q, a, 1) | q a. q \<in> {0, 1} \<and> a \<in> digits}"
  have "moves digit_automaton = ?E"
    unfolding digit_automaton_def
    by (subst moves_fold[where T = "\<lambda>a. {(0, a, 1), (1, a, 1)}"]) (auto simp: nfa_build set_digit_symbols)
  moreover have "initial digit_automaton = [0]" "final digit_automaton = [1]"
    unfolding digit_automaton_def by (simp_all add: nfa_build sset_of_def)
  moreover have one: "nfa_path ?E 1 w 1 \<longleftrightarrow> set w \<subseteq> digits" for w
    by (induction w) auto
  moreover have "nfa_path ?E 0 w 1 \<longleftrightarrow> w \<noteq> [] \<and> set w \<subseteq> digits" for w
    using one by (cases w) auto
  ultimately show ?thesis by (auto simp: nfa_lang_def lists_eq_set)
qed

lemma decimal_split:
  "(\<exists>u v. a # w = u @ [d] @ v \<and> set u \<subseteq> S \<and> set v \<subseteq> S) \<longleftrightarrow>
     a = d \<and> set w \<subseteq> S \<or> a \<in> S \<and> (\<exists>u v. w = u @ [d] @ v \<and> set u \<subseteq> S \<and> set v \<subseteq> S)"
  (is "?l \<longleftrightarrow> ?r")
proof
  assume ?l
  then obtain u v where uv: "a # w = u @ [d] @ v" "set u \<subseteq> S" "set v \<subseteq> S" by blast
  then show ?r by (cases u) auto
next
  assume ?r
  then show ?l
  proof
    assume "a = d \<and> set w \<subseteq> S"
    then show ?l by (intro exI[of _ "[]"] exI[of _ w]) simp
  next
    assume "a \<in> S \<and> (\<exists>u v. w = u @ [d] @ v \<and> set u \<subseteq> S \<and> set v \<subseteq> S)"
    then obtain u v where "a \<in> S" "w = u @ [d] @ v" "set u \<subseteq> S" "set v \<subseteq> S" by blast
    then show ?l by (intro exI[of _ "a # u"] exI[of _ v]) simp
  qed
qed

lemma lang_decimal:
  "nfa_lang decimal_automaton = {u @ [REAL_NUMBER_DELIMITER] @ v | u v. u \<in> lists digits \<and> v \<in> lists digits}"
proof -
  let ?d = REAL_NUMBER_DELIMITER
  let ?E = "insert (0, ?d, 1) {(q, a, q) | q a. q \<in> {0, 1} \<and> a \<in> digits}"
  have "moves decimal_automaton = ?E"
    unfolding decimal_automaton_def nfa_add_simps
    by (subst moves_fold[where T = "\<lambda>a. {(0, a, 0), (1, a, 1)}"]) (auto simp: nfa_build set_digit_symbols)
  moreover have "initial decimal_automaton = [0]" "final decimal_automaton = [1]"
    unfolding decimal_automaton_def by (simp_all add: nfa_build sset_of_def)
  moreover have one: "nfa_path ?E 1 w 1 \<longleftrightarrow> set w \<subseteq> digits" for w
    by (induction w) auto
  moreover have "nfa_path ?E 0 w 1 \<longleftrightarrow>
      (\<exists>u v. w = u @ [?d] @ v \<and> set u \<subseteq> digits \<and> set v \<subseteq> digits)" for w
  proof (induction w)
    case (Cons a w)
    have "nfa_path ?E 0 (a # w) 1 \<longleftrightarrow> a = ?d \<and> set w \<subseteq> digits \<or> a \<in> digits \<and> nfa_path ?E 0 w 1"
      using one by auto
    then show ?case unfolding Cons decimal_split .
  qed auto
  ultimately show ?thesis by (auto simp: nfa_lang_def lists_eq_set)
qed

lemma lang_decimal_of_lengths:
  "nfa_lang (decimal_automaton_of_lengths n m) =
     {u @ [REAL_NUMBER_DELIMITER] @ v | u v. u \<in> words_over digits n \<and> v \<in> words_over digits m}"
proof -
  let ?A = "decimal_automaton_of_lengths n m"
  define S where "S = (\<lambda>k. if k = n then {REAL_NUMBER_DELIMITER} else digits)"
  have "moves ?A = {(i, a, Suc i) | i a. i < n + m + 1 \<and> a \<in> S i}"
  proof -
    have "moves ?A = {(i, a, Suc i) | i a. i \<in> {n + 1..<n + m + 1} \<and> a \<in> digits} \<union>
        insert (n, REAL_NUMBER_DELIMITER, Suc n) {(i, a, Suc i) | i a. i \<in> {0..<n} \<and> a \<in> digits}"
      by (simp add: decimal_automaton_of_lengths_def moves_fold_layers nfa_add_simps set_digit_symbols
          del: upt_Suc)
    also have "\<dots> = {(i, a, Suc i) | i a. i < n + m + 1 \<and> a \<in> S i}"
      (is "?L = ?R")
    proof (rule set_eqI)
      fix x
      show "x \<in> ?L \<longleftrightarrow> x \<in> ?R"
        by (cases x) (cases "fst x" n rule: linorder_cases; simp add: S_def; blast?)
    qed
    finally show ?thesis .
  qed
  moreover have "initial ?A = [0]" "final ?A = [n + m + 1]"
    unfolding decimal_automaton_of_lengths_def
    by (simp_all add: ends_fold_layers nfa_add_simps sset_of_def)
  ultimately have lang: "nfa_lang ?A = {w. length w = n + m + 1 \<and> (\<forall>k < n + m + 1. w ! k \<in> S k)}"
    by (rule chain_lang)
  show ?thesis
  proof (rule set_eqI, rule iffI)
    fix w
    assume "w \<in> nfa_lang ?A"
    then have len: "length w = n + m + 1" and all: "\<And>k. k < n + m + 1 \<Longrightarrow> w ! k \<in> S k"
      unfolding lang by auto
    have "w = take n w @ [w ! n] @ drop (Suc n) w"
      using len by (simp add: id_take_nth_drop)
    moreover have "w ! n = REAL_NUMBER_DELIMITER" using all[of n] by (simp add: S_def)
    moreover have digit: "w ! k \<in> digits" if "k < n + m + 1" "k \<noteq> n" for k
      using all[of k] that by (simp add: S_def)
    have "take n w \<in> words_over digits n"
      unfolding words_over_nth using len digit by simp
    moreover have "drop (Suc n) w \<in> words_over digits m"
      unfolding words_over_nth using len digit by simp
    ultimately show "w \<in> {u @ [REAL_NUMBER_DELIMITER] @ v | u v.
        u \<in> words_over digits n \<and> v \<in> words_over digits m}" by (metis (mono_tags, lifting) mem_Collect_eq)
  next
    fix w
    assume "w \<in> {u @ [REAL_NUMBER_DELIMITER] @ v | u v. u \<in> words_over digits n \<and> v \<in> words_over digits m}"
    then show "w \<in> nfa_lang ?A"
      unfolding lang S_def by (auto simp: words_over_nth nth_append nth_Cons' less_Suc_eq)
  qed
qed

text \<open>
  The automata that the class builds accept what their names say: the empty word, all
  words, one symbol, at most one symbol and a given number of symbols of the alphabet,
  non-empty and possibly empty words of digits, a given number of digits, decimal numbers
  with free and with fixed lengths of both parts, and exactly one given word.
\<close>

theorem automata_builders_correct:
  "nfa_lang empty_string_automaton = {[]} \<and>
   nfa_lang (sigma_star_automaton a) = lists (set (alph_symbols a)) \<and>
   nfa_lang (sigma_automaton a) = words_over (set (alph_symbols a)) 1 \<and>
   nfa_lang (sigma_automaton_of_length a n) = words_over (set (alph_symbols a)) n \<and>
   nfa_lang (sigma_eps_automaton a) = insert [] (words_over (set (alph_symbols a)) 1) \<and>
   nfa_lang digit_automaton = lists digits - {[]} \<and>
   nfa_lang digit_automaton_with_epsilon = lists digits \<and>
   nfa_lang (digit_automaton_of_length n) = words_over digits n \<and>
   nfa_lang decimal_automaton =
     {u @ [REAL_NUMBER_DELIMITER] @ v | u v. u \<in> lists digits \<and> v \<in> lists digits} \<and>
   nfa_lang (decimal_automaton_of_lengths n m) =
     {u @ [REAL_NUMBER_DELIMITER] @ v | u v. u \<in> words_over digits n \<and> v \<in> words_over digits m} \<and>
   nfa_lang (create_word_nfa w) = {w}"
  by (intro conjI lang_empty_string lang_sigma_star lang_sigma lang_sigma_of_length lang_sigma_eps
      lang_digit lang_digit_eps lang_digit_of_length lang_decimal lang_decimal_of_lengths
      lang_create_word)

end
