(* ===== verification/Automata_Walks.thy ===== *)
theory Automata_Walks
  imports Automata
begin

text \<open>
  The routines of \<open>AutAssignment\<close> (\<open>aut_assignment.cpp\<close>) that read words off the transitions
  of an automaton: whether it encodes a literal, whether its language is the iteration of one
  word, and the replacement of the dummy symbol by symbols of the alphabet.
\<close>

section \<open>Transitions from a state\<close>

text \<open>
  \<open>delta[q]\<close> lists the symbols that leave a state in ascending order, each with its ordered
  set of targets.
\<close>

definition symbol_posts :: "(nat \<times> nat \<times> nat) list \<Rightarrow> (nat \<times> nat list) list" where
  "symbol_posts ts =
     map (\<lambda>a. (a, map (snd \<circ> snd) (filter (\<lambda>x. fst (snd x) = a) ts))) (remdups_adj (map (fst \<circ> snd) ts))"

definition state_post :: "nfa \<Rightarrow> nat \<Rightarrow> (nat \<times> nat list) list" where
  "state_post A q = symbol_posts (filter (\<lambda>x. fst x = q) (delta A))"

definition wf_nfa :: "nfa \<Rightarrow> bool" where
  "wf_nfa A \<longleftrightarrow>
     sorted_wrt (<) (initial A) \<and> sorted_wrt (<) (final A) \<and> sorted_wrt (<) (delta A) \<and>
     set (initial A) \<subseteq> {..<num_of_states A} \<and> set (final A) \<subseteq> {..<num_of_states A} \<and>
     (\<forall>(s, a, t) \<in> moves A. s < num_of_states A \<and> t < num_of_states A)"

text \<open>A trimmed automaton has useful states only: all lie on an accepting path.\<close>

definition trimmed :: "nfa \<Rightarrow> bool" where
  "trimmed A \<longleftrightarrow>
     (\<forall>q < num_of_states A. (\<exists>s \<in> set (initial A). \<exists>w. nfa_path (moves A) s w q) \<and>
        (\<exists>t \<in> set (final A). \<exists>w. nfa_path (moves A) q w t))"

definition deterministic :: "nfa \<Rightarrow> bool" where
  "deterministic A \<longleftrightarrow> length (initial A) = 1 \<and>
     (\<forall>q a s t. (q, a, s) \<in> moves A \<longrightarrow> (q, a, t) \<in> moves A \<longrightarrow> s = t)"

lemma symbol_posts_single:
  assumes "symbol_posts ts = [(a, [t])]"
  shows "map snd ts = [(a, t)]"
proof -
  have "map fst (symbol_posts ts) = [a]" using assms by simp
  then have r: "remdups_adj (map (fst \<circ> snd) ts) = [a]"
    by (simp add: symbol_posts_def comp_def)
  have "set (map (fst \<circ> snd) ts) = {a}"
    using r by (metis empty_set list.simps(15) remdups_adj_set)
  then have a: "\<forall>x \<in> set ts. fst (snd x) = a" by auto
  then have "filter (\<lambda>x. fst (snd x) = a) ts = ts" by simp
  then have "map (snd \<circ> snd) ts = [t]" using assms r by (simp add: symbol_posts_def)
  then obtain x where "ts = [x]" "snd (snd x) = t" by (cases ts) auto
  then show ?thesis using a by (cases x) auto
qed

lemma state_post_single:
  assumes "state_post A q = [(a, [t])]"
  shows "(q, b, s) \<in> moves A \<longleftrightarrow> b = a \<and> s = t"
proof -
  let ?ts = "filter (\<lambda>x. fst x = q) (delta A)"
  have "map snd ?ts = [(a, t)]"
    using symbol_posts_single assms by (simp add: state_post_def)
  then have "(b, s) \<in> snd ` set ?ts \<longleftrightarrow> b = a \<and> s = t"
    by (metis Pair_inject empty_set image_set list.simps(15) singletonD singletonI)
  moreover have "(b, s) \<in> snd ` set ?ts \<longleftrightarrow> (q, b, s) \<in> moves A" by force
  ultimately show ?thesis by simp
qed

lemma distinct_singleton_list: "set xs = {x} \<Longrightarrow> distinct xs \<Longrightarrow> xs = [x]"
  by (cases xs) (auto simp: subset_singleton_iff)

lemma state_post_unique:
  assumes "sorted_wrt (<) (delta A)" and "\<And>b s. (q, b, s) \<in> moves A \<longleftrightarrow> b = a \<and> s = t"
  shows "state_post A q = [(a, [t])]"
proof -
  let ?ts = "filter (\<lambda>x. fst x = q) (delta A)"
  have "set ?ts = {(q, a, t)}" using assms(2) by auto
  moreover have "distinct ?ts" using assms(1) by (simp add: strict_sorted_iff)
  ultimately have "?ts = [(q, a, t)]" by (rule distinct_singleton_list)
  then show ?thesis by (simp add: state_post_def symbol_posts_def)
qed

lemma state_post_target:
  assumes "x \<in> set (state_post A q)" and "t \<in> set (snd x)"
  shows "(q, fst x, t) \<in> moves A"
  using assms by (auto simp: state_post_def symbol_posts_def)

lemma state_post_hd:
  assumes "length (state_post A q) = 1" and "length (snd (hd (state_post A q))) = 1"
  shows "state_post A q = [(fst (hd (state_post A q)), [hd (snd (hd (state_post A q)))])]"
  using assms by (cases "state_post A q"; cases "snd (hd (state_post A q))") (auto simp: prod_eq_iff)

section \<open>Literals\<close>

text \<open>
  The walk of \<open>aut_encodes_literal\<close>; \<open>None\<close> is a walk that does not end, \<open>Some None\<close> the
  answer false and \<open>Some (Some w)\<close> the answer true with the literal \<open>w\<close>.
\<close>

partial_function (option) literal_walk ::
    "string_encoding \<Rightarrow> nfa \<Rightarrow> nat \<Rightarrow> zstring \<Rightarrow> zstring option option" where
  "literal_walk enc A next_state word =
     (if next_state \<in> set (final A) then Some (Some word)
      else if length (state_post A next_state) \<noteq> 1 then Some None
      else if length (snd (hd (state_post A next_state))) \<noteq> 1 then Some None
      else if is_dummy_symbol enc (fst (hd (state_post A next_state))) then Some None
      else literal_walk enc A (hd (snd (hd (state_post A next_state))))
             (word @ [fst (hd (state_post A next_state))]))"

definition aut_encodes_literal :: "string_encoding \<Rightarrow> nfa \<Rightarrow> zstring option option" where
  "aut_encodes_literal enc A =
     (if length (initial A) \<noteq> 1 \<or> length (final A) \<noteq> 1 \<or> num_of_states A \<noteq> length (delta A) + 1
      then Some None
      else literal_walk enc A (hd (initial A)) [])"

lemma literal_walk_step:
  assumes "next_state \<notin> set (final A)" and "state_post A next_state = [(a, [t])]"
    and "\<not> is_dummy_symbol enc a"
  shows "literal_walk enc A next_state word = literal_walk enc A t (word @ [a])"
  using assms by (subst literal_walk.simps) simp

lemma literal_walk_cases:
  "next_state \<in> set (final A) \<and> literal_walk enc A next_state word = Some (Some word) \<or>
   next_state \<notin> set (final A) \<and> literal_walk enc A next_state word = Some None \<or>
   (\<exists>a t. next_state \<notin> set (final A) \<and> state_post A next_state = [(a, [t])] \<and>
     \<not> is_dummy_symbol enc a)"
proof (cases "next_state \<notin> set (final A) \<and> length (state_post A next_state) = 1 \<and>
    length (snd (hd (state_post A next_state))) = 1 \<and>
    \<not> is_dummy_symbol enc (fst (hd (state_post A next_state)))")
  case True
  then obtain x where "state_post A next_state = [x]" by (cases "state_post A next_state") auto
  moreover from this True obtain a t where "x = (a, [t])"
    by (cases x; cases "snd x") auto
  ultimately show ?thesis using True by auto
next
  case False
  then show ?thesis by (subst (1 2) literal_walk.simps) auto
qed

text \<open>From a state that can reach a final one the walk ends, and what it reads is accepted.\<close>

lemma literal_walk_ends:
  assumes "nfa_path (moves A) q v t" and "t \<in> set (final A)"
  shows "\<exists>r. literal_walk enc A q word = Some r \<and>
    (\<forall>w. r = Some w \<longrightarrow> (\<exists>u f. w = word @ u \<and> f \<in> set (final A) \<and> nfa_path (moves A) q u f \<and>
       get_dummy_symbol enc \<notin> set u))"
  using assms(1)
proof (induction v arbitrary: q word)
  case Nil
  then have "literal_walk enc A q word = Some (Some word)"
    using assms(2) by (subst literal_walk.simps) simp
  then show ?case using Nil assms(2) by (intro exI[of _ "Some word"]) (auto intro!: exI[of _ "[]"])
next
  case (Cons b v)
  consider (final) "q \<in> set (final A)" "literal_walk enc A q word = Some (Some word)"
    | (stop) "literal_walk enc A q word = Some None"
    | (step) a p where "q \<notin> set (final A)" "state_post A q = [(a, [p])]" "\<not> is_dummy_symbol enc a"
    using literal_walk_cases[of q A enc word] by blast
  then show ?case
  proof cases
    case final
    then show ?thesis by (intro exI[of _ "Some word"]) (auto intro!: exI[of _ "[]"])
  next
    case stop
    then show ?thesis by simp
  next
    case step
    have move: "(q, c, s) \<in> moves A \<longleftrightarrow> c = a \<and> s = p" for c s
      by (rule state_post_single[OF step(2)])
    then have "nfa_path (moves A) p v t" using Cons.prems by auto
    from Cons.IH[OF this, of "word @ [a]"] obtain r where r:
      "literal_walk enc A q word = Some r"
      "\<And>w. r = Some w \<Longrightarrow> \<exists>u f. w = word @ [a] @ u \<and> f \<in> set (final A) \<and> nfa_path (moves A) p u f \<and>
         get_dummy_symbol enc \<notin> set u"
      unfolding literal_walk_step[OF step] by auto
    have "\<exists>u f. w = word @ u \<and> f \<in> set (final A) \<and> nfa_path (moves A) q u f \<and>
       get_dummy_symbol enc \<notin> set u" if found: "r = Some w" for w
    proof -
      obtain u f where "w = word @ [a] @ u" "f \<in> set (final A)" "nfa_path (moves A) p u f"
         "get_dummy_symbol enc \<notin> set u" using r(2)[OF found] by blast
      then show ?thesis using move step(3)
        by (intro exI[of _ "a # u"] exI[of _ f]) (auto simp: is_dummy_symbol_def)
    qed
    then show ?thesis using r(1) by blast
  qed
qed

text \<open>
  A trimmed automaton with one initial state and one transition less than states is a tree
  rooted in the initial state.
\<close>

lemma tree_moves:
  assumes "wf_nfa A" and "trimmed A" and "initial A = [i]" and "num_of_states A = length (delta A) + 1"
  shows "inj_on (snd \<circ> snd) (moves A)" and "i \<notin> (snd \<circ> snd) ` moves A"
proof -
  let ?n = "num_of_states A" and ?t = "snd \<circ> snd"
  have card: "card (moves A) = ?n - 1"
    using assms(1,4) by (simp add: wf_nfa_def distinct_card strict_sorted_iff)
  have sub: "{..<?n} - {i} \<subseteq> ?t ` moves A"
  proof
    fix q
    assume q: "q \<in> {..<?n} - {i}"
    then obtain w where w: "nfa_path (moves A) i w q" using assms(2,3) by (auto simp: trimmed_def)
    then have "w \<noteq> []" using q by auto
    then obtain u a where "w = u @ [a]" by (meson rev_exhaust)
    then obtain p where "(p, a, q) \<in> moves A" using w by (auto simp: nfa_path_snoc)
    then show "q \<in> ?t ` moves A" by force
  qed
  have "i < ?n" using assms(1,3) by (simp add: wf_nfa_def)
  then have cardn: "card ({..<?n} - {i}) = ?n - 1" by simp
  have "?n - 1 \<le> card (?t ` moves A)" using card_mono[OF _ sub] cardn by simp
  then have eq: "card (?t ` moves A) = card (moves A)"
    using card card_image_le[of "moves A" ?t] by simp
  show "inj_on ?t (moves A)" using eq by (simp add: eq_card_imp_inj_on)
  have "{..<?n} - {i} = ?t ` moves A"
    using eq card cardn by (intro card_subset_eq[OF _ sub]) auto
  then show "i \<notin> ?t ` moves A" by blast
qed

lemma tree_path_unique:
  assumes "inj_on (snd \<circ> snd) E" and "i \<notin> (snd \<circ> snd) ` E"
    and "nfa_path E i u q" and "nfa_path E i v q"
  shows "u = v"
  using assms(3,4)
proof (induction u arbitrary: v q rule: rev_induct)
  case Nil
  show ?case
  proof (cases v rule: rev_cases)
    case (snoc v' b)
    then show ?thesis using Nil assms(2) by (force simp: nfa_path_snoc)
  qed simp
next
  case (snoc a u)
  then obtain p where p: "nfa_path E i u p" "(p, a, q) \<in> E" by (auto simp: nfa_path_snoc)
  show ?case
  proof (cases v rule: rev_cases)
    case Nil
    then show ?thesis using snoc.prems(2) p(2) assms(2) by force
  next
    case (snoc v' b)
    then obtain p' where p': "nfa_path E i v' p'" "(p', b, q) \<in> E"
      using \<open>nfa_path E i v q\<close> by (auto simp: nfa_path_snoc)
    have "(p, a, q) = (p', b, q)" using inj_onD[OF assms(1) _ p(2) p'(2)] by simp
    then show ?thesis using snoc.IH[OF p(1)] p'(1) snoc by simp
  qed
qed

lemma singleton_structure:
  assumes "wf_nfa A" and "trimmed A" and "length (initial A) = 1" and "length (final A) = 1"
    and "num_of_states A = length (delta A) + 1"
  shows "\<exists>w. nfa_lang A = {w}"
proof -
  obtain i f where i: "initial A = [i]" and f: "final A = [f]"
    using assms(3,4) by (auto simp: length_Suc_conv)
  have "f < num_of_states A" using assms(1) f by (simp add: wf_nfa_def)
  then obtain w where w: "nfa_path (moves A) i w f" using assms(2) i by (auto simp: trimmed_def)
  have unique: "v = w" if "nfa_path (moves A) i v f" for v
    by (rule tree_path_unique[OF tree_moves[OF assms(1,2) i assms(5)] that w])
  have "nfa_lang A = {v. nfa_path (moves A) i v f}" by (simp add: nfa_lang_def i f)
  also have "\<dots> = {w}" using w unique by blast
  finally show ?thesis ..
qed

lemma det_path_unique:
  assumes "deterministic A" and "nfa_path (moves A) s w q" and "nfa_path (moves A) s w q'"
  shows "q = q'"
  using assms(2,3)
proof (induction w arbitrary: s)
  case (Cons a w)
  then show ?case using assms(1) unfolding deterministic_def by (metis nfa_path.simps(2))
qed simp

text \<open>
  A trimmed deterministic automaton for one word is a chain: every state is reached by one
  word only.
\<close>

definition word_dfa :: "nfa \<Rightarrow> nat \<Rightarrow> zstring \<Rightarrow> bool" where
  "word_dfa A i w \<longleftrightarrow> wf_nfa A \<and> trimmed A \<and> deterministic A \<and> initial A = [i] \<and> nfa_lang A = {w}"

lemma word_dfa_accepted:
  assumes "word_dfa A i w" and "nfa_path (moves A) i u q" and "nfa_path (moves A) q v f"
    and "f \<in> set (final A)"
  shows "u @ v = w"
proof -
  have "u @ v \<in> nfa_lang A"
    using assms by (auto simp: word_dfa_def nfa_lang_def nfa_path_append)
  then show ?thesis using assms(1) by (simp add: word_dfa_def)
qed

lemma word_dfa_state:
  assumes "word_dfa A i w" and "q < num_of_states A"
  obtains u v f where "nfa_path (moves A) i u q" and "nfa_path (moves A) q v f" and "f \<in> set (final A)"
  using assms by (auto simp: word_dfa_def trimmed_def)

lemma word_dfa_source:
  assumes "word_dfa A i w" and "(q, a, t) \<in> moves A"
  shows "q < num_of_states A \<and> t < num_of_states A"
  using assms by (auto simp: word_dfa_def wf_nfa_def)

lemma word_dfa_unique:
  assumes "word_dfa A i w" and "q < num_of_states A"
    and "nfa_path (moves A) i u q" and "nfa_path (moves A) i u' q"
  shows "u = u'"
proof -
  obtain v f where v: "nfa_path (moves A) q v f" "f \<in> set (final A)"
    using word_dfa_state[OF assms(1,2)] by metis
  have "u @ v = u' @ v"
    using word_dfa_accepted[OF assms(1,3) v] word_dfa_accepted[OF assms(1,4) v] by simp
  then show ?thesis by simp
qed

lemma word_dfa_targets:
  assumes "word_dfa A i w"
  shows "inj_on (snd \<circ> snd) (moves A)" and "(snd \<circ> snd) ` moves A = {..<num_of_states A} - {i}"
proof -
  have path: "\<exists>u. nfa_path (moves A) i u q \<and> nfa_path (moves A) i (u @ [a]) t"
    if m: "(q, a, t) \<in> moves A" for q a t
  proof -
    obtain u where "nfa_path (moves A) i u q"
      using word_dfa_state[OF assms] word_dfa_source[OF assms m] by metis
    then show ?thesis using m by (auto simp: nfa_path_snoc)
  qed
  show "inj_on (snd \<circ> snd) (moves A)"
  proof (rule inj_onI)
    fix x y
    assume x: "x \<in> moves A" and y: "y \<in> moves A" and eq: "(snd \<circ> snd) x = (snd \<circ> snd) y"
    obtain q a t where X: "x = (q, a, t)" by (cases x)
    obtain q' a' where Y: "y = (q', a', t)" using eq X by (cases y) auto
    obtain u where u: "nfa_path (moves A) i u q" "nfa_path (moves A) i (u @ [a]) t"
      using path x X by blast
    obtain u' where u': "nfa_path (moves A) i u' q'" "nfa_path (moves A) i (u' @ [a']) t"
      using path y Y by blast
    have "u @ [a] = u' @ [a']"
      using word_dfa_unique[OF assms _ u(2) u'(2)] word_dfa_source[OF assms] x X by blast
    then have "a = a'" "u = u'" by simp_all
    then have "q = q'" using det_path_unique[of A i u q q'] assms u u' by (simp add: word_dfa_def)
    then show "x = y" using X Y \<open>a = a'\<close> by simp
  qed
  show "(snd \<circ> snd) ` moves A = {..<num_of_states A} - {i}"
  proof (intro subset_antisym subsetI)
    fix t
    assume "t \<in> (snd \<circ> snd) ` moves A"
    then obtain q a where m: "(q, a, t) \<in> moves A" by auto
    then obtain u where u: "nfa_path (moves A) i (u @ [a]) t" using path by blast
    have "t < num_of_states A" using word_dfa_source[OF assms m] by simp
    moreover have "t \<noteq> i"
      using word_dfa_unique[OF assms calculation u, of "[]"] by auto
    ultimately show "t \<in> {..<num_of_states A} - {i}" by simp
  next
    fix t
    assume t: "t \<in> {..<num_of_states A} - {i}"
    then obtain u where u: "nfa_path (moves A) i u t" using word_dfa_state[OF assms, of t] by auto
    then have "u \<noteq> []" using t by auto
    then obtain u' a where "u = u' @ [a]" by (meson rev_exhaust)
    then obtain q where "(q, a, t) \<in> moves A" using u by (auto simp: nfa_path_snoc)
    then show "t \<in> (snd \<circ> snd) ` moves A" by force
  qed
qed

lemma word_dfa_shape:
  assumes "word_dfa A i w"
  shows "num_of_states A = length (delta A) + 1" and "length (final A) = 1"
proof -
  have i: "i < num_of_states A" using assms by (auto simp: word_dfa_def wf_nfa_def)
  have "length (delta A) = card (moves A)"
    using assms by (simp add: word_dfa_def wf_nfa_def distinct_card strict_sorted_iff)
  also have "\<dots> = card ({..<num_of_states A} - {i})"
    using card_image[OF word_dfa_targets(1)[OF assms]] word_dfa_targets(2)[OF assms] by simp
  finally show "num_of_states A = length (delta A) + 1" using i by simp
  have "w \<in> nfa_lang A" using assms by (simp add: word_dfa_def)
  then obtain f where f: "f \<in> set (final A)" "nfa_path (moves A) i w f"
    using assms by (auto simp: nfa_lang_def word_dfa_def)
  have "g = f" if g: "g \<in> set (final A)" for g
  proof -
    have "g < num_of_states A" using assms g by (auto simp: word_dfa_def wf_nfa_def)
    then obtain u where u: "nfa_path (moves A) i u g" using word_dfa_state[OF assms] by metis
    then have "u = w" using word_dfa_accepted[OF assms u, of "[]" g] g by simp
    then show ?thesis using det_path_unique[of A i w g f] assms f(2) u by (simp add: word_dfa_def)
  qed
  then have "set (final A) = {f}" using f by blast
  then show "length (final A) = 1"
    using distinct_singleton_list[of "final A" f] assms
    by (simp add: word_dfa_def wf_nfa_def strict_sorted_iff)
qed

lemma word_dfa_walk:
  assumes "word_dfa A i w" and "get_dummy_symbol enc \<notin> set w" and "f \<in> set (final A)"
    and "nfa_path (moves A) q v f" and "nfa_path (moves A) i u q"
  shows "literal_walk enc A q u = Some (Some w)"
  using assms(4,5)
proof (induction v arbitrary: q u)
  case Nil
  then have "u = w" using word_dfa_accepted[OF assms(1) Nil(2) Nil(1) assms(3)] by simp
  then show ?case using Nil(1) assms(3) by (subst literal_walk.simps) simp
next
  case (Cons a v)
  from Cons.prems obtain t where t: "(q, a, t) \<in> moves A" "nfa_path (moves A) t v f" by auto
  have w: "u @ a # v = w" using word_dfa_accepted[OF assms(1) Cons.prems(2,1) assms(3)] .
  have "q \<notin> set (final A)"
    using word_dfa_accepted[OF assms(1) Cons.prems(2), of "[]" q] w by auto
  moreover have "(q, b, s) \<in> moves A \<longleftrightarrow> b = a \<and> s = t" for b s
  proof
    assume m: "(q, b, s) \<in> moves A"
    obtain v' f' where v': "nfa_path (moves A) s v' f'" "f' \<in> set (final A)"
      using word_dfa_state[OF assms(1)] word_dfa_source[OF assms(1) m] by metis
    have "u @ b # v' = w"
      using word_dfa_accepted[OF assms(1) Cons.prems(2), of "b # v'" f'] m v' by auto
    then have "b = a" using w by (metis append_eq_append_conv list.inject same_append_eq)
    then show "b = a \<and> s = t" using m t(1) assms(1) by (auto simp: word_dfa_def deterministic_def)
  qed (simp add: t)
  then have "state_post A q = [(a, [t])]"
    using assms(1) by (intro state_post_unique) (auto simp: word_dfa_def wf_nfa_def)
  moreover have "\<not> is_dummy_symbol enc a" using assms(2) w by (auto simp: is_dummy_symbol_def)
  ultimately have "literal_walk enc A q u = literal_walk enc A t (u @ [a])"
    by (rule literal_walk_step)
  then show ?case using Cons.IH[OF t(2), of "u @ [a]"] Cons.prems(2) t(1) by (auto simp: nfa_path_snoc)
qed

lemma aut_encodes_literal_runs:
  assumes "wf_nfa A" and "trimmed A"
  shows "\<exists>r. aut_encodes_literal enc A = Some r \<and>
    (\<forall>w. r = Some w \<longrightarrow> nfa_lang A = {w} \<and> get_dummy_symbol enc \<notin> set w) \<and>
    (\<forall>w. deterministic A \<and> nfa_lang A = {w} \<and> get_dummy_symbol enc \<notin> set w \<longrightarrow> r = Some w)"
proof (cases "length (initial A) \<noteq> 1 \<or> length (final A) \<noteq> 1 \<or> num_of_states A \<noteq> length (delta A) + 1")
  case True
  have "\<not> (deterministic A \<and> nfa_lang A = {w})" for w
  proof
    assume d: "deterministic A \<and> nfa_lang A = {w}"
    then obtain i where i: "initial A = [i]" by (auto simp: deterministic_def length_Suc_conv)
    then show False using True word_dfa_shape[of A i w] d assms by (simp add: word_dfa_def)
  qed
  then show ?thesis using True by (intro exI[of _ None]) (auto simp: aut_encodes_literal_def)
next
  case False
  obtain i f where i: "initial A = [i]" and f: "final A = [f]"
    using False by (auto simp: length_Suc_conv)
  have "i < num_of_states A" using assms(1) i by (simp add: wf_nfa_def)
  then obtain v where v: "nfa_path (moves A) i v f" using assms(2) f by (auto simp: trimmed_def)
  obtain r where r: "literal_walk enc A i [] = Some r"
      "\<And>w. r = Some w \<Longrightarrow> nfa_path (moves A) i w f \<and> get_dummy_symbol enc \<notin> set w"
    using literal_walk_ends[OF v, of enc "[]"] f by auto
  obtain x where x: "nfa_lang A = {x}" using singleton_structure[OF assms] False by auto
  have "nfa_lang A = {w} \<and> get_dummy_symbol enc \<notin> set w" if "r = Some w" for w
  proof -
    have "w \<in> nfa_lang A" using r(2)[OF that] i f by (auto simp: nfa_lang_def)
    then show ?thesis using x r(2)[OF that] by simp
  qed
  moreover have "r = Some w"
    if "deterministic A" "nfa_lang A = {w}" "get_dummy_symbol enc \<notin> set w" for w
    using word_dfa_walk[of A i w enc f i v "[]"] that assms i f v r(1) by (simp add: word_dfa_def)
  ultimately show ?thesis using False r(1) i by (auto simp: aut_encodes_literal_def)
qed

text \<open>
  C28: On a trimmed automaton \<open>aut_encodes_literal\<close> ends. When it answers true with a
  literal, the language is exactly that literal and the literal has no dummy symbol. When the
  automaton is also deterministic, it answers true for every language of one word without
  the dummy symbol.
\<close>

theorem aut_encodes_literal_correct:
  assumes "wf_nfa A" and "trimmed A"
  shows "\<exists>r. aut_encodes_literal enc A = Some r \<and>
    (\<forall>w. r = Some w \<longrightarrow> nfa_lang A = {w} \<and> get_dummy_symbol enc \<notin> set w) \<and>
    (\<forall>w. deterministic A \<and> nfa_lang A = {w} \<and> get_dummy_symbol enc \<notin> set w \<longrightarrow> r = Some w)"
  by (rule aut_encodes_literal_runs[OF assms])

lemma create_word_nfa_simps:
  "initial (create_word_nfa w) = [0]" "final (create_word_nfa w) = [length w]"
  "moves (create_word_nfa w) = {(i, a, Suc i) | i a. i < length w \<and> a \<in> {w ! i}}"
  "sorted_wrt (<) (delta (create_word_nfa w))"
  "num_of_states (create_word_nfa w) = Suc (length w)"
proof -
  show "initial (create_word_nfa w) = [0]" "final (create_word_nfa w) = [length w]"
    unfolding create_word_nfa_def insert_initial_def insert_final_def
    by (simp_all add: nfa_build sset_of_def)
  show "moves (create_word_nfa w) = {(i, a, Suc i) | i a. i < length w \<and> a \<in> {w ! i}}"
    unfolding create_word_nfa_def insert_initial_def insert_final_def
    by (simp, subst moves_fold[where T = "\<lambda>i. {(i, w ! i, i + 1)}"]) (auto simp: nfa_build)
  have "sorted_wrt (<) (delta A) \<Longrightarrow> sorted_wrt (<) (delta (fold (\<lambda>i. delta_add i (f i) (g i)) is A))"
    for f g "is" A by (induction "is" arbitrary: A) (simp_all add: delta_add_def)
  then show "sorted_wrt (<) (delta (create_word_nfa w))"
    by (simp add: create_word_nfa_def insert_initial_def insert_final_def new_nfa_def)
  have "num_of_states A = Suc n \<Longrightarrow> set is \<subseteq> {..<n} \<Longrightarrow>
      num_of_states (fold (\<lambda>i. delta_add i (f i) (i + 1)) is A) = Suc n" for f "is" A n
    by (induction "is" arbitrary: A) (simp_all add: delta_add_def)
  then show "num_of_states (create_word_nfa w) = Suc (length w)"
    by (simp add: create_word_nfa_def insert_initial_def insert_final_def new_nfa_def atLeast0LessThan)
qed

lemma create_word_nfa_dfa: "word_dfa (create_word_nfa w) 0 w"
proof -
  note [simp] = create_word_nfa_simps
  have path: "nfa_path (moves (create_word_nfa w)) s u t \<longleftrightarrow>
      t = s + length u \<and> (\<forall>k < length u. s + k < length w \<and> u ! k = w ! (s + k))" for s u t
    by (subst create_word_nfa_simps(3), subst chain_path) simp
  have "\<exists>u. nfa_path (moves (create_word_nfa w)) 0 u q" if "q \<le> length w" for q
    using that unfolding path by (intro exI[of _ "take q w"]) simp
  moreover have "\<exists>u. nfa_path (moves (create_word_nfa w)) q u (length w)" if "q \<le> length w" for q
    using that unfolding path by (intro exI[of _ "drop q w"]) auto
  ultimately have "trimmed (create_word_nfa w)"
    by (auto simp: trimmed_def less_Suc_eq_le simp del: create_word_nfa_simps(3))
  moreover have "wf_nfa (create_word_nfa w)" by (auto simp: wf_nfa_def)
  moreover have "deterministic (create_word_nfa w)" by (auto simp: deterministic_def)
  ultimately show ?thesis by (simp add: word_dfa_def lang_create_word)
qed

theorem aut_encodes_literal_correct_witness:
  "aut_encodes_literal unicode (create_word_nfa [97, 98]) = Some (Some [97, 98])"
proof -
  have "word_dfa (create_word_nfa [97, 98]) 0 [97, 98]" by (rule create_word_nfa_dfa)
  then show ?thesis
    using aut_encodes_literal_correct[of "create_word_nfa [97, 98]" unicode]
    by (auto simp: word_dfa_def get_dummy_symbol_def)
qed

text \<open>
  C33: Building the automaton of a word and reading the literal back returns the word, for
  every word without the dummy symbol.
\<close>

theorem word_nfa_roundtrip:
  assumes "get_dummy_symbol enc \<notin> set w"
  shows "aut_encodes_literal enc (create_word_nfa w) = Some (Some w)"
proof -
  note dfa = create_word_nfa_dfa[of w]
  have "nfa_path (moves (create_word_nfa w)) 0 w (length w)"
    using lang_create_word[of w] by (simp add: nfa_lang_def create_word_nfa_simps(1,2)) blast
  then have "literal_walk enc (create_word_nfa w) 0 [] = Some (Some w)"
    by (intro word_dfa_walk[OF dfa assms]) (simp_all add: create_word_nfa_simps(2))
  then show ?thesis
    using word_dfa_shape[OF dfa] by (simp add: aut_encodes_literal_def create_word_nfa_simps(1))
qed

theorem word_nfa_roundtrip_witness:
  "aut_encodes_literal ascii (create_word_nfa [48, 49, 50]) = Some (Some [48, 49, 50])"
  by (rule word_nfa_roundtrip) (simp add: get_dummy_symbol_def)

end
