(* ===== verification/Automata_Powers.thy ===== *)
theory Automata_Powers
  imports Automata_Walks
begin

text \<open>
  The search for a word whose iteration is the language of an automaton
  (\<open>AutAssignment::get_word_power_base\<close> in \<open>aut_assignment.cpp\<close>), which walks once around
  the cycle of the minimal automaton.
\<close>

text \<open>
  The loop of \<open>get_word_power_base\<close> on the minimised and trimmed automaton. It ends because
  every round visits a new target of a transition.
\<close>

function power_walk ::
    "string_encoding \<Rightarrow> nfa \<Rightarrow> nat \<Rightarrow> nat \<Rightarrow> nat list \<Rightarrow> zstring \<Rightarrow> zstring option" where
  "power_walk enc A start cur visited word =
     (let state_p = state_post A cur in
      if length state_p \<noteq> 1 then None
      else if length (snd (hd state_p)) \<noteq> 1 then None
      else if is_dummy_symbol enc (fst (hd state_p)) then None
      else
        let word' = word @ [fst (hd state_p)]; nxt = hd (snd (hd state_p)) in
        if nxt = start then Some word'
        else if nxt \<in> set visited then None
        else power_walk enc A start nxt (sset_insert nxt visited) word')"
  by pat_completeness auto
termination
proof (relation "measure (\<lambda>(enc, A, start, cur, visited, word).
    card ((snd \<circ> snd) ` moves A - set visited))", goal_cases)
  case (2 enc A start cur visited word sp word' nxt)
  then have "(cur, fst (hd sp), nxt) \<in> moves A"
    by (intro state_post_target) (auto intro: list.set_sel simp flip: length_greater_0_conv)
  then have "nxt \<in> (snd \<circ> snd) ` moves A" by force
  then have "(snd \<circ> snd) ` moves A - set (sset_insert nxt visited) \<subset> (snd \<circ> snd) ` moves A - set visited"
    using 2 by auto
  then show ?case using psubset_card_mono[of "(snd \<circ> snd) ` moves A - set visited"] by simp
qed simp

declare power_walk.simps [simp del]

definition word_power_base :: "string_encoding \<Rightarrow> nfa \<Rightarrow> zstring option" where
  "word_power_base enc A =
     (if length (initial A) \<noteq> 1 \<or> length (final A) \<noteq> 1 then None
      else if hd (initial A) \<noteq> hd (final A) then None
      else power_walk enc A (hd (initial A)) (hd (initial A)) [hd (initial A)] [])"

lemma power_walk_step:
  assumes "state_post A cur = [(a, [t])]" and "\<not> is_dummy_symbol enc a"
  shows "power_walk enc A start cur visited word =
    (if t = start then Some (word @ [a])
     else if t \<in> set visited then None
     else power_walk enc A start t (sset_insert t visited) (word @ [a]))"
  using assms by (subst power_walk.simps) simp

lemma power_walk_elim:
  assumes "power_walk enc A start cur visited word = Some w"
  obtains a t where "state_post A cur = [(a, [t])]" and "\<not> is_dummy_symbol enc a"
proof -
  let ?ok = "length (state_post A cur) = 1 \<and> length (snd (hd (state_post A cur))) = 1 \<and>
    \<not> is_dummy_symbol enc (fst (hd (state_post A cur)))"
  have "power_walk enc A start cur visited word = None" if "\<not> ?ok"
    using that by (subst power_walk.simps) (auto simp: Let_def)
  then have ?ok using assms by fastforce
  then show ?thesis using that state_post_hd by blast
qed

definition powers :: "zstring \<Rightarrow> zstring set" where
  "powers w = {concat (replicate k w) | k. True}"

lemma power_walk_sound:
  assumes "power_walk enc A start cur visited word = Some w"
  shows "\<exists>v. w = word @ v \<and> v \<noteq> [] \<and> get_dummy_symbol enc \<notin> set v \<and> nfa_path (moves A) cur v start \<and>
    (\<forall>u. u \<noteq> [] \<longrightarrow> nfa_path (moves A) cur u start \<longrightarrow>
       (\<exists>r. u = v @ r \<and> nfa_path (moves A) start r start))"
  using assms
proof (induction enc A start cur visited word rule: power_walk.induct)
  case (1 enc A start cur visited word)
  from 1(2) obtain a t where post: "state_post A cur = [(a, [t])]" and dummy: "\<not> is_dummy_symbol enc a"
    by (rule power_walk_elim)
  have move: "(cur, b, s) \<in> moves A \<longleftrightarrow> b = a \<and> s = t" for b s by (rule state_post_single[OF post])
  show ?case
  proof (cases "t = start")
    case True
    then have "w = word @ [a]" using 1(2) power_walk_step[OF post dummy] by simp
    moreover have "\<exists>r. u = [a] @ r \<and> nfa_path (moves A) start r start"
      if "u \<noteq> []" "nfa_path (moves A) cur u start" for u
      using that move True by (cases u) auto
    ultimately show ?thesis
      using dummy move True by (intro exI[of _ "[a]"]) (auto simp: is_dummy_symbol_def)
  next
    case False
    then have rest: "t \<notin> set visited"
      "power_walk enc A start t (sset_insert t visited) (word @ [a]) = Some w"
      using 1(2) power_walk_step[OF post dummy] by (auto split: if_splits)
    obtain v where v: "w = (word @ [a]) @ v" "v \<noteq> []" "get_dummy_symbol enc \<notin> set v"
        "nfa_path (moves A) t v start"
        "\<And>u. u \<noteq> [] \<Longrightarrow> nfa_path (moves A) t u start \<Longrightarrow> \<exists>r. u = v @ r \<and> nfa_path (moves A) start r start"
      using 1(1)[OF refl _ _ _ refl refl] post dummy False rest by auto
    have "\<exists>r. u = (a # v) @ r \<and> nfa_path (moves A) start r start"
      if u: "u \<noteq> []" "nfa_path (moves A) cur u start" for u
    proof -
      obtain u' where u': "u = a # u'" "nfa_path (moves A) t u' start"
        using u move by (cases u) auto
      then have "u' \<noteq> []" using False by auto
      then show ?thesis using v(5) u' by auto
    qed
    then show ?thesis
      using v(1-4) dummy move by (intro exI[of _ "a # v"]) (auto simp: is_dummy_symbol_def)
  qed
qed

lemma word_power_base_sound:
  assumes "word_power_base enc A = Some w"
  shows "w \<noteq> [] \<and> get_dummy_symbol enc \<notin> set w \<and> nfa_lang A = powers w"
proof -
  obtain i where ends: "initial A = [i]" "final A = [i]" and walk: "power_walk enc A i i [i] [] = Some w"
    using assms by (auto simp: word_power_base_def length_Suc_conv split: if_splits)
  have w: "w \<noteq> []" "get_dummy_symbol enc \<notin> set w" "nfa_path (moves A) i w i"
    and split: "\<And>u. u \<noteq> [] \<Longrightarrow> nfa_path (moves A) i u i \<Longrightarrow> \<exists>r. u = w @ r \<and> nfa_path (moves A) i r i"
    using power_walk_sound[OF walk] by auto
  have "nfa_path (moves A) i u i \<Longrightarrow> \<exists>k. u = concat (replicate k w)" for u
  proof (induction u rule: length_induct)
    case (1 u)
    show ?case
    proof (cases "u = []")
      case True
      then show ?thesis by (intro exI[of _ 0]) simp
    next
      case False
      then obtain r where r: "u = w @ r" "nfa_path (moves A) i r i" using split 1(2) by blast
      have "length r < length u" using r(1) w(1) by simp
      then obtain k where "r = concat (replicate k w)" using 1(1) r(2) by blast
      then show ?thesis using r(1) by (intro exI[of _ "Suc k"]) simp
    qed
  qed
  moreover have "nfa_path (moves A) i (concat (replicate k w)) i" for k
    using w(3) by (induction k) (auto simp: nfa_path_append)
  ultimately have "nfa_lang A = powers w"
    by (auto simp: nfa_lang_def ends powers_def)
  then show ?thesis using w by simp
qed

section \<open>Every iteration of a word is recognised\<close>

text \<open>
  In a minimal automaton two states from which the same words are accepted are equal.
\<close>

definition residual :: "nfa \<Rightarrow> nat \<Rightarrow> zstring set" where
  "residual A q = {v. \<exists>f \<in> set (final A). nfa_path (moves A) q v f}"

definition minimal :: "nfa \<Rightarrow> bool" where
  "minimal A \<longleftrightarrow> wf_nfa A \<and> trimmed A \<and> deterministic A \<and>
     (\<forall>p < num_of_states A. \<forall>q < num_of_states A. residual A p = residual A q \<longrightarrow> p = q)"

lemma residual_det:
  assumes "deterministic A" and "initial A = [i]" and "nfa_path (moves A) i u q"
  shows "residual A q = {v. u @ v \<in> nfa_lang A}"
proof -
  have "nfa_path (moves A) i (u @ v) f \<longleftrightarrow> nfa_path (moves A) q v f" for v f
    using assms(3) det_path_unique[OF assms(1,3)] unfolding nfa_path_append by blast
  then show ?thesis by (simp add: residual_def nfa_lang_def assms(2))
qed

lemma powers_Nil [simp]: "[] \<in> powers w"
  unfolding powers_def by (intro CollectI exI[of _ 0]) simp

lemma powers_word [simp]: "w \<in> powers w"
  unfolding powers_def by (intro CollectI exI[of _ 1]) simp

lemma powers_cases:
  assumes "x \<in> powers w" and "x \<noteq> []"
  obtains y where "x = w @ y" and "y \<in> powers w"
proof -
  obtain k where k: "x = concat (replicate k w)" using assms(1) by (auto simp: powers_def)
  then obtain m where "k = Suc m" using assms(2) by (cases k) auto
  then have "x = w @ concat (replicate m w)" using k by simp
  then show ?thesis using that by (auto simp: powers_def)
qed

lemma powers_short:
  assumes "x \<in> powers w" and "length x < length w"
  shows "x = []"
proof (rule ccontr)
  assume "x \<noteq> []"
  then obtain y where "x = w @ y" using powers_cases[OF assms(1)] by blast
  then show False using assms(2) by simp
qed

lemma powers_append:
  assumes "w \<noteq> []" and "u \<in> powers w"
  shows "u @ v \<in> powers w \<longleftrightarrow> v \<in> powers w"
proof -
  obtain k where u: "u = concat (replicate k w)" using assms(2) by (auto simp: powers_def)
  show ?thesis unfolding u
  proof (induction k)
    case (Suc k)
    have cons: "w @ y \<in> powers w \<longleftrightarrow> y \<in> powers w" for y
    proof
      assume "w @ y \<in> powers w"
      then show "y \<in> powers w" by (rule powers_cases) (use assms(1) in auto)
    next
      assume "y \<in> powers w"
      then obtain m where "y = concat (replicate m w)" by (auto simp: powers_def)
      then show "w @ y \<in> powers w" unfolding powers_def by (intro CollectI exI[of _ "Suc m"]) simp
    qed
    then show ?case using Suc by simp
  qed simp
qed

lemma power_final:
  assumes "minimal A" and "initial A = [i]" and "nfa_lang A = powers w" and "w \<noteq> []"
  shows "final A = [i]"
proof -
  have det: "deterministic A" and wf: "wf_nfa A" and tr: "trimmed A" using assms(1) by (auto simp: minimal_def)
  have i: "i < num_of_states A" using wf assms(2) by (auto simp: wf_nfa_def)
  have eq: "f = i" if f: "f \<in> set (final A)" for f
  proof -
    have fn: "f < num_of_states A" using wf f by (auto simp: wf_nfa_def)
    then obtain u where u: "nfa_path (moves A) i u f" using tr assms(2) by (auto simp: trimmed_def)
    then have "u \<in> powers w" using f assms(2,3) by (auto simp: nfa_lang_def)
    then have "residual A f = residual A i"
      using residual_det[OF det assms(2) u] residual_det[OF det assms(2), of "[]" i]
        powers_append[OF assms(4)] assms(3) by simp
    then show ?thesis using assms(1) i fn by (auto simp: minimal_def)
  qed
  have "[] \<in> nfa_lang A" using assms(3) by simp
  then obtain f where "f \<in> set (final A)" by (auto simp: nfa_lang_def)
  then have "i \<in> set (final A)" using eq by simp
  then have "set (final A) = {i}" using eq by blast
  then show ?thesis
    using distinct_singleton_list wf by (auto simp: wf_nfa_def strict_sorted_iff)
qed

text \<open>The states on the cycle of the word.\<close>

lemma power_states:
  assumes "nfa_path (moves A) i w i"
  obtains p where "p 0 = i" and "p (length w) = i"
    and "\<And>j. j \<le> length w \<Longrightarrow> nfa_path (moves A) i (take j w) (p j)"
    and "\<And>j. j \<le> length w \<Longrightarrow> nfa_path (moves A) (p j) (drop j w) i"
proof -
  have "\<forall>j. \<exists>q. j \<le> length w \<longrightarrow> nfa_path (moves A) i (take j w) q \<and> nfa_path (moves A) q (drop j w) i"
    using assms by (metis append_take_drop_id nfa_path_append)
  then obtain p where p: "\<And>j. j \<le> length w \<Longrightarrow>
      nfa_path (moves A) i (take j w) (p j) \<and> nfa_path (moves A) (p j) (drop j w) i"
    by metis
  then have "p 0 = i" "p (length w) = i" using p[of 0] p[of "length w"] by auto
  then show ?thesis using that p by blast
qed

lemma power_cycle:
  assumes "minimal A" and ends: "initial A = [i]" "final A = [i]" and lang: "nfa_lang A = powers w"
    and p: "\<And>j. j \<le> length w \<Longrightarrow> nfa_path (moves A) i (take j w) (p j)"
      "\<And>j. j \<le> length w \<Longrightarrow> nfa_path (moves A) (p j) (drop j w) i"
  shows "j < l \<Longrightarrow> l < length w \<Longrightarrow> p j \<noteq> p l"
    and "j < length w \<Longrightarrow> state_post A (p j) = [(w ! j, [p (Suc j)])]"
proof -
  have det: "deterministic A" and wf: "wf_nfa A" and tr: "trimmed A" using assms(1) by (auto simp: minimal_def)
  have acc: "u @ v \<in> powers w" if "nfa_path (moves A) i u q" "nfa_path (moves A) q v i" for u v q
  proof -
    have "u @ v \<in> nfa_lang A" using that ends by (auto simp: nfa_lang_def nfa_path_append)
    then show ?thesis using lang by simp
  qed
  show "p j \<noteq> p l" if "j < l" "l < length w"
  proof
    assume "p j = p l"
    then have "take j w @ drop l w \<in> powers w"
      using acc[of "take j w" "p j" "drop l w"] p[of j] p[of l] that by simp
    moreover have "length (take j w @ drop l w) < length w" using that by simp
    ultimately show False using powers_short[of "take j w @ drop l w" w] that by auto
  qed
  show "state_post A (p j) = [(w ! j, [p (Suc j)])]" if j: "j < length w"
  proof (rule state_post_unique)
    show "sorted_wrt (<) (delta A)" using wf by (simp add: wf_nfa_def)
    fix b s
    have next_move: "(p j, w ! j, p (Suc j)) \<in> moves A"
    proof -
      obtain q where q: "nfa_path (moves A) i (take j w) q" "(q, w ! j, p (Suc j)) \<in> moves A"
        using p(1)[of "Suc j"] j by (auto simp: take_Suc_conv_app_nth nfa_path_snoc)
      then have "q = p j" using det_path_unique[OF det q(1) p(1)] j by simp
      then show ?thesis using q(2) by simp
    qed
    show "(p j, b, s) \<in> moves A \<longleftrightarrow> b = w ! j \<and> s = p (Suc j)"
    proof
      assume m: "(p j, b, s) \<in> moves A"
      then have "s < num_of_states A" using wf by (auto simp: wf_nfa_def)
      then obtain v where v: "nfa_path (moves A) s v i" using tr ends by (auto simp: trimmed_def)
      have "take j w @ b # v \<in> powers w" using acc[of "take j w" "p j" "b # v"] p(1)[of j] m v j by auto
      then obtain y where "take j w @ b # v = w @ y" by (rule powers_cases) simp
      then have "(take j w @ b # v) ! j = w ! j" using j by (simp add: nth_append)
      then have "b = w ! j" using j by (simp add: nth_append)
      then show "b = w ! j \<and> s = p (Suc j)" using m next_move det by (auto simp: deterministic_def)
    qed (use next_move in simp)
  qed
qed

lemma power_walk_complete:
  assumes "\<And>j l. j < l \<Longrightarrow> l < length w \<Longrightarrow> p j \<noteq> p l" and "p (length w) = p 0"
    and "\<And>j. j < length w \<Longrightarrow> state_post A (p j) = [(w ! j, [p (Suc j)])]"
    and "get_dummy_symbol enc \<notin> set w"
    and "j < length w" and "set visited = p ` {..j}"
  shows "power_walk enc A (p 0) (p j) visited (take j w) = Some w"
  using assms(5,6)
proof (induction "length w - j" arbitrary: j visited)
  case (Suc k)
  have "w ! j \<in> set w" using Suc.prems(1) by simp
  then have dummy: "\<not> is_dummy_symbol enc (w ! j)" using assms(4) by (auto simp: is_dummy_symbol_def)
  note step = power_walk_step[OF assms(3)[OF Suc.prems(1)] dummy, of "p 0" visited "take j w"]
  have take: "take j w @ [w ! j] = take (Suc j) w" using Suc.prems(1) by (simp add: take_Suc_conv_app_nth)
  show ?case
  proof (cases "Suc j = length w")
    case True
    then show ?thesis using step take assms(2) by simp
  next
    case False
    then have less: "Suc j < length w" using Suc.prems(1) by simp
    have new: "p x \<noteq> p (Suc j)" if "x \<le> j" for x
      using assms(1)[OF le_imp_less_Suc[OF that] less] .
    have "p (Suc j) \<notin> p ` {..j}" using new by (metis atMost_iff imageE)
    moreover have "p (Suc j) \<noteq> p 0" using new[of 0] by simp
    ultimately have "power_walk enc A (p 0) (p j) visited (take j w) =
        power_walk enc A (p 0) (p (Suc j)) (sset_insert (p (Suc j)) visited) (take (Suc j) w)"
      using step take Suc.prems(2) by simp
    also have "\<dots> = Some w"
      using less Suc.hyps(2) Suc.prems(2) by (intro Suc.hyps(1)) (auto simp: atMost_Suc)
    finally show ?thesis .
  qed
qed simp

text \<open>
  C27: \<open>get_word_power_base\<close> ends on every automaton. A returned word is not empty, has no
  dummy symbol, and its iterations are exactly the language. For a minimal automaton it
  returns \<open>w\<close> whenever the language is the set of iterations of a non-empty word \<open>w\<close> without
  the dummy symbol.
\<close>

theorem word_power_base_correct:
  shows "(\<forall>w. word_power_base enc A = Some w \<longrightarrow>
            w \<noteq> [] \<and> get_dummy_symbol enc \<notin> set w \<and> nfa_lang A = powers w) \<and>
         (\<forall>w. minimal A \<and> w \<noteq> [] \<and> get_dummy_symbol enc \<notin> set w \<and> nfa_lang A = powers w \<longrightarrow>
            word_power_base enc A = Some w)"
proof (intro conjI allI impI)
  fix w
  assume as: "minimal A \<and> w \<noteq> [] \<and> get_dummy_symbol enc \<notin> set w \<and> nfa_lang A = powers w"
  then obtain i where i: "initial A = [i]" by (auto simp: minimal_def deterministic_def length_Suc_conv)
  have f: "final A = [i]" using power_final[OF _ i] as by blast
  have "w \<in> nfa_lang A" using as by simp
  then have "nfa_path (moves A) i w i" using i f by (simp add: nfa_lang_def)
  then obtain p where p: "p 0 = i" "p (length w) = i"
      "\<And>j. j \<le> length w \<Longrightarrow> nfa_path (moves A) i (take j w) (p j)"
      "\<And>j. j \<le> length w \<Longrightarrow> nfa_path (moves A) (p j) (drop j w) i"
    by (rule power_states) blast
  note cycle = power_cycle[OF conjunct1[OF as] i f _ p(3,4)]
  have "power_walk enc A (p 0) (p 0) [p 0] (take 0 w) = Some w"
    using as p(1,2) by (intro power_walk_complete cycle) auto
  then show "word_power_base enc A = Some w"
    using i f p(1) by (simp add: word_power_base_def)
qed (use word_power_base_sound in blast)+

text \<open>The automaton of \<open>(ab)*\<close> with a state after every letter.\<close>

theorem word_power_base_correct_witness:
  "word_power_base unicode \<lparr>num_of_states = 2, initial = [0], final = [0], delta = [(0, 97, 1), (1, 98, 0)]\<rparr>
     = Some [97, 98] \<and>
   nfa_lang \<lparr>num_of_states = 2, initial = [0], final = [0], delta = [(0, 97, 1), (1, 98, 0)]\<rparr> =
     powers [97, 98]"
proof -
  have "word_power_base unicode \<lparr>num_of_states = 2, initial = [0], final = [0],
      delta = [(0, 97, 1), (1, 98, 0)]\<rparr> = Some [97, 98]"
    by (simp add: word_power_base_def power_walk.simps[of _ _ 0 0] power_walk.simps[of _ _ 0 "Suc 0"]
        state_post_def symbol_posts_def is_dummy_symbol_def get_dummy_symbol_def)
  then show ?thesis using word_power_base_correct by blast
qed

end
