(* ===== verification/Automata_Intervals.thy ===== *)
theory Automata_Intervals
  imports Automata_Powers
begin

text \<open>
  Interval words (\<open>AutAssignment::get_interval_words\<close> in \<open>aut_assignment.cpp\<close>): the words of
  a finite language as sequences of symbol intervals, computed level by level over a minimal
  automaton; and the replacement of the dummy symbol by symbols of the alphabet
  (\<open>AutAssignment::replace_dummy_with_symbols\<close>).
\<close>

section \<open>Interval words\<close>

type_synonym interval_word = "(nat \<times> nat) list"

text \<open>
  The inner loop over the transitions of one state: consecutive symbols with the same target
  form one interval.
\<close>

fun group_intervals :: "(nat \<times> nat list) list \<Rightarrow> nat \<Rightarrow> nat \<Rightarrow> nat \<Rightarrow> ((nat \<times> nat) \<times> nat) list" where
  "group_intervals [] last_starting_symbol last_symbol last_target =
     [((last_starting_symbol, last_symbol), last_target)]"
| "group_intervals ((cur_symbol, targets) # posts) last_starting_symbol last_symbol last_target =
     (if hd targets \<noteq> last_target \<or> cur_symbol \<noteq> last_symbol + 1
      then ((last_starting_symbol, last_symbol), last_target)
             # group_intervals posts cur_symbol cur_symbol (hd targets)
      else group_intervals posts last_starting_symbol cur_symbol (hd targets))"

definition words_at :: "(nat \<times> interval_word list) list \<Rightarrow> nat \<Rightarrow> interval_word list" where
  "words_at level st = (case map_of level st of None \<Rightarrow> [] | Some ws \<Rightarrow> ws)"

text \<open>\<open>next_level[last_target].push_back(...)\<close> for every interval word of the state.\<close>

definition push_interval ::
    "interval_word list \<Rightarrow> (nat \<times> nat) \<times> nat \<Rightarrow> (nat \<times> interval_word list) list \<Rightarrow>
     (nat \<times> interval_word list) list" where
  "push_interval interval_words x next_level =
     fold (\<lambda>vec level. map_put (snd x) (words_at level (snd x) @ [vec @ [fst x]]) level)
       interval_words next_level"

text \<open>One level; \<open>Inl\<close> is the return from the function at a state without transitions.\<close>

fun level_step ::
    "nfa \<Rightarrow> (nat \<times> interval_word list) list \<Rightarrow> (nat \<times> interval_word list) list \<Rightarrow>
     interval_word list + (nat \<times> interval_word list) list" where
  "level_step A [] next_level = Inr next_level"
| "level_step A ((st, interval_words) # cur_level) next_level =
     (case state_post A st of
        [] \<Rightarrow> Inl interval_words
      | (symbol, targets) # posts \<Rightarrow>
          level_step A cur_level
            (fold (push_interval interval_words) (group_intervals posts symbol symbol (hd targets))
              next_level))"

partial_function (option) interval_levels ::
    "nfa \<Rightarrow> (nat \<times> interval_word list) list \<Rightarrow> interval_word list option" where
  "interval_levels A cur_level =
     (case level_step A cur_level [] of
        Inl interval_words \<Rightarrow> Some interval_words
      | Inr next_level \<Rightarrow> interval_levels A next_level)"

definition get_interval_words :: "nfa \<Rightarrow> interval_word list option" where
  "get_interval_words A = interval_levels A [(hd (initial A), [[]])]"

text \<open>The words that an interval word represents, and how often a word is represented.\<close>

definition interval_word_has :: "zstring \<Rightarrow> interval_word \<Rightarrow> bool" where
  "interval_word_has w iw \<longleftrightarrow> list_all2 (\<lambda>a (lo, hi). lo \<le> a \<and> a \<le> hi) w iw"

definition representations :: "interval_word list \<Rightarrow> zstring \<Rightarrow> nat" where
  "representations iws w = length (filter (interval_word_has w) iws)"

lemma representations_simps [simp]:
  "representations [] w = 0"
  "representations (iw # iws) w = of_bool (interval_word_has w iw) + representations iws w"
  "representations (iws @ iws') w = representations iws w + representations iws' w"
  by (simp_all add: representations_def)

lemma interval_word_has_snoc:
  "interval_word_has (w @ [a]) (iw @ [(lo, hi)]) \<longleftrightarrow> interval_word_has w iw \<and> lo \<le> a \<and> a \<le> hi"
proof (cases "length w = length iw")
  case True
  then show ?thesis by (simp add: interval_word_has_def list_all2_append)
next
  case False
  then show ?thesis by (auto simp: interval_word_has_def dest!: list_all2_lengthD)
qed

subsection \<open>The intervals of one state\<close>

definition covers :: "((nat \<times> nat) \<times> nat) list \<Rightarrow> nat \<Rightarrow> nat \<Rightarrow> nat" where
  "covers gs a t = (\<Sum>((lo, hi), t') \<leftarrow> gs. of_bool (t' = t \<and> lo \<le> a \<and> a \<le> hi))"

lemma covers_nonzero:
  "covers gs a t \<noteq> 0 \<longleftrightarrow> (\<exists>lo hi. ((lo, hi), t) \<in> set gs \<and> lo \<le> a \<and> a \<le> hi)"
proof (induction gs)
  case (Cons g gs)
  obtain lo hi t' where g: "g = ((lo, hi), t')" by (metis prod.exhaust)
  have "covers (g # gs) a t = of_bool (t' = t \<and> lo \<le> a \<and> a \<le> hi) + covers gs a t"
    by (simp add: covers_def g)
  then show ?case using Cons unfolding g by auto
qed (simp add: covers_def)

lemma group_intervals_covers:
  assumes "st \<le> ls" and "sorted_wrt (<) (ls # map fst posts)"
  shows "covers (group_intervals posts st ls lt) a t =
    of_bool (lt = t \<and> st \<le> a \<and> a \<le> ls) + (\<Sum>(b, ts) \<leftarrow> posts. of_bool (b = a \<and> hd ts = t))"
  using assms
proof (induction posts st ls lt rule: group_intervals.induct)
  case (1 st ls lt)
  show ?case by (simp add: covers_def)
next
  case (2 b ts posts st ls lt)
  show ?case
  proof (cases "hd ts \<noteq> lt \<or> b \<noteq> ls + 1")
    case True
    then have "covers (group_intervals ((b, ts) # posts) st ls lt) a t =
        of_bool (lt = t \<and> st \<le> a \<and> a \<le> ls) + covers (group_intervals posts b b (hd ts)) a t"
      by (simp add: covers_def)
    also have "covers (group_intervals posts b b (hd ts)) a t =
        of_bool (hd ts = t \<and> b \<le> a \<and> a \<le> b) + (\<Sum>(b, ts) \<leftarrow> posts. of_bool (b = a \<and> hd ts = t))"
      using True 2(4) by (intro 2(1)) auto
    also have "of_bool (hd ts = t \<and> b \<le> a \<and> a \<le> b) = (of_bool (b = a \<and> hd ts = t) :: nat)" by auto
    finally show ?thesis by simp
  next
    case False
    then have "covers (group_intervals ((b, ts) # posts) st ls lt) a t =
        of_bool (hd ts = t \<and> st \<le> a \<and> a \<le> b) + (\<Sum>(b, ts) \<leftarrow> posts. of_bool (b = a \<and> hd ts = t))"
      using 2(2)[OF False] 2(3,4) by simp
    also have "(of_bool (hd ts = t \<and> st \<le> a \<and> a \<le> b) :: nat) =
        of_bool (lt = t \<and> st \<le> a \<and> a \<le> ls) + of_bool (b = a \<and> hd ts = t)"
      using False 2(3) by auto
    finally show ?thesis by simp
  qed
qed

lemma remdups_adj_strict: "sorted xs \<Longrightarrow> sorted_wrt (<) (remdups_adj xs)"
  by (induction xs rule: remdups_adj.induct) (auto simp: order_le_less)

lemma sorted_symbols:
  fixes ts :: "(nat \<times> nat \<times> nat) list"
  shows "sorted_wrt (<) ts \<Longrightarrow> \<forall>x \<in> set ts. fst x = q \<Longrightarrow> sorted (map (fst \<circ> snd) ts)"
proof (induction ts)
  case (Cons x ts)
  have "fst (snd x) \<le> fst (snd y)" if "y \<in> set ts" for y
  proof -
    have "x < y" "fst x = fst y" using Cons.prems that by auto
    then show ?thesis by (cases x; cases y) auto
  qed
  then show ?case using Cons by simp
qed simp

lemma state_post_symbols:
  assumes "sorted_wrt (<) (delta A)"
  shows "sorted_wrt (<) (map fst (state_post A q))"
proof -
  let ?ts = "filter (\<lambda>x. fst x = q) (delta A)"
  have "sorted (map (fst \<circ> snd) ?ts)"
    using assms by (intro sorted_symbols[of _ q]) (auto simp: sorted_wrt_filter)
  then have "sorted_wrt (<) (remdups_adj (map (fst \<circ> snd) ?ts))" by (rule remdups_adj_strict)
  then show ?thesis by (simp add: state_post_def symbol_posts_def comp_def)
qed

lemma state_post_iff: "(a, ts) \<in> set (state_post A q) \<longleftrightarrow>
  ts \<noteq> [] \<and> ts = map (snd \<circ> snd) (filter (\<lambda>x. fst x = q \<and> fst (snd x) = a) (delta A))"
  by (auto simp: state_post_def symbol_posts_def filter_empty_conv conj_commute image_iff) force+

lemma sum_of_bool_fst:
  "(\<Sum>(b, ts) \<leftarrow> ps. of_bool (b = a \<and> P)) = of_bool P * count_list (map fst ps) a"
  by (induction ps) auto

lemma count_list_distinct: "distinct xs \<Longrightarrow> count_list xs x = of_bool (x \<in> set xs)"
  by (induction xs) auto

lemma det_state_post:
  assumes "deterministic A" and "sorted_wrt (<) (delta A)"
  shows "(\<Sum>(b, ts) \<leftarrow> state_post A q. of_bool (b = a \<and> hd ts = t)) = (of_bool ((q, a, t) \<in> moves A) :: nat)"
proof -
  have single: "ts = [s]" if ts: "(b, ts) \<in> set (state_post A q)" and s: "(q, b, s) \<in> moves A" for b ts s
  proof -
    have "distinct (delta A)" using assms(2) by (simp add: strict_sorted_iff)
    moreover have "set (filter (\<lambda>x. fst x = q \<and> fst (snd x) = b) (delta A)) = {(q, b, s)}"
      using s assms(1) by (auto simp: deterministic_def)
    ultimately have "filter (\<lambda>x. fst x = q \<and> fst (snd x) = b) (delta A) = [(q, b, s)]"
      by (intro distinct_singleton_list) simp_all
    then show ?thesis using ts by (simp add: state_post_iff)
  qed
  have hd_iff: "b = a \<and> hd ts = t \<longleftrightarrow> b = a \<and> (q, a, t) \<in> moves A" if ts: "(b, ts) \<in> set (state_post A q)" for b ts
  proof -
    have "hd ts \<in> set ts" using ts state_post_iff[of b ts A q] by (intro hd_in_set) blast
    then have s: "(q, b, hd ts) \<in> moves A" using state_post_target[OF ts, of "hd ts"] by simp
    then show ?thesis using single[OF ts s] assms(1) by (auto simp: deterministic_def)
  qed
  have "(\<Sum>(b, ts) \<leftarrow> state_post A q. of_bool (b = a \<and> hd ts = t)) =
      (\<Sum>(b, ts) \<leftarrow> state_post A q. of_bool (b = a \<and> (q, a, t) \<in> moves A) :: nat)"
    using hd_iff by (intro arg_cong[of _ _ sum_list] map_cong) auto
  also have "\<dots> = of_bool ((q, a, t) \<in> moves A) * count_list (map fst (state_post A q)) a"
    by (rule sum_of_bool_fst)
  also have "\<dots> = of_bool ((q, a, t) \<in> moves A)"
  proof (cases "(q, a, t) \<in> moves A")
    case True
    then have "a \<in> set (map fst (state_post A q))"
      by (force simp: state_post_def symbol_posts_def)
    moreover have "distinct (map fst (state_post A q))"
      using state_post_symbols[OF assms(2)] by (simp add: strict_sorted_iff)
    ultimately show ?thesis by (simp add: count_list_distinct)
  qed simp
  finally show ?thesis .
qed

subsection \<open>The levels\<close>

lemma words_at_put [simp]: "words_at (map_put t ws level) x = (if x = t then ws else words_at level x)"
  by (simp add: words_at_def)

lemma push_interval_words:
  "words_at (push_interval iws (iv, t) level) x =
     words_at level x @ (if x = t then map (\<lambda>vec. vec @ [iv]) iws else [])"
  unfolding push_interval_def by (induction iws arbitrary: level) auto

lemma push_interval_keys:
  "iws \<noteq> [] \<Longrightarrow> fst ` set (push_interval iws (iv, t) level) = insert t (fst ` set level)"
proof -
  have "fst ` set (push_interval iws (iv, t) level) =
      (if iws = [] then {} else {t}) \<union> fst ` set level" for level
    unfolding push_interval_def by (induction iws arbitrary: level) auto
  then show "iws \<noteq> [] \<Longrightarrow> fst ` set (push_interval iws (iv, t) level) = insert t (fst ` set level)"
    by simp
qed

lemma push_interval_ok: "map_ok level \<Longrightarrow> map_ok (push_interval iws x level)"
  unfolding push_interval_def by (rule smap.ok_fold) auto

lemma representations_snoc:
  "representations (map (\<lambda>vec. vec @ [(lo, hi)]) iws) (w @ [a]) =
     of_bool (lo \<le> a \<and> a \<le> hi) * representations iws w"
  by (induction iws) (auto simp: interval_word_has_snoc)

lemma push_all_representations:
  "representations (words_at (fold (push_interval iws) gs level) t) (w @ [a]) =
     representations (words_at level t) (w @ [a]) + covers gs a t * representations iws w"
proof (induction gs arbitrary: level)
  case (Cons g gs)
  obtain lo hi t' where g: "g = ((lo, hi), t')" by (metis prod.exhaust)
  show ?case
    unfolding g by (simp add: Cons push_interval_words representations_snoc covers_def algebra_simps)
qed (simp add: covers_def)

lemma push_all_keys:
  "iws \<noteq> [] \<Longrightarrow> fst ` set (fold (push_interval iws) gs level) = snd ` set gs \<union> fst ` set level"
proof (induction gs arbitrary: level)
  case (Cons g gs)
  then show ?case by (cases g) (auto simp: push_interval_keys)
qed simp

lemma push_all_ok: "map_ok level \<Longrightarrow> map_ok (fold (push_interval iws) gs level)"
  by (rule smap.ok_fold) (auto intro: push_interval_ok)

text \<open>The intervals of a state together cover its transitions, each exactly once.\<close>

definition state_groups :: "nfa \<Rightarrow> nat \<Rightarrow> ((nat \<times> nat) \<times> nat) list" where
  "state_groups A st =
     (case state_post A st of [] \<Rightarrow> []
      | (symbol, targets) # posts \<Rightarrow> group_intervals posts symbol symbol (hd targets))"

lemma state_groups_cover:
  assumes "deterministic A" and "sorted_wrt (<) (delta A)"
  shows "covers (state_groups A q) a t = of_bool ((q, a, t) \<in> moves A)"
proof (cases "state_post A q")
  case Nil
  then have "(q, a, t) \<notin> moves A" using det_state_post[OF assms, where q = q and a = a and t = t] by auto
  then show ?thesis using Nil by (simp add: state_groups_def covers_def)
next
  case (Cons p posts)
  obtain b ts where p: "p = (b, ts)" by (cases p)
  have "sorted_wrt (<) (b # map fst posts)" using state_post_symbols[OF assms(2), of q] Cons p by simp
  then have "covers (state_groups A q) a t =
      of_bool (hd ts = t \<and> b \<le> a \<and> a \<le> b) + (\<Sum>(b, ts) \<leftarrow> posts. of_bool (b = a \<and> hd ts = t))"
    using group_intervals_covers[of b b posts "hd ts" a t] Cons p by (simp add: state_groups_def)
  also have "\<dots> = (\<Sum>(b, ts) \<leftarrow> state_post A q. of_bool (b = a \<and> hd ts = t))"
    using Cons p by auto
  finally show ?thesis using det_state_post[OF assms] by simp
qed

lemma group_interval_nonempty:
  assumes "st \<le> ls" and "sorted_wrt (<) (ls # map fst posts)" and "((lo, hi), t) \<in> set (group_intervals posts st ls lt)"
  shows "lo \<le> hi"
  using assms by (induction posts st ls lt rule: group_intervals.induct) (auto split: if_splits)

lemma state_group_nonempty:
  assumes "sorted_wrt (<) (delta A)" and "((lo, hi), t) \<in> set (state_groups A q)"
  shows "lo \<le> hi"
proof (cases "state_post A q")
  case (Cons p posts)
  obtain b ts where p: "p = (b, ts)" by (cases p)
  have "sorted_wrt (<) (b # map fst posts)" using state_post_symbols[OF assms(1), of q] Cons p by simp
  then show ?thesis
    using group_interval_nonempty[of b b posts lo hi t "hd ts"] assms(2) Cons p
    by (simp add: state_groups_def)
qed (use assms(2) in \<open>simp add: state_groups_def\<close>)

lemma state_groups_targets:
  assumes "deterministic A" and "sorted_wrt (<) (delta A)"
  shows "snd ` set (state_groups A q) = {t. \<exists>a. (q, a, t) \<in> moves A}"
proof (intro subset_antisym subsetI)
  fix t
  assume "t \<in> snd ` set (state_groups A q)"
  then obtain lo hi where g: "((lo, hi), t) \<in> set (state_groups A q)" by auto
  have "lo \<le> hi" by (rule state_group_nonempty[OF assms(2) g])
  then have "covers (state_groups A q) lo t \<noteq> 0"
    unfolding covers_nonzero using g by blast
  then show "t \<in> {t. \<exists>a. (q, a, t) \<in> moves A}" using state_groups_cover[OF assms] by auto
next
  fix t
  assume "t \<in> {t. \<exists>a. (q, a, t) \<in> moves A}"
  then obtain a where "covers (state_groups A q) a t \<noteq> 0" using state_groups_cover[OF assms] by auto
  then show "t \<in> snd ` set (state_groups A q)"
    unfolding covers_nonzero by force
qed

text \<open>
  The invariant of the levels: after \<open>n\<close> rounds the map holds exactly the states that are
  reached by words of length \<open>n\<close>, and every such word is represented exactly once.
\<close>

definition uniform :: "nat \<Rightarrow> (nat \<times> interval_word list) list \<Rightarrow> bool" where
  "uniform n level \<longleftrightarrow> (\<forall>ws \<in> snd ` set level. \<forall>iw \<in> set ws. length iw = n)"

definition level_ok :: "nfa \<Rightarrow> nat \<Rightarrow> nat \<Rightarrow> (nat \<times> interval_word list) list \<Rightarrow> bool" where
  "level_ok A i n level \<longleftrightarrow> map_ok level \<and>
     fst ` set level = {q. \<exists>w. length w = n \<and> nfa_path (moves A) i w q} \<and>
     (\<forall>q w. length w = n \<longrightarrow> representations (words_at level q) w = of_bool (nfa_path (moves A) i w q)) \<and>
     uniform n level"

lemma sum_of_bool_unique:
  assumes "finite S" and "\<And>x y. x \<in> S \<Longrightarrow> y \<in> S \<Longrightarrow> P x \<Longrightarrow> P y \<Longrightarrow> x = y"
  shows "(\<Sum>x \<in> S. of_bool (P x)) = (of_bool (\<exists>x \<in> S. P x) :: nat)"
proof (cases "\<exists>x \<in> S. P x")
  case True
  then obtain x where x: "x \<in> S" "P x" by blast
  then have "(\<Sum>y \<in> S. of_bool (P y)) = (\<Sum>y \<in> S. if y = x then 1 else 0 :: nat)"
    using assms(2) by (intro sum.cong) auto
  then show ?thesis using x assms(1) by auto
qed simp

lemma level_step_Inr:
  assumes "\<forall>(st, iws) \<in> set cur. state_post A st \<noteq> []"
  shows "level_step A cur nl =
    Inr (fold (\<lambda>(st, iws). fold (push_interval iws) (state_groups A st)) cur nl)"
  using assms
proof (induction cur arbitrary: nl)
  case (Cons x cur)
  then show ?case by (cases x) (auto simp: state_groups_def split: list.splits prod.splits)
qed simp

lemma levels_representations:
  assumes "deterministic A" and "sorted_wrt (<) (delta A)"
  shows "representations (words_at (fold (\<lambda>(st, iws). fold (push_interval iws) (state_groups A st)) cur nl) t) (w @ [a]) =
    representations (words_at nl t) (w @ [a]) +
    (\<Sum>(st, iws) \<leftarrow> cur. of_bool ((st, a, t) \<in> moves A) * representations iws w)"
  by (induction cur arbitrary: nl)
    (auto simp: push_all_representations state_groups_cover[OF assms])

lemma levels_keys:
  assumes "\<forall>(st, iws) \<in> set cur. iws \<noteq> []"
  shows "fst ` set (fold (\<lambda>(st, iws). fold (push_interval iws) (state_groups A st)) cur nl) =
    (\<Union>x \<in> set cur. snd ` set (state_groups A (fst x))) \<union> fst ` set nl"
  using assms
proof (induction cur arbitrary: nl)
  case (Cons x cur)
  obtain st iws where x: "x = (st, iws)" by (cases x)
  have "iws \<noteq> []" using Cons.prems x by simp
  then show ?case using Cons unfolding x by (simp add: push_all_keys) blast
qed simp

lemma levels_ok: "map_ok nl \<Longrightarrow>
  map_ok (fold (\<lambda>(st, iws). fold (push_interval iws) (state_groups A st)) cur nl)"
  by (rule smap.ok_fold) (auto intro: push_all_ok)

lemma uniform_words_at: "uniform n level \<Longrightarrow> iw \<in> set (words_at level t) \<Longrightarrow> length iw = n"
  by (cases "map_of level t") (force simp: uniform_def words_at_def dest: map_of_SomeD)+

lemma uniform_put:
  assumes "uniform n level" and "\<forall>iw \<in> set ws. length iw = n"
  shows "uniform n (map_put t ws level)"
proof -
  have "snd ` set (map_put t ws level) \<subseteq> insert ws (snd ` set level)"
    by (induction t ws level rule: map_put.induct) auto
  then show ?thesis using assms unfolding uniform_def by blast
qed

lemma push_interval_uniform:
  "uniform (Suc n) level \<Longrightarrow> \<forall>iw \<in> set iws. length iw = n \<Longrightarrow> uniform (Suc n) (push_interval iws x level)"
  unfolding push_interval_def
proof (induction iws arbitrary: level)
  case (Cons vec iws)
  have "uniform (Suc n) (map_put (snd x) (words_at level (snd x) @ [vec @ [fst x]]) level)"
    using Cons.prems by (intro uniform_put) (auto dest: uniform_words_at)
  then show ?case using Cons.IH Cons.prems(2) by simp
qed simp

lemma push_all_uniform:
  "uniform (Suc n) level \<Longrightarrow> \<forall>iw \<in> set iws. length iw = n \<Longrightarrow>
     uniform (Suc n) (fold (push_interval iws) gs level)"
  by (induction gs arbitrary: level) (auto intro: push_interval_uniform)

lemma levels_uniform:
  "uniform (Suc n) nl \<Longrightarrow> uniform n cur \<Longrightarrow>
     uniform (Suc n) (fold (\<lambda>(st, iws). fold (push_interval iws) (state_groups A st)) cur nl)"
proof (induction cur arbitrary: nl)
  case (Cons x cur)
  obtain st iws where x: "x = (st, iws)" by (cases x)
  have "uniform n cur" "\<forall>iw \<in> set iws. length iw = n" using Cons.prems(2) x by (auto simp: uniform_def)
  then show ?case using Cons.IH[OF push_all_uniform[OF Cons.prems(1)]] unfolding x by simp
qed simp

lemma level_ok_nonempty:
  assumes "level_ok A i n level" and "(st, iws) \<in> set level"
  shows "iws \<noteq> []" and "words_at level st = iws"
proof -
  show at: "words_at level st = iws"
    using assms map_ok_in_set by (fastforce simp: level_ok_def words_at_def)
  have "st \<in> fst ` set level" using assms(2) by force
  then obtain w where w: "length w = n" "nfa_path (moves A) i w st" using assms(1) by (auto simp: level_ok_def)
  then have "representations (words_at level st) w = 1" using assms(1) by (simp add: level_ok_def)
  then show "iws \<noteq> []" using at by auto
qed

lemma level_ok_next:
  assumes "deterministic A" and "sorted_wrt (<) (delta A)" and ok: "level_ok A i n cur"
  shows "level_ok A i (Suc n) (fold (\<lambda>(st, iws). fold (push_interval iws) (state_groups A st)) cur [])"
    (is "level_ok A i (Suc n) ?next")
  unfolding level_ok_def
proof (intro conjI allI impI)
  show "map_ok ?next" by (rule levels_ok) simp
  show "uniform (Suc n) ?next" using ok by (intro levels_uniform) (auto simp: uniform_def level_ok_def)
  have keys: "fst ` set cur = {q. \<exists>w. length w = n \<and> nfa_path (moves A) i w q}"
    and reps: "\<And>q w. length w = n \<Longrightarrow> representations (words_at cur q) w = of_bool (nfa_path (moves A) i w q)"
    and map: "map_ok cur"
    using ok by (simp_all add: level_ok_def)
  have "fst ` set ?next = (\<Union>q \<in> fst ` set cur. {t. \<exists>a. (q, a, t) \<in> moves A})"
    using level_ok_nonempty(1)[OF ok]
    by (subst levels_keys) (auto simp del: image_iff simp: state_groups_targets[OF assms(1,2)])
  also have "\<dots> = {t. \<exists>w. length w = Suc n \<and> nfa_path (moves A) i w t}"
    unfolding keys
  proof (intro subset_antisym subsetI)
    fix t
    assume "t \<in> (\<Union>q \<in> {q. \<exists>w. length w = n \<and> nfa_path (moves A) i w q}. {t. \<exists>a. (q, a, t) \<in> moves A})"
    then obtain q w a where "length w = n" "nfa_path (moves A) i w q" "(q, a, t) \<in> moves A" by blast
    then show "t \<in> {t. \<exists>w. length w = Suc n \<and> nfa_path (moves A) i w t}"
      by (intro CollectI exI[of _ "w @ [a]"]) (auto simp: nfa_path_snoc)
  next
    fix t
    assume "t \<in> {t. \<exists>w. length w = Suc n \<and> nfa_path (moves A) i w t}"
    then obtain v a where "length v = n" "nfa_path (moves A) i (v @ [a]) t"
      by (auto simp: length_Suc_conv_rev)
    then show "t \<in> (\<Union>q \<in> {q. \<exists>w. length w = n \<and> nfa_path (moves A) i w q}. {t. \<exists>a. (q, a, t) \<in> moves A})"
      unfolding nfa_path_snoc by blast
  qed
  finally show "fst ` set ?next = {t. \<exists>w. length w = Suc n \<and> nfa_path (moves A) i w t}" .
  fix t w
  assume "length (w :: zstring) = Suc n"
  then obtain v a where w: "w = v @ [a]" "length v = n" by (auto simp: length_Suc_conv_rev)
  have "representations (words_at ?next t) w =
      (\<Sum>(st, iws) \<leftarrow> cur. of_bool ((st, a, t) \<in> moves A) * representations iws v)"
    unfolding w levels_representations[OF assms(1,2)] by (simp add: words_at_def)
  also have "\<dots> = (\<Sum>st \<leftarrow> map fst cur. of_bool ((st, a, t) \<in> moves A \<and> nfa_path (moves A) i v st))"
  proof -
    have "representations iws v = of_bool (nfa_path (moves A) i v st)" if "(st, iws) \<in> set cur" for st iws
      using level_ok_nonempty(2)[OF ok that] reps[OF w(2), of st] by simp
    then show ?thesis by (auto simp: comp_def intro!: arg_cong[of _ _ sum_list] map_cong)
  qed
  also have "\<dots> = (\<Sum>st \<in> fst ` set cur. of_bool ((st, a, t) \<in> moves A \<and> nfa_path (moves A) i v st))"
    using sum_list_distinct_conv_sum_set[OF map_ok_distinct[OF map]] by (simp only: set_map)
  also have "\<dots> = of_bool (\<exists>st \<in> fst ` set cur. (st, a, t) \<in> moves A \<and> nfa_path (moves A) i v st)"
    using det_path_unique[OF assms(1), of i v] by (intro sum_of_bool_unique) auto
  also have "\<dots> = of_bool (nfa_path (moves A) i w t)"
    unfolding keys w nfa_path_snoc using w(2) by (intro arg_cong[of _ _ of_bool]) blast
  finally show "representations (words_at ?next t) w = of_bool (nfa_path (moves A) i w t)" .
qed

subsection \<open>Correctness\<close>

lemma state_post_Nil: "state_post A q = [] \<longleftrightarrow> (\<forall>a t. (q, a, t) \<notin> moves A)"
  by (auto simp: state_post_def symbol_posts_def filter_empty_conv)

lemma minimal_coreach:
  assumes "minimal A" and "q < num_of_states A"
  shows "\<exists>f w. f \<in> set (final A) \<and> nfa_path (moves A) q w f"
  using assms unfolding minimal_def trimmed_def by blast

text \<open>A minimal automaton has at most one state without transitions.\<close>

lemma minimal_sink:
  assumes "minimal A" and "p < num_of_states A" and "q < num_of_states A"
    and "state_post A p = []" and "state_post A q = []"
  shows "p = q"
proof -
  have "residual A s = {[]}" if s: "s < num_of_states A" "state_post A s = []" for s
  proof -
    have path: "nfa_path (moves A) s w t \<longleftrightarrow> w = [] \<and> t = s" for w t
      using s(2) by (cases w) (auto simp: state_post_Nil)
    obtain t where "t \<in> set (final A)" "\<exists>w. nfa_path (moves A) s w t"
      using minimal_coreach[OF assms(1) s(1)] by blast
    then show ?thesis by (auto simp: residual_def path)
  qed
  then show ?thesis using assms by (simp add: minimal_def)
qed

lemma minimal_accepts:
  assumes "minimal A" and "initial A = [i]"
  shows "nfa_lang A \<noteq> {}"
proof -
  have "i < num_of_states A" using assms by (auto simp: minimal_def wf_nfa_def)
  then show ?thesis using minimal_coreach[OF assms(1)] assms(2) by (fastforce simp: nfa_lang_def)
qed

lemma level_state:
  assumes "minimal A" and "initial A = [i]" and "level_ok A i n level" and "(st, iws) \<in> set level"
  obtains w where "length w = n" and "nfa_path (moves A) i w st" and "st < num_of_states A"
proof -
  have "st \<in> fst ` set level" using assms(4) by force
  then obtain w where w: "length w = n" "nfa_path (moves A) i w st" using assms(3) by (auto simp: level_ok_def)
  have "st < num_of_states A"
  proof (cases w rule: rev_cases)
    case Nil
    then show ?thesis using w assms(1,2) by (auto simp: minimal_def wf_nfa_def)
  next
    case (snoc v a)
    then obtain q where "(q, a, st) \<in> moves A" using w by (auto simp: nfa_path_snoc)
    then show ?thesis using assms(1) by (auto simp: minimal_def wf_nfa_def)
  qed
  then show ?thesis using that w by blast
qed

lemma level_state_has_moves:
  assumes "minimal A" and "initial A = [i]" and "\<forall>w \<in> nfa_lang A. length w = N"
    and "level_ok A i n level" and "(st, iws) \<in> set level"
  shows "state_post A st = [] \<longleftrightarrow> n = N"
proof -
  obtain w where w: "length w = n" "nfa_path (moves A) i w st" "st < num_of_states A"
    using level_state[OF assms(1,2,4,5)] by blast
  have rest: "length w + length v = N" if "nfa_path (moves A) st v f" "f \<in> set (final A)" for v f
  proof -
    have "w @ v \<in> nfa_lang A" using w(2) that assms(2) by (auto simp: nfa_lang_def nfa_path_append)
    then have "length (w @ v) = N" using assms(3) by blast
    then show ?thesis by simp
  qed
  obtain v f where v: "nfa_path (moves A) st v f" "f \<in> set (final A)"
    using minimal_coreach[OF assms(1) w(3)] by blast
  show ?thesis
  proof
    assume "state_post A st = []"
    then have "v = []" using v(1) by (cases v) (auto simp: state_post_Nil)
    then show "n = N" using rest[OF v] w(1) by simp
  next
    assume "n = N"
    show "state_post A st = []"
      unfolding state_post_Nil
    proof (intro allI notI)
      fix a t
      assume m: "(st, a, t) \<in> moves A"
      then have "t < num_of_states A" using assms(1) by (auto simp: minimal_def wf_nfa_def)
      then obtain u g where "nfa_path (moves A) t u g" "g \<in> set (final A)"
        using minimal_coreach[OF assms(1)] by blast
      then show False using rest[of "a # u" g] m w(1) \<open>n = N\<close> by auto
    qed
  qed
qed

lemma last_level_representations:
  assumes "minimal A" and "initial A = [i]" and "\<forall>w \<in> nfa_lang A. length w = N"
    and ok: "level_ok A i N level" and st: "(st, iws) \<in> set level"
  shows "representations iws w = of_bool (w \<in> nfa_lang A)"
proof (cases "length w = N")
  case True
  have stn: "st < num_of_states A" using level_state[OF assms(1,2,4,5)] by blast
  have sink: "state_post A st = []" using level_state_has_moves[OF assms] by simp
  have only: "f = st" if p: "nfa_path (moves A) i w f" for f
  proof -
    have "f \<in> fst ` set level" using ok True p by (auto simp: level_ok_def)
    then obtain iws' where f: "(f, iws') \<in> set level" by force
    have "f < num_of_states A" using level_state[OF assms(1,2) ok f] by blast
    moreover have "state_post A f = []" using level_state_has_moves[OF assms(1-3) ok f] by simp
    ultimately show ?thesis using minimal_sink[OF assms(1) _ stn _ sink] by blast
  qed
  have "st \<in> set (final A)"
  proof -
    obtain f v where "f \<in> set (final A)" "nfa_path (moves A) st v f"
      using minimal_coreach[OF assms(1) stn] by blast
    then show ?thesis using sink by (cases v) (auto simp: state_post_Nil)
  qed
  then have "w \<in> nfa_lang A \<longleftrightarrow> nfa_path (moves A) i w st"
    unfolding nfa_lang_def assms(2) list.set using only by blast
  moreover have "representations (words_at level st) w = of_bool (nfa_path (moves A) i w st)"
    using ok True by (simp add: level_ok_def)
  ultimately show ?thesis unfolding level_ok_nonempty(2)[OF ok st] by simp
next
  case False
  have "length iw = N" if "iw \<in> set iws" for iw
    using ok st that by (force simp: level_ok_def uniform_def)
  then have "\<not> interval_word_has w iw" if "iw \<in> set iws" for iw
    using that False by (auto simp: interval_word_has_def dest!: list_all2_lengthD)
  then have "representations iws w = 0" by (simp add: representations_def filter_empty_conv)
  moreover have "w \<notin> nfa_lang A" using False assms(3) by blast
  ultimately show ?thesis by simp
qed

lemma interval_levels_ends:
  assumes min: "minimal A" and i: "initial A = [i]" and len: "\<forall>w \<in> nfa_lang A. length w = N"
    and "level_ok A i n cur" and "n \<le> N"
  shows "\<exists>iws. interval_levels A cur = Some iws \<and> (\<forall>w. representations iws w = of_bool (w \<in> nfa_lang A))"
  using assms(4,5)
proof (induction "N - n" arbitrary: n cur)
  case (Suc k)
  have det: "deterministic A" and sorted: "sorted_wrt (<) (delta A)"
    using min by (simp_all add: minimal_def wf_nfa_def)
  have "state_post A st \<noteq> []" if "(st, iws) \<in> set cur" for st iws
    using level_state_has_moves[OF min i len Suc.prems(1) that] Suc.hyps(2) by simp
  then have "interval_levels A cur =
      interval_levels A (fold (\<lambda>(st, iws). fold (push_interval iws) (state_groups A st)) cur [])"
    by (subst interval_levels.simps, subst level_step_Inr) auto
  then show ?case
    using Suc.hyps(1)[OF _ level_ok_next[OF det sorted Suc.prems(1)]] Suc.hyps(2) Suc.prems(2) by simp
next
  case 0
  then have N: "n = N" by simp
  obtain w where w: "w \<in> nfa_lang A" using minimal_accepts[OF min i] by blast
  then obtain f where f: "f \<in> set (final A)" "nfa_path (moves A) i w f" using i by (auto simp: nfa_lang_def)
  then have "f \<in> fst ` set cur" using 0(2) len w N by (auto simp: level_ok_def)
  then obtain st iws rest where cur: "cur = (st, iws) # rest" by (cases cur) auto
  have post: "state_post A st' = []" if "(st', iws') \<in> set cur" for st' iws'
    using level_state_has_moves[OF min i len 0(2) that] N by simp
  have st: "(st, iws) \<in> set cur" using cur by simp
  have "interval_levels A cur = Some iws"
    using post[OF st] cur by (subst interval_levels.simps) simp
  moreover have "representations iws w = of_bool (w \<in> nfa_lang A)" for w
    by (rule last_level_representations[OF min i len 0(2)[unfolded N] st])
  ultimately show ?case by blast
qed

lemma level_ok_start: "level_ok A i 0 [(i, [[]])]"
  by (auto simp: level_ok_def map_ok_def words_at_def uniform_def interval_word_has_def)

text \<open>
  C26: For the minimal automaton of a language whose words all have the same length,
  \<open>get_interval_words\<close> ends, and every word of the language is represented by exactly one of
  the returned interval words while no other word is represented.
\<close>

theorem get_interval_words_correct:
  assumes "minimal A" and "\<forall>w \<in> nfa_lang A. length w = N"
  shows "\<exists>iws. get_interval_words A = Some iws \<and>
    (\<forall>w. representations iws w = (if w \<in> nfa_lang A then 1 else 0))"
proof -
  obtain i where i: "initial A = [i]"
    using assms(1) by (auto simp: minimal_def deterministic_def length_Suc_conv)
  from interval_levels_ends[OF assms(1) i assms(2) level_ok_start] show ?thesis
    by (simp add: get_interval_words_def i of_bool_def)
qed

text \<open>The automaton of the two-letter words \<open>a\<close>-\<open>c\<close> followed by \<open>x\<close>.\<close>

definition example_dfa :: nfa where
  "example_dfa = \<lparr>num_of_states = 3, initial = [0], final = [2],
     delta = [(0, 97, 1), (0, 98, 1), (0, 99, 1), (1, 120, 2)]\<rparr>"

lemma example_dfa_path:
  "nfa_path (moves example_dfa) 2 w t \<longleftrightarrow> w = [] \<and> t = 2"
  "nfa_path (moves example_dfa) (Suc 0) w t \<longleftrightarrow> w = [] \<and> t = Suc 0 \<or> w = [120] \<and> t = 2"
  "nfa_path (moves example_dfa) 0 w t \<longleftrightarrow>
     w = [] \<and> t = 0 \<or> (\<exists>a \<in> {97, 98, 99}. w = [a] \<and> t = Suc 0 \<or> w = [a, 120] \<and> t = 2)"
proof -
  show two: "nfa_path (moves example_dfa) 2 w t \<longleftrightarrow> w = [] \<and> t = 2" for w t
    by (cases w) (auto simp: example_dfa_def)
  show one: "nfa_path (moves example_dfa) (Suc 0) w t \<longleftrightarrow> w = [] \<and> t = Suc 0 \<or> w = [120] \<and> t = 2" for w t
  proof (cases w)
    case (Cons a v)
    then show ?thesis using two[of v t] by (auto simp: example_dfa_def)
  qed auto
  show "nfa_path (moves example_dfa) 0 w t \<longleftrightarrow>
     w = [] \<and> t = 0 \<or> (\<exists>a \<in> {97, 98, 99}. w = [a] \<and> t = Suc 0 \<or> w = [a, 120] \<and> t = 2)"
  proof (cases w)
    case (Cons a v)
    then show ?thesis using one[of v t] by (auto simp: example_dfa_def)
  qed auto
qed

lemma example_dfa_minimal: "minimal example_dfa"
proof -
  have res: "residual example_dfa 0 = {[97, 120], [98, 120], [99, 120]}"
    "residual example_dfa (Suc 0) = {[120]}" "residual example_dfa 2 = {[]}"
    unfolding residual_def example_dfa_path by (auto simp: example_dfa_def)
  have three: "q = 0 \<or> q = Suc 0 \<or> q = 2" if "q < 3" for q :: nat using that by auto
  have "p = q" if "p < 3" "q < 3" "residual example_dfa p = residual example_dfa q" for p q
    using three[OF that(1)] three[OF that(2)] that(3)
    by (elim disjE) (simp_all add: res doubleton_eq_iff)
  moreover have "trimmed example_dfa"
  proof -
    have "\<exists>w. nfa_path (moves example_dfa) 0 w q" "\<exists>w. nfa_path (moves example_dfa) q w 2" if "q < 3" for q
      using that example_dfa_path by (auto simp: numeral_3_eq_3 numeral_2_eq_2 less_Suc_eq)
    then show ?thesis by (simp add: trimmed_def example_dfa_def)
  qed
  moreover have "wf_nfa example_dfa" "deterministic example_dfa"
    by (auto simp: wf_nfa_def deterministic_def example_dfa_def)
  ultimately show ?thesis by (simp add: minimal_def example_dfa_def)
qed

theorem get_interval_words_correct_witness:
  "\<exists>iws. get_interval_words example_dfa = Some iws \<and> representations iws [98, 120] = 1 \<and>
     representations iws [98, 121] = 0"
proof -
  have lang: "nfa_lang example_dfa = {[97, 120], [98, 120], [99, 120]}"
    using example_dfa_path(3) by (auto simp: nfa_lang_def example_dfa_def)
  then show ?thesis
    using get_interval_words_correct[OF example_dfa_minimal, of 2] by auto
qed

end
