(* ===== verification/Aut_Assignment.thy ===== *)
theory Aut_Assignment
  imports Automata_Intervals Fresh_Vars
begin

text \<open>
  The class \<open>AutAssignment\<close> (\<open>aut_assignment.h\<close>, \<open>aut_assignment.cpp\<close>), the map from terms
  to the automata of their languages. The automata library is a parameter: a record of the
  operations that the class calls, together with the languages of its automata. The library
  is only used through its documented behaviour, which \<open>mata_laws\<close> states.
\<close>

section \<open>The automata library\<close>

record 'a mata =
  of_nfa :: "nfa \<Rightarrow> 'a"
  view :: "'a \<Rightarrow> nfa"
  create_empty_string_nfa :: 'a
  concatenate :: "'a \<Rightarrow> 'a \<Rightarrow> 'a"
  intersection :: "'a \<Rightarrow> 'a \<Rightarrow> 'a"
  reduce_nfa :: "'a \<Rightarrow> 'a"
  trim_nfa :: "'a \<Rightarrow> 'a"
  minimize :: "'a \<Rightarrow> 'a"
  complement :: "'a \<Rightarrow> nat list \<Rightarrow> 'a"
  nfa_equivalent :: "'a \<Rightarrow> 'a \<Rightarrow> bool"
  is_lang_empty :: "'a \<Rightarrow> bool"
  is_lang_eps :: "'a \<Rightarrow> bool"
  is_in_lang :: "'a \<Rightarrow> zstring \<Rightarrow> bool"
  is_acyclic :: "'a \<Rightarrow> bool"
  get_word_lengths :: "'a \<Rightarrow> (int \<times> int) list"
  tarjan_sccs :: "'a \<Rightarrow> nat list list"

definition mata_laws :: "('a \<Rightarrow> zstring set) \<Rightarrow> 'a mata \<Rightarrow> bool" where
  "mata_laws lang m \<longleftrightarrow>
     (\<forall>A. lang (of_nfa m A) = nfa_lang A) \<and>
     lang (create_empty_string_nfa m) = {[]} \<and>
     (\<forall>x y. lang (concatenate m x y) = {u @ v | u v. u \<in> lang x \<and> v \<in> lang y}) \<and>
     (\<forall>x y. lang (intersection m x y) = lang x \<inter> lang y) \<and>
     (\<forall>x. lang (reduce_nfa m x) = lang x \<and> lang (trim_nfa m x) = lang x \<and> lang (minimize m x) = lang x) \<and>
     (\<forall>x alph. lang (complement m x alph) = lists (set alph) - lang x) \<and>
     (\<forall>x y. nfa_equivalent m x y \<longleftrightarrow> lang x = lang y) \<and>
     (\<forall>x. is_lang_empty m x \<longleftrightarrow> lang x = {}) \<and>
     (\<forall>x. is_lang_eps m x \<longleftrightarrow> lang x = {[]}) \<and>
     (\<forall>x w. is_in_lang m x w \<longleftrightarrow> w \<in> lang x) \<and>
     (\<forall>x. is_acyclic m (trim_nfa m x) \<longleftrightarrow> finite (lang x))"

text \<open>
  What the code relies on when it walks over the states of an automaton, or over the pairs
  \<open>(c1, c2)\<close> that describe the lengths \<open>c1 + k * c2\<close> of its words.
\<close>

definition view_law :: "('a \<Rightarrow> zstring set) \<Rightarrow> 'a mata \<Rightarrow> 'a \<Rightarrow> bool" where
  "view_law lang m x \<longleftrightarrow> wf_nfa (view m x) \<and> nfa_lang (view m x) = lang x"

definition trim_law :: "('a \<Rightarrow> zstring set) \<Rightarrow> 'a mata \<Rightarrow> 'a \<Rightarrow> bool" where
  "trim_law lang m x \<longleftrightarrow> view_law lang m (trim_nfa m x) \<and> trimmed (view m (trim_nfa m x))"

definition lengths_law :: "('a \<Rightarrow> zstring set) \<Rightarrow> 'a mata \<Rightarrow> 'a \<Rightarrow> bool" where
  "lengths_law lang m x \<longleftrightarrow>
     (\<forall>(c1, c2) \<in> set (get_word_lengths m x). 0 \<le> c1 \<and> 0 \<le> c2) \<and>
     (\<forall>n. (\<exists>w \<in> lang x. int (length w) = n) \<longleftrightarrow>
        (\<exists>(c1, c2) \<in> set (get_word_lengths m x). \<exists>k \<ge> 0. n = c1 + k * c2))"

section \<open>The assignment\<close>

text \<open>
  The entries of the unordered map in the order of an iteration over it, and the alphabet.
  \<open>at\<close> raises an exception for a term without an entry; the assignment to \<open>operator[]\<close>
  overwrites an entry or adds one.
\<close>

record 'a aut_assignment =
  aut_entries :: "(basic_term \<times> 'a) list"
  aut_alphabet :: alphabet

definition aut_at :: "'a aut_assignment \<Rightarrow> basic_term \<Rightarrow> 'a res" where
  "aut_at aa t = (case map_of (aut_entries aa) t of None \<Rightarrow> Inl Out_Of_Range | Some x \<Rightarrow> Inr x)"

fun entry_put :: "basic_term \<Rightarrow> 'a \<Rightarrow> (basic_term \<times> 'a) list \<Rightarrow> (basic_term \<times> 'a) list" where
  "entry_put t x [] = [(t, x)]"
| "entry_put t x (e # es) = (if fst e = t then (t, x) # es else e # entry_put t x es)"

definition aut_put :: "basic_term \<Rightarrow> 'a \<Rightarrow> 'a aut_assignment \<Rightarrow> 'a aut_assignment" where
  "aut_put t x aa = aa\<lparr>aut_entries := entry_put t x (aut_entries aa)\<rparr>"

fun concat_automata :: "'a mata \<Rightarrow> 'a aut_assignment \<Rightarrow> 'a \<Rightarrow> concat \<Rightarrow> 'a res" where
  "concat_automata m aa ret [] = Inr ret"
| "concat_automata m aa ret (t # ts) =
     bind_res (aut_at aa t) (\<lambda>x. concat_automata m aa (concatenate m ret x) ts)"

definition get_automaton_concat :: "'a mata \<Rightarrow> 'a aut_assignment \<Rightarrow> concat \<Rightarrow> 'a res" where
  "get_automaton_concat m aa ts = concat_automata m aa (create_empty_string_nfa m) ts"

definition is_epsilon :: "'a mata \<Rightarrow> 'a aut_assignment \<Rightarrow> basic_term \<Rightarrow> bool res" where
  "is_epsilon m aa t = bind_res (aut_at aa t) (\<lambda>x. Inr (is_lang_eps m x))"

definition contains_epsilon :: "'a mata \<Rightarrow> 'a aut_assignment \<Rightarrow> basic_term \<Rightarrow> bool res" where
  "contains_epsilon m aa t = bind_res (aut_at aa t) (\<lambda>x. Inr (is_in_lang m x []))"

definition add_to_assignment :: "'a aut_assignment \<Rightarrow> 'a aut_assignment \<Rightarrow> 'a aut_assignment" where
  "add_to_assignment other aa =
     fold (\<lambda>(t, x) aa. if map_of (aut_entries aa) t = None then aut_put t x aa else aa)
       (aut_entries other) aa"

definition add_symbol_to_alphabet :: "nat \<Rightarrow> 'a aut_assignment \<Rightarrow> 'a aut_assignment" where
  "add_symbol_to_alphabet s aa = aa\<lparr>aut_alphabet := alphabet_insert s (aut_alphabet aa)\<rparr>"

definition is_co_finite :: "'a mata \<Rightarrow> 'a aut_assignment \<Rightarrow> basic_term \<Rightarrow> bool res" where
  "is_co_finite m aa t =
     bind_res (aut_at aa t) (\<lambda>x.
       let cmp = minimize m (complement m x (alph_symbols (aut_alphabet aa)))
       in Inr (is_acyclic m (trim_nfa m cmp)))"

definition aut_is_singleton :: "'a mata \<Rightarrow> 'a aut_assignment \<Rightarrow> basic_term \<Rightarrow> bool res" where
  "aut_is_singleton m aa t =
     bind_res (aut_at aa t) (\<lambda>x.
       let aut = view m (trim_nfa m x)
       in Inr (num_of_states aut = length (delta aut) + 1 \<and> length (initial aut) = 1 \<and>
               length (final aut) = 1))"

definition are_equivalent :: "'a mata \<Rightarrow> 'a aut_assignment \<Rightarrow> basic_term \<Rightarrow> 'a \<Rightarrow> bool res" where
  "are_equivalent m aa t aut = bind_res (aut_at aa t) (\<lambda>x. Inr (nfa_equivalent m x aut))"

definition are_disjoint :: "'a mata \<Rightarrow> 'a aut_assignment \<Rightarrow> basic_term \<Rightarrow> basic_term \<Rightarrow> bool res" where
  "are_disjoint m aa t1 t2 =
     bind_res (aut_at aa t1) (\<lambda>x. bind_res (aut_at aa t2) (\<lambda>y.
       Inr (is_lang_empty m (intersection m x y))))"

text \<open>The answer and the value of the output parameter, which is written in the third branch only.\<close>

definition fixed_length :: "'a mata \<Rightarrow> 'a aut_assignment \<Rightarrow> basic_term \<Rightarrow> (bool \<times> int option) res" where
  "fixed_length m aa t =
     bind_res (aut_at aa t) (\<lambda>x.
       let lengths = get_word_lengths m x
       in if length lengths \<noteq> 1 then Inr (False, None)
          else Inr (snd (hd lengths) = 0, Some (fst (hd lengths))))"

fun all_entries_sat :: "'a mata \<Rightarrow> (basic_term \<times> 'a) list \<Rightarrow> bool" where
  "all_entries_sat m [] = True"
| "all_entries_sat m (e # es) =
     (if length (final (view m (snd e))) = 0 then False
      else if is_lang_empty m (snd e) then False
      else all_entries_sat m es)"

definition is_sat :: "'a mata \<Rightarrow> 'a aut_assignment \<Rightarrow> bool" where
  "is_sat m aa = all_entries_sat m (aut_entries aa)"

definition reduce_all :: "'a mata \<Rightarrow> 'a aut_assignment \<Rightarrow> 'a aut_assignment" where
  "reduce_all m aa = aa\<lparr>aut_entries := map (\<lambda>(t, x). (t, reduce_nfa m x)) (aut_entries aa)\<rparr>"

definition get_keys :: "'a aut_assignment \<Rightarrow> basic_term set" where
  "get_keys aa = fst ` set (aut_entries aa)"

definition restrict_lang :: "'a mata \<Rightarrow> basic_term \<Rightarrow> 'a \<Rightarrow> 'a aut_assignment \<Rightarrow> 'a aut_assignment res" where
  "restrict_lang m t restr_nfa aa =
     bind_res (aut_at aa t) (\<lambda>x. Inr (aut_put t (intersection m restr_nfa x) aa))"

definition complement_aut :: "'a mata \<Rightarrow> 'a aut_assignment \<Rightarrow> 'a \<Rightarrow> 'a" where
  "complement_aut m aa aut = complement m aut (alph_symbols (aut_alphabet aa))"

definition complement_lang :: "'a mata \<Rightarrow> 'a aut_assignment \<Rightarrow> basic_term \<Rightarrow> 'a res" where
  "complement_lang m aa t = bind_res (aut_at aa t) (\<lambda>x. Inr (complement_aut m aa x))"

definition get_word_power_base ::
    "string_encoding \<Rightarrow> 'a mata \<Rightarrow> 'a aut_assignment \<Rightarrow> basic_term \<Rightarrow> zstring option res" where
  "get_word_power_base enc m aa t =
     bind_res (aut_at aa t) (\<lambda>x. Inr (word_power_base enc (view m (trim_nfa m (minimize m x)))))"

definition is_lang_word_power ::
    "string_encoding \<Rightarrow> 'a mata \<Rightarrow> 'a aut_assignment \<Rightarrow> basic_term \<Rightarrow> bool res" where
  "is_lang_word_power enc m aa t =
     bind_res (get_word_power_base enc m aa t) (\<lambda>r. Inr (r \<noteq> None))"

text \<open>
  The callback of \<open>is_flat\<close> for one strongly connected component: the transitions of a state
  that stay in the component, in the order of the two inner loops.
\<close>

fun visit_inner_moves :: "string_encoding \<Rightarrow> (nat \<times> nat) list \<Rightarrow> bool \<Rightarrow> bool" where
  "visit_inner_moves enc [] one_input_visited = True"
| "visit_inner_moves enc ((symbol, tgt) # ms) one_input_visited =
     (if is_dummy_symbol enc symbol then False
      else if one_input_visited then False
      else visit_inner_moves enc ms True)"

definition inner_moves :: "nfa \<Rightarrow> nat list \<Rightarrow> nat \<Rightarrow> (nat \<times> nat) list" where
  "inner_moves A scc st =
     concat (map (\<lambda>sp. map (\<lambda>tgt. (fst sp, tgt)) (filter (\<lambda>tgt. tgt \<in> set (snd sp)) scc)) (state_post A st))"

definition is_flat :: "string_encoding \<Rightarrow> 'a mata \<Rightarrow> 'a aut_assignment \<Rightarrow> basic_term \<Rightarrow> bool res" where
  "is_flat enc m aa t =
     bind_res (aut_at aa t) (\<lambda>x.
       Inr (list_all (\<lambda>scc. list_all (\<lambda>st. visit_inner_moves enc (inner_moves (view m x) scc st) False) scc)
              (tarjan_sccs m x)))"

subsection \<open>Length formulae\<close>

fun length_disjuncts ::
    "basic_term \<Rightarrow> (int \<times> int) list \<Rightarrow> len_node \<Rightarrow> fresh_ids \<Rightarrow> len_node \<times> fresh_ids" where
  "length_disjuncts var [] res ids = (res, ids)"
| "length_disjuncts var ((c1, c2) # aut_constr) res ids =
     (let (k, ids) = mk_noodler_var_fresh (zs ''k'') ids in
      if c2 \<noteq> 0 then
        length_disjuncts var aut_constr
          (len_op OR [res,
             len_op AND [len_op EQ [len_leaf var, len_op PLUS [len_num c1, len_op TIMES [len_leaf k, len_num c2]]],
                         len_op LEQ [len_num 0, len_leaf k]]]) ids
      else
        length_disjuncts var aut_constr (len_op OR [res, len_op EQ [len_leaf var, len_num c1]]) ids)"

definition nfa_get_lengths :: "'a mata \<Rightarrow> 'a \<Rightarrow> basic_term \<Rightarrow> fresh_ids \<Rightarrow> len_node \<times> fresh_ids" where
  "nfa_get_lengths m aut var ids =
     (let (res, ids) = length_disjuncts var (get_word_lengths m aut) (len_op FALSE []) ids
      in (len_op AND [res, len_op LEQ [len_num 0, len_leaf var]], ids))"

definition aut_get_lengths ::
    "'a mata \<Rightarrow> 'a aut_assignment \<Rightarrow> basic_term \<Rightarrow> fresh_ids \<Rightarrow> (len_node \<times> fresh_ids) res" where
  "aut_get_lengths m aa var ids = bind_res (aut_at aa var) (\<lambda>x. Inr (nfa_get_lengths m x var ids))"

subsection \<open>Replacing the dummy symbol\<close>

text \<open>
  One state: the transitions under the dummy symbol, which is the last one of the state, are
  removed and added again under every given symbol.
\<close>

definition replace_dummy_in_state ::
    "string_encoding \<Rightarrow> nat list \<Rightarrow> nat \<Rightarrow> bool \<times> nfa \<Rightarrow> bool \<times> nfa" where
  "replace_dummy_in_state enc symbols state r =
     (let posts = state_post (snd r) state in
      if posts = [] then r
      else if fst (last posts) = get_dummy_symbol enc then
        let targets = snd (last posts);
            A = (snd r)\<lparr>delta := filter (\<lambda>(s, a, t). \<not> (s = state \<and> a = get_dummy_symbol enc)) (delta (snd r))\<rparr>
        in (True, fold (\<lambda>symbol. fold (\<lambda>t. delta_add state symbol t) targets) symbols A)
      else r)"

definition replace_dummy_in_nfa :: "string_encoding \<Rightarrow> nat list \<Rightarrow> nfa \<Rightarrow> bool \<times> nfa" where
  "replace_dummy_in_nfa enc symbols A =
     fold (replace_dummy_in_state enc symbols) [0..<num_of_states A] (False, A)"

definition replace_dummy_with_symbols ::
    "string_encoding \<Rightarrow> 'a mata \<Rightarrow> nat list \<Rightarrow> 'a aut_assignment \<Rightarrow> bool \<times> 'a aut_assignment" where
  "replace_dummy_with_symbols enc m symbols aa =
     (let replaced = map (\<lambda>(t, x). (t, replace_dummy_in_nfa enc symbols (view m x))) (aut_entries aa)
      in (list_ex (\<lambda>(t, r). fst r) replaced,
          \<lparr>aut_entries = map (\<lambda>(t, r). (t, of_nfa m (snd r))) replaced,
           aut_alphabet = alphabet_insert_all symbols (alphabet_erase (get_dummy_symbol enc) (aut_alphabet aa))\<rparr>))"

definition replace_dummy_with_new_symbol ::
    "string_encoding \<Rightarrow> 'a mata \<Rightarrow> 'a aut_assignment \<Rightarrow> (nat option \<times> 'a aut_assignment) res" where
  "replace_dummy_with_new_symbol enc m aa =
     bind_res (get_unused_symbol enc (aut_alphabet aa)) (\<lambda>new_symbol.
       let (replaced, aa) = replace_dummy_with_symbols enc m [new_symbol] aa
       in Inr (if replaced then Some new_symbol else None, aa))"

section \<open>Languages of the terms\<close>

definition term_lang :: "('a \<Rightarrow> zstring set) \<Rightarrow> 'a aut_assignment \<Rightarrow> basic_term \<Rightarrow> zstring set" where
  "term_lang lang aa t = (case map_of (aut_entries aa) t of None \<Rightarrow> {} | Some x \<Rightarrow> lang x)"

fun concat_lang :: "(basic_term \<Rightarrow> zstring set) \<Rightarrow> concat \<Rightarrow> zstring set" where
  "concat_lang L [] = {[]}"
| "concat_lang L (t # ts) = {u @ v | u v. u \<in> L t \<and> v \<in> concat_lang L ts}"

lemma map_of_entry_put [simp]: "map_of (entry_put t x es) = (map_of es)(t \<mapsto> x)"
  by (induction t x es rule: entry_put.induct) auto

lemma keys_entry_put [simp]: "fst ` set (entry_put t x es) = insert t (fst ` set es)"
  by (induction t x es rule: entry_put.induct) auto

lemma distinct_entry_put:
  "distinct (map fst es) \<Longrightarrow> distinct (map fst (entry_put t x es))"
proof (induction t x es rule: entry_put.induct)
  case (2 t x e es)
  then show ?case using keys_entry_put[of t x es] by (cases e) auto
qed simp

lemma term_lang_put [simp]:
  "term_lang lang (aut_put t x aa) = (term_lang lang aa)(t := lang x)"
  by (auto simp: term_lang_def aut_put_def fun_eq_iff)

lemma aut_at_Inr: "aut_at aa t = Inr x \<longleftrightarrow> map_of (aut_entries aa) t = Some x"
  by (auto simp: aut_at_def split: option.splits)

lemma aut_at_cases:
  obtains (missing) "t \<notin> get_keys aa" and "aut_at aa t = Inl Out_Of_Range"
  | (found) x where "t \<in> get_keys aa" and "aut_at aa t = Inr x"
proof (cases "map_of (aut_entries aa) t")
  case None
  then have "aut_at aa t = Inl Out_Of_Range" by (simp add: aut_at_def)
  moreover have "t \<notin> get_keys aa" using None by (simp add: get_keys_def map_of_eq_None_iff)
  ultimately show ?thesis using missing by blast
next
  case (Some x)
  then have "t \<in> get_keys aa" unfolding get_keys_def by (metis map_of_eq_None_iff option.distinct(1))
  then show ?thesis using found Some by (simp add: aut_at_def)
qed

lemma term_lang_at: "aut_at aa t = Inr x \<Longrightarrow> term_lang lang aa t = lang x"
  by (simp add: term_lang_def aut_at_Inr)

lemma mata_lawsD:
  assumes "mata_laws lang m"
  shows "lang (of_nfa m A) = nfa_lang A" "lang (create_empty_string_nfa m) = {[]}"
    "lang (concatenate m x y) = {u @ v | u v. u \<in> lang x \<and> v \<in> lang y}"
    "lang (intersection m x y) = lang x \<inter> lang y" "lang (reduce_nfa m x) = lang x"
    "lang (trim_nfa m x) = lang x" "lang (minimize m x) = lang x"
    "lang (complement m x alph) = lists (set alph) - lang x" "nfa_equivalent m x y \<longleftrightarrow> lang x = lang y"
    "is_lang_empty m x \<longleftrightarrow> lang x = {}" "is_lang_eps m x \<longleftrightarrow> lang x = {[]}"
    "is_in_lang m x w \<longleftrightarrow> w \<in> lang x" "is_acyclic m (trim_nfa m x) \<longleftrightarrow> finite (lang x)"
  using assms unfolding mata_laws_def by simp_all

lemma concat_automata_lang:
  assumes "mata_laws lang m"
  shows "if set ts \<subseteq> get_keys aa
    then \<exists>x. concat_automata m aa ret ts = Inr x \<and>
      lang x = {u @ v | u v. u \<in> lang ret \<and> v \<in> concat_lang (term_lang lang aa) ts}
    else concat_automata m aa ret ts = Inl Out_Of_Range"
proof (induction ts arbitrary: ret)
  case (Cons t ts)
  show ?case
  proof (cases rule: aut_at_cases[of t aa])
    case (found x)
    have "{u @ v | u v. u \<in> lang (concatenate m ret x) \<and> v \<in> concat_lang (term_lang lang aa) ts} =
        {u @ v | u v. u \<in> lang ret \<and> v \<in> concat_lang (term_lang lang aa) (t # ts)}"
      unfolding mata_lawsD(3)[OF assms] concat_lang.simps term_lang_at[OF found(2)]
      by (auto simp: append_assoc) (metis append_assoc)+
    then show ?thesis using Cons[of "concatenate m ret x"] found by auto
  qed simp
qed simp

text \<open>
  C24: The automaton of a concatenation accepts exactly the concatenations of words of its
  terms; the construction raises an exception exactly if a term has no automaton.
\<close>

theorem get_automaton_concat_correct:
  assumes "mata_laws lang m"
  shows "if set ts \<subseteq> get_keys aa
    then \<exists>x. get_automaton_concat m aa ts = Inr x \<and> lang x = concat_lang (term_lang lang aa) ts
    else get_automaton_concat m aa ts = Inl Out_Of_Range"
  using concat_automata_lang[OF assms, of ts aa "create_empty_string_nfa m"]
  by (cases "set ts \<subseteq> get_keys aa") (simp_all add: get_automaton_concat_def mata_lawsD(2)[OF assms])

text \<open>The library on languages themselves, for the examples.\<close>

definition set_mata :: "zstring set mata" where
  "set_mata = \<lparr>of_nfa = nfa_lang,
     view = (\<lambda>x. if x = {[97]} then create_word_nfa [97] else new_nfa 0 [] []),
     create_empty_string_nfa = {[]},
     concatenate = (\<lambda>x y. {u @ v | u v. u \<in> x \<and> v \<in> y}), intersection = (\<inter>),
     reduce_nfa = id, trim_nfa = id, minimize = id, complement = (\<lambda>x alph. lists (set alph) - x),
     nfa_equivalent = (=), is_lang_empty = (\<lambda>x. x = {}), is_lang_eps = (\<lambda>x. x = {[]}),
     is_in_lang = (\<lambda>x w. w \<in> x), is_acyclic = finite,
     get_word_lengths = (\<lambda>x. if x = {[97]} then [(1, 0)] else []), tarjan_sccs = (\<lambda>x. [])\<rparr>"

lemma set_mata_laws: "mata_laws id set_mata"
  by (simp add: mata_laws_def set_mata_def)

theorem get_automaton_concat_correct_witness:
  "\<exists>x. get_automaton_concat set_mata
      \<lparr>aut_entries = [(BasicTerm Variable [120], {[97]})], aut_alphabet = alphabet_of_set {97}\<rparr>
      [BasicTerm Variable [120], BasicTerm Variable [120]] = Inr x \<and> x = {[97, 97]}"
  using get_automaton_concat_correct[OF set_mata_laws, of "[BasicTerm Variable [120], BasicTerm Variable [120]]"
      "\<lparr>aut_entries = [(BasicTerm Variable [120], {[97]})], aut_alphabet = alphabet_of_set {97}\<rparr>"]
  by (simp add: get_keys_def term_lang_def)

lemma all_entries_sat_iff:
  assumes "mata_laws lang m" and "\<forall>(t, x) \<in> set es. view_law lang m x"
  shows "all_entries_sat m es \<longleftrightarrow> (\<forall>(t, x) \<in> set es. lang x \<noteq> {})"
  using assms(2)
proof (induction es)
  case (Cons e es)
  have "lang (snd e) = {}" if "final (view m (snd e)) = []"
    using Cons.prems that by (auto simp: view_law_def nfa_lang_def)
  then show ?case using Cons mata_lawsD(10)[OF assms(1)] by auto
qed simp

lemma fixed_length_lang:
  assumes "lengths_law lang m x" and "get_word_lengths m x = [(n, 0)]"
  shows "lang x \<noteq> {} \<and> (\<forall>w \<in> lang x. int (length w) = n)"
proof -
  have law: "(\<exists>w \<in> lang x. int (length w) = k) \<longleftrightarrow> (\<exists>j \<ge> (0 :: int). k = n)" for k
    using assms by (simp add: lengths_law_def)
  show ?thesis using law[of n] law by blast
qed

text \<open>
  C30: The queries on a term with an automaton answer by its language: whether it is the empty
  word only, contains the empty word, equals another language, is disjoint from another one,
  or misses only finitely many words over the alphabet. A single word is only reported for a
  language of one word, a fixed length only if all words have the reported length, and a base
  word only if the language consists of its powers. All automata are reported non-empty
  exactly if all languages are.
\<close>

theorem aut_queries_correct:
  assumes laws: "mata_laws lang m" and t: "aut_at aa t = Inr x" and u: "aut_at aa u = Inr y"
    and views: "\<forall>(t, x) \<in> set (aut_entries aa). view_law lang m x \<and> trim_law lang m x \<and> lengths_law lang m x"
    and min: "view_law lang m (trim_nfa m (minimize m x))"
  shows "is_epsilon m aa t = Inr (term_lang lang aa t = {[]}) \<and>
    contains_epsilon m aa t = Inr ([] \<in> term_lang lang aa t) \<and>
    are_equivalent m aa t z = Inr (term_lang lang aa t = lang z) \<and>
    are_disjoint m aa t u = Inr (term_lang lang aa t \<inter> term_lang lang aa u = {}) \<and>
    is_co_finite m aa t = Inr (finite (lists (set (alph_symbols (aut_alphabet aa))) - term_lang lang aa t)) \<and>
    (aut_is_singleton m aa t = Inr True \<longrightarrow> (\<exists>w. term_lang lang aa t = {w})) \<and>
    (\<forall>n. fixed_length m aa t = Inr (True, Some n) \<longrightarrow>
       term_lang lang aa t \<noteq> {} \<and> (\<forall>w \<in> term_lang lang aa t. int (length w) = n)) \<and>
    (\<forall>w. get_word_power_base enc m aa t = Inr (Some w) \<longrightarrow> term_lang lang aa t = powers w) \<and>
    is_sat m aa = (\<forall>t x. (t, x) \<in> set (aut_entries aa) \<longrightarrow> lang x \<noteq> {})"
proof -
  note L = mata_lawsD[OF laws] term_lang_at[OF t] term_lang_at[OF u]
  have laws_t: "trim_law lang m x" "lengths_law lang m x"
    using views t by (auto simp: aut_at_Inr dest!: map_of_SomeD)
  have "\<exists>w. lang x = {w}" if "aut_is_singleton m aa t = Inr True"
    using singleton_structure[of "view m (trim_nfa m x)"] that laws_t(1) t L
    by (simp add: aut_is_singleton_def trim_law_def view_law_def Let_def)
  moreover have "lang x \<noteq> {} \<and> (\<forall>w \<in> lang x. int (length w) = n)" if "fixed_length m aa t = Inr (True, Some n)" for n
  proof (rule fixed_length_lang[OF laws_t(2)])
    show "get_word_lengths m x = [(n, 0)]"
      using that t by (cases "get_word_lengths m x") (auto simp: fixed_length_def Let_def split: if_splits)
  qed
  moreover have "lang x = powers w" if "get_word_power_base enc m aa t = Inr (Some w)" for w
    using word_power_base_sound[of enc "view m (trim_nfa m (minimize m x))" w] that min t L
    by (simp add: get_word_power_base_def view_law_def)
  moreover have "is_sat m aa = (\<forall>t x. (t, x) \<in> set (aut_entries aa) \<longrightarrow> lang x \<noteq> {})"
  proof -
    have "\<forall>(t, x) \<in> set (aut_entries aa). view_law lang m x" using views by blast
    from all_entries_sat_iff[OF laws this] show ?thesis unfolding is_sat_def by blast
  qed
  ultimately show ?thesis
    using t u by (auto simp: L is_epsilon_def contains_epsilon_def are_equivalent_def are_disjoint_def
        is_co_finite_def Let_def)
qed

theorem aut_queries_correct_witness:
  "is_epsilon set_mata
     \<lparr>aut_entries = [(BasicTerm Variable [120], {[97]})], aut_alphabet = alphabet_of_set {97}\<rparr>
     (BasicTerm Variable [120]) = Inr False"
proof -
  let ?aa = "\<lparr>aut_entries = [(BasicTerm Variable [120], {[97]})], aut_alphabet = alphabet_of_set {97}\<rparr>"
  let ?x = "BasicTerm Variable [120]"
  note dfa = create_word_nfa_dfa[of "[97]", unfolded word_dfa_def]
  have at: "aut_at ?aa ?x = Inr {[97]}" by (simp add: aut_at_def)
  have view: "view_law id set_mata {[97]}" using dfa by (simp add: view_law_def set_mata_def)
  have trim: "trim_law id set_mata {[97]}" using dfa view by (simp add: trim_law_def set_mata_def)
  have len: "lengths_law id set_mata {[97]}" by (auto simp: lengths_law_def set_mata_def)
  have min: "view_law id set_mata (trim_nfa set_mata (minimize set_mata {[97]}))"
    using view by (simp add: set_mata_def)
  have views: "\<forall>(t, x) \<in> set (aut_entries ?aa).
      view_law id set_mata x \<and> trim_law id set_mata x \<and> lengths_law id set_mata x"
    using view trim len by simp
  show ?thesis
    using aut_queries_correct[OF set_mata_laws at at views min] by (simp add: term_lang_def)
qed

section \<open>Length formulae\<close>

lemma length_disjuncts_holds:
  assumes "get_type var = Variable \<or> get_type var = RealVariable"
  shows "len_bool \<nu> (fst (length_disjuncts var cs res ids)) \<Longrightarrow>
    len_bool \<nu> res \<or> (\<exists>(c1, c2) \<in> set cs. \<exists>k \<ge> 0. \<nu> var = c1 + k * c2)"
proof (induction cs arbitrary: res ids)
  case (Cons c cs)
  obtain c1 c2 where c: "c = (c1, c2)" by (cases c)
  obtain k ids' where k: "mk_noodler_var_fresh (zs ''k'') ids = (k, ids')"
    by (cases "mk_noodler_var_fresh (zs ''k'') ids")
  have kv: "get_type k = Variable" using fresh_var_is_variable[of "zs ''k''" ids] k by simp
  let ?res = "if c2 \<noteq> 0
    then len_op OR [res,
           len_op AND [len_op EQ [len_leaf var, len_op PLUS [len_num c1, len_op TIMES [len_leaf k, len_num c2]]],
                       len_op LEQ [len_num 0, len_leaf k]]]
    else len_op OR [res, len_op EQ [len_leaf var, len_num c1]]"
  have "len_bool \<nu> ?res \<or> (\<exists>(c1, c2) \<in> set cs. \<exists>k \<ge> 0. \<nu> var = c1 + k * c2)"
    using Cons k by (cases "c2 = 0") (auto simp: c)
  moreover have "len_bool \<nu> res \<or> (\<exists>k \<ge> 0. \<nu> var = c1 + k * c2)" if "len_bool \<nu> ?res"
    using that assms kv by (cases "c2 = 0") (auto simp: len_op_def[of OR] len_op_def[of AND])
  ultimately show ?case unfolding c by auto
qed simp

lemma length_disjuncts_mono:
  assumes "len_bool \<nu> res"
  shows "len_bool \<nu> (fst (length_disjuncts var cs res ids))"
  using assms
proof (induction cs arbitrary: res ids)
  case (Cons c cs)
  then show ?case by (cases c) (auto simp: len_op_def[of OR] split: prod.split)
qed simp

lemma length_disjuncts_hit:
  assumes "get_type var = Variable \<or> get_type var = RealVariable"
    and fresh: "\<forall>ids. fst (mk_noodler_var_fresh (zs ''k'') ids) \<noteq> var"
    and "(c1, c2) \<in> set cs" and "0 \<le> k"
  shows "len_bool ((\<lambda>_. k)(var := c1 + k * c2)) (fst (length_disjuncts var cs res ids))"
  using assms(3)
proof (induction cs arbitrary: res ids)
  case (Cons c cs)
  let ?\<nu> = "(\<lambda>_. k)(var := c1 + k * c2)"
  obtain kv ids' where kv: "mk_noodler_var_fresh (zs ''k'') ids = (kv, ids')"
    by (cases "mk_noodler_var_fresh (zs ''k'') ids")
  have kt: "get_type kv = Variable" "kv \<noteq> var"
    using fresh_var_is_variable[of "zs ''k''" ids] kv fresh[rule_format, of ids] by auto
  show ?case
  proof (cases "c = (c1, c2)")
    case True
    then show ?thesis using kv kt assms(1,4)
      by (auto intro!: length_disjuncts_mono simp: len_op_def[of OR] len_op_def[of AND])
  next
    case False
    then have "(c1, c2) \<in> set cs" using Cons.prems by auto
    then show ?thesis using Cons.IH kv by (cases c) simp
  qed
qed simp

text \<open>
  C25: The length formula of an automaton describes exactly the lengths of its words: the
  variable can be given a value such that the formula holds, for some values of the fresh
  multipliers, exactly if this value is the length of a word of the language.
\<close>

theorem aut_get_lengths_exact:
  assumes "aut_at aa var = Inr x" and "lengths_law lang m x" and "is_variable var"
    and "\<forall>ids. fst (mk_noodler_var_fresh (zs ''k'') ids) \<noteq> var"
  shows "\<exists>\<phi> ids'. aut_get_lengths m aa var ids = Inr (\<phi>, ids') \<and>
    (\<forall>n. (\<exists>\<nu>. \<nu> var = n \<and> len_bool \<nu> \<phi>) \<longleftrightarrow> (\<exists>w \<in> term_lang lang aa var. int (length w) = n))"
proof -
  let ?cs = "get_word_lengths m x" and ?\<phi> = "fst (nfa_get_lengths m x var ids)"
  let ?d = "fst (length_disjuncts var (get_word_lengths m x) (len_op FALSE []) ids)"
  have var: "get_type var = Variable \<or> get_type var = RealVariable"
    using assms(3) by (simp add: is_variable_def)
  have phi: "len_bool \<nu> ?\<phi> \<longleftrightarrow> len_bool \<nu> ?d \<and> 0 \<le> \<nu> var" for \<nu>
    using var by (simp add: nfa_get_lengths_def len_op_def[of AND] split: prod.split)
  have law: "(\<exists>w \<in> lang x. int (length w) = n) \<longleftrightarrow> (\<exists>(c1, c2) \<in> set ?cs. \<exists>k \<ge> 0. n = c1 + k * c2)"
    and pos: "\<forall>(c1, c2) \<in> set ?cs. 0 \<le> c1 \<and> 0 \<le> c2" for n
    using assms(2) by (simp_all add: lengths_law_def)
  have "(\<exists>\<nu>. \<nu> var = n \<and> len_bool \<nu> ?\<phi>) \<longleftrightarrow> (\<exists>w \<in> lang x. int (length w) = n)" for n
  proof
    assume "\<exists>\<nu>. \<nu> var = n \<and> len_bool \<nu> ?\<phi>"
    then obtain \<nu> where "\<nu> var = n" "len_bool \<nu> ?d" using phi by auto
    then show "\<exists>w \<in> lang x. int (length w) = n"
      using length_disjuncts_holds[OF var, of \<nu> ?cs "len_op FALSE []" ids]
      unfolding law by (simp add: len_op_def)
  next
    assume "\<exists>w \<in> lang x. int (length w) = n"
    then obtain c1 c2 k where c: "(c1, c2) \<in> set ?cs" "0 \<le> k" "n = c1 + k * c2" unfolding law by auto
    then have "0 \<le> n" using pos by auto
    then show "\<exists>\<nu>. \<nu> var = n \<and> len_bool \<nu> ?\<phi>"
      using length_disjuncts_hit[OF var assms(4) c(1,2), of "len_op FALSE []" ids] c(3) phi
      by (intro exI[of _ "(\<lambda>_. k)(var := c1 + k * c2)"]) simp
  qed
  then show ?thesis
    using assms(1) by (intro exI[of _ ?\<phi>] exI[of _ "snd (nfa_get_lengths m x var ids)"])
      (simp add: aut_get_lengths_def term_lang_at)
qed

theorem aut_get_lengths_exact_witness:
  "\<exists>\<phi> ids'. aut_get_lengths set_mata
      \<lparr>aut_entries = [(BasicTerm Variable [120], {[97]})], aut_alphabet = alphabet_of_set {97}\<rparr>
      (BasicTerm Variable [120]) [] = Inr (\<phi>, ids') \<and>
     (\<exists>\<nu>. \<nu> (BasicTerm Variable [120]) = 1 \<and> len_bool \<nu> \<phi>)"
proof -
  let ?aa = "\<lparr>aut_entries = [(BasicTerm Variable [120], {[97]})], aut_alphabet = alphabet_of_set {97}\<rparr>"
  have "aut_at ?aa (BasicTerm Variable [120]) = Inr {[97]}" by (simp add: aut_at_def)
  moreover have "lengths_law id set_mata {[97]}" by (auto simp: lengths_law_def set_mata_def)
  moreover have "\<forall>ids. fst (mk_noodler_var_fresh (zs ''k'') ids) \<noteq> BasicTerm Variable [120]"
    by (simp add: mk_noodler_var_fresh_def mk_internal_noodler_var_def zs_def)
  ultimately show ?thesis
    using aut_get_lengths_exact[of ?aa "BasicTerm Variable [120]" "{[97]}" id set_mata "[]"]
    by (auto simp: term_lang_def)
qed

section \<open>Replacing the dummy symbol\<close>

lemma last_greatest: "sorted_wrt (<) xs \<Longrightarrow> x \<in> set xs \<Longrightarrow> \<forall>y \<in> set xs. y \<le> (x :: nat) \<Longrightarrow> last xs = x"
proof (induction xs rule: rev_induct)
  case (snoc y xs)
  show ?case
  proof (rule ccontr)
    assume "last (xs @ [y]) \<noteq> x"
    then have "x \<in> set xs" using snoc.prems(2) by simp
    then have "x < y" using snoc.prems(1) by (simp add: sorted_wrt_append)
    then show False using snoc.prems(3) by simp
  qed
qed simp

lemma last_post_dummy:
  assumes "sorted_wrt (<) (delta A)" and "\<forall>a t. (q, a, t) \<in> moves A \<longrightarrow> a \<le> d"
  shows "state_post A q \<noteq> [] \<and> fst (last (state_post A q)) = d \<longleftrightarrow> (\<exists>t. (q, d, t) \<in> moves A)"
proof
  assume l: "state_post A q \<noteq> [] \<and> fst (last (state_post A q)) = d"
  then have "last (state_post A q) \<in> set (state_post A q)" by simp
  then have "snd (last (state_post A q)) \<noteq> []" using state_post_iff by (metis prod.collapse)
  then have "hd (snd (last (state_post A q))) \<in> set (snd (last (state_post A q)))" by simp
  then show "\<exists>t. (q, d, t) \<in> moves A"
    using state_post_target[of "last (state_post A q)" A q] l by auto
next
  assume "\<exists>t. (q, d, t) \<in> moves A"
  then have d: "d \<in> set (map fst (state_post A q))"
    by (force simp: state_post_def symbol_posts_def)
  have "\<forall>b \<in> set (map fst (state_post A q)). b \<le> d"
    using assms(2) by (auto simp: state_post_def symbol_posts_def)
  then have "last (map fst (state_post A q)) = d"
    using last_greatest[OF state_post_symbols[OF assms(1)] d] by blast
  moreover have "state_post A q \<noteq> []" using d by auto
  ultimately show "state_post A q \<noteq> [] \<and> fst (last (state_post A q)) = d" by (simp add: last_map)
qed

lemma last_post_targets:
  assumes "state_post A q \<noteq> []" and "fst (last (state_post A q)) = d"
  shows "set (snd (last (state_post A q))) = {t. (q, d, t) \<in> moves A}"
proof -
  have "(d, snd (last (state_post A q))) \<in> set (state_post A q)"
    using assms by (metis last_in_set prod.collapse)
  then have "snd (last (state_post A q)) = map (snd \<circ> snd) (filter (\<lambda>x. fst x = q \<and> fst (snd x) = d) (delta A))"
    unfolding state_post_iff by blast
  then show ?thesis by force
qed

definition replaced_moves :: "nat \<Rightarrow> nat set \<Rightarrow> nat set \<Rightarrow> (nat \<times> nat \<times> nat) set \<Rightarrow> (nat \<times> nat \<times> nat) set" where
  "replaced_moves d S Q E =
     {x \<in> E. \<not> (fst x \<in> Q \<and> fst (snd x) = d)} \<union> {(q, a, t) | q a t. q \<in> Q \<and> a \<in> S \<and> (q, d, t) \<in> E}"

lemma moves_fold_targets:
  "moves (fold (\<lambda>symbol. fold (\<lambda>t. delta_add q symbol t) targets) symbols A) =
     {(q, a, t) | a t. a \<in> set symbols \<and> t \<in> set targets} \<union> moves A"
proof -
  have "moves (fold (\<lambda>t. delta_add q a t) targets A) = {(q, a, t) | t. t \<in> set targets} \<union> moves A" for a A
    by (subst moves_fold[where T = "\<lambda>t. {(q, a, t)}"]) (auto simp: nfa_build)
  then show ?thesis
    by (subst moves_fold[where T = "\<lambda>a. {(q, a, t) | t. t \<in> set targets}"]) auto
qed

lemma fold_targets_keep:
  "initial (fold (\<lambda>symbol. fold (\<lambda>t. delta_add q symbol t) targets) symbols A) = initial A"
  "final (fold (\<lambda>symbol. fold (\<lambda>t. delta_add q symbol t) targets) symbols A) = final A"
  "sorted_wrt (<) (delta A) \<Longrightarrow>
     sorted_wrt (<) (delta (fold (\<lambda>symbol. fold (\<lambda>t. delta_add q symbol t) targets) symbols A))"
proof -
  have inner: "initial (fold (\<lambda>t. delta_add q a t) targets A) = initial A"
    "final (fold (\<lambda>t. delta_add q a t) targets A) = final A"
    "sorted_wrt (<) (delta A) \<Longrightarrow> sorted_wrt (<) (delta (fold (\<lambda>t. delta_add q a t) targets A))" for a A
    by (induction targets arbitrary: A) (simp_all add: delta_add_def)
  show "initial (fold (\<lambda>symbol. fold (\<lambda>t. delta_add q symbol t) targets) symbols A) = initial A"
    "final (fold (\<lambda>symbol. fold (\<lambda>t. delta_add q symbol t) targets) symbols A) = final A"
    "sorted_wrt (<) (delta A) \<Longrightarrow>
       sorted_wrt (<) (delta (fold (\<lambda>symbol. fold (\<lambda>t. delta_add q symbol t) targets) symbols A))"
    by (induction symbols arbitrary: A) (simp_all add: inner)
qed

lemma replace_dummy_in_state_moves:
  assumes "sorted_wrt (<) (delta A)" and "\<forall>a t. (q, a, t) \<in> moves A \<longrightarrow> a \<le> get_dummy_symbol enc"
    and r: "replace_dummy_in_state enc symbols q (b, A) = (b', A')"
  shows "moves A' = replaced_moves (get_dummy_symbol enc) (set symbols) {q} (moves A)"
    and "b' \<longleftrightarrow> b \<or> (\<exists>t. (q, get_dummy_symbol enc, t) \<in> moves A)"
    and "sorted_wrt (<) (delta A')" and "initial A' = initial A" and "final A' = final A"
proof -
  let ?d = "get_dummy_symbol enc"
  have "moves A' = replaced_moves ?d (set symbols) {q} (moves A) \<and>
      (b' \<longleftrightarrow> b \<or> (\<exists>t. (q, ?d, t) \<in> moves A)) \<and>
      sorted_wrt (<) (delta A') \<and> initial A' = initial A \<and> final A' = final A"
  proof (cases "state_post A q \<noteq> [] \<and> fst (last (state_post A q)) = ?d")
    case True
    then have dummy: "\<exists>t. (q, ?d, t) \<in> moves A" using last_post_dummy[OF assms(1,2)] by simp
    let ?B = "A\<lparr>delta := filter (\<lambda>(s, a, t). \<not> (s = q \<and> a = ?d)) (delta A)\<rparr>"
    have A': "A' = fold (\<lambda>symbol. fold (\<lambda>t. delta_add q symbol t) (snd (last (state_post A q)))) symbols ?B"
      and b': "b' = True"
      using r True by (auto simp: replace_dummy_in_state_def Let_def)
    have "sorted_wrt (<) (delta ?B)" using assms(1) by (simp add: sorted_wrt_filter)
    then have "sorted_wrt (<) (delta A')" unfolding A' by (rule fold_targets_keep(3))
    moreover have "initial A' = initial A" "final A' = final A" unfolding A' fold_targets_keep by simp_all
    moreover have "moves A' = replaced_moves ?d (set symbols) {q} (moves A)"
      unfolding A' moves_fold_targets last_post_targets[OF conjunct1[OF True] conjunct2[OF True]]
      by (auto simp: replaced_moves_def)
    ultimately show ?thesis using b' dummy by simp
  next
    case False
    then have none: "\<nexists>t. (q, ?d, t) \<in> moves A" using last_post_dummy[OF assms(1,2)] by simp
    then have "moves A = replaced_moves ?d (set symbols) {q} (moves A)"
      by (auto simp: replaced_moves_def)
    moreover have "replace_dummy_in_state enc symbols q (b, A) = (b, A)"
      using False unfolding replace_dummy_in_state_def snd_conv Let_def by auto
    then have "b' = b" "A' = A" using r by simp_all
    ultimately show ?thesis using none assms(1) by simp
  qed
  then show "moves A' = replaced_moves ?d (set symbols) {q} (moves A)"
    "b' \<longleftrightarrow> b \<or> (\<exists>t. (q, ?d, t) \<in> moves A)"
    "sorted_wrt (<) (delta A')" "initial A' = initial A" "final A' = final A" by blast+
qed

lemma replaced_moves_step:
  assumes "q \<notin> Q"
  shows "replaced_moves d S Q (replaced_moves d S {q} E) = replaced_moves d S (insert q Q) E"
  using assms by (auto simp: replaced_moves_def)

lemma replace_dummy_in_states_moves:
  assumes "distinct qs" and "sorted_wrt (<) (delta A)"
    and "\<forall>q \<in> set qs. \<forall>a t. (q, a, t) \<in> moves A \<longrightarrow> a \<le> get_dummy_symbol enc"
    and "fold (replace_dummy_in_state enc symbols) qs (b, A) = (b', A')"
  shows "moves A' = replaced_moves (get_dummy_symbol enc) (set symbols) (set qs) (moves A) \<and>
    (b' \<longleftrightarrow> b \<or> (\<exists>q \<in> set qs. \<exists>t. (q, get_dummy_symbol enc, t) \<in> moves A)) \<and>
    initial A' = initial A \<and> final A' = final A"
  using assms
proof (induction qs arbitrary: b A)
  case Nil
  then show ?case by (auto simp: replaced_moves_def)
next
  case (Cons q qs)
  let ?d = "get_dummy_symbol enc"
  obtain b1 A1 where r: "replace_dummy_in_state enc symbols q (b, A) = (b1, A1)" by fastforce
  note step = replace_dummy_in_state_moves[OF Cons.prems(2) _ r]
  have q: "\<forall>a t. (q, a, t) \<in> moves A \<longrightarrow> a \<le> ?d" and new: "q \<notin> set qs"
    using Cons.prems(1,3) by simp_all
  have same: "(p, a, t) \<in> moves A1 \<longleftrightarrow> (p, a, t) \<in> moves A" if "p \<in> set qs" for p a t
    using that new unfolding step(1)[OF q] by (auto simp: replaced_moves_def)
  have "moves A' = replaced_moves ?d (set symbols) (set qs) (moves A1) \<and>
    (b' \<longleftrightarrow> b1 \<or> (\<exists>q \<in> set qs. \<exists>t. (q, ?d, t) \<in> moves A1)) \<and>
    initial A' = initial A1 \<and> final A' = final A1"
  proof (rule Cons.IH)
    show "\<forall>q \<in> set qs. \<forall>a t. (q, a, t) \<in> moves A1 \<longrightarrow> a \<le> ?d" using Cons.prems(3) same by simp
  qed (use Cons.prems r step(3)[OF q] in simp_all)
  then show ?case
    using step(2,4,5)[OF q] same replaced_moves_step[OF new] unfolding step(1)[OF q] by auto
qed

definition dummy_instance :: "nat \<Rightarrow> nat set \<Rightarrow> nat \<Rightarrow> nat \<Rightarrow> bool" where
  "dummy_instance d S a b \<longleftrightarrow> (if a = d then b \<in> S else b = a)"

lemma replaced_path:
  "nfa_path (replaced_moves d S UNIV E) s w t \<longleftrightarrow>
     (\<exists>v. nfa_path E s v t \<and> list_all2 (dummy_instance d S) v w)"
proof (induction w arbitrary: s)
  case Nil
  show ?case by (auto intro: exI[of _ "[]"])
next
  case (Cons b w)
  have move: "(s, b, q) \<in> replaced_moves d S UNIV E \<longleftrightarrow> (\<exists>a. (s, a, q) \<in> E \<and> dummy_instance d S a b)" for q
    by (auto simp: replaced_moves_def dummy_instance_def)
  show ?case
  proof
    assume "nfa_path (replaced_moves d S UNIV E) s (b # w) t"
    then obtain q a v where "(s, a, q) \<in> E" "dummy_instance d S a b" "nfa_path E q v t"
        "list_all2 (dummy_instance d S) v w"
      using Cons move by auto
    then show "\<exists>v. nfa_path E s v t \<and> list_all2 (dummy_instance d S) v (b # w)"
      by (intro exI[of _ "a # v"]) auto
  next
    assume "\<exists>v. nfa_path E s v t \<and> list_all2 (dummy_instance d S) v (b # w)"
    then obtain a v q where "(s, a, q) \<in> E" "nfa_path E q v t" "dummy_instance d S a b"
        "list_all2 (dummy_instance d S) v w"
      by (auto simp: list_all2_Cons2)
    then show "nfa_path (replaced_moves d S UNIV E) s (b # w) t" using Cons move by auto
  qed
qed

lemma replace_dummy_in_nfa_lang:
  assumes "wf_nfa A" and "\<forall>(s, a, t) \<in> moves A. a \<le> get_dummy_symbol enc"
  shows "nfa_lang (snd (replace_dummy_in_nfa enc symbols A)) =
      {w. \<exists>v \<in> nfa_lang A. list_all2 (dummy_instance (get_dummy_symbol enc) (set symbols)) v w}"
    and "fst (replace_dummy_in_nfa enc symbols A) \<longleftrightarrow> (\<exists>s t. (s, get_dummy_symbol enc, t) \<in> moves A)"
proof -
  let ?d = "get_dummy_symbol enc" and ?qs = "[0..<num_of_states A]"
  obtain b A' where r: "replace_dummy_in_nfa enc symbols A = (b, A')" by fastforce
  have src: "s \<in> set ?qs" if "(s, a, t) \<in> moves A" for s a t using assms(1) that by (auto simp: wf_nfa_def)
  have "moves A' = replaced_moves ?d (set symbols) (set ?qs) (moves A) \<and>
    (b \<longleftrightarrow> False \<or> (\<exists>q \<in> set ?qs. \<exists>t. (q, ?d, t) \<in> moves A)) \<and> initial A' = initial A \<and> final A' = final A"
    using assms r by (intro replace_dummy_in_states_moves) (auto simp: wf_nfa_def replace_dummy_in_nfa_def)
  moreover have "replaced_moves ?d (set symbols) (set ?qs) (moves A) = replaced_moves ?d (set symbols) UNIV (moves A)"
    using src by (fastforce simp: replaced_moves_def)
  ultimately have A': "moves A' = replaced_moves ?d (set symbols) UNIV (moves A)"
    "b \<longleftrightarrow> (\<exists>q \<in> set ?qs. \<exists>t. (q, ?d, t) \<in> moves A)" "initial A' = initial A" "final A' = final A"
    by simp_all
  show "nfa_lang (snd (replace_dummy_in_nfa enc symbols A)) =
      {w. \<exists>v \<in> nfa_lang A. list_all2 (dummy_instance ?d (set symbols)) v w}"
    unfolding r snd_conv nfa_lang_def A' replaced_path by blast
  show "fst (replace_dummy_in_nfa enc symbols A) \<longleftrightarrow> (\<exists>s t. (s, ?d, t) \<in> moves A)"
    unfolding r fst_conv A' using src by blast
qed

lemma alphabet_symbols:
  "set (alph_symbols (alphabet_insert s a)) = insert s (set (alph_symbols a))"
  "set (alph_symbols (alphabet_erase s a)) = set (alph_symbols a) - {s}"
  by (auto simp: alphabet_insert_def alphabet_erase_def add_or_remove_from_hash_def)

lemma alphabet_symbols_all:
  "set (alph_symbols (alphabet_insert_all ss a)) = set ss \<union> set (alph_symbols a)"
  unfolding alphabet_insert_all_def by (induction ss arbitrary: a) (auto simp: alphabet_symbols)

lemma map_of_map_snd: "map_of (map (\<lambda>(t, x). (t, f x)) es) t = map_option f (map_of es t)"
  by (induction es) auto

text \<open>
  C29: Replacing the dummy symbol by a list of symbols leaves, for every term, exactly the
  words that arise from words of its language when every dummy symbol is replaced by one of
  the symbols; it answers true exactly if some automaton has a transition with the dummy
  symbol, and the alphabet has the symbols in place of the dummy symbol. It relies on the
  dummy symbol being the greatest one on the transitions.
\<close>

theorem replace_dummy_correct:
  assumes "mata_laws lang m"
    and "\<forall>(t, x) \<in> set (aut_entries aa). view_law lang m x \<and>
      (\<forall>(s, a, t) \<in> moves (view m x). a \<le> get_dummy_symbol enc)"
    and r: "replace_dummy_with_symbols enc m symbols aa = (replaced, aa')"
  shows "(\<forall>t. term_lang lang aa' t =
      {w. \<exists>v \<in> term_lang lang aa t. list_all2 (dummy_instance (get_dummy_symbol enc) (set symbols)) v w}) \<and>
    (replaced \<longleftrightarrow> (\<exists>(t, x) \<in> set (aut_entries aa). \<exists>s u. (s, get_dummy_symbol enc, u) \<in> moves (view m x))) \<and>
    set (alph_symbols (aut_alphabet aa')) =
      set symbols \<union> (set (alph_symbols (aut_alphabet aa)) - {get_dummy_symbol enc})"
proof (intro conjI allI)
  let ?d = "get_dummy_symbol enc"
  let ?es = "map (\<lambda>(t, x). (t, replace_dummy_in_nfa enc symbols (view m x))) (aut_entries aa)"
  have aa': "aut_entries aa' = map (\<lambda>(t, x). (t, of_nfa m (snd (replace_dummy_in_nfa enc symbols (view m x))))) (aut_entries aa)"
    and rep: "replaced \<longleftrightarrow> (\<exists>(t, x) \<in> set (aut_entries aa). fst (replace_dummy_in_nfa enc symbols (view m x)))"
    and alph: "aut_alphabet aa' = alphabet_insert_all symbols (alphabet_erase ?d (aut_alphabet aa))"
    using r by (auto simp: replace_dummy_with_symbols_def Let_def list_ex_iff case_prod_beta)
  have law: "wf_nfa (view m x)" "nfa_lang (view m x) = lang x" "\<forall>(s, a, t) \<in> moves (view m x). a \<le> ?d"
    if "(t, x) \<in> set (aut_entries aa)" for t x
    using assms(2) that by (auto simp: view_law_def)
  show "set (alph_symbols (aut_alphabet aa')) = set symbols \<union> (set (alph_symbols (aut_alphabet aa)) - {?d})"
    unfolding alph by (simp add: alphabet_symbols alphabet_symbols_all)
  show "replaced \<longleftrightarrow> (\<exists>(t, x) \<in> set (aut_entries aa). \<exists>s u. (s, ?d, u) \<in> moves (view m x))"
  proof -
    have "fst (replace_dummy_in_nfa enc symbols (view m x)) \<longleftrightarrow> (\<exists>s u. (s, ?d, u) \<in> moves (view m x))"
      if "(t, x) \<in> set (aut_entries aa)" for t x
      by (rule replace_dummy_in_nfa_lang(2)[OF law(1)[OF that] law(3)[OF that]])
    then show ?thesis unfolding rep by (intro bex_cong) auto
  qed
  fix t
  show "term_lang lang aa' t = {w. \<exists>v \<in> term_lang lang aa t. list_all2 (dummy_instance ?d (set symbols)) v w}"
  proof (cases "map_of (aut_entries aa) t")
    case None
    then show ?thesis by (simp add: term_lang_def aa' map_of_map_snd)
  next
    case (Some x)
    note l = law[OF map_of_SomeD[OF Some]]
    show ?thesis
      using replace_dummy_in_nfa_lang(1)[OF l(1,3)] Some l(2) mata_lawsD(1)[OF assms(1)]
      by (simp add: term_lang_def aa' map_of_map_snd)
  qed
qed

theorem replace_dummy_correct_witness:
  "term_lang id (snd (replace_dummy_with_symbols unicode set_mata [98]
      \<lparr>aut_entries = [(BasicTerm Variable [120], {[97]})], aut_alphabet = alphabet_of_set {97, 196608}\<rparr>))
     (BasicTerm Variable [120]) = {[97]}"
proof -
  let ?aa = "\<lparr>aut_entries = [(BasicTerm Variable [120], {[97 :: nat]})], aut_alphabet = alphabet_of_set {97, 196608}\<rparr>"
  obtain b aa' where r: "replace_dummy_with_symbols unicode set_mata [98] ?aa = (b, aa')" by fastforce
  have views: "\<forall>(t, x) \<in> set (aut_entries ?aa). view_law id set_mata x \<and>
      (\<forall>(s, a, t) \<in> moves (view set_mata x). a \<le> get_dummy_symbol unicode)"
    using create_word_nfa_dfa[of "[97]"] create_word_nfa_simps(3)[of "[97]"]
    by (auto simp: word_dfa_def view_law_def set_mata_def get_dummy_symbol_def)
  show ?thesis
    using replace_dummy_correct[OF set_mata_laws views r] r
    by (auto simp: term_lang_def list_all2_Cons1 dummy_instance_def get_dummy_symbol_def)
qed

end
