(* ===== verification/Preprocess.thy ===== *)
theory Preprocess
  imports Formula_Var Aut_Assignment
begin

text \<open>
  The class \<open>FormulaPreprocessor\<close> (\<open>formula_preprocess.h\<close>, \<open>formula_preprocess.cpp\<close>): its
  state, the meaning of the state, and the steps that keep all solutions: removal of trivial
  equations, propagation of variables and of the empty word, refinement of languages and
  reduction of disequations. The steps for equations, regular equations and the checks for
  unsatisfiability are in the theories that follow.
\<close>

section \<open>The state of the preprocessor\<close>

record 'a prep =
  prep_formula :: formula_var
  prep_aut :: "'a aut_assignment"
  prep_subst :: "(basic_term \<times> concat) list"
  prep_inclusions :: "predicate list"
  prep_len :: "len_node list"
  prep_len_vars :: "basic_term set"
  prep_conv_vars :: "basic_term set"
  prep_red :: bool
  prep_produce_models :: bool
  prep_dep :: "(nat \<times> nat list) list"
  prep_fresh :: fresh_ids

definition new_prep ::
    "nat \<Rightarrow> formula \<Rightarrow> 'a aut_assignment \<Rightarrow> basic_term set \<Rightarrow> bool \<Rightarrow> bool \<Rightarrow> basic_term set \<Rightarrow> fresh_ids \<Rightarrow> 'a prep" where
  "new_prep uninit conj_formula ass lv red models conv ids =
     \<lparr>prep_formula = new_formula_var uninit conj_formula, prep_aut = ass, prep_subst = [],
      prep_inclusions = [], prep_len = [], prep_len_vars = lv, prep_conv_vars = conv,
      prep_red = red, prep_produce_models = models, prep_dep = [], prep_fresh = ids\<rparr>"

definition add_to_len_formula :: "len_node \<Rightarrow> 'a prep \<Rightarrow> 'a prep" where
  "add_to_len_formula n pp = pp\<lparr>prep_len := prep_len pp @ [n]\<rparr>"

definition get_len_formula :: "'a prep \<Rightarrow> len_node" where
  "get_len_formula pp = len_op AND (prep_len pp)"

definition get_modified_formula :: "'a prep \<Rightarrow> formula" where
  "get_modified_formula pp = fv_allpreds (prep_formula pp)"

definition update_reg_constr :: "'a mata \<Rightarrow> basic_term \<Rightarrow> concat \<Rightarrow> 'a prep \<Rightarrow> 'a prep res" where
  "update_reg_constr m var upd pp =
     bind_res (get_automaton_concat m (prep_aut pp) upd) (\<lambda>cat.
       Inr (pp\<lparr>prep_aut :=
         (case map_of (aut_entries (prep_aut pp)) var of
            Some x \<Rightarrow>
              let inters = trim_nfa m (intersection m x cat)
              in aut_put var (if prep_red pp then reduce_nfa m inters else inters) (prep_aut pp)
          | None \<Rightarrow> aut_put var cat (prep_aut pp))\<rparr>))"

definition substitute_var :: "basic_term \<Rightarrow> concat \<Rightarrow> 'a prep \<Rightarrow> 'a prep" where
  "substitute_var var repl pp =
     pp\<lparr>prep_subst := entry_put var repl (map (\<lambda>(x, c). (x, subst_concat var repl c)) (prep_subst pp)),
        prep_formula := remove_var_from_varmap var (prep_formula pp)\<rparr>"

definition remove_all :: "nat list \<Rightarrow> 'a prep \<Rightarrow> 'a prep" where
  "remove_all rem_ids pp = pp\<lparr>prep_formula := fold remove_predicate rem_ids (prep_formula pp)\<rparr>"

section \<open>The steps\<close>

definition remove_trivial :: "'a prep \<Rightarrow> 'a prep" where
  "remove_trivial pp =
     remove_all
       (map fst (filter (\<lambda>(i, p). is_equation p \<and> get_left_side p = get_right_side p)
          (fv_predicates (prep_formula pp)))) pp"

text \<open>
  One round of \<open>propagate_variables\<close>, for an index of the worklist. The worklist is filled
  once and only shrinks.
\<close>

definition propagate_literal :: "'a mata \<Rightarrow> nat \<Rightarrow> predicate \<Rightarrow> 'a prep \<Rightarrow> 'a prep res" where
  "propagate_literal m index eq pp =
     (let v_left = get_left_side eq ! 0 in
      bind_res (update_reg_constr m v_left (get_right_side eq) pp) (\<lambda>pp.
      bind_res (fv_replace (get_left_side eq) (get_right_side eq) (prep_formula pp)) (\<lambda>fv.
        Inr (substitute_var v_left [get_right_side eq ! 0]
               (add_to_len_formula (get_formula_eq eq)
                 (pp\<lparr>prep_formula := remove_predicate index fv\<rparr>))))))"

definition propagate_variable :: "'a mata \<Rightarrow> nat \<Rightarrow> predicate \<Rightarrow> 'a prep \<Rightarrow> 'a prep res" where
  "propagate_variable m index eq pp =
     (let v_left = get_left_side eq ! 0; v_right = get_right_side eq ! 0 in
      bind_res (update_reg_constr m v_left (get_right_side eq) pp) (\<lambda>pp.
        let pp = add_to_len_formula (get_formula_eq eq) pp;
            pp = (if v_right \<in> prep_len_vars pp then pp\<lparr>prep_len_vars := insert v_left (prep_len_vars pp)\<rparr> else pp);
            pp = (if v_right \<in> prep_conv_vars pp then pp\<lparr>prep_conv_vars := insert v_left (prep_conv_vars pp)\<rparr> else pp)
        in bind_res (fv_replace (get_right_side eq) (get_left_side eq) (prep_formula pp)) (\<lambda>fv.
             let pp = substitute_var v_right [v_left] (pp\<lparr>prep_formula := remove_predicate index fv\<rparr>)
             in Inr (pp\<lparr>prep_dep :=
                  fold (\<lambda>pr. map_set_insert (fst pr) index) (fv_predicates (prep_formula pp)) (prep_dep pp)\<rparr>))))"

definition propagate_simple :: "'a mata \<Rightarrow> nat \<Rightarrow> 'a prep \<Rightarrow> 'a prep res" where
  "propagate_simple m index pp =
     (case map_of (fv_predicates (prep_formula pp)) index of
        None \<Rightarrow> Inr pp
      | Some eq \<Rightarrow>
          if get_left_side eq = get_right_side eq
          then Inr (pp\<lparr>prep_formula := remove_predicate index (prep_formula pp)\<rparr>)
          else
            let eq = (if \<not> is_variable (get_left_side eq ! 0) then switch_equation eq else eq) in
            if \<not> is_variable (get_left_side eq ! 0) then Inr pp
            else if \<not> is_variable (get_right_side eq ! 0) then propagate_literal m index eq pp
            else propagate_variable m index eq pp)"

fun for_each :: "('x \<Rightarrow> 's \<Rightarrow> 's res) \<Rightarrow> 'x list \<Rightarrow> 's \<Rightarrow> 's res" where
  "for_each f [] s = Inr s"
| "for_each f (x # xs) s = bind_res (f x s) (for_each f xs)"

definition propagate_variables :: "'a mata \<Rightarrow> 'a prep \<Rightarrow> 'a prep res" where
  "propagate_variables m pp =
     for_each (propagate_simple m) (map fst (get_simple_eqs (prep_formula pp))) pp"

text \<open>Terms that can only be the empty word: the loop over the keys of the variable map.\<close>

definition is_eps_term :: "'a mata \<Rightarrow> 'a aut_assignment \<Rightarrow> basic_term \<Rightarrow> bool res" where
  "is_eps_term m aa t =
     (if is_variable t then is_epsilon m aa t
      else if is_literal t then bind_res (is_epsilon m aa t) (\<lambda>e. Inr (get_name t = [] \<or> e))
      else Inr False)"

definition get_eps_terms :: "'a mata \<Rightarrow> 'a prep \<Rightarrow> basic_term list res" where
  "get_eps_terms m pp =
     for_each (\<lambda>t res. bind_res (is_eps_term m (prep_aut pp) t) (\<lambda>e. Inr (if e then sset_insert t res else res)))
       (map fst (fv_varmap (prep_formula pp))) []"

text \<open>The empty terms that an equation forces, given the ones known so far.\<close>

definition new_eps_terms :: "predicate \<Rightarrow> basic_term list \<Rightarrow> basic_term set option" where
  "new_eps_terms eq eps_set =
     (if set (get_left_side eq) \<subseteq> set eps_set then Some (get_side_vars eq Right - set eps_set)
      else if set (get_right_side eq) \<subseteq> set eps_set then Some (get_side_vars eq Left - set eps_set)
      else None)"

lemma get_side_vars_set: "get_side_vars p side = {t \<in> set (get_side p side). is_variable t}"
proof -
  have "fold (\<lambda>t vars. if is_variable t then (if t \<in> vars then vars else insert t vars) else vars) c V =
      V \<union> {t \<in> set c. is_variable t}" for c V
    by (induction c arbitrary: V) auto
  then show ?thesis by (simp add: get_side_vars_def)
qed

definition side_terms :: "formula_var \<Rightarrow> basic_term set" where
  "side_terms fv = (\<Union>p \<in> snd ` set (fv_predicates fv). set (get_left_side p) \<union> set (get_right_side p))"

lemma finite_side_terms [simp]: "finite (side_terms fv)"
  by (simp add: side_terms_def)

lemma new_eps_terms_subset:
  assumes "get_predicate fv index = Inr eq" and "new_eps_terms eq eps = Some new_eps"
  shows "new_eps \<subseteq> side_terms fv - set eps"
proof -
  have "eq \<in> snd ` set (fv_predicates fv)"
    using assms(1) by (force simp: get_predicate_def dest: map_of_SomeD split: option.splits)
  then have "set (get_left_side eq) \<union> set (get_right_side eq) \<subseteq> side_terms fv"
    unfolding side_terms_def by blast
  then show ?thesis
    using assms(2) by (auto simp: new_eps_terms_def get_side_vars_set get_side_def side_defs split: if_splits)
qed

text \<open>
  The loop over the worklist of equations. An equation that was used is not visited again;
  the loop ends because it appends to the worklist only when it finds a new empty term.
\<close>

function eps_loop ::
    "formula_var \<Rightarrow> nat list \<Rightarrow> nat list \<Rightarrow> basic_term list \<Rightarrow> (nat list \<times> basic_term list) res" where
  "eps_loop fv [] eps_eq_id eps_set = Inr (eps_eq_id, eps_set)"
| "eps_loop fv (index # worklist) eps_eq_id eps_set =
     (if index \<in> set eps_eq_id then eps_loop fv worklist eps_eq_id eps_set
      else
        (case get_predicate fv index of
           Inl e \<Rightarrow> Inl e
         | Inr eq \<Rightarrow>
             if \<not> is_equation eq then eps_loop fv worklist eps_eq_id eps_set
             else
               (case new_eps_terms eq eps_set of
                  None \<Rightarrow> eps_loop fv worklist eps_eq_id eps_set
                | Some new_eps \<Rightarrow>
                    (case map_res (get_var_occurr fv) (sorted_list_of_set new_eps) of
                       Inl e \<Rightarrow> Inl e
                     | Inr nds \<Rightarrow>
                         eps_loop fv (worklist @ map vn_index (concat nds)) (sset_insert index eps_eq_id)
                           (fold sset_insert (sorted_list_of_set new_eps) eps_set)))))"
  by pat_completeness auto
termination
proof (relation "measures [\<lambda>(fv, wl, ids, eps). card (side_terms fv - set eps), \<lambda>(fv, wl, ids, eps). length wl]",
    goal_cases)
  case (5 fv index worklist ids eps eq new_eps nds)
  let ?eps' = "set (fold sset_insert (sorted_list_of_set new_eps) eps)"
  have new: "new_eps \<subseteq> side_terms fv - set eps" by (rule new_eps_terms_subset[OF 5(2) 5(4)])
  then have fin: "finite new_eps" by (rule finite_subset) simp
  then have eps': "?eps' = set eps \<union> new_eps" by auto
  show ?case
  proof (cases "new_eps = {}")
    case True
    then show ?thesis using 5(5) by simp
  next
    case False
    then have "side_terms fv - ?eps' \<subset> side_terms fv - set eps" unfolding eps' using new by blast
    then have "card (side_terms fv - ?eps') < card (side_terms fv - set eps)"
      by (intro psubset_card_mono) simp_all
    then show ?thesis by simp
  qed
qed simp_all

definition replace_eps_term :: "'a mata \<Rightarrow> basic_term \<Rightarrow> 'a prep \<Rightarrow> 'a prep res" where
  "replace_eps_term m t pp =
     bind_res (if is_variable t then update_reg_constr m t [] pp else Inr pp) (\<lambda>pp.
     bind_res (fv_replace [t] [] (prep_formula pp)) (\<lambda>fv.
       Inr (add_to_len_formula (get_formula_eq (create_equation [t] [])) (pp\<lparr>prep_formula := fv\<rparr>))))"

definition add_dependencies :: "nat list \<Rightarrow> 'a prep \<Rightarrow> 'a prep" where
  "add_dependencies ids pp =
     pp\<lparr>prep_dep := fold (\<lambda>pr dep. map_put (fst pr)
          (fold sset_insert ids (case map_of dep (fst pr) of None \<Rightarrow> [] | Some s \<Rightarrow> s)) dep)
        (fv_predicates (prep_formula pp)) (prep_dep pp)\<rparr>"

definition propagate_eps :: "'a mata \<Rightarrow> 'a prep \<Rightarrow> 'a prep res" where
  "propagate_eps m pp =
     bind_res (get_eps_terms m pp) (\<lambda>eps_set.
     bind_res (map_res (get_var_occurr (prep_formula pp)) eps_set) (\<lambda>nds.
     bind_res (eps_loop (prep_formula pp) (map vn_index (concat nds)) [] eps_set) (\<lambda>(eps_eq_id, eps_set).
     bind_res (for_each (replace_eps_term m) eps_set pp) (\<lambda>pp.
       Inr (add_dependencies eps_eq_id (pp\<lparr>prep_formula := clean_predicates (prep_formula pp)\<rparr>))))))"

definition ineq_vars :: "formula_var \<Rightarrow> basic_term set" where
  "ineq_vars fv =
     fold (\<lambda>(i, p) vars.
         if \<not> is_inequation p then vars
         else
           let vars = (if length (get_left_side p) = 1 \<and> is_variable (get_left_side p ! 0)
                       then insert (get_left_side p ! 0) vars else vars)
           in (if length (get_right_side p) = 1 \<and> is_variable (get_right_side p ! 0)
               then insert (get_right_side p ! 0) vars else vars))
       (fv_predicates fv) {}"

definition refine_side :: "'a mata \<Rightarrow> basic_term set \<Rightarrow> concat \<Rightarrow> concat \<Rightarrow> 'a prep \<Rightarrow> 'a prep res" where
  "refine_side m vars side other pp =
     (if length side = 1 then
        let var = side ! 0 in
        if var \<in> vars then update_reg_constr m var other pp
        else if length other = 1 then update_reg_constr m var other pp
        else Inr pp
      else Inr pp)"

definition refine_equation :: "'a mata \<Rightarrow> basic_term set \<Rightarrow> nat \<times> predicate \<Rightarrow> 'a prep \<Rightarrow> 'a prep res" where
  "refine_equation m vars pr pp =
     (if \<not> is_equation (snd pr) then Inr pp
      else
        bind_res (refine_side m vars (get_left_side (snd pr)) (get_right_side (snd pr)) pp)
          (refine_side m vars (get_right_side (snd pr)) (get_left_side (snd pr))))"

definition refine_literals :: "'a mata \<Rightarrow> 'a aut_assignment \<Rightarrow> 'a aut_assignment" where
  "refine_literals m aa =
     aa\<lparr>aut_entries := map (\<lambda>(t, x).
         (t, if is_literal t
             then reduce_nfa m (trim_nfa m (intersection m x (of_nfa m (create_word_nfa (get_name t)))))
             else x)) (aut_entries aa)\<rparr>"

definition refine_languages :: "'a mata \<Rightarrow> 'a prep \<Rightarrow> 'a prep res" where
  "refine_languages m pp =
     bind_res (for_each (refine_equation m (ineq_vars (prep_formula pp))) (fv_predicates (prep_formula pp)) pp)
       (\<lambda>pp. Inr (pp\<lparr>prep_aut := refine_literals m (prep_aut pp)\<rparr>))"

definition reduce_automata :: "'a mata \<Rightarrow> 'a prep \<Rightarrow> 'a prep" where
  "reduce_automata m pp =
     pp\<lparr>prep_aut := (prep_aut pp)\<lparr>aut_entries := map (\<lambda>(var, aut).
         (var, if var \<in> prep_len_vars pp \<or> var \<in> prep_conv_vars pp \<or> var_occurs (prep_formula pp) var
               then reduce_nfa m aut else aut)) (aut_entries (prep_aut pp))\<rparr>\<rparr>"

definition underapprox_var_language :: "'a mata \<Rightarrow> basic_term \<Rightarrow> 'a prep \<Rightarrow> 'a prep res" where
  "underapprox_var_language m var pp =
     bind_res (complement_lang m (prep_aut pp) var) (\<lambda>aut_compl.
       let (lengths, ids) = nfa_get_lengths m aut_compl var (prep_fresh pp);
           pp = add_to_len_formula (len_op NOT [lengths]) (pp\<lparr>prep_fresh := ids\<rparr>)
       in Inr (pp\<lparr>prep_aut := aut_put var (of_nfa m (sigma_star_automaton (aut_alphabet (prep_aut pp)))) (prep_aut pp),
                 prep_len_vars := insert var (prep_len_vars pp)\<rparr>))"

definition underapprox_languages :: "'a mata \<Rightarrow> 'a prep \<Rightarrow> 'a prep res" where
  "underapprox_languages m pp =
     for_each (\<lambda>pred. for_each (\<lambda>var pp.
         bind_res (is_co_finite m (prep_aut pp) var) (\<lambda>cof.
           if cof then underapprox_var_language m var pp else Inr pp))
         (sorted_list_of_set (pred_get_vars pred)))
       (fv_allpreds (prep_formula pp)) pp"

text \<open>
  A disequation that the languages decide is dropped; one between a variable and a literal
  becomes part of the language of the variable.
\<close>

definition remove_word_side ::
    "'a mata \<Rightarrow> basic_term \<Rightarrow> 'a \<Rightarrow> nat \<Rightarrow> 'a prep \<times> nat list \<Rightarrow> ('a prep \<times> nat list) res" where
  "remove_word_side m var aut i st =
     (let aa = prep_aut (fst st) in
      bind_res (aut_at aa var) (\<lambda>x.
        Inr ((fst st)\<lparr>prep_aut := aut_put var (intersection m x (complement_aut m aa aut)) aa\<rparr>,
             sset_insert i (snd st))))"

definition is_word_side :: "concat \<Rightarrow> bool" where
  "is_word_side side \<longleftrightarrow> length side < 1 \<or> length side = 1 \<and> is_literal (side ! 0)"

definition reduce_diseq ::
    "'a mata \<Rightarrow> nat \<times> predicate \<Rightarrow> 'a prep \<times> nat list \<Rightarrow> ('a prep \<times> nat list) res" where
  "reduce_diseq m pr st =
     (if \<not> is_inequation (snd pr) then Inr st
      else
        let left_side = get_left_side (snd pr); right_side = get_right_side (snd pr) in
        bind_res (get_automaton_concat m (prep_aut (fst st)) left_side) (\<lambda>aut_left.
        bind_res (get_automaton_concat m (prep_aut (fst st)) right_side) (\<lambda>aut_right.
          if is_lang_empty m (intersection m aut_left aut_right)
          then Inr (fst st, sset_insert (fst pr) (snd st))
          else if length left_side = 1 \<and> is_variable (left_side ! 0) \<and> is_word_side right_side
          then remove_word_side m (left_side ! 0) aut_right (fst pr) st
          else if length right_side = 1 \<and> is_variable (right_side ! 0) \<and> is_word_side left_side
          then remove_word_side m (right_side ! 0) aut_left (fst pr) st
          else Inr st)))"

definition reduce_diseqalities :: "'a mata \<Rightarrow> 'a prep \<Rightarrow> 'a prep res" where
  "reduce_diseqalities m pp =
     bind_res (for_each (reduce_diseq m) (fv_predicates (prep_formula pp)) (pp, []))
       (\<lambda>(pp, rem_ids). Inr (remove_all rem_ids pp))"

end
