(* ===== verification/Preprocess_Separation.thy ===== *)
theory Preprocess_Separation
  imports Preprocess "HOL-Library.Multiset"
begin

text \<open>
  The step \<open>separate_eqs\<close> of the preprocessor (\<open>formula_preprocess.cpp\<close>): an equation is cut
  where the two sides have consumed the same variables and the same number of symbols of
  literals.
\<close>

section \<open>The step\<close>

type_synonym gather = "(basic_term \<times> nat) list \<times> nat"

fun get_concat_gather :: "gather \<Rightarrow> concat \<Rightarrow> gather list" where
  "get_concat_gather prev [] = []"
| "get_concat_gather prev (t # ts) =
     (let new_val = (if is_variable t then (map_increment t (fst prev), snd prev)
                     else if is_literal t then (fst prev, snd prev + length (get_name t))
                     else prev)
      in new_val # get_concat_gather new_val ts)"

text \<open>
  The concatenation between two iterators; an inverted range, which the code does not
  exclude, is an error.
\<close>

definition slice :: "concat \<Rightarrow> nat \<Rightarrow> nat \<Rightarrow> concat res" where
  "slice c a e = (if a \<le> e then Inr (take (e - a) (drop a c)) else Inl Out_Of_Range)"

definition separate_at ::
    "predicate \<Rightarrow> gather list \<Rightarrow> gather list \<Rightarrow> nat \<times> nat \<Rightarrow> nat \<times> nat \<times> predicate list \<Rightarrow> (nat \<times> nat \<times> predicate list) res" where
  "separate_at eq gather_left gather_right ij st =
     (case (ij, st) of ((i, j), (it_left, it_right, res)) \<Rightarrow>
        if gather_left ! i = gather_right ! j then
          bind_res (slice (get_left_side eq) it_left (i + 1)) (\<lambda>l.
          bind_res (slice (get_right_side eq) it_right (j + 1)) (\<lambda>r.
            Inr (i + 1, j + 1, sset_insert (create_equation l r) res)))
        else Inr st)"

definition separate_rest :: "predicate \<Rightarrow> nat \<times> nat \<times> predicate list \<Rightarrow> predicate list" where
  "separate_rest eq st =
     (case st of (it_left, it_right, res) \<Rightarrow>
        let left_rest = drop it_left (get_left_side eq); right_rest = drop it_right (get_right_side eq) in
        if left_rest = [] \<and> right_rest = [] then res
        else
          let left_rest = (if left_rest = [] then [BasicTerm Literal []] else left_rest);
              right_rest = (if right_rest = [] then [BasicTerm Literal []] else right_rest)
          in sset_insert (create_equation left_rest right_rest) res)"

definition separate_eq :: "predicate \<Rightarrow> gather list \<Rightarrow> gather list \<Rightarrow> predicate list res" where
  "separate_eq eq gather_left gather_right =
     bind_res (for_each (separate_at eq gather_left gather_right)
         (List.product [0..<length gather_left] [0..<length gather_right]) (0, 0, []))
       (\<lambda>st. Inr (separate_rest eq st))"

definition separate_pred :: "nat \<times> predicate \<Rightarrow> predicate list \<times> nat list \<Rightarrow> (predicate list \<times> nat list) res" where
  "separate_pred pr st =
     (if \<not> is_equation (snd pr) then Inr st
      else
        bind_res (separate_eq (snd pr) (get_concat_gather ([], 0) (get_left_side (snd pr)))
                    (get_concat_gather ([], 0) (get_right_side (snd pr)))) (\<lambda>res.
          Inr (if length res > 1
               then (fold sset_insert res (fst st), sset_insert (fst pr) (snd st))
               else st)))"

definition separate_eqs :: "'a prep \<Rightarrow> 'a prep res" where
  "separate_eqs pp =
     bind_res (for_each separate_pred (fv_predicates (prep_formula pp)) ([], [])) (\<lambda>(add_eqs, rem_ids).
       Inr (remove_all rem_ids (pp\<lparr>prep_formula := add_predicates add_eqs (prep_formula pp)\<rparr>)))"

section \<open>Gathered prefixes\<close>

definition gather_step :: "gather \<Rightarrow> basic_term \<Rightarrow> gather" where
  "gather_step g t =
     (if is_variable t then (map_increment t (fst g), snd g)
      else if is_literal t then (fst g, snd g + length (get_name t)) else g)"

abbreviation prefix_gather :: "concat \<Rightarrow> gather" where
  "prefix_gather c \<equiv> foldl gather_step ([], 0) c"

lemma get_concat_gather_nth:
  "length (get_concat_gather g c) = length c"
  "i < length c \<Longrightarrow> get_concat_gather g c ! i = foldl gather_step g (take (Suc i) c)"
proof -
  show "length (get_concat_gather g c) = length c" by (induction g c rule: get_concat_gather.induct) (simp_all add: Let_def)
  show "get_concat_gather g c ! i = foldl gather_step g (take (Suc i) c)" if "i < length c"
    using that
  proof (induction g c arbitrary: i rule: get_concat_gather.induct)
    case (2 prev t ts)
    let ?g = "gather_step prev t"
    have run: "get_concat_gather prev (t # ts) = ?g # get_concat_gather ?g ts"
      by (simp add: gather_step_def Let_def)
    have "get_concat_gather ?g ts ! k = foldl gather_step ?g (take (Suc k) ts)" if "k < length ts" for k
      using 2(1)[OF gather_step_def[of prev t] that] .
    then show ?case unfolding run using "2.prems" by (cases i) simp_all
  qed simp
qed

text \<open>The terms that the step handles: variables, and literals that are not empty.\<close>

definition sep_term :: "basic_term \<Rightarrow> bool" where
  "sep_term t \<longleftrightarrow> is_variable t \<or> is_literal t \<and> get_name t \<noteq> []"

definition literal_length :: "concat \<Rightarrow> nat" where
  "literal_length c = sum_list (map (\<lambda>t. if is_literal t then length (get_name t) else 0) c)"

lemma gather_counts:
  "count_at (fst (prefix_gather c)) x = count_list (filter is_variable c) x"
  "snd (prefix_gather c) = literal_length c"
  by (induction c rule: rev_induct)
    (auto simp: gather_step_def count_at_increment variable_not_literal literal_length_def)

lemma gather_eqD:
  assumes "prefix_gather c = prefix_gather d"
  shows "mset (filter is_variable c) = mset (filter is_variable d)" "literal_length c = literal_length d"
proof -
  have "count_list (filter is_variable c) x = count_list (filter is_variable d) x" for x
    using assms gather_counts(1)[of c x] gather_counts(1)[of d x] by simp
  then show "mset (filter is_variable c) = mset (filter is_variable d)"
    by (intro multiset_eqI) (simp only: count_mset)
  show "literal_length c = literal_length d" using assms gather_counts(2)[of c] gather_counts(2)[of d] by simp
qed

text \<open>Equal gathered values mean equal lengths under every assignment, and equal weights.\<close>

lemma eval_length:
  assumes "\<forall>t \<in> set c. is_variable t \<or> is_literal t"
  shows "length (eval_concat \<sigma> c) = literal_length c + sum_list (map (\<lambda>x. length (\<sigma> x)) (filter is_variable c))"
  using assms by (induction c) (auto simp: literal_length_def eval_term_def variable_not_literal)

lemma gather_eq_length:
  assumes "prefix_gather c = prefix_gather d" and "\<forall>t \<in> set c \<union> set d. is_variable t \<or> is_literal t"
  shows "length (eval_concat \<sigma> c) = length (eval_concat \<sigma> d)"
proof -
  have "sum_list (map f (filter is_variable c)) = sum_list (map f (filter is_variable d))" for f :: "basic_term \<Rightarrow> nat"
    using gather_eqD(1)[OF assms(1)] by (metis mset_map sum_mset_sum_list)
  then show ?thesis using eval_length[of c \<sigma>] eval_length[of d \<sigma>] gather_eqD(2)[OF assms(1)] assms(2) by simp
qed

definition weight :: "concat \<Rightarrow> nat" where
  "weight c = length (filter is_variable c) + literal_length c"

lemma gather_eq_weight: "prefix_gather c = prefix_gather d \<Longrightarrow> weight c = weight d"
  using gather_eqD[of c d] by (metis weight_def size_mset)

lemma weight_mono:
  assumes "\<forall>t \<in> set c. sep_term t" and "a < b" and "b \<le> length c"
  shows "weight (take a c) < weight (take b c)"
proof -
  have "take b c = take a c @ take (b - a) (drop a c)"
    using assms(2) by (simp add: take_add[symmetric])
  moreover have "0 < weight (take (b - a) (drop a c))"
  proof -
    have "take (b - a) (drop a c) = c ! a # take (b - a - 1) (drop (Suc a) c)"
      using assms(2,3) by (simp add: Cons_nth_drop_Suc[symmetric] take_Cons')
    moreover have "sep_term (c ! a)" using assms by simp
    ultimately show ?thesis by (auto simp: weight_def literal_length_def sep_term_def)
  qed
  ultimately show ?thesis by (simp add: weight_def literal_length_def)
qed

section \<open>Cutting an equation\<close>

text \<open>Quantities that add up over the terms of an equation: its size, the occurrences of a variable.\<close>

definition cost :: "(basic_term \<Rightarrow> nat) \<Rightarrow> concat \<Rightarrow> nat" where
  "cost g c = sum_list (map g c)"

definition pred_cost :: "(basic_term \<Rightarrow> nat) \<Rightarrow> predicate \<Rightarrow> nat" where
  "pred_cost g p = cost g (get_left_side p) + cost g (get_right_side p)"

lemma cost_append [simp]: "cost g (c @ d) = cost g c + cost g d"
  by (simp add: cost_def)

lemma sum_insert_le: "finite A \<Longrightarrow> (\<Sum>q \<in> insert p A. f q) \<le> f p + (\<Sum>q \<in> A. f q :: nat)"
  by (cases "p \<in> A") (simp_all add: insert_absorb)

definition lex_less :: "nat \<times> nat \<Rightarrow> nat \<times> nat \<Rightarrow> bool" where
  "lex_less p q \<longleftrightarrow> fst p < fst q \<or> fst p = fst q \<and> snd p < snd q"

lemma sorted_product:
  "sorted_wrt (<) xs \<Longrightarrow> sorted_wrt (<) ys \<Longrightarrow> sorted_wrt lex_less (List.product xs ys)"
proof (induction xs)
  case (Cons x xs)
  have "sorted_wrt lex_less (map (Pair x) ys)"
    using Cons.prems(2) by (simp add: sorted_wrt_map lex_less_def)
  moreover have "lex_less (x, y) q" if "q \<in> set (List.product xs ys)" for y q
    using that Cons.prems(1) by (auto simp: lex_less_def)
  ultimately show ?case using Cons by (auto simp: sorted_wrt_append)
qed simp

text \<open>What holds at the two iterators, between the rounds of the double loop.\<close>

definition sep_inv ::
    "concat \<Rightarrow> concat \<Rightarrow> nat \<times> nat \<times> predicate list \<Rightarrow> bool" where
  "sep_inv L R st \<longleftrightarrow> (case st of (a, b, res) \<Rightarrow>
     a \<le> length L \<and> b \<le> length R \<and> prefix_gather (take a L) = prefix_gather (take b R) \<and>
     (\<forall>S \<sigma>. (\<forall>p \<in> set res. sat_pred S \<sigma> p) \<longleftrightarrow> eval_concat \<sigma> (take a L) = eval_concat \<sigma> (take b R)) \<and>
     (\<forall>g. (\<Sum>p \<in> set res. pred_cost g p) \<le> cost g (take a L) + cost g (take b R)) \<and>
     (res \<noteq> [] \<longrightarrow> 0 < a \<and> 0 < b) \<and> sorted_wrt (<) res \<and>
     (\<forall>p \<in> set res. \<exists>l r. p = create_equation l r \<and> l \<noteq> [] \<and> r \<noteq> [] \<and> set l \<subseteq> set L \<and> set r \<subseteq> set R))"

lemma take_slice: "a \<le> e \<Longrightarrow> take e c = take a c @ take (e - a) (drop a c)"
  by (metis le_add_diff_inverse take_add)

lemma separate_at_step:
  assumes terms: "\<forall>t \<in> set L \<union> set R. sep_term t" and inv: "sep_inv L R (a, b, res)"
    and eq: "get_left_side eq = L" "get_right_side eq = R" and ij: "i < length L" "j < length R"
    and after: "a \<le> i \<or> a = Suc i \<and> b \<le> j"
  shows "separate_at eq (get_concat_gather ([], 0) L) (get_concat_gather ([], 0) R) (i, j) (a, b, res) = Inr (a, b, res) \<or>
    (\<exists>res'. separate_at eq (get_concat_gather ([], 0) L) (get_concat_gather ([], 0) R) (i, j) (a, b, res) =
       Inr (Suc i, Suc j, res') \<and> sep_inv L R (Suc i, Suc j, res'))"
proof (cases "prefix_gather (take (Suc i) L) = prefix_gather (take (Suc j) R)")
  case True
  have gab: "prefix_gather (take a L) = prefix_gather (take b R)" using inv by (simp add: sep_inv_def)
  have kinds: "\<forall>t \<in> set (take k L) \<union> set (take k' R). is_variable t \<or> is_literal t" for k k'
    using terms set_take_subset[of k L] set_take_subset[of k' R] unfolding sep_term_def by blast
  have a: "a \<le> i"
  proof (rule ccontr)
    assume "\<not> a \<le> i"
    then have "a = Suc i" "b \<le> j" using after by auto
    then have "weight (take b R) = weight (take (Suc j) R)" using gab True gather_eq_weight by metis
    then show False using weight_mono[of R b "Suc j"] terms \<open>b \<le> j\<close> ij(2) by simp
  qed
  have b: "b \<le> j"
  proof (rule ccontr)
    assume "\<not> b \<le> j"
    then have "Suc j \<le> b" "b \<le> length R" using inv by (simp_all add: sep_inv_def)
    then have "weight (take (Suc j) R) \<le> weight (take b R)"
      using weight_mono[of R "Suc j" b] terms by (cases "Suc j = b") auto
    moreover have "weight (take a L) < weight (take (Suc i) L)" using weight_mono[of L a "Suc i"] terms a ij(1) by simp
    ultimately show False using gather_eq_weight[OF True] gather_eq_weight[OF gab] by simp
  qed
  define l r where "l = take (Suc i - a) (drop a L)" and "r = take (Suc j - b) (drop b R)"
  have split: "take (Suc i) L = take a L @ l" "take (Suc j) R = take b R @ r"
    using a b by (simp_all add: l_def r_def take_slice)
  have lr: "l \<noteq> []" "r \<noteq> []" "set l \<subseteq> set L" "set r \<subseteq> set R"
    using a b ij by (auto simp: l_def r_def dest: in_set_takeD in_set_dropD)
  let ?res = "sset_insert (create_equation l r) res"
  have run: "separate_at eq (get_concat_gather ([], 0) L) (get_concat_gather ([], 0) R) (i, j) (a, b, res) = Inr (Suc i, Suc j, ?res)"
    using True a b ij eq by (simp add: separate_at_def slice_def get_concat_gather_nth l_def r_def)
  have "(\<forall>p \<in> set ?res. sat_pred S \<sigma> p) \<longleftrightarrow> eval_concat \<sigma> (take (Suc i) L) = eval_concat \<sigma> (take (Suc j) R)" for S \<sigma>
    using inv gather_eq_length[OF gab kinds, of \<sigma>] by (auto simp: sep_inv_def split)
  moreover have "(\<Sum>p \<in> set ?res. pred_cost g p) \<le> cost g (take (Suc i) L) + cost g (take (Suc j) R)" for g
  proof -
    have "(\<Sum>p \<in> set res. pred_cost g p) \<le> cost g (take a L) + cost g (take b R)" using inv by (simp add: sep_inv_def)
    then show ?thesis
      using sum_insert_le[of "set res" "pred_cost g" "create_equation l r"] by (simp add: split pred_cost_def)
  qed
  ultimately have "sep_inv L R (Suc i, Suc j, ?res)"
    using inv True ij lr unfolding sep_inv_def by (auto simp del: take_Suc)
  then show ?thesis using run by blast
next
  case False
  then show ?thesis using ij by (simp add: separate_at_def get_concat_gather_nth)
qed

lemma separate_loop:
  assumes "\<forall>t \<in> set L \<union> set R. sep_term t" and "get_left_side eq = L" "get_right_side eq = R"
    and "sorted_wrt lex_less ijs" and "\<forall>(i, j) \<in> set ijs. i < length L \<and> j < length R \<and> (a \<le> i \<or> a = Suc i \<and> b \<le> j)"
    and "sep_inv L R (a, b, res)"
  shows "\<exists>st. for_each (separate_at eq (get_concat_gather ([], 0) L) (get_concat_gather ([], 0) R)) ijs (a, b, res) = Inr st \<and>
    sep_inv L R st"
  using assms(4-)
proof (induction ijs arbitrary: a b res)
  case (Cons ij ijs)
  obtain i j where ij: "ij = (i, j)" by (cases ij)
  let ?f = "separate_at eq (get_concat_gather ([], 0) L) (get_concat_gather ([], 0) R)"
  have "?f (i, j) (a, b, res) = Inr (a, b, res) \<or>
      (\<exists>res'. ?f (i, j) (a, b, res) = Inr (Suc i, Suc j, res') \<and> sep_inv L R (Suc i, Suc j, res'))"
    using Cons.prems(2,3) ij by (intro separate_at_step[OF assms(1) _ assms(2,3)]) auto
  then show ?case
  proof (elim disjE exE conjE)
    assume "?f (i, j) (a, b, res) = Inr (a, b, res)"
    then show ?thesis using Cons.IH[of a b res] Cons.prems ij by simp
  next
    fix res'
    assume step: "?f (i, j) (a, b, res) = Inr (Suc i, Suc j, res')" "sep_inv L R (Suc i, Suc j, res')"
    have "\<forall>(i', j') \<in> set ijs. i' < length L \<and> j' < length R \<and> (Suc i \<le> i' \<or> Suc i = Suc i' \<and> Suc j \<le> j')"
      using Cons.prems(1,2) ij by (auto simp: lex_less_def)
    then show ?thesis using Cons.IH[of "Suc i" "Suc j" res'] step Cons.prems(1) ij by simp
  qed
qed simp

abbreviation pred_size :: "predicate \<Rightarrow> nat" where
  "pred_size \<equiv> pred_cost (\<lambda>_. Suc 0)"

lemma cost_one: "cost (\<lambda>_. Suc 0) c = length c"
  by (induction c) (simp_all add: cost_def)

lemma pred_cost_equation [simp]: "pred_cost g (create_equation l r) = cost g l + cost g r"
  by (simp add: pred_cost_def)

text \<open>Two different pieces are both smaller than what they were cut from.\<close>

lemma member_cost_less:
  assumes "finite A" and "p \<in> A" and "q \<in> A" and "q \<noteq> p" and "0 < f q" and "(\<Sum>x \<in> A. f x :: nat) \<le> n"
  shows "f p < n"
proof -
  have "f p + f q = (\<Sum>x \<in> {p, q}. f x)" using assms(4) by simp
  also have "\<dots> \<le> (\<Sum>x \<in> A. f x)" using assms(1-3) by (intro sum_mono2) auto
  finally show ?thesis using assms(5,6) by simp
qed

lemma other_member:
  assumes "distinct xs" and "1 < length xs"
  obtains y where "y \<in> set xs" and "y \<noteq> x"
proof -
  obtain a b ys where "xs = a # b # ys" using assms(2) by (cases xs rule: remdups_adj.cases) auto
  then have "a \<noteq> b" "a \<in> set xs" "b \<in> set xs" using assms(1) by auto
  then show ?thesis using that by metis
qed

definition separated :: "predicate \<Rightarrow> predicate list \<Rightarrow> bool" where
  "separated eq res \<longleftrightarrow>
     (\<forall>S \<sigma>. (\<forall>p \<in> set res. sat_pred S \<sigma> p) \<longleftrightarrow> sat_pred S \<sigma> eq) \<and>
     (\<forall>g. g (BasicTerm Literal []) = 0 \<longrightarrow> (\<Sum>p \<in> set res. pred_cost g p) \<le> pred_cost g eq) \<and>
     (\<forall>p \<in> set res. \<exists>l r. p = create_equation l r \<and> set l \<union> set r \<subseteq> insert (BasicTerm Literal []) (get_set eq)) \<and>
     (1 < length res \<longrightarrow> (\<forall>p \<in> set res. pred_size p < pred_size eq))"

lemma sep_invD:
  assumes "sep_inv L R (a, b, res)"
  shows "a \<le> length L" "b \<le> length R" "prefix_gather (take a L) = prefix_gather (take b R)"
    "(\<forall>p \<in> set res. sat_pred S \<sigma> p) \<longleftrightarrow> eval_concat \<sigma> (take a L) = eval_concat \<sigma> (take b R)"
    "(\<Sum>p \<in> set res. pred_cost g p) \<le> cost g (take a L) + cost g (take b R)"
    "res \<noteq> [] \<Longrightarrow> 0 < a \<and> 0 < b" "distinct res"
    "p \<in> set res \<Longrightarrow> \<exists>l r. p = create_equation l r \<and> l \<noteq> [] \<and> r \<noteq> [] \<and> set l \<subseteq> set L \<and> set r \<subseteq> set R"
  using assms by (simp_all add: sep_inv_def strict_sorted_iff)

lemma set_sides: "wf_pred p \<Longrightarrow> get_set p = set (get_left_side p) \<union> set (get_right_side p)"
  using wf_pred_params[of p] by (auto simp: get_set_def)

lemma sep_inv_pieces:
  assumes "sep_inv (get_left_side eq) (get_right_side eq) (a, b, res)" and "wf_pred eq" and "p \<in> set res"
  shows "\<exists>l r. p = create_equation l r \<and> set l \<union> set r \<subseteq> insert (BasicTerm Literal []) (get_set eq)"
  using sep_invD(8)[OF assms(1,3)] unfolding set_sides[OF assms(2)] by blast

lemma separated_complete:
  assumes wf: "wf_pred eq" "is_equation eq"
    and inv: "sep_inv (get_left_side eq) (get_right_side eq) (a, b, res)"
    and all: "take a (get_left_side eq) = get_left_side eq" "take b (get_right_side eq) = get_right_side eq"
  shows "separated eq res"
proof -
  have "pred_size p < pred_size eq" if "1 < length res" "p \<in> set res" for p
  proof -
    obtain q where q: "q \<in> set res" "q \<noteq> p" using other_member[OF sep_invD(7)[OF inv] \<open>1 < length res\<close>] by blast
    have "0 < pred_size q" using sep_invD(8)[OF inv q(1)] by (auto simp: cost_one)
    then show ?thesis
      using member_cost_less[of "set res" p q pred_size "pred_size eq"] that(2) q sep_invD(5)[OF inv, of "\<lambda>_. Suc 0"] all
      by (simp add: pred_cost_def)
  qed
  moreover have "(\<Sum>p \<in> set res. pred_cost g p) \<le> pred_cost g eq" for g
    using sep_invD(5)[OF inv, of g] all by (simp add: pred_cost_def)
  moreover have "(\<forall>p \<in> set res. sat_pred S \<sigma> p) \<longleftrightarrow> sat_pred S \<sigma> eq" for S \<sigma>
    using sep_invD(4)[OF inv, of S \<sigma>] all wf(2) by (simp add: sat_pred_equation)
  ultimately show ?thesis using sep_inv_pieces[OF inv wf(1)] unfolding separated_def by simp
qed

lemma eval_take_drop: "eval_concat \<sigma> c = eval_concat \<sigma> (take n c) @ eval_concat \<sigma> (drop n c)"
  using eval_concat_simps(3)[of \<sigma> "take n c" "drop n c"] by simp

lemma cost_take_drop: "cost g c = cost g (take n c) + cost g (drop n c)"
  using cost_append[of g "take n c" "drop n c"] by simp

lemma separated_with_rest:
  assumes wf: "wf_pred eq" "is_equation eq" and terms: "\<forall>t \<in> get_set eq. sep_term t"
    and inv: "sep_inv (get_left_side eq) (get_right_side eq) (a, b, res)"
    and rest: "drop a (get_left_side eq) \<noteq> [] \<or> drop b (get_right_side eq) \<noteq> []"
    and l: "l = (if drop a (get_left_side eq) = [] then [BasicTerm Literal []] else drop a (get_left_side eq))"
    and r: "r = (if drop b (get_right_side eq) = [] then [BasicTerm Literal []] else drop b (get_right_side eq))"
  shows "separated eq (sset_insert (create_equation l r) res)"
proof -
  let ?L = "get_left_side eq" and ?R = "get_right_side eq" and ?res = "sset_insert (create_equation l r) res"
  note set_eq = set_sides[OF wf(1)]
  have kinds: "\<forall>t \<in> set (take a ?L) \<union> set (take b ?R). is_variable t \<or> is_literal t"
    using terms unfolding set_eq by (auto simp: sep_term_def dest: in_set_takeD)
  have "(\<forall>p \<in> set ?res. sat_pred S \<sigma> p) \<longleftrightarrow> sat_pred S \<sigma> eq" for S \<sigma>
  proof -
    have "eval_concat \<sigma> l = eval_concat \<sigma> (drop a ?L)" "eval_concat \<sigma> r = eval_concat \<sigma> (drop b ?R)"
      by (simp_all add: l r)
    then show ?thesis
      using sep_invD(4)[OF inv, of S \<sigma>] gather_eq_length[OF sep_invD(3)[OF inv] kinds, of \<sigma>] wf(2)
      by (auto simp: sat_pred_equation eval_take_drop[of \<sigma> ?L a] eval_take_drop[of \<sigma> ?R b])
  qed
  moreover have "(\<Sum>p \<in> set ?res. pred_cost g p) \<le> pred_cost g eq" if "g (BasicTerm Literal []) = 0" for g
  proof -
    have "cost g l = cost g (drop a ?L)" "cost g r = cost g (drop b ?R)" using that by (simp_all add: l r cost_def)
    then show ?thesis
      using sum_insert_le[of "set res" "pred_cost g" "create_equation l r"] sep_invD(5)[OF inv, of g]
      by (simp add: pred_cost_def cost_take_drop[of g ?L a] cost_take_drop[of g ?R b])
  qed
  moreover have "set l \<union> set r \<subseteq> insert (BasicTerm Literal []) (get_set eq)"
    unfolding set_eq l r by (auto dest: in_set_dropD)
  then have "\<exists>l r. p = create_equation l r \<and> set l \<union> set r \<subseteq> insert (BasicTerm Literal []) (get_set eq)"
    if "p \<in> set ?res" for p
    using that sep_inv_pieces[OF inv wf(1), of p] by auto
  moreover have "pred_size p < pred_size eq" if "1 < length ?res" "p \<in> set ?res" for p
  proof -
    have ab: "0 < a" "0 < b" using that(1) sep_invD(6)[OF inv] by fastforce+
    have "length l + length r + a + b \<le> Suc (length ?L + length ?R)"
      using sep_invD(1,2)[OF inv] rest by (auto simp: l r)
    then have "pred_size (create_equation l r) < pred_size eq"
      using ab unfolding pred_cost_def cost_one sides_create_equation by linarith
    moreover have "pred_size q < pred_size eq" if "q \<in> set res" for q
      using member_le_sum[of q "set res" pred_size] sep_invD(5)[OF inv, of "\<lambda>_. Suc 0"] that rest
      by (auto simp: pred_cost_def cost_one)
    ultimately show ?thesis using that(2) by auto
  qed
  ultimately show ?thesis unfolding separated_def by blast
qed

lemma separate_rest_ok:
  assumes "wf_pred eq" "is_equation eq" and "\<forall>t \<in> get_set eq. sep_term t"
    and "sep_inv (get_left_side eq) (get_right_side eq) (a, b, res)"
  shows "separated eq (separate_rest eq (a, b, res))"
proof (cases "drop a (get_left_side eq) = [] \<and> drop b (get_right_side eq) = []")
  case True
  then show ?thesis using separated_complete[OF assms(1,2,4)] by (simp add: separate_rest_def)
next
  case False
  then have "separate_rest eq (a, b, res) = sset_insert (create_equation
      (if drop a (get_left_side eq) = [] then [BasicTerm Literal []] else drop a (get_left_side eq))
      (if drop b (get_right_side eq) = [] then [BasicTerm Literal []] else drop b (get_right_side eq))) res"
    unfolding separate_rest_def Let_def prod.case by (rule if_not_P)
  then show ?thesis using separated_with_rest[OF assms _ refl refl] False by simp
qed

lemma separate_eq_ok:
  assumes wf: "wf_pred eq" "is_equation eq" and terms: "\<forall>t \<in> get_set eq. sep_term t"
  shows "\<exists>res. separate_eq eq (get_concat_gather ([], 0) (get_left_side eq)) (get_concat_gather ([], 0) (get_right_side eq)) = Inr res \<and>
    separated eq res"
proof -
  let ?L = "get_left_side eq" and ?R = "get_right_side eq"
  have "sep_inv ?L ?R (0, 0, [])" by (simp add: sep_inv_def)
  moreover have "\<forall>t \<in> set ?L \<union> set ?R. sep_term t" using terms set_sides[OF wf(1)] by simp
  ultimately obtain a b res where loop: "for_each (separate_at eq (get_concat_gather ([], 0) ?L) (get_concat_gather ([], 0) ?R))
      (List.product [0..<length ?L] [0..<length ?R]) (0, 0, []) = Inr (a, b, res)" and inv: "sep_inv ?L ?R (a, b, res)"
    using separate_loop[of ?L ?R eq "List.product [0..<length ?L] [0..<length ?R]" 0 0 "[]"]
      sorted_product[of "[0..<length ?L]" "[0..<length ?R]"] by (auto simp: sorted_wrt_upt)
  then show ?thesis
    using separate_rest_ok[OF wf terms inv] by (simp add: separate_eq_def get_concat_gather_nth(1))
qed

section \<open>Cutting all equations\<close>

text \<open>The equations that were cut so far, and the pieces that will be stored.\<close>

definition sep_state :: "(nat \<rightharpoonup> predicate) \<Rightarrow> predicate list \<times> nat list \<Rightarrow> bool" where
  "sep_state m st \<longleftrightarrow> sorted_wrt (<) (snd st) \<and>
     (\<forall>i \<in> set (snd st). \<exists>p res. m i = Some p \<and> separated p res \<and> 1 < length res \<and> set res \<subseteq> set (fst st)) \<and>
     (\<forall>q \<in> set (fst st). \<exists>i \<in> set (snd st). \<exists>p res. m i = Some p \<and> separated p res \<and> q \<in> set res) \<and>
     (\<forall>g. g (BasicTerm Literal []) = 0 \<longrightarrow>
        (\<Sum>q \<in> set (fst st). pred_cost g q) \<le> (\<Sum>i \<in> set (snd st). pred_cost g (the (m i))))"

lemma sep_state_add:
  assumes "sep_state m (add, rem)" and "i \<notin> set rem" and p: "m i = Some p" "separated p res" "1 < length res"
  shows "sep_state m (fold sset_insert res add, sset_insert i rem)"
proof -
  have "(\<Sum>q \<in> set res \<union> set add. pred_cost g q) \<le> (\<Sum>j \<in> insert i (set rem). pred_cost g (the (m j)))"
    if "g (BasicTerm Literal []) = 0" for g
  proof -
    have "(\<Sum>q \<in> set res \<union> set add. pred_cost g q) \<le> (\<Sum>q \<in> set res. pred_cost g q) + (\<Sum>q \<in> set add. pred_cost g q)"
      by (simp add: sum_Un_nat)
    moreover have "(\<Sum>q \<in> set res. pred_cost g q) \<le> pred_cost g p" using p(2) that by (simp add: separated_def)
    moreover have "(\<Sum>q \<in> set add. pred_cost g q) \<le> (\<Sum>j \<in> set rem. pred_cost g (the (m j)))"
      using assms(1) that by (simp add: sep_state_def)
    ultimately show ?thesis using assms(2) p(1) by simp
  qed
  moreover have "\<exists>p res'. m j = Some p \<and> separated p res' \<and> 1 < length res' \<and> set res' \<subseteq> set res \<union> set add"
    if "j \<in> insert i (set rem)" for j
    using that assms(1) p unfolding sep_state_def by (cases "j = i") (fastforce+)
  moreover have "\<exists>j \<in> insert i (set rem). \<exists>p res'. m j = Some p \<and> separated p res' \<and> q \<in> set res'"
    if "q \<in> set res \<union> set add" for q
    using that assms(1) p unfolding sep_state_def by fastforce
  ultimately show ?thesis using assms(1) by (simp add: sep_state_def)
qed

lemma separate_preds_ok:
  assumes "distinct (map fst prs)" and "\<forall>(i, p) \<in> set prs. m i = Some p \<and> wf_pred p \<and> (is_equation p \<longrightarrow> (\<forall>t \<in> get_set p. sep_term t))"
    and "sep_state m (add, rem)" and "set rem \<inter> fst ` set prs = {}"
  shows "\<exists>st. for_each separate_pred prs (add, rem) = Inr st \<and> sep_state m st"
  using assms
proof (induction prs arbitrary: add rem)
  case (Cons pr prs)
  obtain i p where pr: "pr = (i, p)" by (cases pr)
  have p: "m i = Some p" "wf_pred p" "is_equation p \<Longrightarrow> \<forall>t \<in> get_set p. sep_term t" and i: "i \<notin> set rem" "i \<notin> fst ` set prs"
    using Cons.prems pr by auto
  obtain add' rem' where step: "separate_pred pr (add, rem) = Inr (add', rem')" "sep_state m (add', rem')"
      "set rem' \<subseteq> insert i (set rem)"
  proof (cases "is_equation p")
    case True
    obtain res where res: "separate_eq p (get_concat_gather ([], 0) (get_left_side p)) (get_concat_gather ([], 0) (get_right_side p)) = Inr res"
        "separated p res"
      using separate_eq_ok[OF p(2) True p(3)[OF True]] by blast
    show ?thesis
    proof (cases "1 < length res")
      case big: True
      then show ?thesis
        using that[of "fold sset_insert res add" "sset_insert i rem"] sep_state_add[OF Cons.prems(3) i(1) p(1) res(2) big] True res(1) pr
        by (simp add: separate_pred_def)
    next
      case False
      then show ?thesis using that[of add rem] Cons.prems(3) True res(1) pr by (auto simp: separate_pred_def)
    qed
  next
    case False
    then show ?thesis using that[of add rem] Cons.prems(3) pr by (auto simp: separate_pred_def)
  qed
  have "set rem' \<inter> fst ` set prs = {}" using step(3) i(2) Cons.prems(4) pr by auto
  then show ?case using Cons.IH[OF _ _ step(2)] Cons.prems(1,2) step(1) pr by simp
qed simp

lemma sep_state_sat:
  assumes st: "sep_state m (add, rem)" and fin: "F = (ran m \<union> set add) - {p. \<exists>i \<in> set rem. m i = Some p}"
  shows "(\<forall>p \<in> F. sat_pred S \<sigma> p) \<longleftrightarrow> (\<forall>p \<in> ran m. sat_pred S \<sigma> p)"
proof
  assume sat: "\<forall>p \<in> F. sat_pred S \<sigma> p"
  have "sat_pred S \<sigma> q" if "q \<in> ran m \<union> set add" for q
    using that
  proof (induction "pred_size q" arbitrary: q rule: less_induct)
    case less
    show ?case
    proof (cases "q \<in> F")
      case False
      then obtain i where i: "i \<in> set rem" "m i = Some q" using less.prems fin by auto
      then obtain res where res: "separated q res" "1 < length res" "set res \<subseteq> set add"
        using st by (fastforce simp: sep_state_def)
      then have "\<forall>p \<in> set res. pred_size p < pred_size q" by (simp add: separated_def)
      then have "\<forall>p \<in> set res. sat_pred S \<sigma> p" using less.hyps res(3) by blast
      then show ?thesis using res(1) by (simp add: separated_def)
    qed (use sat in blast)
  qed
  then show "\<forall>p \<in> ran m. sat_pred S \<sigma> p" by blast
next
  assume sat: "\<forall>p \<in> ran m. sat_pred S \<sigma> p"
  have "sat_pred S \<sigma> q" if "q \<in> set add" for q
  proof -
    obtain i p res where p: "m i = Some p" "separated p res" "q \<in> set res"
      using st \<open>q \<in> set add\<close> by (fastforce simp: sep_state_def)
    then have "sat_pred S \<sigma> p" using sat by (auto intro: ranI)
    then show ?thesis using p(2,3) unfolding separated_def by blast
  qed
  then show "\<forall>p \<in> F. sat_pred S \<sigma> p" using sat fin by blast
qed

lemma sep_state_cost:
  assumes st: "sep_state m (add, rem)" and fin: "F = (ran m \<union> set add) - {p. \<exists>i \<in> set rem. m i = Some p}"
    and m: "finite (ran m)" "\<forall>i j p. m i = Some p \<longrightarrow> m j = Some p \<longrightarrow> i = j" and g: "g (BasicTerm Literal []) = 0"
  shows "(\<Sum>p \<in> F. pred_cost g p) \<le> (\<Sum>p \<in> ran m. pred_cost g p)"
proof -
  let ?D = "{p. \<exists>i \<in> set rem. m i = Some p}"
  have D: "?D \<subseteq> ran m" by (auto intro: ranI)
  have rem: "m i = Some (the (m i))" if "i \<in> set rem" for i using st that by (fastforce simp: sep_state_def)
  have "?D = (\<lambda>i. the (m i)) ` set rem" using rem by force
  moreover have "inj_on (\<lambda>i. the (m i)) (set rem)"
  proof (rule inj_onI)
    fix i j
    assume "i \<in> set rem" "j \<in> set rem" "the (m i) = the (m j)"
    then have "m i = Some (the (m j))" "m j = Some (the (m j))" using rem[of i] rem[of j] by simp_all
    then show "i = j" using m(2) by blast
  qed
  ultimately have sumD: "(\<Sum>p \<in> ?D. pred_cost g p) = (\<Sum>i \<in> set rem. pred_cost g (the (m i)))"
    by (simp add: sum.reindex comp_def)
  have "(\<Sum>p \<in> F. pred_cost g p) \<le> (\<Sum>p \<in> (ran m - ?D) \<union> set add. pred_cost g p)"
    unfolding fin using m(1) by (intro sum_mono2) auto
  also have "\<dots> \<le> (\<Sum>p \<in> ran m - ?D. pred_cost g p) + (\<Sum>p \<in> set add. pred_cost g p)"
    using m(1) by (simp add: sum_Un_nat)
  also have "\<dots> \<le> (\<Sum>p \<in> ran m - ?D. pred_cost g p) + (\<Sum>p \<in> ?D. pred_cost g p)"
    using st g unfolding sumD by (simp add: sep_state_def)
  also have "\<dots> = (\<Sum>p \<in> ran m. pred_cost g p)" using sum.subset_diff[OF D m(1), of "pred_cost g"] by simp
  finally show ?thesis .
qed

lemma ran_add_remove:
  assumes ok: "fv_ok fv" and rem: "distinct rem" "set rem \<subseteq> dom (fv_map fv)"
  shows "fv_ok (fold remove_predicate rem (add_predicates add fv))"
    "ran (fv_map (fold remove_predicate rem (add_predicates add fv))) =
       (ran (fv_map fv) \<union> set add) - {p. \<exists>i \<in> set rem. fv_map fv i = Some p}"
proof -
  let ?a = "add_predicates add fv"
  have added: "fv_ok ?a" "ran (fv_map ?a) = ran (fv_map fv) \<union> set add"
      "\<And>i q. fv_map fv i = Some q \<Longrightarrow> fv_map ?a i = Some q"
    using fv.add_all[OF ok, of add] by (auto simp: add_predicates_def)
  have "set rem \<subseteq> dom (fv_map ?a)" using rem(2) added(3) by blast
  then have removed: "fv_ok (fold remove_predicate rem ?a)" "fv_map (fold remove_predicate rem ?a) = fv_map ?a |` (- set rem)"
    using fv.rem_all[OF added(1) rem(1)] by simp_all
  show "fv_ok (fold remove_predicate rem ?a)" by (rule removed(1))
  have at: "fv_map ?a i = fv_map fv i" if "i \<in> set rem" for i
    using that rem(2) added(3)[of i] by (metis domIff option.exhaust subsetD)
  have inj: "i = j" if "fv_map ?a i = Some p" "fv_map ?a j = Some p" for i j p
    using added(1) that by (simp add: fv_ok_def)
  have "p \<in> ran (fv_map ?a |` (- set rem)) \<longleftrightarrow> p \<in> ran (fv_map ?a) \<and> \<not> (\<exists>i \<in> set rem. fv_map fv i = Some p)" for p
  proof
    assume "p \<in> ran (fv_map ?a |` (- set rem))"
    then obtain i where i: "i \<notin> set rem" "fv_map ?a i = Some p" by (auto simp: ran_def restrict_map_def split: if_splits)
    then have "\<not> (\<exists>j \<in> set rem. fv_map fv j = Some p)" using at inj[OF i(2)] by metis
    then show "p \<in> ran (fv_map ?a) \<and> \<not> (\<exists>i \<in> set rem. fv_map fv i = Some p)" using i(2) by (auto intro: ranI)
  next
    assume p: "p \<in> ran (fv_map ?a) \<and> \<not> (\<exists>i \<in> set rem. fv_map fv i = Some p)"
    then obtain i where "fv_map ?a i = Some p" by (auto simp: ran_def)
    moreover have "i \<notin> set rem" using p at calculation by metis
    ultimately show "p \<in> ran (fv_map ?a |` (- set rem))" by (auto simp: ran_def restrict_map_def)
  qed
  then show "ran (fv_map (fold remove_predicate rem ?a)) = (ran (fv_map fv) \<union> set add) - {p. \<exists>i \<in> set rem. fv_map fv i = Some p}"
    unfolding removed(2) added(2) by blast
qed

text \<open>The same solutions, no quantity grows, and new equations are over old terms.\<close>

definition separates :: "predicate set \<Rightarrow> predicate set \<Rightarrow> bool" where
  "separates P Q \<longleftrightarrow> (\<forall>S \<sigma>. (\<forall>q \<in> Q. sat_pred S \<sigma> q) \<longleftrightarrow> (\<forall>p \<in> P. sat_pred S \<sigma> p)) \<and>
     (\<forall>g. g (BasicTerm Literal []) = 0 \<longrightarrow> (\<Sum>q \<in> Q. pred_cost g q) \<le> (\<Sum>p \<in> P. pred_cost g p)) \<and>
     (\<forall>q \<in> Q. q \<in> P \<or> (\<exists>p \<in> P. \<exists>l r. q = create_equation l r \<and>
          set l \<union> set r \<subseteq> insert (BasicTerm Literal []) (get_set p)))"

lemma separate_eqs_ok:
  assumes ok: "fv_ok (prep_formula pp)"
    and preds: "\<forall>p \<in> ran (fv_map (prep_formula pp)). wf_pred p \<and> (is_equation p \<longrightarrow> (\<forall>t \<in> get_set p. sep_term t))"
  shows "\<exists>fv. separate_eqs pp = Inr (pp\<lparr>prep_formula := fv\<rparr>) \<and> fv_ok fv \<and>
    separates (ran (fv_map (prep_formula pp))) (ran (fv_map fv))"
proof -
  let ?fv = "prep_formula pp" and ?m = "fv_map (prep_formula pp)"
  have prs: "\<forall>(i, p) \<in> set (fv_predicates ?fv). ?m i = Some p \<and> wf_pred p \<and> (is_equation p \<longrightarrow> (\<forall>t \<in> get_set p. sep_term t))"
  proof safe
    fix i p
    assume "(i, p) \<in> set (fv_predicates ?fv)"
    then show at: "?m i = Some p" using ok by (simp add: fv_ok_def fv_map_def map_ok_in_set)
    then have "p \<in> ran ?m" by (rule ranI)
    then show "wf_pred p" and "\<And>t. is_equation p \<Longrightarrow> t \<in> get_set p \<Longrightarrow> sep_term t" using preds by auto
  qed
  have dist: "distinct (map fst (fv_predicates ?fv))" using ok by (simp add: fv_ok_def map_ok_distinct)
  have "sep_state ?m ([], [])" by (simp add: sep_state_def)
  then obtain add rem where loop: "for_each separate_pred (fv_predicates ?fv) ([], []) = Inr (add, rem)"
    and st: "sep_state ?m (add, rem)"
    using separate_preds_ok[OF dist prs, of "[]" "[]"] by auto
  define fv where "fv = fold remove_predicate rem (add_predicates add ?fv)"
  have "distinct rem" "set rem \<subseteq> dom ?m" using st by (auto simp: sep_state_def strict_sorted_iff)
  then have fv_ok: "fv_ok fv" and F: "ran (fv_map fv) = (ran ?m \<union> set add) - {p. \<exists>i \<in> set rem. ?m i = Some p}"
    using ran_add_remove[OF ok, of rem add] by (simp_all add: fv_def)
  have "finite (ran ?m)" "\<forall>i j p. ?m i = Some p \<longrightarrow> ?m j = Some p \<longrightarrow> i = j"
    using ok fv_ok_ran[OF ok] by (simp_all add: fv_ok_def)
  then have "\<forall>g. g (BasicTerm Literal []) = 0 \<longrightarrow> (\<Sum>p \<in> ran (fv_map fv). pred_cost g p) \<le> (\<Sum>p \<in> ran ?m. pred_cost g p)"
    using sep_state_cost[OF st F] by blast
  moreover have "q \<in> ran ?m \<or> (\<exists>p \<in> ran ?m. \<exists>l r. q = create_equation l r \<and>
      set l \<union> set r \<subseteq> insert (BasicTerm Literal []) (get_set p))" if q: "q \<in> ran (fv_map fv)" for q
  proof (cases "q \<in> ran ?m")
    case False
    then have "q \<in> set add" using q unfolding F by blast
    then obtain i p res where p: "?m i = Some p" "separated p res" "q \<in> set res"
      using st by (fastforce simp: sep_state_def)
    then show ?thesis using ranI[of ?m i p] unfolding separated_def by blast
  qed simp
  ultimately have "separates (ran ?m) (ran (fv_map fv))"
    unfolding separates_def using sep_state_sat[OF st F] by simp
  moreover have "separate_eqs pp = Inr (pp\<lparr>prep_formula := fv\<rparr>)"
    using loop by (simp add: separate_eqs_def remove_all_def fv_def)
  ultimately show ?thesis using fv_ok by blast
qed

end
