(* ===== verification/Nielsen_Preprocess.thy ===== *)
theory Nielsen_Preprocess
  imports Nielsen_Procedure Preprocess_Separation
begin

text \<open>
  The preprocessing of the Nielsen procedure (\<open>NielsenDecisionProcedure::preprocess\<close>) and its
  composition with the search for a solution.
\<close>

section \<open>The preprocessing\<close>

text \<open>
  The preprocessor gets a copy of the formula. It does not touch the automata, and the
  length-sensitive variables come back as they were.
\<close>

definition nielsen_preprocess ::
    "nat \<Rightarrow> 'a aut_assignment \<Rightarrow> bool \<Rightarrow> nielsen_proc \<Rightarrow> (lbool \<times> nielsen_proc) res" where
  "nielsen_preprocess uninit aa red np =
     bind_res (separate_eqs (new_prep uninit (np_formula np) aa (set (np_len_vars np)) red
                 (np_produce_models np) {} (np_fresh np))) (\<lambda>pp.
       Inr (l_undef, np\<lparr>np_formula := formula_split_literals (get_modified_formula pp)\<rparr>))"

section \<open>Correctness\<close>

lemma cost_count: "cost (\<lambda>t. of_bool (t = x)) c = count_list c x"
  by (induction c) (simp_all add: cost_def)

lemma sum_set_le_sum_list: "(\<Sum>x \<in> set xs. f x :: nat) \<le> sum_list (map f xs)"
proof (induction xs)
  case (Cons a xs)
  then show ?case using sum_insert_le[of "set xs" f a] by simp
qed simp

lemma formula_occurrences_cost:
  "formula_occurrences f x = sum_list (map (pred_cost (\<lambda>t. of_bool (t = x))) f)"
  by (simp add: formula_occurrences_def pred_cost_def[abs_def] cost_count)

lemma count_split_concat: "is_variable x \<Longrightarrow> count_list (split_concat c) x = count_list c x"
proof (induction c)
  case (Cons t c)
  have "count_list (map (\<lambda>ch. BasicTerm Literal [ch]) w) x = 0" for w
    using Cons.prems by (induction w) auto
  then show ?case using Cons by (auto simp: split_concat_def variable_not_literal)
qed (simp add: split_concat_def)

lemma formula_occurrences_split:
  assumes "\<forall>p \<in> set f. wf_pred p" and "is_variable x"
  shows "formula_occurrences (formula_split_literals f) x = formula_occurrences f x"
proof -
  have "count_list (get_left_side (pred_split_literals p)) x = count_list (get_left_side p) x"
    "count_list (get_right_side (pred_split_literals p)) x = count_list (get_right_side p) x" if "wf_pred p" for p
    using that count_split_concat[OF assms(2)] by (simp_all add: pred_split_literals_def side_defs wf_pred_def)
  then show ?thesis
    unfolding formula_occurrences_def formula_split_literals_def
    using assms(1) by (simp add: comp_def cong: map_cong)
qed

definition separable :: "predicate \<Rightarrow> bool" where
  "separable p \<longleftrightarrow> wf_pred p \<and> is_equation p \<and> (\<forall>t \<in> get_set p. sep_term t)"

lemma split_literals_pred:
  assumes "wf_pred p" and "is_equation p" and "\<forall>t \<in> get_set p. is_variable t \<or> is_literal t"
  shows "nielsen_pred (pred_split_literals p)" "sat_pred R \<sigma> (pred_split_literals p) = sat_pred R \<sigma> p"
proof -
  have two: "length (params p) = 2" and set: "get_set p = set (get_left_side p) \<union> set (get_right_side p)"
    using assms(1) set_sides by (simp_all add: wf_pred_def)
  have sides: "get_left_side (pred_split_literals p) = split_concat (get_left_side p)"
    "get_right_side (pred_split_literals p) = split_concat (get_right_side p)"
    using two by (simp_all add: pred_split_literals_def side_defs)
  have "nielsen_term u" if "u \<in> set (split_concat c)" "set c \<subseteq> get_set p" for u c
    using that assms(3) by (auto simp: split_concat_def nielsen_term_def split: if_splits)
  moreover have "wf_pred (pred_split_literals p)" "is_equation (pred_split_literals p)"
    using assms(1,2) by (simp_all add: pred_split_literals_def wf_pred_def pred_kind_defs)
  ultimately show "nielsen_pred (pred_split_literals p)"
    unfolding nielsen_pred_def sides using set by auto
  show "sat_pred R \<sigma> (pred_split_literals p) = sat_pred R \<sigma> p"
    using \<open>is_equation (pred_split_literals p)\<close> assms(2) by (simp add: sat_pred_equation sides)
qed

lemma all_equations: "\<forall>p \<in> set f. is_equation p \<Longrightarrow> all_of_type f Equation"
  by (induction f) (auto simp: pred_kind_defs)

lemma separates_occurrences:
  assumes "separates P (set g)" and "P \<subseteq> set f" and "distinct g" and x: "is_variable x"
  shows "formula_occurrences g x \<le> formula_occurrences f x"
proof -
  let ?c = "pred_cost (\<lambda>t. of_bool (t = x))"
  have "x \<noteq> BasicTerm Literal []" using x by auto
  then have "(\<Sum>p \<in> set g. ?c p) \<le> (\<Sum>p \<in> P. ?c p)" using assms(1) by (simp add: separates_def)
  also have "\<dots> \<le> (\<Sum>p \<in> set f. ?c p)" using assms(2) by (intro sum_mono2) auto
  also have "\<dots> \<le> formula_occurrences f x" unfolding formula_occurrences_cost by (rule sum_set_le_sum_list)
  finally show ?thesis unfolding formula_occurrences_cost sum_list_distinct_conv_sum_set[OF assms(3)] .
qed

lemma nielsen_preprocess_ok:
  assumes f: "\<forall>p \<in> set (np_formula np). separable p" and quad: "is_quadratic (np_formula np)"
  shows "\<exists>g. nielsen_preprocess uninit aa red np = Inr (l_undef, np\<lparr>np_formula := g\<rparr>) \<and>
    nielsen_formula g \<and> is_quadratic g \<and> (\<forall>R \<sigma>. sat_formula R \<sigma> g \<longleftrightarrow> sat_formula R \<sigma> (np_formula np))"
proof -
  let ?f = "np_formula np"
  define pp where "pp = new_prep uninit ?f aa (set (np_len_vars np)) red (np_produce_models np) {} (np_fresh np)"
  let ?m = "fv_map (prep_formula pp)"
  have fv: "fv_ok (prep_formula pp)" "ran ?m = {p \<in> set ?f. get_left_side p \<noteq> get_right_side p}"
    using new_formula_var_ok[of uninit ?f] f by (auto simp: pp_def new_prep_def separable_def)
  have "\<forall>p \<in> ran ?m. wf_pred p \<and> (is_equation p \<longrightarrow> (\<forall>t \<in> get_set p. sep_term t))"
    using f fv(2) by (auto simp: separable_def)
  then obtain fv where run: "separate_eqs pp = Inr (pp\<lparr>prep_formula := fv\<rparr>)" "fv_ok fv"
    and sep: "separates (ran ?m) (ran (fv_map fv))"
    using separate_eqs_ok[OF fv(1)] by blast
  have sat: "(\<forall>p \<in> ran (fv_map fv). sat_pred S \<sigma> p) \<longleftrightarrow> (\<forall>p \<in> ran ?m. sat_pred S \<sigma> p)" for S \<sigma>
    using sep by (simp add: separates_def)
  have shape: "q \<in> ran ?m \<or> (\<exists>p \<in> ran ?m. \<exists>l r. q = create_equation l r \<and>
      set l \<union> set r \<subseteq> insert (BasicTerm Literal []) (get_set p))" if "q \<in> ran (fv_map fv)" for q
    using sep that unfolding separates_def by blast
  let ?g = "formula_split_literals (fv_allpreds fv)"
  have preds: "set (fv_allpreds fv) = ran (fv_map fv)" "distinct (fv_allpreds fv)"
    using run(2) by (simp_all add: fv_ok_def strict_sorted_iff)
  have ok: "wf_pred q \<and> is_equation q \<and> (\<forall>t \<in> get_set q. is_variable t \<or> is_literal t)" if "q \<in> set (fv_allpreds fv)" for q
    using shape[of q] that preds(1) f fv(2) set_sides[of q] by (fastforce simp: separable_def sep_term_def)
  have "nielsen_formula ?g"
    using split_literals_pred(1) ok by (auto simp: nielsen_formula_def formula_split_literals_def)
  moreover have "sat_formula R \<sigma> ?g \<longleftrightarrow> sat_formula R \<sigma> ?f" for R \<sigma>
  proof -
    have "sat_formula R \<sigma> ?g \<longleftrightarrow> (\<forall>p \<in> ran ?m. sat_pred R \<sigma> p)"
      using split_literals_pred(2) ok sat[of R \<sigma>] preds(1) by (simp add: sat_formula_def formula_split_literals_def)
    also have "\<dots> \<longleftrightarrow> sat_formula R \<sigma> ?f"
      using f fv(2) by (auto simp: sat_formula_def separable_def sat_pred_equation)
    finally show ?thesis .
  qed
  moreover have "formula_occurrences ?g x \<le> 2" if x: "is_variable x" for x
  proof -
    have "formula_occurrences (fv_allpreds fv) x \<le> formula_occurrences ?f x"
      using separates_occurrences[OF _ _ preds(2) x, of "ran ?m" ?f] sep preds(1) fv(2) by auto
    then show ?thesis
      using quad x formula_occurrences_split[of "fv_allpreds fv" x] ok is_quadratic_iff[of ?f] by fastforce
  qed
  then have "is_quadratic ?g"
    using calculation(1) by (auto simp: is_quadratic_iff nielsen_formula_def nielsen_pred_def)
  moreover have "nielsen_preprocess uninit aa red np = Inr (l_undef, np\<lparr>np_formula := ?g\<rparr>)"
    using run(1) by (simp add: nielsen_preprocess_def pp_def get_modified_formula_def)
  ultimately show ?thesis by blast
qed

definition example_assignment :: "zstring set aut_assignment" where
  "example_assignment = \<lparr>aut_entries = [], aut_alphabet = \<lparr>alph_symbols = [], alph_hash = 0\<rparr>\<rparr>"



end
