(* ===== verification/Preprocess_Models.thy ===== *)
theory Preprocess_Models
  imports Preprocess
begin

text \<open>
  What a state of the preprocessor means: the assignments that satisfy its predicates, its
  languages and its substitutions. The invariant of the state, the effect of restricting
  languages and of substituting a variable, and the properties of the steps that neither
  gain nor lose an assignment.
\<close>

section \<open>Terms in a formula\<close>

definition fv_within :: "basic_term set \<Rightarrow> formula_var \<Rightarrow> bool" where
  "fv_within K fv \<longleftrightarrow> fst ` set (fv_varmap fv) \<subseteq> K \<and> (\<forall>p \<in> snd ` set (fv_predicates fv). get_set p \<subseteq> K)"

lemma fv_withinD: "fv_within K fv \<Longrightarrow> fv_map fv i = Some p \<Longrightarrow> get_set p \<subseteq> K"
  unfolding fv_within_def fv_map_def by (fastforce dest: map_of_SomeD)

lemma fv_within_ran: "fv_within K fv \<Longrightarrow> p \<in> ran (fv_map fv) \<Longrightarrow> get_set p \<subseteq> K"
  unfolding ran_def using fv_withinD by blast

lemma keys_fold_occurrences:
  "fst ` set (fold (remove_occurrences i) ts vm) = set ts \<union> fst ` set vm"
  by (induction ts arbitrary: vm) (auto simp: remove_occurrences_def)

lemma set_map_erase: "set (map_erase k m) = {e \<in> set m. fst e \<noteq> k}"
  by (auto simp: map_erase_def)

lemma fv_within_remove:
  assumes "fv_within K fv"
  shows "fv_within K (remove_predicate i fv)"
proof -
  have "get_set (case map_of (fv_predicates fv) i of None \<Rightarrow> Predicate Equation [] None | Some p \<Rightarrow> p) \<subseteq> K"
    using fv_withinD[OF assms, of i] by (auto simp: fv_map_def get_set_def split: option.split)
  then show ?thesis
    using assms by (auto simp: fv_within_def remove_predicate_def Let_def keys_fold_occurrences set_map_erase)
qed

lemma fv_within_remove_all: "fv_within K fv \<Longrightarrow> fv_within K (fold remove_predicate is fv)"
  by (induction "is" arbitrary: fv) (auto simp: fv_within_remove)

lemma get_var_positions_terms:
  assumes "wf_pred p" and "n \<in> set (get_var_positions p i True)"
  shows "vn_term n \<in> get_set p"
  using assms pred_nodes_wf[OF assms(1), of i] wf_pred_params[OF assms(1)]
  by (auto simp: pred_nodes_def get_set_def)

lemma keys_set_insert: "fst ` set (map_set_insert k v vm) = insert k (fst ` set vm)"
  by (simp add: map_set_insert_def split: option.split)

lemma keys_fold_set_insert: "fst ` set (fold (\<lambda>n. map_set_insert (f n) n) ns vm) = f ` set ns \<union> fst ` set vm"
  by (induction ns arbitrary: vm) (simp_all add: keys_set_insert)

lemma set_map_put: "set (map_put k v m) \<subseteq> insert (k, v) (set m)"
  by (induction k v m rule: map_put.induct) auto

lemma fv_within_store:
  assumes "fv_within K fv" and "wf_pred p" and "get_set p \<subseteq> K"
    and "fv_predicates fv' = map_put i p (fv_predicates fv)" and "fv_varmap fv' = update_varmap p i (fv_varmap fv)"
  shows "fv_within K fv'"
proof -
  have "vn_term ` set (get_var_positions p i True) \<subseteq> K"
    using get_var_positions_terms[OF assms(2)] assms(3) by blast
  then have "fst ` set (fv_varmap fv') \<subseteq> K"
    using assms(1,5) by (simp add: fv_within_def update_varmap_def keys_fold_set_insert)
  moreover have "snd ` set (fv_predicates fv') \<subseteq> insert p (snd ` set (fv_predicates fv))"
    using set_map_put[of i p "fv_predicates fv"] unfolding assms(4) by fastforce
  moreover have "\<forall>q \<in> insert p (snd ` set (fv_predicates fv)). get_set q \<subseteq> K"
    using assms(1,3) by (simp add: fv_within_def)
  ultimately show ?thesis unfolding fv_within_def by (meson subsetD)
qed

lemma fv_within_add:
  assumes "fv_within K fv" and "wf_pred p" and "get_set p \<subseteq> K"
  shows "fv_within K (snd (add_predicate p index fv))"
  unfolding add_predicate_def Let_def
  by (auto simp: assms(1) intro: fv_within_store[OF assms] split: option.split)

lemma fv_within_update:
  "fv_within K fv \<Longrightarrow> wf_pred p \<Longrightarrow> get_set p \<subseteq> K \<Longrightarrow> fv_within K (update_predicate i p fv)"
  unfolding update_predicate_def by (intro fv_within_add fv_within_remove)

lemma get_set_subst_subset: "get_set (subst_pred x r p) \<subseteq> get_set p \<union> set r"
proof -
  have "set (subst_concat x r c) \<subseteq> set c \<union> set r" for c by (induction c) auto
  then show ?thesis by (fastforce simp: get_set_def)
qed

lemma fv_within_replace:
  assumes "fv_within K fv" and "\<forall>(i, p) \<in> set (fv_predicates fv). wf_pred p" and "set r \<subseteq> K"
    and "fv_replace [x] r fv = Inr fv'"
  shows "fv_within K fv'"
proof -
  define rs where "rs = map (\<lambda>(i, p). (i, subst_pred x r p)) (filter (\<lambda>(i, p). x \<in> get_set p) (fv_predicates fv))"
  have run: "fv' = fold (\<lambda>(i, q). update_predicate i q) rs fv"
    using assms(4) by (simp add: fv_replace_def replaced_predicates_single rs_def)
  have "wf_pred q \<and> get_set q \<subseteq> K" if "(i, q) \<in> set rs" for i q
  proof -
    obtain p where p: "(i, p) \<in> set (fv_predicates fv)" "q = subst_pred x r p" using \<open>(i, q) \<in> set rs\<close> by (auto simp: rs_def)
    then have "get_set p \<subseteq> K" using assms(1) by (force simp: fv_within_def)
    then have "get_set q \<subseteq> K" using get_set_subst_subset[of x r p] assms(3) p(2) by auto
    moreover have "wf_pred q" using p assms(2) by auto
    ultimately show ?thesis by blast
  qed
  then have "\<forall>(i, q) \<in> set rs. wf_pred q \<and> get_set q \<subseteq> K" by auto
  then show ?thesis using assms(1) unfolding run
    by (induction rs arbitrary: fv) (auto simp: fv_within_update)
qed

lemma fv_within_erase:
  assumes "fv_within K fv" and "\<And>p. p \<in> snd ` set (fv_predicates fv) \<Longrightarrow> x \<notin> get_set p"
  shows "fv_within (K - {x}) (remove_var_from_varmap x fv)"
  using assms unfolding fv_within_def remove_var_from_varmap_def by (auto simp: set_map_erase)

lemma remove_missing:
  assumes "\<forall>p \<in> ran (fv_map fv). wf_pred p" and "fv_ok fv" and "fv_map fv i = None"
  shows "remove_predicate i fv = fv"
proof -
  have "filter (\<lambda>q. q \<noteq> Predicate Equation [] None) (fv_allpreds fv) = fv_allpreds fv"
  proof (rule filter_True, rule ballI)
    fix q
    assume "q \<in> set (fv_allpreds fv)"
    then have "wf_pred q" using assms(1,2) by (simp add: fv_ok_def)
    then show "q \<noteq> Predicate Equation [] None" by (auto simp: wf_pred_def)
  qed
  moreover have "map_erase i (fv_predicates fv) = fv_predicates fv"
    using assms(3) unfolding map_erase_def fv_map_def map_of_eq_None_iff by (auto intro!: filter_True)
  ultimately show ?thesis
    using assms(3) by (simp add: remove_predicate_def Let_def get_set_def fv_map_def)
qed

lemma remove_predicate_any:
  assumes "\<forall>p \<in> ran (fv_map fv). wf_pred p" and "fv_ok fv"
  shows "fv_ok (remove_predicate i fv) \<and> fv_map (remove_predicate i fv) = (fv_map fv)(i := None)"
  using fv_ok_remove[OF assms(2), of i] remove_missing[OF assms, of i] assms(2)
  by (cases "fv_map fv i") auto

lemma map_nodes_term:
  "(\<exists>n \<in> map_nodes m. vn_term n = x) \<longleftrightarrow> (\<exists>i p. m i = Some p \<and> (\<exists>n \<in> pred_nodes i p. vn_term n = x))"
  unfolding map_nodes_def by force

lemma fv_occurs_iff:
  assumes "fv_ok fv" and "\<forall>p \<in> ran (fv_map fv). wf_pred p"
  shows "var_occurs fv x \<longleftrightarrow> (\<exists>p \<in> ran (fv_map fv). x \<in> get_set p)"
proof -
  have node: "(\<exists>n \<in> pred_nodes i p. vn_term n = x) \<longleftrightarrow> x \<in> get_set p" if "fv_map fv i = Some p" for i p
  proof -
    have wf: "wf_pred p" using assms(2) that by (auto intro: ranI)
    then show ?thesis
      unfolding pred_nodes_wf[OF wf] get_set_def wf_pred_params[OF wf] by (force simp: in_set_conv_nth)
  qed
  have "var_occurs fv x \<longleftrightarrow> set (occurrences (fv_varmap fv) x) \<noteq> {}"
    unfolding set_empty by (simp add: var_occurs_def occurrences_def split: option.split)
  also have "\<dots> \<longleftrightarrow> (\<exists>n \<in> map_nodes (fv_map fv). vn_term n = x)"
    using assms(1) by (auto simp: fv_ok_def index_ok_def)
  also have "\<dots> \<longleftrightarrow> (\<exists>i p. fv_map fv i = Some p \<and> x \<in> get_set p)"
    unfolding map_nodes_term by (simp add: node cong: conj_cong)
  finally show ?thesis by (auto simp: ran_def)
qed

section \<open>The meaning of a state\<close>

text \<open>
  An assignment respects the languages if every term of the automata assignment has a value
  in its language. It is a model of a state if it moreover satisfies the predicates and the
  substitutions that the steps recorded.
\<close>

definition langs_ok :: "('a \<Rightarrow> zstring set) \<Rightarrow> 'a aut_assignment \<Rightarrow> assignment \<Rightarrow> bool" where
  "langs_ok lang aa \<sigma> \<longleftrightarrow> (\<forall>t \<in> get_keys aa. eval_term \<sigma> t \<in> term_lang lang aa t)"

definition subst_ok :: "(basic_term \<times> concat) list \<Rightarrow> assignment \<Rightarrow> bool" where
  "subst_ok S \<sigma> \<longleftrightarrow> (\<forall>(x, c) \<in> set S. eval_term \<sigma> x = eval_concat \<sigma> c)"

definition prep_sat ::
    "('a \<Rightarrow> zstring set) \<Rightarrow> (nat \<Rightarrow> (zstring \<times> zstring) set) \<Rightarrow> 'a prep \<Rightarrow> assignment \<Rightarrow> bool" where
  "prep_sat lang R pp \<sigma> \<longleftrightarrow>
     (\<forall>p \<in> ran (fv_map (prep_formula pp)). sat_pred R \<sigma> p) \<and> langs_ok lang (prep_aut pp) \<sigma>"

definition prep_models ::
    "('a \<Rightarrow> zstring set) \<Rightarrow> (nat \<Rightarrow> (zstring \<times> zstring) set) \<Rightarrow> 'a prep \<Rightarrow> assignment \<Rightarrow> bool" where
  "prep_models lang R pp \<sigma> \<longleftrightarrow> prep_sat lang R pp \<sigma> \<and> subst_ok (prep_subst pp) \<sigma>"

text \<open>
  The invariant. The terms of the formula have automata and are not substituted; neither are
  the terms of the substitutions, whose values lie in the languages of the variables they
  replace.
\<close>

definition aut_ok :: "('a \<Rightarrow> zstring set) \<Rightarrow> 'a aut_assignment \<Rightarrow> bool" where
  "aut_ok lang aa \<longleftrightarrow>
     (\<forall>t \<in> get_keys aa. (is_variable t \<or> is_literal t) \<and>
        term_lang lang aa t \<subseteq> lists (set (alph_symbols (aut_alphabet aa))))"

definition subst_inv :: "('a \<Rightarrow> zstring set) \<Rightarrow> 'a aut_assignment \<Rightarrow> (basic_term \<times> concat) list \<Rightarrow> bool" where
  "subst_inv lang aa S \<longleftrightarrow>
     distinct (map fst S) \<and>
     (\<forall>(x, c) \<in> set S. is_variable x \<and> x \<in> get_keys aa \<and> set c \<subseteq> get_keys aa - fst ` set S \<and>
        (\<forall>\<sigma>. langs_ok lang aa \<sigma> \<longrightarrow> eval_concat \<sigma> c \<in> term_lang lang aa x))"

definition prep_ok :: "('a \<Rightarrow> zstring set) \<Rightarrow> 'a prep \<Rightarrow> bool" where
  "prep_ok lang pp \<longleftrightarrow>
     fv_ok (prep_formula pp) \<and> (\<forall>p \<in> ran (fv_map (prep_formula pp)). wf_pred p) \<and>
     fv_within (get_keys (prep_aut pp) - fst ` set (prep_subst pp)) (prep_formula pp) \<and>
     aut_ok lang (prep_aut pp) \<and> subst_inv lang (prep_aut pp) (prep_subst pp)"

text \<open>The languages of the literals, which \<open>refine_languages\<close> establishes.\<close>

definition literals_ok :: "('a \<Rightarrow> zstring set) \<Rightarrow> 'a aut_assignment \<Rightarrow> bool" where
  "literals_ok lang aa \<longleftrightarrow> (\<forall>t \<in> get_keys aa. is_literal t \<longrightarrow> term_lang lang aa t \<subseteq> {get_name t})"

lemma subst_invD:
  assumes "subst_inv lang aa S" and "(x, c) \<in> set S"
  shows "is_variable x" "x \<in> get_keys aa" "set c \<subseteq> get_keys aa - fst ` set S"
    "langs_ok lang aa \<sigma> \<Longrightarrow> eval_concat \<sigma> c \<in> term_lang lang aa x"
  using bspec[OF conjunct2[OF assms(1)[unfolded subst_inv_def]] assms(2)] by simp_all

lemma subst_invI:
  assumes "distinct (map fst S)" and "\<And>x c. (x, c) \<in> set S \<Longrightarrow> is_variable x \<and> x \<in> get_keys aa"
    and "\<And>x c. (x, c) \<in> set S \<Longrightarrow> set c \<subseteq> get_keys aa - fst ` set S"
    and "\<And>x c \<sigma>. (x, c) \<in> set S \<Longrightarrow> langs_ok lang aa \<sigma> \<Longrightarrow> eval_concat \<sigma> c \<in> term_lang lang aa x"
  shows "subst_inv lang aa S"
  unfolding subst_inv_def using assms by blast

lemma get_set_equation [simp]: "get_set (create_equation l r) = set l \<union> set r"
  by (simp add: get_set_def create_equation_def)

lemma langs_okD: "langs_ok lang aa \<sigma> \<Longrightarrow> t \<in> get_keys aa \<Longrightarrow> eval_term \<sigma> t \<in> term_lang lang aa t"
  by (simp add: langs_ok_def)

lemma eval_in_concat_lang:
  "langs_ok lang aa \<sigma> \<Longrightarrow> set c \<subseteq> get_keys aa \<Longrightarrow> eval_concat \<sigma> c \<in> concat_lang (term_lang lang aa) c"
  by (induction c) (auto dest: langs_okD)

lemma eval_term_upd: "\<not> is_literal x \<Longrightarrow> eval_term (\<sigma>(x := w)) t = (if t = x then w else eval_term \<sigma> t)"
  by (simp add: eval_term_def)

text \<open>Every satisfying assignment extends to a model, by the values of the substitutions.\<close>

definition apply_subst :: "(basic_term \<times> concat) list \<Rightarrow> assignment \<Rightarrow> assignment" where
  "apply_subst S \<sigma> t = (case map_of S t of None \<Rightarrow> \<sigma> t | Some c \<Rightarrow> eval_concat \<sigma> c)"

lemma apply_subst_other: "fst ` set S \<inter> set c = {} \<Longrightarrow> eval_concat (apply_subst S \<sigma>) c = eval_concat \<sigma> c"
proof (rule eval_concat_cong)
  fix t
  assume "fst ` set S \<inter> set c = {}" "t \<in> set c"
  then have "map_of S t = None" by (auto simp: map_of_eq_None_iff)
  then show "apply_subst S \<sigma> t = \<sigma> t" by (simp add: apply_subst_def)
qed

lemma prep_extend:
  assumes ok: "prep_ok lang pp" and sat: "prep_sat lang R pp \<sigma>"
  shows "prep_models lang R pp (apply_subst (prep_subst pp) \<sigma>)"
proof -
  let ?S = "prep_subst pp" and ?aa = "prep_aut pp"
  let ?t = "apply_subst ?S \<sigma>"
  have inv: "subst_inv lang ?aa ?S" and langs: "langs_ok lang ?aa \<sigma>"
    using ok sat by (simp_all add: prep_ok_def prep_sat_def)
  have val: "eval_term ?t x = eval_concat \<sigma> c" "eval_concat ?t c = eval_concat \<sigma> c"
      "eval_concat \<sigma> c \<in> term_lang lang ?aa x" if "(x, c) \<in> set ?S" for x c
  proof -
    have S: "distinct (map fst ?S)" "is_variable x" "set c \<subseteq> get_keys ?aa - fst ` set ?S"
      "eval_concat \<sigma> c \<in> term_lang lang ?aa x"
      using subst_invD[OF inv that] inv langs by (simp_all add: subst_inv_def)
    show "eval_term ?t x = eval_concat \<sigma> c" using S(1,2) that by (simp add: eval_term_variable apply_subst_def)
    show "eval_concat ?t c = eval_concat \<sigma> c" using S(3) by (intro apply_subst_other) blast
    show "eval_concat \<sigma> c \<in> term_lang lang ?aa x" by (rule S(4))
  qed
  have "eval_term ?t x \<in> term_lang lang ?aa x" if "x \<in> get_keys ?aa" for x
  proof (cases "x \<in> fst ` set ?S")
    case True
    then show ?thesis using val by auto
  next
    case False
    then have "eval_term ?t x = eval_term \<sigma> x" by (simp add: eval_term_def apply_subst_def map_of_eq_None_iff[THEN iffD2])
    then show ?thesis using langs that by (simp add: langs_ok_def)
  qed
  moreover have "sat_pred R ?t p" if p: "p \<in> ran (fv_map (prep_formula pp))" for p
  proof -
    have "get_set p \<inter> fst ` set ?S = {}"
      using fv_within_ran[OF _ p, of "get_keys ?aa - fst ` set ?S"] ok by (auto simp: prep_ok_def)
    moreover have "wf_pred p" using ok p by (simp add: prep_ok_def)
    ultimately have "sat_pred R ?t p = sat_pred R \<sigma> p"
      using wf_pred_params[of p] by (intro sat_pred_cong apply_subst_other) (auto simp: get_set_def)
    then show ?thesis using sat p by (simp add: prep_sat_def)
  qed
  ultimately show ?thesis
    using val unfolding prep_models_def prep_sat_def langs_ok_def subst_ok_def by auto
qed

section \<open>Restricting languages\<close>

text \<open>The languages of the terms of a set shrink, and nothing else changes.\<close>

definition restricts ::
    "('a \<Rightarrow> zstring set) \<Rightarrow> basic_term set \<Rightarrow> 'a aut_assignment \<Rightarrow> 'a aut_assignment \<Rightarrow> bool" where
  "restricts lang V aa aa' \<longleftrightarrow> get_keys aa' = get_keys aa \<and> aut_alphabet aa' = aut_alphabet aa \<and>
     (\<forall>t. term_lang lang aa' t \<subseteq> term_lang lang aa t) \<and> (\<forall>t. t \<notin> V \<longrightarrow> term_lang lang aa' t = term_lang lang aa t)"

lemma restricts_refl [simp]: "restricts lang V aa aa"
  by (simp add: restricts_def)

lemma restricts_trans:
  "restricts lang V aa aa' \<Longrightarrow> restricts lang V aa' aa'' \<Longrightarrow> restricts lang V aa aa''"
  unfolding restricts_def by (simp, blast)

lemma restricts_mono: "restricts lang V aa aa' \<Longrightarrow> V \<subseteq> W \<Longrightarrow> restricts lang W aa aa'"
  unfolding restricts_def by blast

lemma langs_ok_restricts: "restricts lang V aa aa' \<Longrightarrow> langs_ok lang aa' \<sigma> \<Longrightarrow> langs_ok lang aa \<sigma>"
  unfolding restricts_def langs_ok_def by auto

lemma aut_ok_restricts: "restricts lang V aa aa' \<Longrightarrow> aut_ok lang aa \<Longrightarrow> aut_ok lang aa'"
  unfolding restricts_def aut_ok_def by (simp, blast)

lemma literals_ok_restricts: "restricts lang V aa aa' \<Longrightarrow> literals_ok lang aa \<Longrightarrow> literals_ok lang aa'"
  unfolding restricts_def literals_ok_def by (simp, blast)

lemma subst_inv_restricts:
  assumes r: "restricts lang V aa aa'" and V: "V \<inter> fst ` set S = {}" and inv: "subst_inv lang aa S"
  shows "subst_inv lang aa' S"
proof -
  have "eval_concat \<sigma> c \<in> term_lang lang aa' x" if xc: "(x, c) \<in> set S" and "langs_ok lang aa' \<sigma>" for x c \<sigma>
  proof -
    have "x \<in> fst ` set S" using xc by (rule rev_image_eqI) simp
    then have "x \<notin> V" using V by blast
    then have "term_lang lang aa' x = term_lang lang aa x" using r by (simp add: restricts_def)
    then show ?thesis using subst_invD(4)[OF inv xc langs_ok_restricts[OF r that(2)]] by simp
  qed
  moreover have "get_keys aa' = get_keys aa" using r by (simp add: restricts_def)
  ultimately show ?thesis
    using inv subst_invD(1-3)[OF inv] by (intro subst_invI) (simp_all add: subst_inv_def)
qed

lemma prep_ok_restricts:
  assumes "prep_ok lang pp" and "restricts lang V (prep_aut pp) aa'" and "V \<inter> fst ` set (prep_subst pp) = {}"
    and "prep_formula pp' = prep_formula pp" "prep_aut pp' = aa'" "prep_subst pp' = prep_subst pp"
  shows "prep_ok lang pp'"
  using assms subst_inv_restricts[OF assms(2,3)] aut_ok_restricts[OF assms(2)]
  by (simp add: prep_ok_def restricts_def)

lemma get_keys_put [simp]: "get_keys (aut_put t x aa) = insert t (get_keys aa)"
  by (simp add: get_keys_def aut_put_def)

lemma alphabet_put [simp]: "aut_alphabet (aut_put t x aa) = aut_alphabet aa"
  by (simp add: aut_put_def)

lemma get_automaton_concat_Inr:
  assumes "mata_laws lang m" and "set ts \<subseteq> get_keys aa"
  obtains x where "get_automaton_concat m aa ts = Inr x" and "lang x = concat_lang (term_lang lang aa) ts"
  using concat_automata_lang[OF assms(1), of ts aa "create_empty_string_nfa m"] assms
  by (auto simp: get_automaton_concat_def mata_lawsD(2)[OF assms(1)])

lemma update_reg_constr_lang:
  assumes laws: "mata_laws lang m" and upd: "set upd \<subseteq> get_keys (prep_aut pp)" and var: "var \<in> get_keys (prep_aut pp)"
  shows "\<exists>aa'. update_reg_constr m var upd pp = Inr (pp\<lparr>prep_aut := aa'\<rparr>) \<and>
    restricts lang {var} (prep_aut pp) aa' \<and>
    term_lang lang aa' var = term_lang lang (prep_aut pp) var \<inter> concat_lang (term_lang lang (prep_aut pp)) upd"
proof -
  obtain cat where cat: "get_automaton_concat m (prep_aut pp) upd = Inr cat"
      "lang cat = concat_lang (term_lang lang (prep_aut pp)) upd"
    using get_automaton_concat_Inr[OF laws upd] by blast
  obtain x where x: "map_of (aut_entries (prep_aut pp)) var = Some x"
    using var by (cases rule: aut_at_cases[of var "prep_aut pp"]) (auto simp: aut_at_Inr)
  then have lx: "term_lang lang (prep_aut pp) var = lang x" by (simp add: term_lang_def)
  let ?y = "let i = trim_nfa m (intersection m x cat) in if prep_red pp then reduce_nfa m i else i"
  have "update_reg_constr m var upd pp = Inr (pp\<lparr>prep_aut := aut_put var ?y (prep_aut pp)\<rparr>)"
    using cat(1) x by (simp add: update_reg_constr_def Let_def)
  moreover have "lang ?y = lang x \<inter> lang cat" by (simp add: Let_def mata_lawsD[OF laws])
  moreover from this have "restricts lang {var} (prep_aut pp) (aut_put var ?y (prep_aut pp))"
    using var lx by (auto simp: restricts_def insert_absorb)
  ultimately show ?thesis using lx cat(2) by (intro exI[of _ "aut_put var ?y (prep_aut pp)"]) simp
qed

section \<open>Substituting a variable\<close>

lemma prep_ok_terms:
  assumes "prep_ok lang pp" and "fv_map (prep_formula pp) i = Some p"
  shows "get_set p \<subseteq> get_keys (prep_aut pp) - fst ` set (prep_subst pp)" "wf_pred p"
  using assms fv_withinD[OF _ assms(2)] by (auto simp: prep_ok_def intro: ranI)

lemma subst_concat_terms: "x \<notin> set r \<Longrightarrow> set (subst_concat x r c) \<subseteq> (set c - {x}) \<union> set r"
  by (induction c) auto

lemma keys_map_subst: "fst ` set (map (\<lambda>(x, c). (x, f c)) S) = fst ` set S"
  by force

lemma entry_put_new: "t \<notin> fst ` set es \<Longrightarrow> entry_put t x es = es @ [(t, x)]"
  by (induction t x es rule: entry_put.induct) auto

lemma subst_inv_put:
  assumes inv: "subst_inv lang aa S" and x: "is_variable x" "x \<in> get_keys aa - fst ` set S" "x \<notin> set r"
    and r: "set r \<subseteq> get_keys aa - fst ` set S"
    and val: "\<And>\<sigma>. langs_ok lang aa \<sigma> \<Longrightarrow> eval_concat \<sigma> r \<in> term_lang lang aa x"
  shows "subst_inv lang aa (entry_put x r (map (\<lambda>(y, c). (y, subst_concat x r c)) S))"
proof -
  let ?S = "map (\<lambda>(y, c). (y, subst_concat x r c)) S"
  have keys: "fst ` set ?S = fst ` set S" by (rule keys_map_subst)
  have set': "set (entry_put x r ?S) = insert (x, r) (set ?S)"
    using x(2) keys by (subst entry_put_new) auto
  have mem: "(y, d) = (x, r) \<or> (\<exists>c. (y, c) \<in> set S \<and> d = subst_concat x r c)"
    if "(y, d) \<in> set (entry_put x r ?S)" for y d
    using that unfolding set' by auto
  have lit: "\<not> is_literal x" using x(1) by (rule variable_not_literal)
  have "eval_concat \<sigma> (subst_concat x r c) \<in> term_lang lang aa y"
    if yc: "(y, c) \<in> set S" and l: "langs_ok lang aa \<sigma>" for y c \<sigma>
  proof -
    have "langs_ok lang aa (\<sigma>(x := eval_concat \<sigma> r))"
      using l val[OF l] lit by (auto simp: langs_ok_def eval_term_upd)
    then show ?thesis using subst_invD(4)[OF inv yc] lit by (simp add: eval_subst_concat)
  qed
  then have val': "eval_concat \<sigma> d \<in> term_lang lang aa y"
    if "(y, d) \<in> set (entry_put x r ?S)" "langs_ok lang aa \<sigma>" for y d \<sigma>
    using mem[OF that(1)] that(2) val by blast
  have "set (subst_concat x r c) \<subseteq> get_keys aa - insert x (fst ` set S)" if "(y, c) \<in> set S" for y c
    using subst_concat_terms[OF x(3), of c] subst_invD(3)[OF inv that] r x(3) by blast
  moreover have "set r \<subseteq> get_keys aa - insert x (fst ` set S)" using r x(3) by blast
  ultimately have terms: "set d \<subseteq> get_keys aa - insert x (fst ` set S)"
    if "(y, d) \<in> set (entry_put x r ?S)" for y d
    using mem[OF that] by blast
  have "distinct (map fst (entry_put x r ?S))"
    using inv by (intro distinct_entry_put) (simp add: subst_inv_def comp_def case_prod_unfold)
  moreover have "is_variable y \<and> y \<in> get_keys aa" if "(y, d) \<in> set (entry_put x r ?S)" for y d
    using mem[OF that] x(1,2) subst_invD(1,2)[OF inv] by auto
  ultimately show ?thesis
    using terms val' by (intro subst_invI) (simp_all only: keys_entry_put keys)
qed

lemma sat_subst_eq:
  assumes "wf_pred p" and "eval_concat \<sigma> r = eval_term \<sigma> x"
  shows "sat_pred R \<sigma> (subst_pred x r p) = sat_pred R \<sigma> p"
  using wf_pred_params[OF assms(1)]
  by (intro sat_pred_cong) (simp_all add: subst_concat_eval_eq[OF assms(2)])

text \<open>The formula after a variable was replaced, an equation dropped and the variable forgotten.\<close>

lemma subst_step_formula:
  assumes ok: "fv_ok fv" "\<forall>p \<in> ran (fv_map fv). wf_pred p" "fv_within K fv"
    and x: "x \<notin> set r" "set r \<subseteq> K"
  shows "\<exists>fv'. fv_replace [x] r fv = Inr fv' \<and>
    (let fv'' = remove_var_from_varmap x (remove_predicate i fv') in
      fv_ok fv'' \<and> (\<forall>p \<in> ran (fv_map fv''). wf_pred p) \<and> fv_within (K - {x}) fv'' \<and>
      (\<forall>j q. fv_map fv'' j = Some q \<longrightarrow> j \<noteq> i \<and> (\<exists>p. fv_map fv j = Some p \<and> q = subst_pred x r p)) \<and>
      (\<forall>p \<in> ran (fv_map fv). subst_pred x r p \<in> ran (fv_map fv'') \<or>
         (\<exists>eq. fv_map fv i = Some eq \<and> subst_pred x r p = subst_pred x r eq)))"
proof -
  obtain fv' where fv': "fv_replace [x] r fv = Inr fv'" "fv_ok fv'" "ran (fv_map fv') = subst_pred x r ` ran (fv_map fv)"
      "\<And>j q. fv_map fv' j = Some q \<Longrightarrow> \<exists>p. fv_map fv j = Some p \<and> q = subst_pred x r p"
    using fv_replace_single[OF ok(1) x(1)] by blast
  let ?f = "remove_predicate i fv'"
  have wf': "\<forall>p \<in> ran (fv_map fv'). wf_pred p" using ok(2) fv'(3) by auto
  have f: "fv_ok ?f" "fv_map ?f = (fv_map fv')(i := None)" using remove_predicate_any[OF wf' fv'(2)] by auto
  have at: "j \<noteq> i \<and> (\<exists>p. fv_map fv j = Some p \<and> q = subst_pred x r p)" if "fv_map ?f j = Some q" for j q
    using that fv'(4)[of j q] unfolding f(2) by (auto split: if_splits)
  then have gone: "wf_pred q \<and> x \<notin> get_set q" if "q \<in> ran (fv_map ?f)" for q
    using that ok(2) get_set_subst[OF x(1)] by (fastforce simp: ran_def)
  have "\<not> var_occurs ?f x" using fv_occurs_iff[OF f(1)] gone by blast
  then have e: "fv_ok (remove_var_from_varmap x ?f)" "fv_map (remove_var_from_varmap x ?f) = fv_map ?f"
    using remove_var_ok[OF f(1)] by auto
  have preds: "\<forall>(i, p) \<in> set (fv_predicates fv). wf_pred p" using ok(2) fv_ok_ran[OF ok(1)] by force
  have "fv_within K ?f" using fv_within_remove[OF fv_within_replace[OF ok(3) preds x(2) fv'(1)]] .
  then have w: "fv_within (K - {x}) (remove_var_from_varmap x ?f)"
    using gone unfolding fv_ok_ran[OF f(1)] by (intro fv_within_erase) auto
  have "subst_pred x r p \<in> ran (fv_map ?f) \<or> (\<exists>eq. fv_map fv i = Some eq \<and> subst_pred x r p = subst_pred x r eq)"
    if "p \<in> ran (fv_map fv)" for p
  proof -
    have "subst_pred x r p \<in> ran (fv_map fv')" using that fv'(3) by simp
    then obtain j where j: "fv_map fv' j = Some (subst_pred x r p)" by (auto simp: ran_def)
    then show ?thesis using fv'(4)[OF j] by (cases "j = i") (auto simp: f(2) intro: ranI)
  qed
  then show ?thesis
    using fv'(1) e w at gone by (intro exI[of _ fv'] conjI) (auto simp: Let_def)
qed

lemma subst_ok_put:
  assumes "x \<notin> fst ` set S"
  shows "subst_ok (entry_put x r (map (\<lambda>(y, c). (y, subst_concat x r c)) S)) \<sigma> \<longleftrightarrow>
    eval_term \<sigma> x = eval_concat \<sigma> r \<and> subst_ok S \<sigma>"
proof -
  have "set (entry_put x r (map (\<lambda>(y, c). (y, subst_concat x r c)) S)) =
      insert (x, r) ((\<lambda>(y, c). (y, subst_concat x r c)) ` set S)"
    using entry_put_new[of x "map (\<lambda>(y, c). (y, subst_concat x r c)) S" r] assms unfolding keys_map_subst by simp
  then show ?thesis
    by (auto simp: subst_ok_def subst_concat_eval_eq[of \<sigma> r x, OF sym] split_beta)
qed

lemma subst_step:
  assumes ok: "prep_ok lang pp" and x: "is_variable x" "x \<notin> set r"
    and eq: "fv_map (prep_formula pp) i = Some eq" "insert x (set r) \<subseteq> get_set eq"
      "\<And>\<sigma>. sat_pred R \<sigma> eq \<longleftrightarrow> eval_term \<sigma> x = eval_concat \<sigma> r"
    and V: "restricts lang V (prep_aut pp) aa'" "V \<subseteq> get_set eq"
    and L: "\<And>\<sigma>. langs_ok lang (prep_aut pp) \<sigma> \<Longrightarrow> eval_term \<sigma> x = eval_concat \<sigma> r \<Longrightarrow> langs_ok lang aa' \<sigma>"
      "\<And>\<sigma>. langs_ok lang aa' \<sigma> \<Longrightarrow> eval_concat \<sigma> r \<in> term_lang lang aa' x"
  shows "\<exists>fv'. fv_replace [x] r (prep_formula pp) = Inr fv' \<and>
    (\<forall>pp'. prep_formula pp' = remove_var_from_varmap x (remove_predicate i fv') \<longrightarrow> prep_aut pp' = aa' \<longrightarrow>
       prep_subst pp' = entry_put x r (map (\<lambda>(y, c). (y, subst_concat x r c)) (prep_subst pp)) \<longrightarrow>
       prep_ok lang pp' \<and> (\<forall>\<sigma>. prep_models lang R pp' \<sigma> = prep_models lang R pp \<sigma>) \<and>
       (\<forall>j q. fv_map (prep_formula pp') j = Some q \<longrightarrow>
          j \<noteq> i \<and> (\<exists>p. fv_map (prep_formula pp) j = Some p \<and> q = subst_pred x r p)))"
proof -
  let ?fv = "prep_formula pp" and ?S = "prep_subst pp" and ?aa = "prep_aut pp"
  let ?K = "get_keys ?aa - fst ` set ?S"
  have fv: "fv_ok ?fv" "\<forall>p \<in> ran (fv_map ?fv). wf_pred p" "fv_within ?K ?fv"
    using ok by (simp_all add: prep_ok_def)
  have K: "x \<in> ?K" "set r \<subseteq> ?K" "V \<inter> fst ` set ?S = {}"
    using prep_ok_terms[OF ok eq(1)] eq(2) V(2) by blast+
  have keys: "get_keys aa' = get_keys ?aa" using V(1) by (simp add: restricts_def)
  obtain fv' where fv': "fv_replace [x] r ?fv = Inr fv'" and step: "let fv'' = remove_var_from_varmap x (remove_predicate i fv') in
      fv_ok fv'' \<and> (\<forall>p \<in> ran (fv_map fv''). wf_pred p) \<and> fv_within (?K - {x}) fv'' \<and>
      (\<forall>j q. fv_map fv'' j = Some q \<longrightarrow> j \<noteq> i \<and> (\<exists>p. fv_map ?fv j = Some p \<and> q = subst_pred x r p)) \<and>
      (\<forall>p \<in> ran (fv_map ?fv). subst_pred x r p \<in> ran (fv_map fv'') \<or>
         (\<exists>eq. fv_map ?fv i = Some eq \<and> subst_pred x r p = subst_pred x r eq))"
    using subst_step_formula[OF fv x(2) K(2), of i] by blast
  define f where "f = remove_var_from_varmap x (remove_predicate i fv')"
  note f = step[unfolded Let_def, folded f_def]
  define S' where "S' = entry_put x r (map (\<lambda>(y, c). (y, subst_concat x r c)) ?S)"
  have inv: "subst_inv lang aa' S'"
    unfolding S'_def using subst_inv_restricts[OF V(1) K(3)] ok x K L(2) keys
    by (intro subst_inv_put) (auto simp: prep_ok_def)
  have "?K - {x} = get_keys aa' - fst ` set S'" by (auto simp: S'_def keys keys_map_subst simp del: set_map)
  then have "prep_ok lang pp'" if "prep_formula pp' = f" "prep_aut pp' = aa'" "prep_subst pp' = S'" for pp'
    using f inv that aut_ok_restricts[OF V(1)] ok by (simp add: prep_ok_def)
  moreover have "prep_models lang R pp' \<sigma> = prep_models lang R pp \<sigma>"
    if "prep_formula pp' = f" "prep_aut pp' = aa'" "prep_subst pp' = S'" for pp' \<sigma>
  proof (cases "eval_term \<sigma> x = eval_concat \<sigma> r")
    case True
    have "sat_pred R \<sigma> (subst_pred x r p) = sat_pred R \<sigma> p" if "p \<in> ran (fv_map ?fv)" for p
      using that fv(2) True by (simp add: sat_subst_eq)
    moreover have "ran (fv_map f) \<subseteq> subst_pred x r ` ran (fv_map ?fv)" using f by (fastforce simp: ran_def)
    moreover have "sat_pred R \<sigma> eq" using eq(3) True by blast
    moreover have "eq \<in> ran (fv_map ?fv)" using eq(1) by (rule ranI)
    ultimately have "(\<forall>p \<in> ran (fv_map f). sat_pred R \<sigma> p) \<longleftrightarrow> (\<forall>p \<in> ran (fv_map ?fv). sat_pred R \<sigma> p)"
      using f eq(1) by (smt (verit) image_iff option.inject subsetD)
    then show ?thesis
      using that True L(1) langs_ok_restricts[OF V(1)] subst_ok_put[of x ?S r \<sigma>] K(1)
      by (auto simp: prep_models_def prep_sat_def S'_def)
  next
    case False
    then show ?thesis
      using that eq(1,3) subst_ok_put[of x ?S r \<sigma>] K(1)
      by (auto simp: prep_models_def prep_sat_def S'_def intro: ranI)
  qed
  moreover have "\<forall>j q. fv_map f j = Some q \<longrightarrow> j \<noteq> i \<and> (\<exists>p. fv_map ?fv j = Some p \<and> q = subst_pred x r p)"
    using f by blast
  ultimately show ?thesis
    using fv' unfolding f_def[symmetric] S'_def[symmetric] by (intro exI[of _ fv']) (simp add: f_def[symmetric])
qed

section \<open>The initial state\<close>

lemma fv_within_insert_preds:
  assumes "fv_within K fv" and "\<forall>p \<in> set ps. wf_pred p \<and> get_set p \<subseteq> K"
  shows "fv_within K (insert_preds i ps fv)"
  using assms
proof (induction ps arbitrary: i fv)
  case (Cons p ps)
  let ?fv = "fv\<lparr>fv_predicates := map_put i p (fv_predicates fv),
      fv_allpreds := sset_insert p (fv_allpreds fv), fv_varmap := update_varmap p i (fv_varmap fv),
      fv_max_index := i, fv_input_size := fv_input_size fv + 1\<rparr>"
  have "fv_within K ?fv" using Cons.prems by (intro fv_within_store[of K fv p ?fv i]) auto
  then show ?case using Cons.IH[of ?fv "Suc i"] Cons.IH[of fv "Suc i"] Cons.prems by auto
qed simp

text \<open>The constructor establishes the invariant, and the models are the solutions of its arguments.\<close>

lemma new_prep_ok:
  assumes "aut_ok lang aa" and "\<forall>p \<in> set f. wf_pred p \<and> get_set p \<subseteq> get_keys aa"
  shows "prep_ok lang (new_prep uninit f aa lv red models conv ids)"
    "prep_models lang R (new_prep uninit f aa lv red models conv ids) \<sigma> \<longleftrightarrow> sat_formula R \<sigma> f \<and> langs_ok lang aa \<sigma>"
proof -
  have "fv_within (get_keys aa) (new_formula_var uninit f)"
    unfolding new_formula_var_def by (rule fv_within_insert_preds) (use assms(2) in \<open>auto simp: fv_within_def\<close>)
  then show "prep_ok lang (new_prep uninit f aa lv red models conv ids)"
    using assms new_formula_var_ok[of uninit f] by (auto simp: prep_ok_def new_prep_def subst_inv_def)
  show "prep_models lang R (new_prep uninit f aa lv red models conv ids) \<sigma> \<longleftrightarrow> sat_formula R \<sigma> f \<and> langs_ok lang aa \<sigma>"
    using new_formula_var_ok(2)[of uninit f] sat_pred_equation[of _ R \<sigma>]
    by (auto simp: prep_models_def prep_sat_def new_prep_def subst_ok_def sat_formula_def)
qed

text \<open>A state for the examples: \<open>x = y\<close>, \<open>y z = z a\<close> and \<open>x \<noteq> z\<close>.\<close>

definition example_aut :: "zstring set aut_assignment" where
  "example_aut = \<lparr>aut_entries = [(BasicTerm Variable [120], {[97], [98]}), (BasicTerm Variable [121], {[97], []}),
       (BasicTerm Variable [122], {[], [97]}), (BasicTerm Literal [97], {[97]})],
     aut_alphabet = \<lparr>alph_symbols = [97, 98], alph_hash = 0\<rparr>\<rparr>"

definition example_formula :: formula where
  "example_formula =
     [create_equation [BasicTerm Variable [120]] [BasicTerm Variable [121]],
      create_equation [BasicTerm Variable [121], BasicTerm Variable [122]] [BasicTerm Variable [122], BasicTerm Literal [97]],
      create_disequation [BasicTerm Variable [120]] [BasicTerm Variable [122]]]"

definition example_prep :: "zstring set prep" where
  "example_prep = new_prep 0 example_formula example_aut {} False False {} []"

lemma example_aut_ok: "aut_ok id example_aut" "literals_ok id example_aut"
  by (auto simp: aut_ok_def literals_ok_def example_aut_def get_keys_def term_lang_def)

lemma example_prep_ok: "prep_ok id example_prep"
  unfolding example_prep_def
  by (rule new_prep_ok[OF example_aut_ok(1)])
    (auto simp: example_formula_def example_aut_def get_keys_def get_set_def create_equation_def create_disequation_def
      wf_pred_def pred_kind_defs)

lemma example_prep_aut [simp]: "prep_aut example_prep = example_aut"
  by (simp add: example_prep_def new_prep_def)

definition example_solution :: assignment where
  "example_solution t = (if t = BasicTerm Variable [122] then [] else [97])"

lemma example_solution_ok: "prep_models id R example_prep example_solution"
  unfolding example_prep_def
  by (subst new_prep_ok(2)[OF example_aut_ok(1)])
    (auto simp: example_formula_def example_aut_def get_keys_def get_set_def create_equation_def create_disequation_def
      wf_pred_def pred_kind_defs sat_pred_def langs_ok_def term_lang_def eval_term_def example_solution_def)

end
