(* ===== verification/Preprocess_Propagation.thy ===== *)
theory Preprocess_Propagation
  imports Preprocess_Models
begin

text \<open>
  When two states of the preprocessor have the same models, and the two propagation steps
  \<open>propagate_variables\<close> and \<open>propagate_eps\<close>, which lead to such a state.
\<close>

section \<open>Equivalent states\<close>

definition prep_equiv ::
    "('a \<Rightarrow> zstring set) \<Rightarrow> (nat \<Rightarrow> (zstring \<times> zstring) set) \<Rightarrow> 'a prep \<Rightarrow> 'a prep \<Rightarrow> bool" where
  "prep_equiv lang R pp pp' \<longleftrightarrow> prep_ok lang pp' \<and> (\<forall>\<sigma>. prep_models lang R pp' \<sigma> \<longleftrightarrow> prep_models lang R pp \<sigma>)"

lemma prep_equiv_refl: "prep_ok lang pp \<Longrightarrow> prep_equiv lang R pp pp"
  by (simp add: prep_equiv_def)

lemma prep_equiv_trans: "prep_equiv lang R pp pp' \<Longrightarrow> prep_equiv lang R pp' pp'' \<Longrightarrow> prep_equiv lang R pp pp''"
  by (simp add: prep_equiv_def)

lemma prep_equivI:
  assumes "prep_ok lang pp'" and "prep_aut pp' = prep_aut pp" and "prep_subst pp' = prep_subst pp"
    and "\<And>\<sigma>. langs_ok lang (prep_aut pp) \<sigma> \<Longrightarrow>
      (\<forall>p \<in> ran (fv_map (prep_formula pp')). sat_pred R \<sigma> p) \<longleftrightarrow> (\<forall>p \<in> ran (fv_map (prep_formula pp)). sat_pred R \<sigma> p)"
  shows "prep_equiv lang R pp pp'"
  using assms by (auto simp: prep_equiv_def prep_models_def prep_sat_def)

text \<open>Equivalent states are satisfiable at the same time.\<close>

lemma prep_equiv_sat:
  assumes "prep_ok lang pp" and "prep_equiv lang R pp pp'"
  shows "(\<exists>\<sigma>. prep_sat lang R pp' \<sigma>) \<longleftrightarrow> (\<exists>\<sigma>. prep_sat lang R pp \<sigma>)"
proof -
  have "(\<exists>\<sigma>. prep_sat lang R q \<sigma>) \<longleftrightarrow> (\<exists>\<sigma>. prep_models lang R q \<sigma>)" if "prep_ok lang q" for q
    using prep_extend[OF that] by (auto simp: prep_models_def)
  then show ?thesis using assms by (simp add: prep_equiv_def)
qed

text \<open>A loop over a worklist keeps what every round keeps.\<close>

lemma for_each_ok:
  assumes "\<And>x s. x \<in> set xs \<Longrightarrow> P s \<Longrightarrow> \<exists>s'. f x s = Inr s' \<and> P s'" and "P s"
  shows "\<exists>s'. for_each f xs s = Inr s' \<and> P s'"
  using assms
proof (induction xs arbitrary: s)
  case (Cons x xs)
  obtain s' where "f x s = Inr s'" "P s'" using Cons.prems by force
  then show ?case using Cons.IH[of s'] Cons.prems(1) by auto
qed simp

section \<open>Propagation of variables\<close>

text \<open>The predicates that a round leaves are instances of the ones that were there before.\<close>

definition instance_of :: "predicate \<Rightarrow> predicate \<Rightarrow> bool" where
  "instance_of q p \<longleftrightarrow> q = p \<or> (\<exists>x t. q = subst_pred x [t] p)"

lemma subst_pred_sides:
  assumes "wf_pred p"
  shows "get_left_side (subst_pred x r p) = subst_concat x r (get_left_side p)"
    "get_right_side (subst_pred x r p) = subst_concat x r (get_right_side p)"
    "is_equation (subst_pred x r p) = is_equation p"
  using assms by (simp_all add: side_defs pred_kind_defs wf_pred_def)

lemma instance_simple:
  assumes "instance_of q p" and "wf_pred p" and "is_simple_eq p"
  shows "is_simple_eq q"
proof -
  have "length (subst_concat x [t] c) = length c" for x t c by (induction c) auto
  then show ?thesis using assms subst_pred_sides[OF assms(2)] by (auto simp: instance_of_def is_simple_eq_def)
qed

definition simple_step ::
    "('a \<Rightarrow> zstring set) \<Rightarrow> (nat \<Rightarrow> (zstring \<times> zstring) set) \<Rightarrow> 'a prep \<Rightarrow> 'a prep \<Rightarrow> bool" where
  "simple_step lang R pp pp' \<longleftrightarrow> prep_equiv lang R pp pp' \<and> literals_ok lang (prep_aut pp') \<and>
     (\<forall>j q. fv_map (prep_formula pp') j = Some q \<longrightarrow>
        (\<exists>p. fv_map (prep_formula pp) j = Some p \<and> instance_of q p))"

lemma concat_lang_single [simp]: "concat_lang L [t] = L t"
  by auto

lemma propagate_literal_ok:
  assumes laws: "mata_laws lang m" and ok: "prep_ok lang pp" and lits: "literals_ok lang (prep_aut pp)"
    and at: "fv_map (prep_formula pp) i = Some p" "get_set p = {x, l}" "\<And>\<sigma>. sat_pred R \<sigma> p \<longleftrightarrow> eval_term \<sigma> x = eval_term \<sigma> l"
    and sides: "get_left_side eq = [x]" "get_right_side eq = [l]" and x: "is_variable x" "is_literal l"
  shows "\<exists>pp'. propagate_literal m i eq pp = Inr pp' \<and> simple_step lang R pp pp'"
proof -
  have keys: "x \<in> get_keys (prep_aut pp)" "l \<in> get_keys (prep_aut pp)"
    using prep_ok_terms[OF ok at(1)] at(2) by auto
  obtain aa' where aa': "update_reg_constr m x [l] pp = Inr (pp\<lparr>prep_aut := aa'\<rparr>)"
      "restricts lang {x} (prep_aut pp) aa'"
      "term_lang lang aa' x = term_lang lang (prep_aut pp) x \<inter> term_lang lang (prep_aut pp) l"
    using update_reg_constr_lang[OF laws, of "[l]" pp x] keys by auto
  have neq: "x \<noteq> l" using x variable_not_literal by blast
  have k': "get_keys aa' = get_keys (prep_aut pp)" using aa'(2) by (simp add: restricts_def)
  have L1: "langs_ok lang aa' \<sigma>" if "langs_ok lang (prep_aut pp) \<sigma>" "eval_term \<sigma> x = eval_concat \<sigma> [l]" for \<sigma>
    using that keys aa'(2,3) by (auto simp: langs_ok_def restricts_def) (metis IntI)+
  have L2: "eval_concat \<sigma> [l] \<in> term_lang lang aa' x" if "langs_ok lang aa' \<sigma>" for \<sigma>
  proof -
    have "eval_term \<sigma> x \<in> term_lang lang aa' x" using that keys k' by (simp add: langs_ok_def)
    moreover have "term_lang lang aa' x \<subseteq> {get_name l}" using aa'(3) lits keys x(2) by (auto simp: literals_ok_def)
    moreover have "eval_term \<sigma> l = get_name l" using x(2) by (simp add: eval_term_def)
    ultimately show ?thesis by auto
  qed
  obtain fv' where fv': "fv_replace [x] [l] (prep_formula pp) = Inr fv'"
      "\<And>pp'. prep_formula pp' = remove_var_from_varmap x (remove_predicate i fv') \<Longrightarrow> prep_aut pp' = aa' \<Longrightarrow>
       prep_subst pp' = entry_put x [l] (map (\<lambda>(y, c). (y, subst_concat x [l] c)) (prep_subst pp)) \<Longrightarrow>
       prep_ok lang pp' \<and> (\<forall>\<sigma>. prep_models lang R pp' \<sigma> = prep_models lang R pp \<sigma>) \<and>
       (\<forall>j q. fv_map (prep_formula pp') j = Some q \<longrightarrow>
          j \<noteq> i \<and> (\<exists>p. fv_map (prep_formula pp) j = Some p \<and> q = subst_pred x [l] p))"
    using subst_step[OF ok x(1) _ at(1) _ _ aa'(2) _ L1 L2, of R] neq at(2,3) by auto
  let ?pp' = "substitute_var x [l] (add_to_len_formula (get_formula_eq eq)
      (pp\<lparr>prep_aut := aa', prep_formula := remove_predicate i fv'\<rparr>))"
  have "propagate_literal m i eq pp = Inr ?pp'"
    using aa'(1) fv'(1) by (simp add: propagate_literal_def sides)
  moreover have "simple_step lang R pp ?pp'"
    using fv'(2)[of ?pp'] literals_ok_restricts[OF aa'(2) lits]
    by (fastforce simp: substitute_var_def add_to_len_formula_def simple_step_def prep_equiv_def instance_of_def)
  ultimately show ?thesis by blast
qed

lemma propagate_variable_ok:
  assumes laws: "mata_laws lang m" and ok: "prep_ok lang pp" and lits: "literals_ok lang (prep_aut pp)"
    and at: "fv_map (prep_formula pp) i = Some p" "get_set p = {x, y}" "\<And>\<sigma>. sat_pred R \<sigma> p \<longleftrightarrow> eval_term \<sigma> y = eval_term \<sigma> x"
    and sides: "get_left_side eq = [x]" "get_right_side eq = [y]" and y: "is_variable y" "x \<noteq> y"
  shows "\<exists>pp'. propagate_variable m i eq pp = Inr pp' \<and> simple_step lang R pp pp'"
proof -
  have keys: "x \<in> get_keys (prep_aut pp)" "y \<in> get_keys (prep_aut pp)"
    using prep_ok_terms[OF ok at(1)] at(2) by auto
  obtain aa' where aa': "update_reg_constr m x [y] pp = Inr (pp\<lparr>prep_aut := aa'\<rparr>)"
      "restricts lang {x} (prep_aut pp) aa'"
      "term_lang lang aa' x = term_lang lang (prep_aut pp) x \<inter> term_lang lang (prep_aut pp) y"
    using update_reg_constr_lang[OF laws, of "[y]" pp x] keys by auto
  have k': "get_keys aa' = get_keys (prep_aut pp)" "term_lang lang aa' y = term_lang lang (prep_aut pp) y"
    using aa'(2) y(2) by (simp_all add: restricts_def)
  have L1: "langs_ok lang aa' \<sigma>" if "langs_ok lang (prep_aut pp) \<sigma>" "eval_term \<sigma> y = eval_concat \<sigma> [x]" for \<sigma>
    using that keys aa'(2,3) by (auto simp: langs_ok_def restricts_def) (metis IntI)+
  have L2: "eval_concat \<sigma> [x] \<in> term_lang lang aa' y" if "langs_ok lang aa' \<sigma>" for \<sigma>
    using langs_okD[OF that, of x] keys k' aa'(3) by simp
  obtain fv' where fv': "fv_replace [y] [x] (prep_formula pp) = Inr fv'"
      "\<And>pp'. prep_formula pp' = remove_var_from_varmap y (remove_predicate i fv') \<Longrightarrow> prep_aut pp' = aa' \<Longrightarrow>
       prep_subst pp' = entry_put y [x] (map (\<lambda>(z, c). (z, subst_concat y [x] c)) (prep_subst pp)) \<Longrightarrow>
       prep_ok lang pp' \<and> (\<forall>\<sigma>. prep_models lang R pp' \<sigma> = prep_models lang R pp \<sigma>) \<and>
       (\<forall>j q. fv_map (prep_formula pp') j = Some q \<longrightarrow>
          j \<noteq> i \<and> (\<exists>p. fv_map (prep_formula pp) j = Some p \<and> q = subst_pred y [x] p))"
    using subst_step[OF ok y(1) _ at(1) _ _ aa'(2) _ L1 L2, of R] y(2) at(2,3) by auto
  obtain pp' where run: "propagate_variable m i eq pp = Inr pp'"
    and pp': "prep_formula pp' = remove_var_from_varmap y (remove_predicate i fv')" "prep_aut pp' = aa'"
      "prep_subst pp' = entry_put y [x] (map (\<lambda>(z, c). (z, subst_concat y [x] c)) (prep_subst pp))"
    using aa'(1) fv'(1)
    by (cases "y \<in> prep_len_vars pp"; cases "y \<in> prep_conv_vars pp")
      (simp_all add: propagate_variable_def sides Let_def add_to_len_formula_def substitute_var_def)
  have "simple_step lang R pp pp'"
    using fv'(2)[OF pp'] literals_ok_restricts[OF aa'(2) lits] pp'(2)
    by (fastforce simp: simple_step_def prep_equiv_def instance_of_def)
  then show ?thesis using run by blast
qed

lemma simple_eq_sides:
  assumes "is_simple_eq p" and "wf_pred p"
  obtains a b where "get_left_side p = [a]" "get_right_side p = [b]" "get_set p = {a, b}"
    "\<And>R \<sigma>. sat_pred R \<sigma> p \<longleftrightarrow> eval_term \<sigma> a = eval_term \<sigma> b"
proof -
  obtain a b where ab: "get_left_side p = [a]" "get_right_side p = [b]"
    using assms(1) by (auto simp: is_simple_eq_def length_Suc_conv)
  moreover have "get_set p = {a, b}" using wf_pred_params[OF assms(2)] ab by (auto simp: get_set_def)
  moreover have "sat_pred R \<sigma> p \<longleftrightarrow> eval_term \<sigma> a = eval_term \<sigma> b" for R \<sigma>
    using assms(1) ab by (simp add: is_simple_eq_def sat_pred_equation)
  ultimately show ?thesis using that by blast
qed

lemma switch_equation_sides:
  "is_equation p \<Longrightarrow> get_left_side (switch_equation p) = get_right_side p \<and> get_right_side (switch_equation p) = get_left_side p"
  by (auto simp: switch_equation_def get_switched_sides_predicate_def side_defs pred_kind_defs)

lemma prep_ok_remove:
  assumes ok: "prep_ok lang pp"
    and pp': "prep_formula pp' = remove_predicate i (prep_formula pp)" "prep_aut pp' = prep_aut pp" "prep_subst pp' = prep_subst pp"
    and triv: "\<And>p \<sigma>. fv_map (prep_formula pp) i = Some p \<Longrightarrow> langs_ok lang (prep_aut pp) \<sigma> \<Longrightarrow> sat_pred R \<sigma> p"
  shows "prep_equiv lang R pp pp'" "fv_map (prep_formula pp') = (fv_map (prep_formula pp))(i := None)"
proof -
  let ?fv = "prep_formula pp"
  have fv: "fv_ok (remove_predicate i ?fv)" "fv_map (remove_predicate i ?fv) = (fv_map ?fv)(i := None)"
    using remove_predicate_any[of ?fv i] ok by (auto simp: prep_ok_def)
  then show "fv_map (prep_formula pp') = (fv_map ?fv)(i := None)" using pp'(1) by simp
  have sub: "ran ((fv_map ?fv)(i := None)) \<subseteq> ran (fv_map ?fv)" by (auto simp: ran_def split: if_splits)
  have "prep_ok lang pp'"
    using ok fv sub fv_within_remove unfolding prep_ok_def pp' by auto
  moreover have keep: "p \<in> ran ((fv_map ?fv)(i := None)) \<or> fv_map ?fv i = Some p" if "p \<in> ran (fv_map ?fv)" for p
    using that by (auto simp: ran_def)
  ultimately show "prep_equiv lang R pp pp'"
    using sub triv pp' fv(2) by (intro prep_equivI) (simp_all, blast)
qed

lemma propagate_simple_ok:
  assumes laws: "mata_laws lang m" and ok: "prep_ok lang pp" and lits: "literals_ok lang (prep_aut pp)"
    and simple: "\<And>p. fv_map (prep_formula pp) i = Some p \<Longrightarrow> is_simple_eq p"
  shows "\<exists>pp'. propagate_simple m i pp = Inr pp' \<and> simple_step lang R pp pp'"
proof (cases "fv_map (prep_formula pp) i")
  case None
  have "simple_step lang R pp pp"
    using ok lits by (auto simp: simple_step_def prep_equiv_refl instance_of_def)
  then show ?thesis using None by (simp add: propagate_simple_def fv_map_def)
next
  case (Some p)
  have wf: "wf_pred p" by (rule prep_ok_terms(2)[OF ok Some])
  obtain a b where ab: "get_left_side p = [a]" "get_right_side p = [b]" "get_set p = {a, b}"
      "\<And>\<sigma>. sat_pred R \<sigma> p \<longleftrightarrow> eval_term \<sigma> a = eval_term \<sigma> b"
    using simple_eq_sides[OF simple[OF Some] wf] by metis
  have kinds: "is_variable a \<or> is_literal a" "is_variable b \<or> is_literal b"
    using prep_ok_terms(1)[OF ok Some] ok ab(3) by (auto simp: prep_ok_def aut_ok_def)
  have sw: "get_left_side (switch_equation p) = [b]" "get_right_side (switch_equation p) = [a]"
    using switch_equation_sides[of p] simple[OF Some] ab by (simp_all add: is_simple_eq_def)
  have run: "propagate_simple m i pp =
      (if a = b then Inr (pp\<lparr>prep_formula := remove_predicate i (prep_formula pp)\<rparr>)
       else if is_variable a then (if is_variable b then propagate_variable m i p pp else propagate_literal m i p pp)
       else if is_variable b then propagate_literal m i (switch_equation p) pp
       else Inr pp)"
    using Some ab sw by (auto simp: propagate_simple_def fv_map_def Let_def)
  show ?thesis
  proof (cases "a = b")
    case True
    let ?pp' = "pp\<lparr>prep_formula := remove_predicate i (prep_formula pp)\<rparr>"
    have "prep_equiv lang R pp ?pp'" "fv_map (prep_formula ?pp') = (fv_map (prep_formula pp))(i := None)"
      using prep_ok_remove[OF ok, of ?pp' i R] Some ab(4) True by auto
    then have "simple_step lang R pp ?pp'" using lits by (auto simp: simple_step_def instance_of_def split: if_splits)
    then show ?thesis using run True by simp
  next
    case False
    have id: "simple_step lang R pp pp"
      using ok lits by (auto simp: simple_step_def prep_equiv_refl instance_of_def)
    have sat2: "sat_pred R \<sigma> p \<longleftrightarrow> eval_term \<sigma> b = eval_term \<sigma> a" for \<sigma> using ab(4)[of \<sigma>] by auto
    have set2: "get_set p = {b, a}" using ab(3) by auto
    note steps = propagate_variable_ok[OF laws ok lits Some ab(3) sat2 ab(1,2)]
      propagate_literal_ok[OF laws ok lits Some ab(3) ab(4) ab(1,2)]
      propagate_literal_ok[OF laws ok lits Some set2 sat2 sw]
    show ?thesis unfolding run using False kinds id steps
      by (cases "is_variable a"; cases "is_variable b") simp_all
  qed
qed

lemma simple_step_trans:
  "simple_step lang R pp pp' \<Longrightarrow> i \<in> dom (fv_map (prep_formula pp')) \<Longrightarrow> prep_ok lang pp \<Longrightarrow>
     (\<And>p. fv_map (prep_formula pp) i = Some p \<Longrightarrow> is_simple_eq p) \<Longrightarrow>
     is_simple_eq (the (fv_map (prep_formula pp') i))"
  using prep_ok_terms(2)[of lang pp i] instance_simple unfolding simple_step_def by fastforce

lemma propagate_variables_ok:
  assumes laws: "mata_laws lang m" and ok: "prep_ok lang pp" and lits: "literals_ok lang (prep_aut pp)"
  shows "\<exists>pp'. propagate_variables m pp = Inr pp' \<and> prep_equiv lang R pp pp' \<and> literals_ok lang (prep_aut pp')"
proof -
  let ?is = "map fst (get_simple_eqs (prep_formula pp))"
  let ?P = "\<lambda>q. prep_equiv lang R pp q \<and> literals_ok lang (prep_aut q) \<and>
    (\<forall>i \<in> set ?is. \<forall>p. fv_map (prep_formula q) i = Some p \<longrightarrow> is_simple_eq p)"
  have start: "is_simple_eq p" if i: "i \<in> set ?is" and p: "fv_map (prep_formula pp) i = Some p" for i p
  proof -
    obtain q where q: "(i, q) \<in> set (fv_predicates (prep_formula pp))" "is_simple_eq q"
      using i by (auto simp: get_simple_eqs_def)
    then have "fv_map (prep_formula pp) i = Some q"
      using ok by (simp add: fv_map_def prep_ok_def fv_ok_def map_ok_in_set)
    then show ?thesis using p q(2) by simp
  qed
  have "\<exists>q'. propagate_simple m i q = Inr q' \<and> ?P q'" if i: "i \<in> set ?is" and P: "?P q" for i q
  proof -
    have q: "prep_ok lang q" using P by (simp add: prep_equiv_def)
    obtain q' where q': "propagate_simple m i q = Inr q'" "simple_step lang R q q'"
      using propagate_simple_ok[OF laws q, of i R] P i by blast
    have "\<forall>j \<in> set ?is. \<forall>p. fv_map (prep_formula q') j = Some p \<longrightarrow> is_simple_eq p"
      using simple_step_trans[OF q'(2) _ q] P by fastforce
    then show ?thesis
      using q' P prep_equiv_trans[of lang R pp q q'] by (auto simp: simple_step_def)
  qed
  then have "\<exists>pp'. for_each (propagate_simple m) ?is pp = Inr pp' \<and> ?P pp'"
    using prep_equiv_refl[OF ok] lits start by (intro for_each_ok) auto
  then show ?thesis unfolding propagate_variables_def by blast
qed

section \<open>Propagation of the empty word\<close>

lemma get_var_occurr_ok:
  assumes "fv_ok fv" and "t \<in> fst ` set (fv_varmap fv)"
  shows "\<exists>nds. get_var_occurr fv t = Inr nds \<and> vn_index ` set nds \<subseteq> dom (fv_map fv)"
proof -
  obtain nds where nds: "map_of (fv_varmap fv) t = Some nds"
    using assms(2) by (metis map_of_eq_None_iff not_Some_eq)
  have "set nds \<subseteq> map_nodes (fv_map fv)"
    using assms(1) nds by (auto simp: fv_ok_def index_ok_def occurrences_def dest: spec[of _ t])
  moreover have "vn_index n \<in> dom (fv_map fv)" if "n \<in> map_nodes (fv_map fv)" for n
    using that pred_nodes_index by (fastforce simp: map_nodes_def)
  ultimately have "vn_index ` set nds \<subseteq> dom (fv_map fv)" by blast
  then show ?thesis using nds by (simp add: get_var_occurr_def)
qed

lemma get_var_occurrs_ok:
  assumes "fv_ok fv" and "set ts \<subseteq> fst ` set (fv_varmap fv)"
  shows "\<exists>nds. map_res (get_var_occurr fv) ts = Inr nds \<and> vn_index ` set (concat nds) \<subseteq> dom (fv_map fv)"
  using assms(2)
proof (induction ts)
  case (Cons t ts)
  obtain n where n: "get_var_occurr fv t = Inr n" "vn_index ` set n \<subseteq> dom (fv_map fv)"
    using get_var_occurr_ok[OF assms(1), of t] Cons.prems by auto
  obtain nds where "map_res (get_var_occurr fv) ts = Inr nds" "vn_index ` set (concat nds) \<subseteq> dom (fv_map fv)"
    using Cons by auto
  then show ?case using n by (intro exI[of _ "n # nds"]) auto
qed simp

text \<open>A term that is empty in every satisfying assignment, and for literals in every language.\<close>

definition forced_eps ::
    "('a \<Rightarrow> zstring set) \<Rightarrow> (nat \<Rightarrow> (zstring \<times> zstring) set) \<Rightarrow> 'a prep \<Rightarrow> basic_term \<Rightarrow> bool" where
  "forced_eps lang R pp t \<longleftrightarrow> t \<in> fst ` set (fv_varmap (prep_formula pp)) \<and>
     (\<forall>\<sigma>. prep_sat lang R pp \<sigma> \<longrightarrow> eval_term \<sigma> t = []) \<and>
     (is_variable t \<or> (\<forall>\<sigma>. langs_ok lang (prep_aut pp) \<sigma> \<longrightarrow> eval_term \<sigma> t = []))"

lemma is_eps_term_ok:
  assumes laws: "mata_laws lang m" and ok: "prep_ok lang pp" and t: "t \<in> fst ` set (fv_varmap (prep_formula pp))"
  shows "\<exists>e. is_eps_term m (prep_aut pp) t = Inr e \<and> (e \<longrightarrow> forced_eps lang R pp t)"
proof -
  have k: "t \<in> get_keys (prep_aut pp)" using ok t by (auto simp: prep_ok_def fv_within_def)
  then obtain x where x: "aut_at (prep_aut pp) t = Inr x" using aut_at_cases by blast
  have eps: "is_epsilon m (prep_aut pp) t = Inr (term_lang lang (prep_aut pp) t = {[]})"
    by (simp add: is_epsilon_def x mata_lawsD[OF laws] term_lang_at[OF x])
  have forced: "eval_term \<sigma> t = []" if "langs_ok lang (prep_aut pp) \<sigma>"
      "term_lang lang (prep_aut pp) t = {[]} \<or> is_literal t \<and> get_name t = []" for \<sigma>
    using that(2)
  proof
    show "eval_term \<sigma> t = []" if "term_lang lang (prep_aut pp) t = {[]}"
      using langs_okD[OF \<open>langs_ok lang (prep_aut pp) \<sigma>\<close> k] unfolding that by simp
  qed (simp add: eval_term_def)
  show ?thesis
  proof (cases "is_variable t")
    case True
    then show ?thesis using forced t by (auto simp: is_eps_term_def eps forced_eps_def prep_sat_def)
  next
    case False
    then have "is_literal t" using ok k by (auto simp: prep_ok_def aut_ok_def)
    then show ?thesis using forced t False by (auto simp: is_eps_term_def eps forced_eps_def prep_sat_def)
  qed
qed

lemma get_eps_terms_ok:
  assumes "mata_laws lang m" and "prep_ok lang pp"
  shows "\<exists>eps. get_eps_terms m pp = Inr eps \<and> (\<forall>t \<in> set eps. forced_eps lang R pp t)"
  unfolding get_eps_terms_def
proof (rule for_each_ok)
  fix t eps
  assume "t \<in> set (map fst (fv_varmap (prep_formula pp)))" "\<forall>t \<in> set eps. forced_eps lang R pp t"
  then show "\<exists>eps'. bind_res (is_eps_term m (prep_aut pp) t) (\<lambda>e. Inr (if e then sset_insert t eps else eps)) = Inr eps' \<and>
      (\<forall>t \<in> set eps'. forced_eps lang R pp t)"
    using is_eps_term_ok[OF assms, of t R] by auto
qed simp

lemma eval_concat_eps: "(\<And>t. t \<in> set c \<Longrightarrow> eval_term \<sigma> t = []) \<Longrightarrow> eval_concat \<sigma> c = []"
  by (simp add: eval_concat_def)

lemma new_eps_forced:
  assumes ok: "prep_ok lang pp" and eq: "fv_map (prep_formula pp) i = Some eq" "is_equation eq"
    and new: "new_eps_terms eq eps = Some new_eps" and eps: "\<forall>t \<in> set eps. forced_eps lang R pp t"
    and t: "t \<in> new_eps"
  shows "forced_eps lang R pp t"
proof -
  let ?l = "get_left_side eq" and ?r = "get_right_side eq"
  have wf: "wf_pred eq" by (rule prep_ok_terms(2)[OF ok eq(1)])
  consider "set ?l \<subseteq> set eps" "t \<in> set ?r" "is_variable t" | "set ?r \<subseteq> set eps" "t \<in> set ?l" "is_variable t"
    using new t by (auto simp: new_eps_terms_def get_side_vars_set get_side_def side_defs split: if_splits)
  then have var: "is_variable t" "t \<in> get_set eq"
    and one: "set ?l \<subseteq> set eps \<and> t \<in> set ?r \<or> set ?r \<subseteq> set eps \<and> t \<in> set ?l"
    using wf_pred_params[OF wf] by (auto simp: get_set_def)
  have "var_occurs (prep_formula pp) t"
    using fv_occurs_iff[of "prep_formula pp" t] ok eq(1) var(2) by (auto simp: prep_ok_def intro: ranI)
  then have occ: "t \<in> fst ` set (fv_varmap (prep_formula pp))"
    by (force simp: var_occurs_def dest: map_of_SomeD split: option.splits)
  have "eval_term \<sigma> t = []" if sat: "prep_sat lang R pp \<sigma>" for \<sigma>
  proof -
    have "sat_pred R \<sigma> eq" using sat eq(1) by (auto simp: prep_sat_def intro: ranI)
    then have sides: "eval_concat \<sigma> ?l = eval_concat \<sigma> ?r" using eq(2) by (simp add: sat_pred_equation)
    have "eval_concat \<sigma> c = []" if "set c \<subseteq> set eps" for c
      using eps sat that by (intro eval_concat_eps) (auto simp: forced_eps_def)
    then have "eval_concat \<sigma> ?l = [] \<and> eval_concat \<sigma> ?r = []" using one sides by auto
    then show ?thesis using one by (auto simp: eval_concat_def)
  qed
  then show ?thesis using var occ by (simp add: forced_eps_def)
qed

lemma eps_loop_ok:
  assumes "prep_ok lang pp" and "set wl \<subseteq> dom (fv_map (prep_formula pp))" and "\<forall>t \<in> set eps. forced_eps lang R pp t"
  shows "\<exists>ids' eps'. eps_loop (prep_formula pp) wl ids eps = Inr (ids', eps') \<and> (\<forall>t \<in> set eps'. forced_eps lang R pp t)"
  using assms
proof (induction "prep_formula pp" wl ids eps rule: eps_loop.induct)
  case (2 index worklist ids eps)
  obtain eq where eq: "fv_map (prep_formula pp) index = Some eq" using "2.prems"(2) by auto
  then have at: "get_predicate (prep_formula pp) index = Inr eq" by (simp add: get_predicate_def fv_map_def)
  show ?case
  proof (cases "index \<in> set ids \<or> \<not> is_equation eq \<or> new_eps_terms eq eps = None")
    case True
    then show ?thesis using 2(1) 2(2,3)[OF _ at] "2.prems" at by auto
  next
    case False
    then obtain new_eps where new: "new_eps_terms eq eps = Some new_eps" by auto
    have forced: "\<forall>t \<in> new_eps. forced_eps lang R pp t"
      using new_eps_forced[OF "2.prems"(1) eq _ new "2.prems"(3)] False by blast
    have fin: "finite new_eps"
      by (rule finite_subset[OF new_eps_terms_subset[OF at new]]) simp
    obtain nds where nds: "map_res (get_var_occurr (prep_formula pp)) (sorted_list_of_set new_eps) = Inr nds"
        "vn_index ` set (concat nds) \<subseteq> dom (fv_map (prep_formula pp))"
      using get_var_occurrs_ok[of "prep_formula pp" "sorted_list_of_set new_eps"] "2.prems"(1) forced fin
      by (auto simp: prep_ok_def forced_eps_def)
    have "\<exists>ids' eps'. eps_loop (prep_formula pp) (worklist @ map vn_index (concat nds)) (sset_insert index ids)
          (fold sset_insert (sorted_list_of_set new_eps) eps) = Inr (ids', eps') \<and>
        (\<forall>t \<in> set eps'. forced_eps lang R pp t)"
      using 2(4)[OF _ at _ new nds(1)] "2.prems" False nds(2) forced fin by (simp add: ball_Un)
    then show ?thesis using False at new nds(1) by simp
  qed
qed auto

text \<open>Erasing an empty term from the formula of an equivalent state.\<close>

lemma erase_term_ok:
  assumes ok: "prep_ok lang q" and t: "t \<in> get_keys (prep_aut q) - fst ` set (prep_subst q)"
    and V: "restricts lang {t} (prep_aut q) aa'"
    and eps: "\<And>\<sigma>. langs_ok lang aa' \<sigma> \<Longrightarrow> eval_term \<sigma> t = []"
      "\<And>\<sigma>. prep_models lang R q \<sigma> \<Longrightarrow> langs_ok lang aa' \<sigma>"
  shows "\<exists>fv'. fv_replace [t] [] (prep_formula q) = Inr fv' \<and>
    (\<forall>q'. prep_formula q' = fv' \<longrightarrow> prep_aut q' = aa' \<longrightarrow> prep_subst q' = prep_subst q \<longrightarrow> prep_equiv lang R q q')"
proof -
  let ?fv = "prep_formula q"
  have fv: "fv_ok ?fv" "\<forall>p \<in> ran (fv_map ?fv). wf_pred p"
      "fv_within (get_keys (prep_aut q) - fst ` set (prep_subst q)) ?fv"
    using ok by (simp_all add: prep_ok_def)
  obtain fv' where fv': "fv_replace [t] [] ?fv = Inr fv'" "fv_ok fv'" "ran (fv_map fv') = subst_pred t [] ` ran (fv_map ?fv)"
    using fv_replace_single[OF fv(1), of t "[]"] by auto
  have preds: "\<forall>(i, p) \<in> set (fv_predicates ?fv). wf_pred p" using fv(2) fv_ok_ran[OF fv(1)] by force
  have within: "fv_within (get_keys (prep_aut q) - fst ` set (prep_subst q)) fv'"
    using fv_within_replace[OF fv(3) preds _ fv'(1)] by simp
  have keys: "get_keys aa' = get_keys (prep_aut q)" using V by (simp add: restricts_def)
  have "prep_equiv lang R q q'" if "prep_formula q' = fv'" "prep_aut q' = aa'" "prep_subst q' = prep_subst q" for q'
  proof -
    have "prep_ok lang q'"
      using ok fv' fv(2) within keys that t subst_inv_restricts[OF V, of "prep_subst q"] aut_ok_restricts[OF V]
      by (auto simp: prep_ok_def)
    moreover have "prep_models lang R q' \<sigma> = prep_models lang R q \<sigma>" for \<sigma>
    proof (cases "langs_ok lang aa' \<sigma>")
      case True
      then have "sat_pred R \<sigma> (subst_pred t [] p) = sat_pred R \<sigma> p" if "p \<in> ran (fv_map ?fv)" for p
        using that fv(2) eps(1) by (simp add: sat_subst_eq)
      then show ?thesis
        using True langs_ok_restricts[OF V True] that fv'(3) by (simp add: prep_models_def prep_sat_def)
    next
      case False
      then show ?thesis using eps(2) that by (auto simp: prep_models_def prep_sat_def)
    qed
    ultimately show ?thesis by (simp add: prep_equiv_def)
  qed
  then show ?thesis using fv'(1) by blast
qed

definition eps_stage ::
    "('a \<Rightarrow> zstring set) \<Rightarrow> (nat \<Rightarrow> (zstring \<times> zstring) set) \<Rightarrow> 'a prep \<Rightarrow> 'a prep \<Rightarrow> bool" where
  "eps_stage lang R pp q \<longleftrightarrow> prep_equiv lang R pp q \<and> restricts lang UNIV (prep_aut pp) (prep_aut q) \<and>
     prep_subst q = prep_subst pp"

lemma restrict_to_eps:
  assumes laws: "mata_laws lang m" and k: "t \<in> get_keys (prep_aut q)"
    and forced: "\<And>\<sigma>. prep_models lang R q \<sigma> \<Longrightarrow> eval_term \<sigma> t = []"
    and lit: "\<And>\<sigma>. \<not> is_variable t \<Longrightarrow> langs_ok lang (prep_aut q) \<sigma> \<Longrightarrow> eval_term \<sigma> t = []"
  shows "\<exists>aa'. (if is_variable t then update_reg_constr m t [] q else Inr q) = Inr (q\<lparr>prep_aut := aa'\<rparr>) \<and>
      restricts lang {t} (prep_aut q) aa' \<and> (\<forall>\<sigma>. langs_ok lang aa' \<sigma> \<longrightarrow> eval_term \<sigma> t = []) \<and>
      (\<forall>\<sigma>. prep_models lang R q \<sigma> \<longrightarrow> langs_ok lang aa' \<sigma>)"
proof (cases "is_variable t")
  case True
  obtain aa' where aa': "update_reg_constr m t [] q = Inr (q\<lparr>prep_aut := aa'\<rparr>)" "restricts lang {t} (prep_aut q) aa'"
      "term_lang lang aa' t = term_lang lang (prep_aut q) t \<inter> {[]}"
    using update_reg_constr_lang[OF laws, of "[]" q t] k by auto
  have keys: "get_keys aa' = get_keys (prep_aut q)" using aa'(2) by (simp add: restricts_def)
  have "langs_ok lang aa' \<sigma>" if "prep_models lang R q \<sigma>" for \<sigma>
  proof -
    have "langs_ok lang (prep_aut q) \<sigma>" using that by (simp add: prep_models_def prep_sat_def)
    then show ?thesis
      using forced[OF that] aa'(2,3) unfolding langs_ok_def restricts_def by (metis IntI insertI1 singletonD)
  qed
  moreover have "eval_term \<sigma> t = []" if "langs_ok lang aa' \<sigma>" for \<sigma>
    using langs_okD[OF that, of t] k keys aa'(3) by auto
  ultimately show ?thesis using True aa'(1,2) by auto
next
  case False
  then show ?thesis using lit by (intro exI[of _ "prep_aut q"]) (auto simp: prep_models_def prep_sat_def)
qed

lemma replace_eps_term_ok:
  assumes laws: "mata_laws lang m" and ok: "prep_ok lang pp" and stage: "eps_stage lang R pp q"
    and t: "forced_eps lang R pp t"
  shows "\<exists>q'. replace_eps_term m t q = Inr q' \<and> eps_stage lang R pp q'"
proof -
  have q: "prep_ok lang q" and models: "\<And>\<sigma>. prep_models lang R q \<sigma> \<longleftrightarrow> prep_models lang R pp \<sigma>"
    and sub: "restricts lang UNIV (prep_aut pp) (prep_aut q)" and subst: "prep_subst q = prep_subst pp"
    using stage by (auto simp: eps_stage_def prep_equiv_def)
  have "t \<in> get_keys (prep_aut pp) - fst ` set (prep_subst pp)"
    using t ok by (auto simp: forced_eps_def prep_ok_def fv_within_def)
  then have k: "t \<in> get_keys (prep_aut q) - fst ` set (prep_subst q)"
    using sub subst by (simp add: restricts_def)
  have forced: "eval_term \<sigma> t = []" if "prep_models lang R q \<sigma>" for \<sigma>
    using that t models[of \<sigma>] by (simp add: forced_eps_def prep_models_def)
  have "eval_term \<sigma> t = []" if "\<not> is_variable t" "langs_ok lang (prep_aut q) \<sigma>" for \<sigma>
    using that t langs_ok_restricts[OF sub that(2)] by (simp add: forced_eps_def)
  then obtain aa' where aa': "(if is_variable t then update_reg_constr m t [] q else Inr q) = Inr (q\<lparr>prep_aut := aa'\<rparr>)"
      "restricts lang {t} (prep_aut q) aa'" "\<And>\<sigma>. langs_ok lang aa' \<sigma> \<Longrightarrow> eval_term \<sigma> t = []"
      "\<And>\<sigma>. prep_models lang R q \<sigma> \<Longrightarrow> langs_ok lang aa' \<sigma>"
    using restrict_to_eps[OF laws, of t q R] forced k by blast
  obtain fv' where fv': "fv_replace [t] [] (prep_formula q) = Inr fv'"
      "\<And>q'. prep_formula q' = fv' \<Longrightarrow> prep_aut q' = aa' \<Longrightarrow> prep_subst q' = prep_subst q \<Longrightarrow> prep_equiv lang R q q'"
    using erase_term_ok[OF q k aa'(2-4)] by blast
  let ?q' = "add_to_len_formula (get_formula_eq (create_equation [t] [])) (q\<lparr>prep_aut := aa', prep_formula := fv'\<rparr>)"
  have "replace_eps_term m t q = Inr ?q'" using aa'(1) fv'(1) by (simp add: replace_eps_term_def)
  moreover have "prep_equiv lang R q ?q'" by (rule fv'(2)) (simp_all add: add_to_len_formula_def)
  then have "eps_stage lang R pp ?q'"
    using stage prep_equiv_trans restricts_trans[OF sub restricts_mono[OF aa'(2) subset_UNIV]]
    by (auto simp: eps_stage_def add_to_len_formula_def)
  ultimately show ?thesis by blast
qed

lemma fv_within_clean: "fv_within K fv \<Longrightarrow> fv_within K (clean_predicates fv)"
  by (simp add: clean_predicates_def fv_within_remove_all)

lemma prep_equiv_clean:
  assumes "prep_ok lang pp" and "prep_formula pp' = clean_predicates (prep_formula pp)"
    and "prep_aut pp' = prep_aut pp" "prep_subst pp' = prep_subst pp"
  shows "prep_equiv lang R pp pp'"
proof -
  let ?fv = "prep_formula pp"
  have clean: "fv_ok (clean_predicates ?fv)" "ran (fv_map (clean_predicates ?fv)) \<subseteq> ran (fv_map ?fv)"
      "\<And>p. p \<in> ran (fv_map ?fv) \<Longrightarrow> p \<in> ran (fv_map (clean_predicates ?fv)) \<or>
         is_equation p \<and> get_left_side p = [] \<and> get_right_side p = []"
    using clean_predicates_ok[of ?fv] assms(1) by (auto simp: prep_ok_def)
  have "prep_ok lang pp'"
    using assms clean(1,2) fv_within_clean by (auto simp: prep_ok_def)
  moreover have "sat_pred R \<sigma> p" if "is_equation p \<and> get_left_side p = [] \<and> get_right_side p = []" for p \<sigma>
    using that by (simp add: sat_pred_equation)
  ultimately show ?thesis
    using assms(2-4) clean(2,3) by (intro prep_equivI) (simp_all, blast)
qed

lemma propagate_eps_ok:
  assumes laws: "mata_laws lang m" and ok: "prep_ok lang pp"
  shows "\<exists>pp'. propagate_eps m pp = Inr pp' \<and> prep_equiv lang R pp pp' \<and>
    restricts lang UNIV (prep_aut pp) (prep_aut pp')"
proof -
  let ?fv = "prep_formula pp"
  have fv: "fv_ok ?fv" using ok by (simp add: prep_ok_def)
  obtain eps where eps: "get_eps_terms m pp = Inr eps" "\<forall>t \<in> set eps. forced_eps lang R pp t"
    using get_eps_terms_ok[OF laws ok] by blast
  obtain nds where nds: "map_res (get_var_occurr ?fv) eps = Inr nds" "vn_index ` set (concat nds) \<subseteq> dom (fv_map ?fv)"
    using get_var_occurrs_ok[OF fv, of eps] eps(2) by (auto simp: forced_eps_def)
  obtain ids eps' where loop: "eps_loop ?fv (map vn_index (concat nds)) [] eps = Inr (ids, eps')"
      "\<forall>t \<in> set eps'. forced_eps lang R pp t"
    using eps_loop_ok[OF ok, of "map vn_index (concat nds)" eps R "[]"] nds(2) eps(2) by auto
  have "eps_stage lang R pp pp" using prep_equiv_refl[OF ok] by (simp add: eps_stage_def)
  then obtain q where q: "for_each (replace_eps_term m) eps' pp = Inr q" "eps_stage lang R pp q"
    using for_each_ok[of eps' "eps_stage lang R pp" "replace_eps_term m" pp] replace_eps_term_ok[OF laws ok] loop(2) by blast
  let ?q' = "add_dependencies ids (q\<lparr>prep_formula := clean_predicates (prep_formula q)\<rparr>)"
  have "propagate_eps m pp = Inr ?q'" by (simp add: propagate_eps_def eps(1) nds(1) loop(1) q(1))
  moreover have "prep_equiv lang R q ?q'"
    using q(2) by (intro prep_equiv_clean) (auto simp: eps_stage_def prep_equiv_def add_dependencies_def)
  ultimately show ?thesis
    using q(2) prep_equiv_trans[of lang R pp q ?q'] by (auto simp: eps_stage_def add_dependencies_def)
qed

end
