(* ===== verification/Preprocess_Languages.thy ===== *)
theory Preprocess_Languages
  imports Preprocess_Propagation
begin

text \<open>
  The steps of the preprocessor that work on languages: \<open>refine_languages\<close> and
  \<open>reduce_diseqalities\<close>, the removal of predicates that hold in all languages, and what the
  steps that keep all models achieve together.
\<close>

section \<open>Refinement of languages\<close>

definition lang_stage ::
    "('a \<Rightarrow> zstring set) \<Rightarrow> (nat \<Rightarrow> (zstring \<times> zstring) set) \<Rightarrow> 'a prep \<Rightarrow> 'a prep \<Rightarrow> bool" where
  "lang_stage lang R pp q \<longleftrightarrow> eps_stage lang R pp q \<and> prep_formula q = prep_formula pp"

lemma lang_stage_restrict:
  assumes stage: "lang_stage lang R pp q" and V: "restricts lang V (prep_aut q) aa'" "V \<inter> fst ` set (prep_subst pp) = {}"
    and models: "\<And>\<sigma>. prep_models lang R q \<sigma> \<Longrightarrow> langs_ok lang aa' \<sigma>"
  shows "lang_stage lang R pp (q\<lparr>prep_aut := aa'\<rparr>)"
proof -
  let ?q' = "q\<lparr>prep_aut := aa'\<rparr>"
  have q: "prep_ok lang q" "prep_subst q = prep_subst pp"
    using stage by (simp_all add: lang_stage_def eps_stage_def prep_equiv_def)
  have "prep_ok lang ?q'" using prep_ok_restricts[OF q(1) V(1), of ?q'] V(2) q(2) by simp
  moreover have "prep_models lang R ?q' \<sigma> = prep_models lang R q \<sigma>" for \<sigma>
    using models[of \<sigma>] langs_ok_restricts[OF V(1), of \<sigma>] by (auto simp: prep_models_def prep_sat_def)
  ultimately have "prep_equiv lang R q ?q'" by (simp add: prep_equiv_def)
  then show ?thesis
    using stage prep_equiv_trans[of lang R pp q ?q'] restricts_trans[OF _ restricts_mono[OF V(1) subset_UNIV]]
    by (auto simp: lang_stage_def eps_stage_def)
qed

lemma lang_stage_term:
  assumes "lang_stage lang R pp q" and "restricts lang {x} (prep_aut q) aa'" and "x \<notin> fst ` set (prep_subst pp)"
    and "\<And>\<sigma>. prep_models lang R q \<sigma> \<Longrightarrow> eval_term \<sigma> x \<in> term_lang lang aa' x"
  shows "lang_stage lang R pp (q\<lparr>prep_aut := aa'\<rparr>)"
proof (rule lang_stage_restrict[OF assms(1,2)])
  show "langs_ok lang aa' \<sigma>" if "prep_models lang R q \<sigma>" for \<sigma>
    unfolding langs_ok_def
  proof
    fix t
    assume "t \<in> get_keys aa'"
    then show "eval_term \<sigma> t \<in> term_lang lang aa' t"
      using assms(2) assms(4)[OF that] that
      by (cases "t = x") (simp_all add: restricts_def prep_models_def prep_sat_def langs_ok_def)
  qed
qed (use assms(3) in simp)

lemma refine_side_ok:
  assumes laws: "mata_laws lang m" and stage: "lang_stage lang R pp q"
    and terms: "set side \<union> set other \<subseteq> get_keys (prep_aut pp) - fst ` set (prep_subst pp)"
    and eq: "\<And>\<sigma>. prep_models lang R q \<sigma> \<Longrightarrow> eval_concat \<sigma> side = eval_concat \<sigma> other"
  shows "\<exists>q'. refine_side m vars side other q = Inr q' \<and> lang_stage lang R pp q'"
proof (cases "length side = 1 \<and> (side ! 0 \<in> vars \<or> length other = 1)")
  case True
  then obtain x where x: "side = [x]" by (auto simp: length_Suc_conv)
  have keys: "get_keys (prep_aut q) = get_keys (prep_aut pp)"
    using stage by (simp add: lang_stage_def eps_stage_def restricts_def)
  obtain aa' where aa': "update_reg_constr m x other q = Inr (q\<lparr>prep_aut := aa'\<rparr>)" "restricts lang {x} (prep_aut q) aa'"
      "term_lang lang aa' x = term_lang lang (prep_aut q) x \<inter> concat_lang (term_lang lang (prep_aut q)) other"
    using update_reg_constr_lang[OF laws, of other q x] terms x keys by auto
  have "eval_term \<sigma> x \<in> term_lang lang aa' x" if "prep_models lang R q \<sigma>" for \<sigma>
  proof -
    have l: "langs_ok lang (prep_aut q) \<sigma>" using that by (simp add: prep_models_def prep_sat_def)
    then have "eval_term \<sigma> x = eval_concat \<sigma> other" using eq[OF that] x by simp
    then show ?thesis
      using aa'(3) langs_okD[OF l, of x] eval_in_concat_lang[OF l, of other] terms x keys by auto
  qed
  then have "lang_stage lang R pp (q\<lparr>prep_aut := aa'\<rparr>)"
    using terms x by (intro lang_stage_term[OF stage aa'(2)]) auto
  then show ?thesis using True x aa'(1) by (auto simp: refine_side_def)
next
  case False
  then show ?thesis using stage by (auto simp: refine_side_def Let_def)
qed

lemma lang_stage_models: "lang_stage lang R pp q \<Longrightarrow> prep_models lang R q \<sigma> \<longleftrightarrow> prep_models lang R pp \<sigma>"
  by (simp add: lang_stage_def eps_stage_def prep_equiv_def)

lemma prep_ok_predicates:
  "prep_ok lang pp \<Longrightarrow> (i, p) \<in> set (fv_predicates (prep_formula pp)) \<Longrightarrow> fv_map (prep_formula pp) i = Some p"
  by (simp add: prep_ok_def fv_ok_def fv_map_def map_ok_in_set)

lemma prep_ok_sides:
  assumes "prep_ok lang pp" and "fv_map (prep_formula pp) i = Some p"
  shows "set (get_left_side p) \<union> set (get_right_side p) \<subseteq> get_keys (prep_aut pp) - fst ` set (prep_subst pp)"
  using prep_ok_terms[OF assms] wf_pred_params[of p] by (auto simp: get_set_def)

lemma refine_equation_ok:
  assumes laws: "mata_laws lang m" and ok: "prep_ok lang pp" and stage: "lang_stage lang R pp q"
    and p: "fv_map (prep_formula pp) i = Some p"
  shows "\<exists>q'. refine_equation m vars (i, p) q = Inr q' \<and> lang_stage lang R pp q'"
proof (cases "is_equation p")
  case True
  have eq: "eval_concat \<sigma> (get_left_side p) = eval_concat \<sigma> (get_right_side p)" if "prep_models lang R pp \<sigma>" for \<sigma>
    using that ranI[of "fv_map (prep_formula pp)" i p] p sat_pred_equation[OF True, of R \<sigma>] by (simp add: prep_models_def prep_sat_def)
  note terms = prep_ok_sides[OF ok p]
  obtain q1 where q1: "refine_side m vars (get_left_side p) (get_right_side p) q = Inr q1" "lang_stage lang R pp q1"
    using refine_side_ok[OF laws stage terms, of vars] eq lang_stage_models[OF stage] by blast
  obtain q2 where "refine_side m vars (get_right_side p) (get_left_side p) q1 = Inr q2" "lang_stage lang R pp q2"
    using refine_side_ok[OF laws q1(2), of "get_right_side p" "get_left_side p" vars] terms eq[THEN sym]
      lang_stage_models[OF q1(2)] by (metis Un_commute)
  then show ?thesis using True q1(1) by (simp add: refine_equation_def)
qed (simp add: refine_equation_def stage)

lemma term_lang_refine_literals:
  assumes "mata_laws lang m"
  shows "term_lang lang (refine_literals m aa) t =
    (if is_literal t then term_lang lang aa t \<inter> {get_name t} else term_lang lang aa t)"
proof -
  have "map_of (map (\<lambda>(t, x). (t, f t x)) es) t = map_option (f t) (map_of es t)" for f :: "basic_term \<Rightarrow> 'a \<Rightarrow> 'a" and es
    by (induction es) auto
  then show ?thesis
    by (simp add: term_lang_def refine_literals_def mata_lawsD[OF assms] lang_create_word split: option.split)
qed

lemma refine_languages_ok:
  assumes laws: "mata_laws lang m" and ok: "prep_ok lang pp"
  shows "\<exists>pp'. refine_languages m pp = Inr pp' \<and> lang_stage lang R pp pp' \<and> literals_ok lang (prep_aut pp')"
proof -
  have start: "lang_stage lang R pp pp" using prep_equiv_refl[OF ok] by (simp add: lang_stage_def eps_stage_def)
  have "\<exists>q'. refine_equation m (ineq_vars (prep_formula pp)) pr q = Inr q' \<and> lang_stage lang R pp q'"
    if "pr \<in> set (fv_predicates (prep_formula pp))" "lang_stage lang R pp q" for pr q
    using refine_equation_ok[OF laws ok that(2)] prep_ok_predicates[OF ok] that(1) by (cases pr) blast
  then obtain q where q: "for_each (refine_equation m (ineq_vars (prep_formula pp))) (fv_predicates (prep_formula pp)) pp = Inr q"
      "lang_stage lang R pp q"
    using for_each_ok[where P = "lang_stage lang R pp", OF _ start] by blast
  let ?aa = "refine_literals m (prep_aut q)"
  have keys: "get_keys ?aa = get_keys (prep_aut q)" by (force simp: get_keys_def refine_literals_def)
  have V: "restricts lang {t. is_literal t} (prep_aut q) ?aa"
    unfolding restricts_def keys term_lang_refine_literals[OF laws] by (simp add: refine_literals_def)
  have "fst ` set (prep_subst pp) \<subseteq> {t. is_variable t}"
    using ok subst_invD(1)[of lang "prep_aut pp" "prep_subst pp"] by (auto simp: prep_ok_def)
  then have disj: "{t. is_literal t} \<inter> fst ` set (prep_subst pp) = {}" using variable_not_literal by blast
  have "langs_ok lang ?aa \<sigma>" if "prep_models lang R q \<sigma>" for \<sigma>
    using that unfolding langs_ok_def keys term_lang_refine_literals[OF laws]
    by (auto simp: prep_models_def prep_sat_def langs_ok_def eval_term_def)
  then have "lang_stage lang R pp (q\<lparr>prep_aut := ?aa\<rparr>)" by (rule lang_stage_restrict[OF q(2) V disj])
  moreover have "literals_ok lang ?aa" by (simp add: literals_ok_def term_lang_refine_literals[OF laws])
  ultimately show ?thesis using q(1) by (simp add: refine_languages_def)
qed

section \<open>Reduction of disequations\<close>

lemma prep_equiv_remove_all:
  assumes "prep_ok lang pp"
    and "\<And>i p \<sigma>. i \<in> set ids \<Longrightarrow> fv_map (prep_formula pp) i = Some p \<Longrightarrow> langs_ok lang (prep_aut pp) \<sigma> \<Longrightarrow> sat_pred R \<sigma> p"
  shows "prep_equiv lang R pp (remove_all ids pp)"
  using assms
proof (induction ids arbitrary: pp)
  case Nil
  then show ?case by (simp add: remove_all_def prep_equiv_refl)
next
  case (Cons i ids)
  let ?pp' = "pp\<lparr>prep_formula := remove_predicate i (prep_formula pp)\<rparr>"
  have step: "prep_equiv lang R pp ?pp'" "fv_map (prep_formula ?pp') = (fv_map (prep_formula pp))(i := None)"
    using prep_ok_remove[OF Cons.prems(1), of ?pp' i R] Cons.prems(2) by auto
  have "prep_equiv lang R ?pp' (remove_all ids ?pp')"
    using step Cons.prems(2) by (intro Cons.IH) (auto simp: prep_equiv_def split: if_splits)
  then show ?case using prep_equiv_trans[OF step(1)] by (simp add: remove_all_def)
qed

lemma remove_trivial_ok:
  assumes "prep_ok lang pp"
  shows "prep_equiv lang R pp (remove_trivial pp)"
  unfolding remove_trivial_def
proof (rule prep_equiv_remove_all[OF assms])
  fix i p \<sigma>
  assume i: "i \<in> set (map fst (filter (\<lambda>(i, p). is_equation p \<and> get_left_side p = get_right_side p)
      (fv_predicates (prep_formula pp))))" and p: "fv_map (prep_formula pp) i = Some p"
  obtain q where q: "(i, q) \<in> set (fv_predicates (prep_formula pp))" "is_equation q" "get_left_side q = get_right_side q"
    using i by auto
  then have "q = p" using prep_ok_predicates[OF assms q(1)] p by simp
  then show "sat_pred R \<sigma> p" using q by (simp add: sat_pred_equation)
qed

definition diseq_stage ::
    "('a \<Rightarrow> zstring set) \<Rightarrow> (nat \<Rightarrow> (zstring \<times> zstring) set) \<Rightarrow> 'a prep \<Rightarrow> 'a prep \<times> nat list \<Rightarrow> bool" where
  "diseq_stage lang R pp st \<longleftrightarrow> lang_stage lang R pp (fst st) \<and>
     (\<forall>i \<in> set (snd st). \<forall>p \<sigma>. fv_map (prep_formula pp) i = Some p \<and> langs_ok lang (prep_aut (fst st)) \<sigma> \<longrightarrow> sat_pred R \<sigma> p)"

lemma sat_pred_inequation: "is_inequation p \<Longrightarrow>
  sat_pred R \<sigma> p \<longleftrightarrow> eval_concat \<sigma> (get_left_side p) \<noteq> eval_concat \<sigma> (get_right_side p)"
  by (simp add: sat_pred_def side_defs pred_kind_defs)

lemma diseq_stage_step:
  assumes "diseq_stage lang R pp st" and "lang_stage lang R pp q" and "restricts lang UNIV (prep_aut (fst st)) (prep_aut q)"
    and "fv_map (prep_formula pp) i = Some p" and "\<And>\<sigma>. langs_ok lang (prep_aut q) \<sigma> \<Longrightarrow> sat_pred R \<sigma> p"
  shows "diseq_stage lang R pp (q, sset_insert i (snd st))"
  using assms langs_ok_restricts[OF assms(3)] unfolding diseq_stage_def by auto

lemma word_side_lang:
  assumes "is_word_side side" and "literals_ok lang aa" and "set side \<subseteq> get_keys aa"
  shows "concat_lang (term_lang lang aa) side \<subseteq> {eval_concat \<sigma> side}"
proof (cases side)
  case (Cons t ts)
  then have "side = [t]" "is_literal t" using assms(1) by (auto simp: is_word_side_def)
  then show ?thesis using assms(2,3) by (auto simp: literals_ok_def eval_term_def)
qed simp

lemma remove_word_side_ok:
  assumes laws: "mata_laws lang m" and stage: "diseq_stage lang R pp st" and lits: "literals_ok lang (prep_aut pp)"
    and terms: "insert x (set w) \<subseteq> get_keys (prep_aut pp) - fst ` set (prep_subst pp)" and w: "is_word_side w"
    and aut: "lang aut = concat_lang (term_lang lang (prep_aut (fst st))) w"
    and p: "fv_map (prep_formula pp) i = Some p" "\<And>\<sigma>. sat_pred R \<sigma> p \<longleftrightarrow> eval_term \<sigma> x \<noteq> eval_concat \<sigma> w"
  shows "\<exists>st'. remove_word_side m x aut i st = Inr st' \<and> diseq_stage lang R pp st'"
proof -
  let ?aa = "prep_aut (fst st)" and ?q = "fst st"
  have q: "lang_stage lang R pp ?q" "prep_ok lang ?q" "restricts lang UNIV (prep_aut pp) ?aa"
    using stage by (auto simp: diseq_stage_def lang_stage_def eps_stage_def prep_equiv_def)
  have keys: "get_keys ?aa = get_keys (prep_aut pp)" using q(3) by (simp add: restricts_def)
  have x: "x \<in> get_keys ?aa" and w_keys: "set w \<subseteq> get_keys ?aa" using terms keys by auto
  then obtain y where y: "aut_at ?aa x = Inr y" using aut_at_cases by blast
  define aa' where "aa' = aut_put x (intersection m y (complement_aut m ?aa aut)) ?aa"
  have over: "term_lang lang ?aa x \<subseteq> lists (set (alph_symbols (aut_alphabet ?aa)))"
    using q(2) x by (simp add: prep_ok_def aut_ok_def)
  have lang': "term_lang lang aa' x = term_lang lang ?aa x - concat_lang (term_lang lang ?aa) w"
    using over by (auto simp: aa'_def complement_aut_def mata_lawsD[OF laws] term_lang_at[OF y] aut)
  then have V: "restricts lang {x} ?aa aa'"
    using x by (auto simp: restricts_def aa'_def insert_absorb)
  have "eval_term \<sigma> x \<in> term_lang lang aa' x" if m: "prep_models lang R ?q \<sigma>" for \<sigma>
  proof -
    have "sat_pred R \<sigma> p" using m p(1) lang_stage_models[OF q(1)] by (auto simp: prep_models_def prep_sat_def intro: ranI)
    moreover have "concat_lang (term_lang lang ?aa) w \<subseteq> {eval_concat \<sigma> w}"
      by (rule word_side_lang[OF w literals_ok_restricts[OF q(3) lits] w_keys])
    moreover have "eval_term \<sigma> x \<in> term_lang lang ?aa x"
      using m x by (simp add: prep_models_def prep_sat_def langs_ok_def)
    ultimately show ?thesis unfolding lang' using p(2) by blast
  qed
  then have q': "lang_stage lang R pp (?q\<lparr>prep_aut := aa'\<rparr>)"
    using lang_stage_term[OF q(1) V] terms by blast
  moreover have "sat_pred R \<sigma> p" if "langs_ok lang aa' \<sigma>" for \<sigma>
  proof -
    have "eval_term \<sigma> x \<in> term_lang lang aa' x" using that x V by (simp add: langs_ok_def restricts_def)
    moreover have "eval_concat \<sigma> w \<in> concat_lang (term_lang lang ?aa) w"
      by (rule eval_in_concat_lang[OF langs_ok_restricts[OF V that] w_keys])
    ultimately show ?thesis unfolding lang' p(2) by auto
  qed
  ultimately have "diseq_stage lang R pp (?q\<lparr>prep_aut := aa'\<rparr>, sset_insert i (snd st))"
    using restricts_mono[OF V subset_UNIV] by (intro diseq_stage_step[OF stage _ _ p(1)]) simp_all
  then show ?thesis by (simp add: remove_word_side_def y aa'_def Let_def)
qed

lemma reduce_diseq_ok:
  assumes laws: "mata_laws lang m" and ok: "prep_ok lang pp" and lits: "literals_ok lang (prep_aut pp)"
    and stage: "diseq_stage lang R pp st" and p: "fv_map (prep_formula pp) i = Some p"
  shows "\<exists>st'. reduce_diseq m (i, p) st = Inr st' \<and> diseq_stage lang R pp st'"
proof (cases "is_inequation p")
  case True
  let ?l = "get_left_side p" and ?r = "get_right_side p" and ?aa = "prep_aut (fst st)"
  have st: "lang_stage lang R pp (fst st)" "restricts lang UNIV (prep_aut pp) ?aa"
    using stage by (auto simp: diseq_stage_def lang_stage_def eps_stage_def)
  have terms: "set ?l \<union> set ?r \<subseteq> get_keys (prep_aut pp) - fst ` set (prep_subst pp)" by (rule prep_ok_sides[OF ok p])
  then have keys: "set ?l \<subseteq> get_keys ?aa" "set ?r \<subseteq> get_keys ?aa" using st(2) by (auto simp: restricts_def)
  obtain al where al: "get_automaton_concat m ?aa ?l = Inr al" "lang al = concat_lang (term_lang lang ?aa) ?l"
    using get_automaton_concat_Inr[OF laws keys(1)] by blast
  obtain ar where ar: "get_automaton_concat m ?aa ?r = Inr ar" "lang ar = concat_lang (term_lang lang ?aa) ?r"
    using get_automaton_concat_Inr[OF laws keys(2)] by blast
  note diseq = sat_pred_inequation[OF True]
  show ?thesis
  proof (cases "is_lang_empty m (intersection m al ar)")
    case empty: True
    have "sat_pred R \<sigma> p" if l: "langs_ok lang ?aa \<sigma>" for \<sigma>
      using eval_in_concat_lang[OF l keys(1)] eval_in_concat_lang[OF l keys(2)] empty al(2) ar(2)
      by (auto simp: diseq mata_lawsD[OF laws])
    then have "diseq_stage lang R pp (fst st, sset_insert i (snd st))"
      by (intro diseq_stage_step[OF stage st(1) _ p]) simp_all
    then show ?thesis using True al(1) ar(1) empty by (simp add: reduce_diseq_def Let_def)
  next
    case nonempty: False
    have left: "\<exists>st'. remove_word_side m x ar i st = Inr st' \<and> diseq_stage lang R pp st'"
      if "?l = [x]" "is_word_side ?r" for x
      using that terms by (intro remove_word_side_ok[OF laws stage lits _ _ ar(2) p]) (auto simp: diseq)
    have right: "\<exists>st'. remove_word_side m x al i st = Inr st' \<and> diseq_stage lang R pp st'"
      if "?r = [x]" "is_word_side ?l" for x
      using that terms by (intro remove_word_side_ok[OF laws stage lits _ _ al(2) p]) (auto simp: diseq)
    have single: "c = [c ! 0]" if "length c = 1" for c :: concat using that by (auto simp: length_Suc_conv)
    let ?L = "length ?l = 1 \<and> is_variable (?l ! 0) \<and> is_word_side ?r"
    let ?R = "length ?r = 1 \<and> is_variable (?r ! 0) \<and> is_word_side ?l"
    have run: "reduce_diseq m (i, p) st = (if ?L then remove_word_side m (?l ! 0) ar i st
        else if ?R then remove_word_side m (?r ! 0) al i st else Inr st)"
      using True al(1) ar(1) nonempty by (simp add: reduce_diseq_def Let_def)
    consider ?L | "\<not> ?L" ?R | "\<not> ?L" "\<not> ?R" by blast
    then show ?thesis
    proof cases
      case 1
      show ?thesis unfolding run if_P[OF 1] by (rule left) (use 1 single[of ?l] in auto)
    next
      case 2
      show ?thesis unfolding run if_not_P[OF 2(1)] if_P[OF 2(2)] by (rule right) (use 2 single[of ?r] in auto)
    next
      case 3
      show ?thesis unfolding run if_not_P[OF 3(1)] if_not_P[OF 3(2)] using stage by blast
    qed
  qed
qed (simp add: reduce_diseq_def stage)

lemma reduce_diseqalities_ok:
  assumes laws: "mata_laws lang m" and ok: "prep_ok lang pp" and lits: "literals_ok lang (prep_aut pp)"
  shows "\<exists>pp'. reduce_diseqalities m pp = Inr pp' \<and> prep_equiv lang R pp pp' \<and> literals_ok lang (prep_aut pp')"
proof -
  have start: "diseq_stage lang R pp (pp, [])"
    using prep_equiv_refl[OF ok] by (simp add: diseq_stage_def lang_stage_def eps_stage_def)
  have "\<exists>st'. reduce_diseq m pr st = Inr st' \<and> diseq_stage lang R pp st'"
    if "pr \<in> set (fv_predicates (prep_formula pp))" "diseq_stage lang R pp st" for pr st
    using reduce_diseq_ok[OF laws ok lits that(2)] prep_ok_predicates[OF ok] that(1) by (cases pr) blast
  then obtain q ids where q: "for_each (reduce_diseq m) (fv_predicates (prep_formula pp)) (pp, []) = Inr (q, ids)"
      "diseq_stage lang R pp (q, ids)"
    using for_each_ok[where P = "diseq_stage lang R pp", OF _ start] by (metis surj_pair)
  have stage: "prep_equiv lang R pp q" "prep_formula q = prep_formula pp" "restricts lang UNIV (prep_aut pp) (prep_aut q)"
    using q(2) by (simp_all add: diseq_stage_def lang_stage_def eps_stage_def)
  have "prep_equiv lang R q (remove_all ids q)"
    using q(2) stage by (intro prep_equiv_remove_all) (auto simp: diseq_stage_def prep_equiv_def)
  then have "prep_equiv lang R pp (remove_all ids q)" by (rule prep_equiv_trans[OF stage(1)])
  then show ?thesis
    using q(1) literals_ok_restricts[OF stage(3) lits] by (simp add: reduce_diseqalities_def remove_all_def)
qed

section \<open>The steps keep all solutions\<close>

text \<open>
  C8: Propagating variables never fails. It keeps the invariant of the preprocessor, and the
  assignments that satisfy the predicates, the languages and the recorded substitutions are
  the same before and after it. So the remaining formula is satisfiable exactly if the
  formula was satisfiable.
\<close>

theorem propagate_variables_models:
  assumes "mata_laws lang m" and "prep_ok lang pp" and "literals_ok lang (prep_aut pp)"
  shows "\<exists>pp'. propagate_variables m pp = Inr pp' \<and> prep_ok lang pp' \<and> literals_ok lang (prep_aut pp') \<and>
    (\<forall>\<sigma>. prep_models lang R pp' \<sigma> \<longleftrightarrow> prep_models lang R pp \<sigma>) \<and>
    ((\<exists>\<sigma>. prep_sat lang R pp' \<sigma>) \<longleftrightarrow> (\<exists>\<sigma>. prep_sat lang R pp \<sigma>))"
proof -
  obtain pp' where pp': "propagate_variables m pp = Inr pp'" "prep_equiv lang R pp pp'" "literals_ok lang (prep_aut pp')"
    using propagate_variables_ok[OF assms] by blast
  then show ?thesis using prep_equiv_sat[OF assms(2) pp'(2)] by (auto simp: prep_equiv_def)
qed

theorem propagate_variables_models_witness:
  "\<exists>pp'. propagate_variables set_mata example_prep = Inr pp' \<and> prep_ok id pp' \<and>
     prep_models id (\<lambda>_. {}) pp' example_solution"
  using propagate_variables_models[OF set_mata_laws example_prep_ok, of "\<lambda>_. {}"] example_aut_ok(2)
    example_solution_ok[of "\<lambda>_. {}"] by auto

text \<open>
  C9: Propagating the empty word never fails, although it looks up occurrences and automata of
  the terms it finds. It keeps the invariant, and the assignments that satisfy the state are
  the same before and after it.
\<close>

theorem propagate_eps_models:
  assumes "mata_laws lang m" and "prep_ok lang pp"
  shows "\<exists>pp'. propagate_eps m pp = Inr pp' \<and> prep_ok lang pp' \<and>
    (\<forall>\<sigma>. prep_models lang R pp' \<sigma> \<longleftrightarrow> prep_models lang R pp \<sigma>) \<and>
    ((\<exists>\<sigma>. prep_sat lang R pp' \<sigma>) \<longleftrightarrow> (\<exists>\<sigma>. prep_sat lang R pp \<sigma>))"
proof -
  obtain pp' where pp': "propagate_eps m pp = Inr pp'" "prep_equiv lang R pp pp'"
    using propagate_eps_ok[OF assms] by blast
  then show ?thesis using prep_equiv_sat[OF assms(2) pp'(2)] by (auto simp: prep_equiv_def)
qed

theorem propagate_eps_models_witness:
  "\<exists>pp'. propagate_eps set_mata example_prep = Inr pp' \<and> prep_ok id pp' \<and>
     prep_models id (\<lambda>_. {}) pp' example_solution"
  using propagate_eps_models[OF set_mata_laws example_prep_ok, of "\<lambda>_. {}"]
    example_solution_ok[of "\<lambda>_. {}"] by auto

text \<open>
  C10: Refining the languages never fails, keeps the models, and afterwards the language of
  every literal holds at most the literal itself; under that condition reducing the
  disequations keeps the models too.
\<close>

theorem language_steps_models:
  assumes "mata_laws lang m" and "prep_ok lang pp"
  shows "\<exists>pp1 pp2. refine_languages m pp = Inr pp1 \<and> literals_ok lang (prep_aut pp1) \<and>
    (\<forall>\<sigma>. prep_models lang R pp1 \<sigma> \<longleftrightarrow> prep_models lang R pp \<sigma>) \<and>
    reduce_diseqalities m pp1 = Inr pp2 \<and> prep_ok lang pp2 \<and>
    (\<forall>\<sigma>. prep_models lang R pp2 \<sigma> \<longleftrightarrow> prep_models lang R pp \<sigma>)"
proof -
  obtain pp1 where pp1: "refine_languages m pp = Inr pp1" "prep_equiv lang R pp pp1" "literals_ok lang (prep_aut pp1)"
    using refine_languages_ok[OF assms, of R] by (auto simp: lang_stage_def eps_stage_def)
  then have "prep_ok lang pp1" by (simp add: prep_equiv_def)
  then obtain pp2 where "reduce_diseqalities m pp1 = Inr pp2" "prep_equiv lang R pp1 pp2"
    using reduce_diseqalities_ok[OF assms(1) _ pp1(3), of R] by blast
  then show ?thesis using pp1 by (auto simp: prep_equiv_def)
qed

theorem language_steps_models_witness:
  "\<exists>pp1 pp2. refine_languages set_mata example_prep = Inr pp1 \<and> reduce_diseqalities set_mata pp1 = Inr pp2 \<and>
     prep_ok id pp2 \<and> prep_models id (\<lambda>_. {}) pp2 example_solution"
  using language_steps_models[OF set_mata_laws example_prep_ok, of "\<lambda>_. {}"]
    example_solution_ok[of "\<lambda>_. {}"] by auto

end
