(* ===== verification/Preprocess_Identities.thy ===== *)
theory Preprocess_Identities
  imports Preprocess_Languages
begin

text \<open>
  The step \<open>generate_identities\<close> of the preprocessor (\<open>formula_preprocess.cpp\<close>): two equations
  with a common side, whose other sides differ in one place, give an equation between the
  parts that differ.
\<close>

section \<open>The step\<close>

definition set_diff :: "'a list \<Rightarrow> 'a list \<Rightarrow> 'a list" where
  "set_diff s1 s2 = filter (\<lambda>x. x \<notin> set s2) s1"

definition get_eq_sym_diff :: "concat \<Rightarrow> concat \<Rightarrow> var_node list \<times> var_node list" where
  "get_eq_sym_diff cat1 cat2 =
     (let p1 = update_var_positions_side cat1 [] 0 True 1; p2 = update_var_positions_side cat2 [] 0 True 1
      in (set_diff p1 p2, set_diff p2 p1))"

definition map_insert_new :: "'k::linorder \<Rightarrow> 'v \<Rightarrow> ('k \<times> 'v) list \<Rightarrow> ('k \<times> 'v) list" where
  "map_insert_new k v m = (if map_of m k = None then map_put k v m else m)"

definition propagate_regular_eqs :: "var_node list \<Rightarrow> var_node list \<Rightarrow> predicate option" where
  "propagate_regular_eqs diff1 diff2 =
     (let val1 = hd diff1;
          pos1 = sset_of (map (\<lambda>i. int i + vn_position val1) [0..<length diff2]);
          pos2 = sset_of (map vn_position diff2);
          sorted_map = fold (\<lambda>t. map_insert_new (vn_position t) (vn_term t)) diff2 []
      in if pos1 = pos2 then Some (create_equation [vn_term val1] (map snd sorted_map)) else None)"

definition generate_identities_suit :: "var_node list \<times> var_node list \<Rightarrow> predicate option" where
  "generate_identities_suit diff =
     (if length (fst diff) = 1 \<and> length (snd diff) = 1 then
        let val1 = hd (fst diff); val2 = hd (snd diff) in
        if vn_position val1 = vn_position val2
        then Some (create_equation [vn_term val1] [vn_term val2]) else None
      else if length (fst diff) = 1 then propagate_regular_eqs (fst diff) (snd diff)
      else if length (snd diff) = 1 then propagate_regular_eqs (snd diff) (fst diff)
      else None)"

definition identity_diff :: "nat \<times> predicate \<Rightarrow> nat \<times> predicate \<Rightarrow> var_node list \<times> var_node list" where
  "identity_diff pr1 pr2 =
     (let l1 = get_left_side (snd pr1); r1 = get_right_side (snd pr1);
          l2 = get_left_side (snd pr2); r2 = get_right_side (snd pr2)
      in if fst pr1 = fst pr2 then get_eq_sym_diff l1 r1
         else if l1 = l2 then get_eq_sym_diff r1 r2
         else if l1 = r2 then get_eq_sym_diff r1 l2
         else if r1 = l2 then get_eq_sym_diff l1 r2
         else if r1 = r2 then get_eq_sym_diff l1 l2
         else ([], []))"

type_synonym identity_state = "(nat \<times> predicate) list \<times> nat list \<times> nat"

definition identity_step :: "nat \<times> predicate \<Rightarrow> nat \<times> predicate \<Rightarrow> identity_state \<Rightarrow> identity_state" where
  "identity_step pr1 pr2 st =
     (case st of (new_preds, rem_ids, index) \<Rightarrow>
        if \<not> is_equation (snd pr2) \<or> fst pr1 > fst pr2 then st
        else
          let diff = identity_diff pr1 pr2 in
          (case generate_identities_suit diff of
             None \<Rightarrow> st
           | Some new_pred \<Rightarrow>
               if new_pred \<noteq> snd pr1 \<and> new_pred \<noteq> snd pr2 then
                 (new_preds @ [(index, new_pred)],
                  sset_insert (if length (fst diff) = 1 then fst pr2 else fst pr1) rem_ids,
                  index + 1)
               else st))"

definition identity_loop :: "(nat \<times> predicate) list \<Rightarrow> identity_state \<Rightarrow> identity_state" where
  "identity_loop preds st =
     fold (\<lambda>pr1 st. if \<not> is_equation (snd pr1) then st else fold (identity_step pr1) preds st) preds st"

definition generate_identities :: "'a prep \<Rightarrow> 'a prep" where
  "generate_identities pp =
     (case identity_loop (fv_predicates (prep_formula pp)) ([], [], fv_max_index (prep_formula pp) + 1) of
        (new_preds, rem_ids, index) \<Rightarrow>
          let pp = remove_all rem_ids pp
          in pp\<lparr>prep_formula := fold (\<lambda>(i, p) fv. snd (add_predicate p (Some i) fv)) new_preds (prep_formula pp)\<rparr>)"

section \<open>The equations between parts that differ\<close>

definition diff_positions :: "concat \<Rightarrow> concat \<Rightarrow> nat set" where
  "diff_positions c d = {i. i < length c \<and> \<not> (i < length d \<and> d ! i = c ! i)}"

lemma positions_sorted: "sorted_wrt (<) (update_var_positions_side c [] 0 True 1)"
proof -
  have "sorted_wrt (<) res \<Longrightarrow> sorted_wrt (<) (fold (\<lambda>i. sset_insert (f i)) is res)" for f :: "nat \<Rightarrow> var_node" and "is" res
    by (induction "is" arbitrary: res) auto
  then show ?thesis by (simp add: update_var_positions_side_def)
qed

definition nodes_at :: "concat \<Rightarrow> nat set \<Rightarrow> var_node set" where
  "nodes_at c I = (\<lambda>i. VarNode (c ! i) 0 (int i + 1)) ` I"

lemma sym_diff_nodes:
  "get_eq_sym_diff c d = (d1, d2) \<Longrightarrow>
     set d1 = nodes_at c (diff_positions c d) \<and> set d2 = nodes_at d (diff_positions d c) \<and> distinct d1 \<and> distinct d2"
  using positions_sorted[of c] positions_sorted[of d]
  by (auto simp: get_eq_sym_diff_def Let_def set_diff_def set_positions_side nodes_at_def diff_positions_def strict_sorted_iff)

lemma inj_nodes: "inj_on (\<lambda>i. VarNode (c ! i) 0 (int i + 1)) I"
  by (simp add: inj_on_def)

lemma diff_single:
  assumes "get_eq_sym_diff c d = (d1, d2)" and "length d1 = 1"
  obtains k where "diff_positions c d = {k}" and "d1 = [VarNode (c ! k) 0 (int k + 1)]"
proof -
  obtain n where n: "d1 = [n]" using assms(2) by (auto simp: length_Suc_conv)
  then have nodes: "nodes_at c (diff_positions c d) = {n}" using sym_diff_nodes[OF assms(1)] by simp
  then obtain k where k: "k \<in> diff_positions c d" "n = VarNode (c ! k) 0 (int k + 1)"
    unfolding nodes_at_def by blast
  moreover have "j = k" if "j \<in> diff_positions c d" for j
  proof -
    have "VarNode (c ! j) 0 (int j + 1) \<in> {n}" using that nodes unfolding nodes_at_def by blast
    then show ?thesis using k(2) by simp
  qed
  ultimately show ?thesis using that[of k] n by blast
qed

lemma diff_agree:
  "i < length c \<Longrightarrow> i \<notin> diff_positions c d \<Longrightarrow> i < length d \<and> d ! i = c ! i"
  "i \<in> diff_positions c d \<Longrightarrow> i < length c"
  "i \<in> diff_positions c d \<Longrightarrow> i < length d \<Longrightarrow> d ! i \<noteq> c ! i"
  by (auto simp: diff_positions_def)

lemma take_agree:
  assumes "diff_positions c d = {k}"
  shows "take k c = take k d"
proof (rule nth_equalityI)
  have "k < length c" using diff_agree(2)[of k c d] assms by simp
  moreover have "k \<le> length d"
  proof (cases k)
    case (Suc j)
    then show ?thesis using diff_agree(1)[of j c d] assms \<open>k < length c\<close> by simp
  qed simp
  ultimately show len: "length (take k c) = length (take k d)" by simp
  show "take k c ! i = take k d ! i" if "i < length (take k c)" for i
    using that diff_agree(1)[of i c d] assms by simp
qed

lemma diff_lengths:
  assumes c: "diff_positions c d = {k}" and d: "diff_positions d c = {k..<k + m}"
  shows "m \<noteq> 1 \<Longrightarrow> length c = Suc k \<and> length d = k + m"
    "m = 1 \<Longrightarrow> length c = length d \<and> drop (Suc k) c = drop (Suc k) d"
proof -
  have kc: "k < length c" using diff_agree(2)[of k c d] c by simp
  have c_d: "i < length d \<and> d ! i = c ! i" if "i < length c" "i \<noteq> k" for i
    using diff_agree(1)[of i c d] that c by simp
  have d_c: "i < length c \<and> c ! i = d ! i" if "i < length d" "i \<notin> {k..<k + m}" for i
    using diff_agree(1)[of i d c] that d by simp
  have in_d: "i < length d" if "i \<in> {k..<k + m}" for i using diff_agree(2)[of i d c] that d by simp
  show "length c = Suc k \<and> length d = k + m" if m: "m \<noteq> 1"
  proof (cases m)
    case 0
    have "\<not> k < length d" using d_c[of k] diff_agree(3)[of k c d] c 0 by auto
    moreover have "k \<le> length d" using arg_cong[OF take_agree[OF c], of length] kc by simp
    moreover have "\<not> Suc k < length c" using c_d[of "Suc k"] calculation by auto
    ultimately show ?thesis using 0 kc by simp
  next
    case (Suc n)
    then have "Suc k \<in> {k..<k + m}" using m by auto
    then have "Suc k < length d" "\<not> (Suc k < length c)"
      using in_d diff_agree(3)[of "Suc k" d c] c_d[of "Suc k"] d by fastforce+
    moreover have "k + m - 1 < length d" using in_d[of "k + m - 1"] Suc by simp
    moreover have "\<not> k + m < length d" using d_c[of "k + m"] calculation(2) Suc m by auto
    ultimately show ?thesis using kc Suc by simp
  qed
  show "length c = length d \<and> drop (Suc k) c = drop (Suc k) d" if m: "m = 1"
  proof -
    have kd: "k < length d" using in_d[of k] m by simp
    have len: "length c = length d"
    proof (rule le_antisym; rule ccontr)
      show False if "\<not> length c \<le> length d" using c_d[of "length d"] kd that by simp
      show False if "\<not> length d \<le> length c" using d_c[of "length c"] kc m that by simp
    qed
    moreover have "drop (Suc k) c = drop (Suc k) d"
      by (rule nth_equalityI) (use len c_d in auto)
    ultimately show ?thesis by blast
  qed
qed

lemma diff_eval:
  assumes c: "diff_positions c d = {k}" and d: "diff_positions d c = {k..<k + m}"
    and ev: "eval_concat \<sigma> c = eval_concat \<sigma> d"
  shows "eval_term \<sigma> (c ! k) = eval_concat \<sigma> (map ((!) d) [k..<k + m])"
proof -
  have kc: "k < length c" using diff_agree(2)[of k c d] c by simp
  have km: "k + m \<le> length d"
  proof (cases "m = 1")
    case True
    then show ?thesis using diff_lengths(2)[OF c d] kc by simp
  qed (use diff_lengths(1)[OF c d] in simp)
  have split_c: "c = take k c @ c ! k # drop (Suc k) c" using kc by (rule id_take_nth_drop)
  have "map ((!) d) [k..<k + m] = take m (drop k d)"
    using km by (intro nth_equalityI) auto
  then have split_d: "d = take k d @ map ((!) d) [k..<k + m] @ drop (k + m) d"
    by (metis append_take_drop_id drop_drop add.commute)
  have rest: "drop (Suc k) c = drop (k + m) d"
    using diff_lengths[OF c d] by (cases "m = 1") simp_all
  have "eval_concat \<sigma> (take k c @ c ! k # drop (Suc k) c) =
      eval_concat \<sigma> (take k d @ map ((!) d) [k..<k + m] @ drop (k + m) d)"
    using ev split_c split_d by simp
  then show ?thesis unfolding take_agree[OF c] rest by simp
qed

lemma map_ok_unique:
  assumes "map_ok m" and "map_ok m'" and "set m = set m'"
  shows "m = m'"
proof -
  have keys: "map fst m = map fst m'"
    using assms by (intro strict_sorted_equal) (simp_all add: map_ok_def)
  have "m = map (\<lambda>k. (k, the (map_of m k))) (map fst m)" if "map_ok m" for m :: "('a \<times> 'b) list"
    using map_ok_in_set[OF that] by (auto intro!: nth_equalityI simp: prod_eq_iff)
      (metis nth_mem option.sel prod.collapse)
  moreover have "map_of m = map_of m'"
    using map_ok_in_set[OF assms(1)] map_ok_in_set[OF assms(2)] assms(3) by (metis (no_types, opaque_lifting) ext not_Some_eq)
  ultimately show ?thesis using assms keys by metis
qed

lemma set_map_put_new: "k \<notin> fst ` set m \<Longrightarrow> set (map_put k v m) = insert (k, v) (set m)"
  by (induction k v m rule: map_put.induct) auto

lemma fold_insert_new:
  assumes "map_ok m" and "distinct (map vn_position ns)" and "vn_position ` set ns \<inter> fst ` set m = {}"
  shows "map_ok (fold (\<lambda>t. map_insert_new (vn_position t) (vn_term t)) ns m) \<and>
    set (fold (\<lambda>t. map_insert_new (vn_position t) (vn_term t)) ns m) = set m \<union> (\<lambda>t. (vn_position t, vn_term t)) ` set ns"
  using assms
proof (induction ns arbitrary: m)
  case (Cons n ns)
  let ?m = "map_insert_new (vn_position n) (vn_term n) m"
  have new: "vn_position n \<notin> fst ` set m" using Cons.prems(3) by auto
  then have run: "?m = map_put (vn_position n) (vn_term n) m" by (simp add: map_insert_new_def map_of_eq_None_iff)
  have "map_ok ?m" "set ?m = insert (vn_position n, vn_term n) (set m)"
    using Cons.prems(1) new by (simp_all add: run set_map_put_new)
  moreover have "vn_position ` set ns \<inter> fst ` set ?m = {}"
    unfolding \<open>set ?m = _\<close> using Cons.prems(2,3) by auto
  ultimately show ?case using Cons.IH[of ?m] Cons.prems(2) by auto
qed simp

lemma sorted_terms:
  assumes "set ns = nodes_at d {k..<k + m}" and "distinct ns"
  shows "map snd (fold (\<lambda>t. map_insert_new (vn_position t) (vn_term t)) ns []) = map ((!) d) [k..<k + m]"
proof -
  let ?M = "fold (\<lambda>t. map_insert_new (vn_position t) (vn_term t)) ns []"
  let ?N = "map (\<lambda>i. (int i + 1, d ! i)) [k..<k + m]"
  have "distinct (map vn_position ns)"
    using assms by (auto simp: distinct_map inj_on_def nodes_at_def)
  then have M: "map_ok ?M" "set ?M = (\<lambda>t. (vn_position t, vn_term t)) ` set ns"
    using fold_insert_new[of "[]" ns] by simp_all
  have "map_ok ?N"
    using sorted_wrt_mono_rel[OF _ sorted_wrt_upt[of k "k + m"], of "\<lambda>i j. int i + 1 < int j + 1"]
    by (simp add: map_ok_def comp_def sorted_wrt_map)
  moreover have "set ?M = set ?N" unfolding M(2) assms(1) nodes_at_def by (auto simp: image_image)
  ultimately have "?M = ?N" using M(1) by (intro map_ok_unique)
  then show ?thesis by (simp add: comp_def)
qed

lemma propagate_regular_eqs_shape:
  assumes diff: "get_eq_sym_diff c d = (d1, d2)" and one: "length d1 = 1" and p: "propagate_regular_eqs d1 d2 = Some p"
  obtains k m where "diff_positions c d = {k}" and "diff_positions d c = {k..<k + m}"
    and "p = create_equation [c ! k] (map ((!) d) [k..<k + m])"
proof -
  obtain k where k: "diff_positions c d = {k}" "d1 = [VarNode (c ! k) 0 (int k + 1)]"
    using diff_single[OF diff one] by blast
  let ?m = "length d2"
  have d2: "set d2 = nodes_at d (diff_positions d c)" "distinct d2" using sym_diff_nodes[OF diff] by auto
  have "sset_of (map (\<lambda>i. int i + (int k + 1)) [0..<?m]) = sset_of (map vn_position d2)"
    using p k(2) by (simp add: propagate_regular_eqs_def Let_def split: if_splits)
  from arg_cong[OF this, of set] have pos: "(\<lambda>i. int i + (int k + 1)) ` {0..<?m} = (\<lambda>i. int i + 1) ` diff_positions d c"
    by (simp add: d2(1) nodes_at_def image_image)
  have "(\<lambda>i. int i + 1) ` {k..<k + ?m} = (\<lambda>i. int i + (int k + 1)) ` {0..<?m}"
  proof -
    have "{k..<k + ?m} = (\<lambda>i. i + k) ` {0..<?m}" by (simp add: add.commute)
    then show ?thesis by (simp only: image_image) (simp add: algebra_simps)
  qed
  then have range: "diff_positions d c = {k..<k + ?m}"
    unfolding pos by (intro inj_image_eq_iff[THEN iffD1, of "\<lambda>i. int i + 1"]) (simp_all add: inj_on_def)
  have "p = create_equation [c ! k] (map ((!) d) [k..<k + ?m])"
    using p k(2) sorted_terms[of d2 d k ?m] d2 unfolding range
    by (auto simp: propagate_regular_eqs_def Let_def split: if_splits)
  then show ?thesis using that k(1) range by blast
qed

lemma nth_terms: "(\<And>i. i \<in> I \<Longrightarrow> i < length d) \<Longrightarrow> (!) d ` I \<subseteq> set d"
  by auto

text \<open>An identity follows from the equation of the two concatenations it was read from.\<close>

definition follows_from :: "concat \<Rightarrow> concat \<Rightarrow> predicate \<Rightarrow> bool" where
  "follows_from c d p \<longleftrightarrow> wf_pred p \<and> get_set p \<subseteq> set c \<union> set d \<and>
     (\<forall>R \<sigma>. eval_concat \<sigma> c = eval_concat \<sigma> d \<longrightarrow> sat_pred R \<sigma> p)"

lemma follows_from_sym: "follows_from c d p \<Longrightarrow> follows_from d c p"
  by (auto simp: follows_from_def)

lemma follows_from_diff:
  assumes "diff_positions c d = {k}" and "diff_positions d c = {k..<k + m}"
  shows "follows_from c d (create_equation [c ! k] (map ((!) d) [k..<k + m]))"
proof -
  have "c ! k \<in> set c" using diff_agree(2)[of k c d] assms(1) by simp
  moreover have "(!) d ` {k..<k + m} \<subseteq> set d"
    using diff_agree(2)[of _ d c] assms(2) by (intro nth_terms) blast
  ultimately show ?thesis
    using diff_eval[OF assms] by (auto simp: follows_from_def)
qed

lemma suit_follows:
  assumes diff: "get_eq_sym_diff c d = (d1, d2)" and p: "generate_identities_suit (d1, d2) = Some p"
  shows "follows_from c d p"
proof -
  have diff': "get_eq_sym_diff d c = (d2, d1)" using diff by (auto simp: get_eq_sym_diff_def Let_def)
  consider (both) "length d1 = 1" "length d2 = 1" | (first) "length d1 = 1" "propagate_regular_eqs d1 d2 = Some p"
    | (second) "length d2 = 1" "propagate_regular_eqs d2 d1 = Some p"
    using p by (auto simp: generate_identities_suit_def Let_def split: if_splits)
  then show ?thesis
  proof cases
    case both
    obtain k where k: "diff_positions c d = {k}" "d1 = [VarNode (c ! k) 0 (int k + 1)]" using diff_single[OF diff both(1)] by blast
    obtain k' where k': "diff_positions d c = {k'}" "d2 = [VarNode (d ! k') 0 (int k' + 1)]" using diff_single[OF diff' both(2)] by blast
    have "k' = k" "p = create_equation [c ! k] [d ! k]"
      using p both k(2) k'(2) by (auto simp: generate_identities_suit_def split: if_splits)
    then show ?thesis using follows_from_diff[of c d k 1] k(1) k'(1) by simp
  next
    case first
    then show ?thesis using propagate_regular_eqs_shape[OF diff first] follows_from_diff by metis
  next
    case second
    then show ?thesis using propagate_regular_eqs_shape[OF diff' second] follows_from_diff follows_from_sym by metis
  qed
qed

lemma identity_follows:
  assumes p: "generate_identities_suit (identity_diff pr1 pr2) = Some p"
    and pr: "wf_pred (snd pr1)" "wf_pred (snd pr2)" "is_equation (snd pr1)" "is_equation (snd pr2)"
  shows "wf_pred p \<and> get_set p \<subseteq> get_set (snd pr1) \<union> get_set (snd pr2) \<and>
    (\<forall>R \<sigma>. sat_pred R \<sigma> (snd pr1) \<longrightarrow> sat_pred R \<sigma> (snd pr2) \<longrightarrow> sat_pred R \<sigma> p)"
proof -
  let ?l1 = "get_left_side (snd pr1)" and ?r1 = "get_right_side (snd pr1)"
  let ?l2 = "get_left_side (snd pr2)" and ?r2 = "get_right_side (snd pr2)"
  have sets: "get_set (snd pr1) = set ?l1 \<union> set ?r1" "get_set (snd pr2) = set ?l2 \<union> set ?r2"
    using wf_pred_params[OF pr(1)] wf_pred_params[OF pr(2)] by (auto simp: get_set_def)
  have "generate_identities_suit ([], []) = None" by (simp add: generate_identities_suit_def)
  then obtain c d where cd: "identity_diff pr1 pr2 = get_eq_sym_diff c d"
      "(c, d) = (?l1, ?r1) \<or> ?l1 = ?l2 \<and> (c, d) = (?r1, ?r2) \<or> ?l1 = ?r2 \<and> (c, d) = (?r1, ?l2) \<or>
       ?r1 = ?l2 \<and> (c, d) = (?l1, ?r2) \<or> ?r1 = ?r2 \<and> (c, d) = (?l1, ?l2)"
    using p unfolding identity_diff_def Let_def by (fastforce split: if_splits)
  have f: "follows_from c d p" using suit_follows[of c d _ _ p] p unfolding cd(1) by (metis surj_pair)
  have "eval_concat \<sigma> c = eval_concat \<sigma> d" if "sat_pred R \<sigma> (snd pr1)" "sat_pred R \<sigma> (snd pr2)" for R \<sigma>
    using cd(2) that pr(3,4) by (auto simp: sat_pred_equation)
  moreover have "set c \<union> set d \<subseteq> get_set (snd pr1) \<union> get_set (snd pr2)"
    unfolding sets using cd(2) by auto
  ultimately show ?thesis using f unfolding follows_from_def by blast
qed

section \<open>The loop\<close>

definition implied :: "formula_var \<Rightarrow> predicate \<Rightarrow> bool" where
  "implied fv p \<longleftrightarrow> wf_pred p \<and> get_set p \<subseteq> (\<Union>q \<in> ran (fv_map fv). get_set q) \<and>
     (\<forall>R \<sigma>. (\<forall>q \<in> ran (fv_map fv). sat_pred R \<sigma> q) \<longrightarrow> sat_pred R \<sigma> p)"

definition identity_inv :: "formula_var \<Rightarrow> identity_state \<Rightarrow> bool" where
  "identity_inv fv st \<longleftrightarrow> (case st of (new_preds, rem_ids, index) \<Rightarrow>
     sorted_wrt (<) (map fst new_preds) \<and> fst ` set new_preds \<subseteq> {fv_max_index fv<..<index} \<and> fv_max_index fv < index \<and>
     sorted_wrt (<) rem_ids \<and> set rem_ids \<subseteq> dom (fv_map fv) \<and>
     (\<forall>p \<in> snd ` set new_preds. implied fv p))"

lemma identity_step_inv:
  assumes inv: "identity_inv fv st" and pr1: "fv_map fv i = Some p" "wf_pred p" "is_equation p"
    and pr2: "fv_map fv j = Some q" "wf_pred q"
  shows "identity_inv fv (identity_step (i, p) (j, q) st)"
proof (cases "identity_step (i, p) (j, q) st = st")
  case False
  obtain new_preds rem_ids index where st: "st = (new_preds, rem_ids, index)" by (cases st)
  obtain new where new: "generate_identities_suit (identity_diff (i, p) (j, q)) = Some new" "is_equation q"
    and run: "identity_step (i, p) (j, q) st = (new_preds @ [(index, new)],
      sset_insert (if length (fst (identity_diff (i, p) (j, q))) = 1 then j else i) rem_ids, index + 1)"
    using False unfolding st by (auto simp: identity_step_def Let_def split: if_splits option.splits)
  have ran: "p \<in> ran (fv_map fv)" "q \<in> ran (fv_map fv)" using pr1(1) pr2(1) by (auto intro: ranI)
  have f: "implied fv new"
    using identity_follows[OF new(1)] pr1(2,3) pr2(2) new(2) ran by (auto simp: implied_def)
  note old = inv[unfolded st identity_inv_def prod.case]
  have "sorted_wrt (<) (map fst (new_preds @ [(index, new)]))"
    using old by (auto simp: sorted_wrt_append)
  moreover have "fst ` set (new_preds @ [(index, new)]) \<subseteq> {fv_max_index fv<..<index + 1}" using old by auto
  moreover have "\<forall>p \<in> snd ` set (new_preds @ [(index, new)]). implied fv p" using old f by auto
  ultimately show ?thesis
    unfolding run identity_inv_def prod.case using old pr1(1) pr2(1) by auto
qed (simp add: inv)

lemma identity_loop_inv:
  assumes ok: "fv_ok fv" and wf: "\<forall>p \<in> ran (fv_map fv). wf_pred p"
  shows "identity_inv fv (identity_loop (fv_predicates fv) ([], [], fv_max_index fv + 1))"
proof -
  have at: "fv_map fv i = Some p \<and> wf_pred p" if "(i, p) \<in> set (fv_predicates fv)" for i p
    using that ok wf by (auto simp: fv_ok_def fv_map_def map_ok_in_set intro: ranI)
  have inner: "identity_inv fv (fold (identity_step (i, p)) prs st)"
    if "set prs \<subseteq> set (fv_predicates fv)" "(i, p) \<in> set (fv_predicates fv)" "is_equation p" "identity_inv fv st" for i p prs st
    using that(1,4)
  proof (induction prs arbitrary: st)
    case (Cons pr prs)
    have "identity_inv fv (identity_step (i, p) pr st)"
      using identity_step_inv[of fv st i p "fst pr" "snd pr"] at[of "fst pr" "snd pr"] at[OF that(2)] that(3) Cons.prems by simp
    then show ?case using Cons.IH Cons.prems(1) by simp
  qed simp
  have "identity_inv fv (fold (\<lambda>pr1 st. if \<not> is_equation (snd pr1) then st
      else fold (identity_step pr1) (fv_predicates fv) st) prs st)"
    if "set prs \<subseteq> set (fv_predicates fv)" "identity_inv fv st" for prs st
    using that
  proof (induction prs arbitrary: st)
    case (Cons pr prs)
    let ?st = "if \<not> is_equation (snd pr) then st else fold (identity_step pr) (fv_predicates fv) st"
    have "identity_inv fv ?st" using inner[of "fv_predicates fv" "fst pr" "snd pr" st] Cons.prems by simp
    then show ?case using Cons.IH[of ?st] Cons.prems(1) by simp
  qed simp
  then show ?thesis unfolding identity_loop_def by (simp add: identity_inv_def)
qed

text \<open>Storing predicates under ascending free indices.\<close>

lemma max_index_add:
  "fv_max_index (snd (add_predicate p (Some i) fv)) \<le> max (fv_max_index fv) i"
  by (simp add: add_predicate_def Let_def split: option.split)

lemma max_index_remove_all: "fv_max_index (fold remove_predicate is fv) = fv_max_index fv"
  by (induction "is" arbitrary: fv) (simp_all add: remove_predicate_def Let_def)

lemma add_at_all:
  assumes "fv_ok fv" and "sorted_wrt (<) (map fst ps)" and "\<forall>i \<in> fst ` set ps. fv_max_index fv < i"
    and "\<forall>p \<in> snd ` set ps. wf_pred p \<and> get_set p \<subseteq> K" and "fv_within K fv"
  shows "let fv' = fold (\<lambda>(i, p) fv. snd (add_predicate p (Some i) fv)) ps fv in
    fv_ok fv' \<and> ran (fv_map fv') = ran (fv_map fv) \<union> snd ` set ps \<and> fv_within K fv'"
  using assms
proof (induction ps arbitrary: fv)
  case (Cons ip ps)
  obtain i p where ip: "ip = (i, p)" by (cases ip)
  let ?fv = "snd (add_predicate p (Some i) fv)"
  have "fv_max_index fv < i" using Cons.prems(3) ip by simp
  then have "i \<notin> dom (fv_map fv)" using Cons.prems(1) unfolding fv_ok_def by (meson leD)
  then have "fv_map fv i = None" by (simp add: domIff)
  then have fv: "fv_ok ?fv" "ran (fv_map ?fv) = insert p (ran (fv_map fv))"
    using add_predicate_ran[OF Cons.prems(1), of "Some i" p] by (simp_all add: free_index_def)
  have "fv_max_index ?fv < j" if "j \<in> fst ` set ps" for j
  proof -
    have "i < j" "fv_max_index fv < j" using that Cons.prems(2,3) ip by auto
    then show ?thesis using max_index_add[of p i fv] by linarith
  qed
  moreover have "fv_within K ?fv" using Cons.prems(4,5) ip by (intro fv_within_add) auto
  ultimately show ?case using Cons.IH[of ?fv] fv Cons.prems(2,4) ip by (simp add: Let_def)
qed simp

lemma generate_identities_ok:
  assumes ok: "prep_ok lang pp"
  shows "prep_ok lang (generate_identities pp) \<and> (\<forall>\<sigma>. prep_models lang R pp \<sigma> \<longrightarrow> prep_models lang R (generate_identities pp) \<sigma>)"
proof -
  let ?fv = "prep_formula pp" and ?K = "get_keys (prep_aut pp) - fst ` set (prep_subst pp)"
  obtain new rem index where loop: "identity_loop (fv_predicates ?fv) ([], [], fv_max_index ?fv + 1) = (new, rem, index)"
    using prod_cases3 by blast
  have fv: "fv_ok ?fv" "\<forall>p \<in> ran (fv_map ?fv). wf_pred p" "fv_within ?K ?fv" using ok by (simp_all add: prep_ok_def)
  have inv: "identity_inv ?fv (new, rem, index)" using identity_loop_inv[OF fv(1,2)] loop by simp
  let ?f = "fold remove_predicate rem ?fv"
  have removed: "fv_ok ?f" "fv_map ?f = fv_map ?fv |` (- set rem)"
    using fv.rem_all[OF fv(1), of rem] inv by (auto simp: identity_inv_def strict_sorted_iff)
  have sub: "ran (fv_map ?f) \<subseteq> ran (fv_map ?fv)" unfolding removed(2) by (auto simp: ran_def restrict_map_def split: if_splits)
  have within: "fv_within ?K ?f" by (rule fv_within_remove_all[OF fv(3)])
  note max = max_index_remove_all[of rem ?fv]
  have "(\<Union>q \<in> ran (fv_map ?fv). get_set q) \<subseteq> ?K" using fv_within_ran[OF fv(3)] by (rule UN_least)
  moreover have imp: "\<forall>p \<in> snd ` set new. implied ?fv p" using inv by (simp add: identity_inv_def)
  ultimately have preds: "\<forall>p \<in> snd ` set new. wf_pred p \<and> get_set p \<subseteq> ?K"
    unfolding implied_def by (meson order_trans)
  let ?g = "fold (\<lambda>(i, p) fv. snd (add_predicate p (Some i) fv)) new ?f"
  have "let fv' = ?g in fv_ok fv' \<and> ran (fv_map fv') = ran (fv_map ?f) \<union> snd ` set new \<and> fv_within ?K fv'"
    using inv preds by (intro add_at_all removed(1) within) (auto simp: identity_inv_def max)
  then have g: "fv_ok ?g" "ran (fv_map ?g) = ran (fv_map ?f) \<union> snd ` set new" "fv_within ?K ?g" by (simp_all add: Let_def)
  have run: "generate_identities pp = pp\<lparr>prep_formula := ?g\<rparr>"
    unfolding generate_identities_def loop prod.case by (simp add: remove_all_def Let_def)
  have "prep_ok lang (pp\<lparr>prep_formula := ?g\<rparr>)" using ok g fv(2) sub preds by (auto simp: prep_ok_def)
  moreover have "\<forall>p \<in> ran (fv_map ?g). sat_pred R \<sigma> p" if "\<forall>p \<in> ran (fv_map ?fv). sat_pred R \<sigma> p" for \<sigma>
    using that imp sub unfolding g(2) implied_def by (meson Un_iff subsetD)
  ultimately show ?thesis unfolding run by (simp add: prep_models_def prep_sat_def)
qed

section \<open>What the step keeps and what it loses\<close>

text \<open>
  C15: Generating identities loses no solution: every model of the state is a model of the new
  state, whose invariant still holds.
\<close>

theorem generate_identities_sound:
  assumes "prep_ok lang pp"
  shows "prep_ok lang (generate_identities pp) \<and>
    (\<forall>\<sigma>. prep_models lang R pp \<sigma> \<longrightarrow> prep_models lang R (generate_identities pp) \<sigma>)"
  by (rule generate_identities_ok[OF assms])

theorem generate_identities_sound_witness:
  "prep_models id (\<lambda>_. {}) (generate_identities example_prep) example_solution"
  using generate_identities_sound[OF example_prep_ok, of "\<lambda>_. {}"] example_solution_ok by blast

text \<open>
  Three equations \<open>a x = p q\<close>, \<open>a = p q\<close> and \<open>y = p q\<close>. They force \<open>p\<close> and \<open>q\<close> to form the
  word \<open>a\<close>.
\<close>

definition lossy_formula :: formula where
  "lossy_formula =
     (let p = BasicTerm Variable [112]; q = BasicTerm Variable [113]; x = BasicTerm Variable [120];
          y = BasicTerm Variable [121]; a = BasicTerm Literal [97]
      in [create_equation [a, x] [p, q], create_equation [a] [p, q], create_equation [y] [p, q]])"

definition lossy_prep :: "zstring set prep" where
  "lossy_prep = new_prep 0 lossy_formula
     \<lparr>aut_entries = map (\<lambda>n. (BasicTerm Variable [n], lists {97, 98})) [112, 113, 120, 121] @ [(BasicTerm Literal [97], {[97]})],
      aut_alphabet = \<lparr>alph_symbols = [97, 98], alph_hash = 0\<rparr>\<rparr> {} False False {} []"

lemma lossy_loop:
  "identity_loop (fv_predicates (new_formula_var 0 lossy_formula)) ([], [], fv_max_index (new_formula_var 0 lossy_formula) + 1) =
     ([(3, create_equation [BasicTerm Variable [120]] []),
       (4, create_equation [BasicTerm Variable [121]] [BasicTerm Literal [97], BasicTerm Variable [120]]),
       (5, create_equation [BasicTerm Literal [97]] [BasicTerm Variable [121]])], [0, 1, 2], 6)"
  by code_simp

lemma lossy_after:
  "fv_predicates (fold (\<lambda>(i, p) fv. snd (add_predicate p (Some i) fv))
       [(3, create_equation [BasicTerm Variable [120]] []),
        (4, create_equation [BasicTerm Variable [121]] [BasicTerm Literal [97], BasicTerm Variable [120]]),
        (5, create_equation [BasicTerm Literal [97]] [BasicTerm Variable [121]])]
       (fold remove_predicate [0, 1, 2] (new_formula_var 0 lossy_formula))) =
     [(3, create_equation [BasicTerm Variable [120]] []),
      (4, create_equation [BasicTerm Variable [121]] [BasicTerm Literal [97], BasicTerm Variable [120]]),
      (5, create_equation [BasicTerm Literal [97]] [BasicTerm Variable [121]])]"
  by code_simp

lemma prep_formula_updated: "prep_formula (pp\<lparr>prep_formula := fv\<rparr>) = fv"
  by simp

lemma lossy_formula_after:
  "prep_formula pp = new_formula_var 0 lossy_formula \<Longrightarrow>
     fv_predicates (prep_formula (generate_identities pp)) =
       [(3, create_equation [BasicTerm Variable [120]] []),
        (4, create_equation [BasicTerm Variable [121]] [BasicTerm Literal [97], BasicTerm Variable [120]]),
        (5, create_equation [BasicTerm Literal [97]] [BasicTerm Variable [121]])]"
  unfolding generate_identities_def by (simp only: lossy_loop prod.case Let_def remove_all_def prep_formula_updated lossy_after)

text \<open>
  C16: Generating identities can gain assignments that are no solutions. From the equations
  \<open>a x = p q\<close>, \<open>a = p q\<close> and \<open>y = p q\<close> it generates \<open>x = \<epsilon>\<close>, \<open>y = a x\<close> and \<open>a = y\<close> and removes
  all three equations, so \<open>p\<close> and \<open>q\<close> are not restricted any more.
\<close>

theorem generate_identities_loses_equations:
  "\<exists>\<sigma>. prep_models id R (generate_identities lossy_prep) \<sigma> \<and> \<not> prep_models id R lossy_prep \<sigma>"
proof -
  let ?p = "BasicTerm Variable [112]" and ?q = "BasicTerm Variable [113]" and ?x = "BasicTerm Variable [120]"
  let ?y = "BasicTerm Variable [121]" and ?a = "BasicTerm Literal [97]"
  let ?s = "\<lambda>t. if t = ?x then [] else if t = ?y then [97] else [98 :: nat]"
  have after: "fv_predicates (prep_formula (generate_identities lossy_prep)) =
      [(3, create_equation [?x] []), (4, create_equation [?y] [?a, ?x]), (5, create_equation [?a] [?y])]"
    by (rule lossy_formula_after) (simp add: lossy_prep_def new_prep_def)
  have ran: "ran (fv_map (prep_formula (generate_identities lossy_prep))) =
      {create_equation [?x] [], create_equation [?y] [?a, ?x], create_equation [?a] [?y]}"
    unfolding fv_map_def by (subst ran_distinct) (simp_all add: after)
  have "prep_aut (generate_identities lossy_prep) = prep_aut lossy_prep"
      "prep_subst (generate_identities lossy_prep) = prep_subst lossy_prep"
    by (simp_all add: generate_identities_def remove_all_def Let_def split: prod.split)
  then have "prep_models id R (generate_identities lossy_prep) ?s"
    unfolding prep_models_def prep_sat_def ran
    by (auto simp: lossy_prep_def new_prep_def subst_ok_def langs_ok_def get_keys_def term_lang_def eval_term_def)
  moreover have "create_equation [?a] [?p, ?q] \<in> ran (fv_map (prep_formula lossy_prep))"
    by (simp add: lossy_prep_def new_prep_def new_formula_var_ok(2) lossy_formula_def Let_def)
  then have "\<not> prep_models id R lossy_prep ?s"
    by (fastforce simp: prep_models_def prep_sat_def eval_term_def)
  ultimately show ?thesis by blast
qed

end
