(* ===== verification/Solving_State.thy ===== *)
theory Solving_State
  imports Preprocess_Models
begin

text \<open>
  A state of the stabilization procedure (\<open>solving_state.h\<close>, \<open>solving_state.cpp\<close>): languages
  and substitutions of variables, the inclusions and transducers that they have to satisfy,
  the queue of those that are still to be processed, and postponed disequations. The theory
  holds the state and all its operations except the printer of the debugging graph.
\<close>

section \<open>The state\<close>

datatype conversion_type = TO_CODE | FROM_CODE | TO_INT | FROM_INT | TO_REAL | FROM_REAL

datatype term_conversion =
  TermConversion (conv_type: conversion_type) (string_var: basic_term) (number_var: basic_term) (conv_width: int)

text \<open>
  Inclusions and transducers are ordered sets, the predicates to process a deque; the
  substitutions are an unordered map in the order of an iteration.
\<close>

record 'a solving_state =
  ss_aut :: "'a aut_assignment"
  ss_subst :: "(basic_term \<times> concat) list"
  ss_inclusions :: "predicate list"
  ss_transducers :: "predicate list"
  ss_not_on_cycle :: "predicate list"
  ss_to_process :: "predicate list"
  ss_len_vars :: "basic_term set"
  ss_diseqs :: formula
  ss_conversions :: "term_conversion list"
  ss_diseq_len :: "len_node list"
  ss_has_siblings :: bool

definition new_solving_state ::
    "'a aut_assignment \<Rightarrow> predicate list \<Rightarrow> predicate list \<Rightarrow> predicate list \<Rightarrow> predicate list \<Rightarrow> basic_term set \<Rightarrow>
     (basic_term \<times> concat) list \<Rightarrow> bool \<Rightarrow> formula \<Rightarrow> term_conversion list \<Rightarrow> 'a solving_state" where
  "new_solving_state aa to_process incls transds not_on_cycle lens S siblings diseqs convs =
     \<lparr>ss_aut = aa, ss_subst = S, ss_inclusions = incls, ss_transducers = transds, ss_not_on_cycle = not_on_cycle,
      ss_to_process = to_process, ss_len_vars = lens, ss_diseqs = diseqs, ss_conversions = convs,
      ss_diseq_len = [], ss_has_siblings = siblings\<rparr>"

text \<open>Erasing a key of an unordered map.\<close>

definition entry_erase :: "'k \<Rightarrow> ('k \<times> 'v) list \<Rightarrow> ('k \<times> 'v) list" where
  "entry_erase k es = filter (\<lambda>e. fst e \<noteq> k) es"

definition aut_erase :: "basic_term \<Rightarrow> 'a aut_assignment \<Rightarrow> 'a aut_assignment" where
  "aut_erase t aa = aa\<lparr>aut_entries := entry_erase t (aut_entries aa)\<rparr>"

text \<open>\<open>substitution_map.at(t)\<close>.\<close>

definition subst_at :: "'a solving_state \<Rightarrow> basic_term \<Rightarrow> concat res" where
  "subst_at S t = (case map_of (ss_subst S) t of None \<Rightarrow> Inl Out_Of_Range | Some c \<Rightarrow> Inr c)"

section \<open>The queue\<close>

definition push_front_unique :: "predicate \<Rightarrow> 'a solving_state \<Rightarrow> 'a solving_state" where
  "push_front_unique p S =
     (if p \<notin> set (ss_to_process S) then S\<lparr>ss_to_process := p # ss_to_process S\<rparr> else S)"

definition push_back_unique :: "predicate \<Rightarrow> 'a solving_state \<Rightarrow> 'a solving_state" where
  "push_back_unique p S =
     (if p \<notin> set (ss_to_process S) then S\<lparr>ss_to_process := ss_to_process S @ [p]\<rparr> else S)"

definition push_unique :: "predicate \<Rightarrow> bool \<Rightarrow> 'a solving_state \<Rightarrow> 'a solving_state" where
  "push_unique p to_back S = (if to_back then push_back_unique p S else push_front_unique p S)"

text \<open>Whether a variable, not a literal, of the second set is in the first.\<close>

definition is_dependent :: "basic_term set \<Rightarrow> basic_term set \<Rightarrow> bool" where
  "is_dependent left_side_vars right_side_vars \<longleftrightarrow>
     (if left_side_vars = {} then False
      else \<exists>right_var \<in> right_side_vars. is_variable right_var \<and> right_var \<in> left_side_vars)"

definition push_dependent_on :: "basic_term set \<Rightarrow> bool \<Rightarrow> 'a solving_state \<Rightarrow> 'a solving_state" where
  "push_dependent_on vars to_back S =
     (let push = (\<lambda>sel p S. if is_dependent vars (get_set_of_param p sel) then push_unique p to_back S else S)
      in fold (push 0) (ss_transducers S) (fold (push 1) (ss_inclusions S) S))"

definition push_dependent_predicates :: "predicate \<Rightarrow> bool \<Rightarrow> 'a solving_state \<Rightarrow> 'a solving_state" where
  "push_dependent_predicates p to_back S =
     push_dependent_on (if is_equation p then get_set_of_param p 0 else get_set_of_param p 1) to_back S"

definition contains_length_var :: "'a solving_state \<Rightarrow> concat \<Rightarrow> bool" where
  "contains_length_var S vars \<longleftrightarrow> (\<exists>var \<in> set vars. var \<in> ss_len_vars S)"

definition push_non_simple_transducers :: "'a solving_state \<Rightarrow> 'a solving_state" where
  "push_non_simple_transducers S =
     fold (\<lambda>p S. if contains_length_var S (get_input p) \<and>
                     (length (get_input p) \<noteq> 1 \<or> length (get_output p) \<noteq> 1 \<or> is_literal (get_output p ! 0))
                  then push_unique p False S else S)
       (ss_transducers S) S"

section \<open>The predicates\<close>

definition is_predicate_on_cycle :: "'a solving_state \<Rightarrow> predicate \<Rightarrow> bool" where
  "is_predicate_on_cycle S p \<longleftrightarrow> p \<notin> set (ss_not_on_cycle S)"

definition ss_add_predicate :: "predicate \<Rightarrow> bool \<Rightarrow> 'a solving_state \<Rightarrow> 'a solving_state" where
  "ss_add_predicate p is_on_cycle S =
     (let S = (if \<not> is_on_cycle then S\<lparr>ss_not_on_cycle := sset_insert p (ss_not_on_cycle S)\<rparr> else S)
      in if is_equation p then S\<lparr>ss_inclusions := sset_insert p (ss_inclusions S)\<rparr>
         else S\<lparr>ss_transducers := sset_insert p (ss_transducers S)\<rparr>)"

definition add_inclusion :: "concat \<Rightarrow> concat \<Rightarrow> bool \<Rightarrow> 'a solving_state \<Rightarrow> predicate \<times> 'a solving_state" where
  "add_inclusion left_side right_side is_on_cycle S =
     (let new_inclusion = create_equation left_side right_side
      in (new_inclusion, ss_add_predicate new_inclusion is_on_cycle S))"

definition add_transducer ::
    "nat \<Rightarrow> concat \<Rightarrow> concat \<Rightarrow> bool \<Rightarrow> 'a solving_state \<Rightarrow> predicate \<times> 'a solving_state" where
  "add_transducer nft input output is_on_cycle S =
     (let new_transducer = create_transducer nft input output
      in (new_transducer, ss_add_predicate new_transducer is_on_cycle S))"

definition ss_remove_predicate :: "predicate \<Rightarrow> 'a solving_state \<Rightarrow> 'a solving_state" where
  "ss_remove_predicate p S =
     (let S = (if is_equation p then S\<lparr>ss_inclusions := filter (\<lambda>q. q \<noteq> p) (ss_inclusions S)\<rparr>
               else S\<lparr>ss_transducers := filter (\<lambda>q. q \<noteq> p) (ss_transducers S)\<rparr>)
      in S\<lparr>ss_not_on_cycle := filter (\<lambda>q. q \<noteq> p) (ss_not_on_cycle S)\<rparr>)"

definition get_predicate_with_var_on_right_side :: "'a solving_state \<Rightarrow> basic_term \<Rightarrow> predicate option" where
  "get_predicate_with_var_on_right_side S var =
     (case List.find (\<lambda>p. var \<in> get_set_of_param p 1) (ss_inclusions S) of
        Some p \<Rightarrow> Some p
      | None \<Rightarrow> List.find (\<lambda>p. var \<in> set (get_input p)) (ss_transducers S))"

section \<open>Substitution\<close>

definition is_var_empty_word :: "'a solving_state \<Rightarrow> basic_term \<Rightarrow> bool" where
  "is_var_empty_word S var \<longleftrightarrow> map_of (ss_subst S) var = Some []"

definition get_substituted_vars :: "'a solving_state \<Rightarrow> basic_term \<Rightarrow> concat" where
  "get_substituted_vars S var = (case map_of (ss_subst S) var of Some c \<Rightarrow> c | None \<Rightarrow> [var])"

definition apply_substitutions_to_disequations :: "'a solving_state \<Rightarrow> 'a solving_state" where
  "apply_substitutions_to_disequations S =
     (let substitute_concat = (\<lambda>con. concat (map (get_substituted_vars S) con))
      in S\<lparr>ss_diseqs := map (\<lambda>p. create_disequation (substitute_concat (get_left_side p))
                                      (substitute_concat (get_right_side p))) (ss_diseqs S)\<rparr>)"

definition substitute_vector :: "basic_term set \<Rightarrow> 'a solving_state \<Rightarrow> concat \<Rightarrow> concat res" where
  "substitute_vector vars S c =
     bind_res (map_res (\<lambda>var. if var \<notin> vars then Inr [var] else subst_at S var) c) (\<lambda>cs. Inr (concat cs))"

definition substitute_predicate :: "basic_term set \<Rightarrow> 'a solving_state \<Rightarrow> predicate \<Rightarrow> predicate res" where
  "substitute_predicate vars S p =
     bind_res (map_res (substitute_vector vars S) (params p)) (\<lambda>new_params.
       Inr (if is_transducer p then Predicate (ptype p) new_params (transducer p)
            else Predicate (ptype p) new_params None))"

definition inclusion_has_same_sides :: "predicate \<Rightarrow> bool" where
  "inclusion_has_same_sides p \<longleftrightarrow> is_equation p \<and> get_left_side p = get_right_side p"

definition substitute_set :: "basic_term set \<Rightarrow> 'a solving_state \<Rightarrow> predicate list \<Rightarrow> predicate list res" where
  "substitute_set vars S ps =
     bind_res (map_res (substitute_predicate vars S) ps) (\<lambda>qs.
       Inr (sset_of (filter (\<lambda>q. \<not> inclusion_has_same_sides q) qs)))"

text \<open>
  The set of the predicates that are already in the new queue stays empty in the code, so
  equal predicates stay in the queue more than once.
\<close>

definition substitute_queue :: "basic_term set \<Rightarrow> 'a solving_state \<Rightarrow> predicate list \<Rightarrow> predicate list res" where
  "substitute_queue vars S ps =
     bind_res (map_res (substitute_predicate vars S) ps) (\<lambda>qs. Inr (filter (\<lambda>q. \<not> inclusion_has_same_sides q) qs))"

text \<open>The loop over the map rewrites its entries in place, so later entries see the new ones.\<close>

definition substitute_map :: "basic_term set \<Rightarrow> 'a solving_state \<Rightarrow> 'a solving_state res" where
  "substitute_map vars S =
     for_each (\<lambda>x S. bind_res (subst_at S x) (\<lambda>c. bind_res (substitute_vector vars S c) (\<lambda>c'.
         Inr (S\<lparr>ss_subst := entry_put x c' (ss_subst S)\<rparr>))))
       (map fst (ss_subst S)) S"

definition substitute_vars :: "basic_term set \<Rightarrow> 'a solving_state \<Rightarrow> 'a solving_state res" where
  "substitute_vars vars S =
     bind_res (substitute_set vars S (ss_inclusions S)) (\<lambda>incls.
     bind_res (substitute_set vars S (ss_transducers S)) (\<lambda>transds.
     bind_res (substitute_set vars S (ss_not_on_cycle S)) (\<lambda>not_on_cycle.
     bind_res (substitute_queue vars S (ss_to_process S)) (\<lambda>to_process.
     bind_res (substitute_map vars (S\<lparr>ss_inclusions := incls, ss_transducers := transds,
         ss_not_on_cycle := not_on_cycle, ss_to_process := to_process\<rparr>)) (\<lambda>S.
       Inr (apply_substitutions_to_disequations S))))))"

text \<open>
  Flattening: \<open>flatten_terms\<close> is the loop of \<open>flatten_var\<close> over the substitution of a variable,
  with the result so far and the flattened map; a cyclic map is a run that does not end.
\<close>

partial_function (option) flatten_terms ::
    "'a solving_state \<Rightarrow> concat \<Rightarrow> concat \<Rightarrow> (basic_term \<times> concat) list \<Rightarrow> (concat \<times> (basic_term \<times> concat) list) res option" where
  "flatten_terms S ts flattened done =
     (case ts of
        [] \<Rightarrow> Some (Inr (flattened, done))
      | t # ts \<Rightarrow>
          if t \<in> get_keys (ss_aut S) then flatten_terms S ts (flattened @ [t]) done
          else case map_of done t of
            Some c \<Rightarrow> flatten_terms S ts (flattened @ c) done
          | None \<Rightarrow>
              case map_of (ss_subst S) t of
                None \<Rightarrow> Some (Inl Out_Of_Range)
              | Some c \<Rightarrow>
                  Option.bind (flatten_terms S c [] done) (\<lambda>r.
                    case r of Inl e \<Rightarrow> Some (Inl e)
                    | Inr (d, done) \<Rightarrow> flatten_terms S ts (flattened @ d) (entry_put t d done)))"

fun flatten_vars ::
    "'a solving_state \<Rightarrow> basic_term list \<Rightarrow> (basic_term \<times> concat) list \<Rightarrow> (basic_term \<times> concat) list res option" where
  "flatten_vars S [] done = Some (Inr done)"
| "flatten_vars S (x # xs) done =
     (if map_of done x \<noteq> None then flatten_vars S xs done
      else case map_of (ss_subst S) x of
        None \<Rightarrow> Some (Inl Out_Of_Range)
      | Some c \<Rightarrow>
          Option.bind (flatten_terms S c [] done) (\<lambda>r.
            case r of Inl e \<Rightarrow> Some (Inl e)
            | Inr (d, done) \<Rightarrow> flatten_vars S xs (entry_put x d done)))"

definition flatten_substition_map :: "'a solving_state \<Rightarrow> 'a solving_state res option" where
  "flatten_substition_map S =
     Option.bind (flatten_vars S (map fst (ss_subst S)) []) (\<lambda>r.
       Some (bind_res r (\<lambda>new_map. Inr (apply_substitutions_to_disequations (S\<lparr>ss_subst := new_map\<rparr>)))))"

section \<open>Removing variables\<close>

definition get_vars_referenced_by_state_constraints :: "'a solving_state \<Rightarrow> basic_term set res" where
  "get_vars_referenced_by_state_constraints S =
     bind_res (map_res collect_free_vars (ss_diseq_len S)) (\<lambda>conjunct_vars.
       Inr (string_var ` set (ss_conversions S) \<union> number_var ` set (ss_conversions S) \<union>
            formula_get_vars (ss_diseqs S) \<union> \<Union>(set conjunct_vars)))"

definition remove_var :: "basic_term set \<Rightarrow> basic_term set \<Rightarrow> basic_term \<Rightarrow> 'a solving_state \<Rightarrow> 'a solving_state" where
  "remove_var vars_to_keep required var S =
     (if var \<in> vars_to_keep then S
      else if var \<in> required then S\<lparr>ss_aut := aut_erase var (ss_aut S)\<rparr>
      else S\<lparr>ss_subst := entry_erase var (ss_subst S), ss_len_vars := ss_len_vars S - {var},
             ss_aut := aut_erase var (ss_aut S)\<rparr>)"

definition remove_vars :: "basic_term list \<Rightarrow> basic_term set \<Rightarrow> 'a solving_state \<Rightarrow> 'a solving_state res" where
  "remove_vars vars_to_remove vars_to_keep S =
     bind_res (get_vars_referenced_by_state_constraints S) (\<lambda>required.
       Inr (fold (remove_var vars_to_keep required) vars_to_remove S))"

section \<open>Languages\<close>

text \<open>
  The automata of a concatenation, neighbouring variables without length constraints in one
  automaton if \<open>group_non_length\<close>, and the variables of each automaton.
\<close>

fun divide_concatenation ::
    "'a mata \<Rightarrow> 'a solving_state \<Rightarrow> bool \<Rightarrow> concat \<Rightarrow> 'a \<Rightarrow> concat \<Rightarrow> bool \<Rightarrow> ('a list \<times> concat list) res" where
  "divide_concatenation m S group_non_length [] prev_aut prev_division prev_is_length =
     Inr ([prev_aut], [prev_division])"
| "divide_concatenation m S group_non_length (cur_var # rest) prev_aut prev_division prev_is_length =
     bind_res (aut_at (ss_aut S) cur_var) (\<lambda>cur_var_aut.
       let cur_is_length = cur_var \<in> ss_len_vars S in
       if \<not> group_non_length \<or> prev_is_length \<or> cur_is_length
       then bind_res (divide_concatenation m S group_non_length rest cur_var_aut [cur_var] cur_is_length)
              (\<lambda>(automata, divisions). Inr (prev_aut # automata, prev_division # divisions))
       else divide_concatenation m S group_non_length rest (concatenate m prev_aut cur_var_aut)
              (prev_division @ [cur_var]) cur_is_length)"

definition get_automata_and_division ::
    "'a mata \<Rightarrow> 'a solving_state \<Rightarrow> concat \<Rightarrow> bool \<Rightarrow> ('a list \<times> concat list) res" where
  "get_automata_and_division m S con group_non_length =
     (case con of
        [] \<Rightarrow> Inr ([], [])
      | cur_var # rest \<Rightarrow>
          bind_res (aut_at (ss_aut S) cur_var) (\<lambda>prev_aut.
            divide_concatenation m S group_non_length rest prev_aut [cur_var] (cur_var \<in> ss_len_vars S)))"

definition add_fresh_var ::
    "string_encoding \<Rightarrow> 'a mata \<Rightarrow> 'a \<Rightarrow> zstring \<Rightarrow> bool \<Rightarrow> bool \<Rightarrow> 'a solving_state \<times> fresh_ids \<Rightarrow>
     (basic_term \<times> 'a solving_state \<times> fresh_ids) res" where
  "add_fresh_var enc m nfa var_prefix is_length optimize_literal st =
     (let S = fst st; ids = snd st in
      bind_res (if optimize_literal
                then case aut_encodes_literal enc (view m nfa) of None \<Rightarrow> Inl No_Progress | Some r \<Rightarrow> Inr r
                else Inr None) (\<lambda>lit.
        case lit of
          Some literal \<Rightarrow>
            let new_literal = BasicTerm Literal literal
            in Inr (new_literal, S\<lparr>ss_aut := aut_put new_literal nfa (ss_aut S)\<rparr>, ids)
        | None \<Rightarrow>
            let (new_var, ids) = mk_noodler_var_fresh var_prefix ids
            in Inr (new_var, S\<lparr>ss_aut := aut_put new_var nfa (ss_aut S),
                  ss_len_vars := (if is_length then insert new_var (ss_len_vars S) else ss_len_vars S)\<rparr>, ids)))"

text \<open>The length constraints of a variable; they may need fresh variables.\<close>

definition ss_get_lengths ::
    "'a mata \<Rightarrow> 'a solving_state \<Rightarrow> basic_term \<Rightarrow> fresh_ids \<Rightarrow> (len_node \<times> fresh_ids) res" where
  "ss_get_lengths m S var ids =
     (if var \<in> get_keys (ss_aut S) then aut_get_lengths m (ss_aut S) var ids
      else case map_of (ss_subst S) var of
        Some c \<Rightarrow>
          let result = len_op EQ [len_leaf var, len_op PLUS (map len_leaf c)]
          in Inr (len_op AND [result, len_op LEQ [len_num 0, len_leaf var]], ids)
      | None \<Rightarrow> Inl (Runtime_Error ''Variable was neither in automata assignment nor was substituted''))"

section \<open>Substituting inclusions\<close>

definition substitute_right ::
    "bool \<Rightarrow> predicate \<Rightarrow> 'a solving_state \<times> basic_term list \<Rightarrow> ('a solving_state \<times> basic_term list) res" where
  "substitute_right on_cycle incl st =
     (let S = fst st; right_side = get_right_side incl in
      if contains_length_var S right_side then
        let right_var = right_side ! 0 in
        (case map_of (ss_subst S) right_var of
           None \<Rightarrow>
             Inr (S\<lparr>ss_subst := entry_put right_var (get_left_side incl) (ss_subst S),
                    ss_aut := aut_erase right_var (ss_aut S)\<rparr>, sset_insert right_var (snd st))
         | Some c \<Rightarrow>
             let (new_inclusion, S) = add_inclusion (get_left_side incl) c on_cycle S
             in Inr (push_unique new_inclusion on_cycle S, snd st))
      else Inr (ss_add_predicate incl on_cycle S, snd st))"

definition process_substituting_inclusions_from_right ::
    "predicate list \<Rightarrow> bool \<Rightarrow> 'a solving_state \<Rightarrow> ('a solving_state \<times> basic_term list) res" where
  "process_substituting_inclusions_from_right incls on_cycle S =
     bind_res (for_each (substitute_right on_cycle) incls (S, [])) (\<lambda>(S, newly_substituted).
     bind_res (substitute_vars (set newly_substituted) S) (\<lambda>S.
       Inr (push_non_simple_transducers S, newly_substituted)))"

definition substitute_left ::
    "bool \<Rightarrow> predicate \<Rightarrow> 'a solving_state \<times> basic_term list \<Rightarrow> ('a solving_state \<times> basic_term list) res" where
  "substitute_left on_cycle incl st =
     (let S = fst st; left_var = get_left_side incl ! 0 in
      if is_literal left_var then Inr st
      else case map_of (ss_subst S) left_var of
        None \<Rightarrow>
          Inr (S\<lparr>ss_subst := entry_put left_var (get_right_side incl) (ss_subst S),
                 ss_aut := aut_erase left_var (ss_aut S)\<rparr>, sset_insert left_var (snd st))
      | Some c \<Rightarrow>
          let (new_inclusion, S) = add_inclusion c (get_right_side incl) on_cycle S
          in Inr (push_unique new_inclusion on_cycle S, snd st))"

definition process_substituting_inclusions_from_left ::
    "predicate list \<Rightarrow> bool \<Rightarrow> 'a solving_state \<Rightarrow> ('a solving_state \<times> basic_term list) res" where
  "process_substituting_inclusions_from_left incls on_cycle S =
     bind_res (for_each (substitute_left on_cycle) incls (S, [])) (\<lambda>(S, newly_substituted).
     bind_res (substitute_vars (set newly_substituted) (push_dependent_on (set newly_substituted) on_cycle S)) (\<lambda>S.
       Inr (push_non_simple_transducers S, newly_substituted)))"

section \<open>Disequations\<close>

definition get_disequations_underapprox_length_formula :: "'a solving_state \<Rightarrow> len_node" where
  "get_disequations_underapprox_length_formula S = len_op AND (map get_formula_eq (ss_diseqs S))"

definition to_code_var :: "basic_term \<Rightarrow> basic_term" where
  "to_code_var t = mk_internal_noodler_var (get_name t @ zs ''!ineq_to_code'')"

definition create_to_code_ineq :: "basic_term \<Rightarrow> basic_term \<Rightarrow> 'a solving_state \<Rightarrow> 'a solving_state" where
  "create_to_code_ineq var1 var2 S =
     S\<lparr>ss_len_vars := insert var2 (insert var1 (ss_len_vars S)),
       ss_conversions := ss_conversions S @ [TermConversion TO_CODE var1 (to_code_var var1) 0,
         TermConversion TO_CODE var2 (to_code_var var2) 0],
       ss_diseq_len := ss_diseq_len S @ [len_op NEQ [len_leaf (to_code_var var1), len_leaf (to_code_var var2)]]\<rparr>"

text \<open>Both sides are one term whose words have at most one symbol.\<close>

definition is_char_disequality ::
    "'a mata \<Rightarrow> ('a \<Rightarrow> 'a \<Rightarrow> bool) \<Rightarrow> 'a solving_state \<Rightarrow> predicate \<Rightarrow> bool res" where
  "is_char_disequality m is_included S diseq =
     (if length (get_left_side diseq) = 1 \<and> length (get_right_side diseq) = 1 then
        bind_res (aut_at (ss_aut S) (get_left_side diseq ! 0)) (\<lambda>autl.
        bind_res (aut_at (ss_aut S) (get_right_side diseq ! 0)) (\<lambda>autr.
          let sigma_eps = of_nfa m (sigma_eps_automaton (aut_alphabet (ss_aut S)))
          in Inr (is_included autl sigma_eps \<and> is_included autr sigma_eps)))
      else Inr False)"

definition len_implies_empty :: "basic_term \<Rightarrow> basic_term \<Rightarrow> len_node" where
  "len_implies_empty a y = len_op OR [len_op NEQ [len_leaf a, len_num 0], len_op EQ [len_leaf y, len_num 0]]"

definition replace_disequality ::
    "'a mata \<Rightarrow> ('a \<Rightarrow> 'a \<Rightarrow> bool) \<Rightarrow> predicate \<Rightarrow> 'a solving_state \<times> fresh_ids \<Rightarrow>
     (predicate list \<times> 'a solving_state \<times> fresh_ids) res" where
  "replace_disequality m is_included diseq st =
     (let S = fst st; ids = snd st in
      bind_res (is_char_disequality m is_included S diseq) (\<lambda>chars.
      if chars then
        Inr ([], create_to_code_ineq (get_left_side diseq ! 0) (get_right_side diseq ! 0) S, ids)
      else
        let sigma_eps = of_nfa m (sigma_eps_automaton (aut_alphabet (ss_aut S)));
            sigma_star = of_nfa m (sigma_star_automaton (aut_alphabet (ss_aut S)));
            (x1, ids) = mk_noodler_var_fresh (zs ''diseq_start'') ids;
            (a1, ids) = mk_noodler_var_fresh (zs ''diseq_char'') ids;
            (y1, ids) = mk_noodler_var_fresh (zs ''diseq_end'') ids;
            (x2, ids) = mk_noodler_var_fresh (zs ''diseq_start'') ids;
            (a2, ids) = mk_noodler_var_fresh (zs ''diseq_char'') ids;
            (y2, ids) = mk_noodler_var_fresh (zs ''diseq_end'') ids;
            aa = aut_put y2 sigma_star (aut_put a2 sigma_eps (aut_put x2 sigma_star
                   (aut_put y1 sigma_star (aut_put a1 sigma_eps (aut_put x1 sigma_star (ss_aut S))))));
            S = S\<lparr>ss_aut := aa, ss_len_vars := insert x2 (insert x1 (ss_len_vars S)),
                  ss_diseq_len := ss_diseq_len S @ [len_op EQ [len_leaf x1, len_leaf x2]]\<rparr>;
            S = create_to_code_ineq a1 a2 S;
            S = S\<lparr>ss_len_vars := insert y2 (insert y1 (ss_len_vars S)),
                  ss_diseq_len := ss_diseq_len S @ [len_implies_empty a1 y1, len_implies_empty a2 y2]\<rparr>
        in Inr ([create_equation (get_left_side diseq) [x1, a1, y1],
                 create_equation (get_right_side diseq) [x2, a2, y2]], S, ids)))"

definition translate_disequation ::
    "'a mata \<Rightarrow> ('a \<Rightarrow> 'a \<Rightarrow> bool) \<Rightarrow> predicate \<Rightarrow> 'a solving_state \<times> fresh_ids \<Rightarrow> ('a solving_state \<times> fresh_ids) res" where
  "translate_disequation m is_included diseq st =
     bind_res (replace_disequality m is_included diseq st) (\<lambda>(eqs, S, ids).
       Inr (fold (\<lambda>eq S. push_unique eq False (ss_add_predicate eq False S)) eqs S, ids))"

definition translate_postponed_disequations_to_equations ::
    "'a mata \<Rightarrow> ('a \<Rightarrow> 'a \<Rightarrow> bool) \<Rightarrow> 'a solving_state \<times> fresh_ids \<Rightarrow> ('a solving_state \<times> fresh_ids) res" where
  "translate_postponed_disequations_to_equations m is_included st =
     bind_res (for_each (translate_disequation m is_included) (ss_diseqs (fst st)) st) (\<lambda>(S, ids).
       Inr (S\<lparr>ss_diseqs := []\<rparr>, ids))"

end
