(* ===== verification/Preprocess_Unsat.thy ===== *)
theory Preprocess_Unsat
  imports Preprocess_Models
begin

text \<open>
  The checks of the preprocessor that report an unsatisfiable formula
  (\<open>formula_preprocess.cpp\<close>): disequations and not-contains predicates whose sides become equal
  when variables are replaced by the sides of their equations, and (dis)equations of literals.
\<close>

section \<open>The checks\<close>

text \<open>The right sides of the equations of each single term, as ordered sets.\<close>

definition construct_replace_map :: "'a prep \<Rightarrow> (basic_term \<times> concat list) list" where
  "construct_replace_map pp =
     fold (\<lambda>pr m. if \<not> is_equation (snd pr) then m
             else if length (get_left_side (snd pr)) \<noteq> 1 then m
             else map_set_insert (get_left_side (snd pr) ! 0) (get_right_side (snd pr)) m)
       (fv_predicates (prep_formula pp)) []"

text \<open>
  \<open>operator[]\<close> adds an empty set for a term without equations, which the loop does not replace
  either, so the map can be read without changing it.
\<close>

definition flatten_concat :: "concat \<Rightarrow> (basic_term \<times> concat list) list \<Rightarrow> concat" where
  "flatten_concat con m =
     concat (map (\<lambda>bt. case map_of m bt of Some [rpl] \<Rightarrow> rpl | _ \<Rightarrow> [bt]) con)"

fun unify_right :: "nat \<Rightarrow> (concat \<Rightarrow> concat \<Rightarrow> bool) \<Rightarrow> (basic_term \<times> concat list) list \<Rightarrow> concat \<Rightarrow> concat \<Rightarrow> bool" where
  "unify_right 0 check m tmp1 tmp2 = False"
| "unify_right (Suc j) check m tmp1 tmp2 =
     (if check tmp1 tmp2 then True else unify_right j check m tmp1 (flatten_concat tmp2 m))"

fun unify_left :: "nat \<Rightarrow> (concat \<Rightarrow> concat \<Rightarrow> bool) \<Rightarrow> (basic_term \<times> concat list) list \<Rightarrow> concat \<Rightarrow> concat \<Rightarrow> bool" where
  "unify_left 0 check m tmp1 con2 = False"
| "unify_left (Suc i) check m tmp1 con2 =
     (if unify_right 4 check m tmp1 con2 then True else unify_left i check m (flatten_concat tmp1 m) con2)"

definition can_unify :: "'a prep \<Rightarrow> concat \<Rightarrow> concat \<Rightarrow> (concat \<Rightarrow> concat \<Rightarrow> bool) \<Rightarrow> bool" where
  "can_unify pp con1 con2 check = unify_left 4 check (construct_replace_map pp) con1 con2"

definition literal_sides_differ :: "predicate \<Rightarrow> bool" where
  "literal_sides_differ p \<longleftrightarrow>
     concat (map get_name (get_left_side p)) \<noteq> concat (map get_name (get_right_side p))"

definition contains_unsat_eqs_or_diseqs :: "'a prep \<Rightarrow> bool" where
  "contains_unsat_eqs_or_diseqs pp =
     list_ex (\<lambda>pr.
         (is_inequation (snd pr) \<and> can_unify pp (get_left_side (snd pr)) (get_right_side (snd pr)) (=)) \<or>
         (is_equation (snd pr) \<and> is_str_const (snd pr) \<and> literal_sides_differ (snd pr)))
       (fv_predicates (prep_formula pp))"

text \<open>Whether the second list occurs in the first; \<open>std::equal\<close> compares the two ranges with their ends.\<close>

definition contain_check :: "concat \<Rightarrow> concat \<Rightarrow> bool" where
  "contain_check c1 c2 =
     list_ex (\<lambda>i. (if i + length c2 \<ge> length c1 then drop i c1 else take (length c2) (drop i c1)) = c2)
       [0..<length c1]"

definition can_unify_contain :: "'a prep \<Rightarrow> concat \<Rightarrow> concat \<Rightarrow> bool" where
  "can_unify_contain pp left right = (if left = right then True else can_unify pp left right contain_check)"

definition can_unify_not_contains :: "'a prep \<Rightarrow> bool" where
  "can_unify_not_contains pp =
     list_ex (\<lambda>pr. is_not_cont (snd pr) \<and> can_unify_contain pp (get_haystack (snd pr)) (get_needle (snd pr)))
       (fv_predicates (prep_formula pp))"

fun gather_lits :: "concat \<Rightarrow> zstring option" where
  "gather_lits [] = Some []"
| "gather_lits (bt # con) =
     (if is_literal bt then map_option (\<lambda>w. get_name bt @ w) (gather_lits con) else None)"

definition contains_unsat_literals :: "'a prep \<Rightarrow> bool" where
  "contains_unsat_literals pp =
     list_ex (\<lambda>pr.
         is_eq_or_ineq (snd pr) \<and>
         (case (gather_lits (get_left_side (snd pr)), gather_lits (get_right_side (snd pr))) of
            (Some left, Some right) \<Rightarrow>
              (is_equation (snd pr) \<and> left \<noteq> right) \<or> (is_inequation (snd pr) \<and> left = right)
          | _ \<Rightarrow> False))
       (fv_predicates (prep_formula pp))"

section \<open>Soundness\<close>

definition replace_ok :: "assignment \<Rightarrow> (basic_term \<times> concat list) list \<Rightarrow> bool" where
  "replace_ok \<sigma> m \<longleftrightarrow> (\<forall>t cs. map_of m t = Some cs \<longrightarrow> (\<forall>c \<in> set cs. eval_term \<sigma> t = eval_concat \<sigma> c))"

lemma replace_ok_insert:
  assumes "replace_ok \<sigma> m" and "eval_term \<sigma> t = eval_concat \<sigma> c"
  shows "replace_ok \<sigma> (map_set_insert t c m)"
  using assms by (auto simp: replace_ok_def map_set_insert_def split: option.splits)

lemma replace_map_ok:
  assumes "\<And>p. p \<in> snd ` set (fv_predicates (prep_formula pp)) \<Longrightarrow> sat_pred R \<sigma> p"
  shows "replace_ok \<sigma> (construct_replace_map pp)"
proof -
  have fold: "replace_ok \<sigma> (fold (\<lambda>pr m. if \<not> is_equation (snd pr) then m
        else if length (get_left_side (snd pr)) \<noteq> 1 then m
        else map_set_insert (get_left_side (snd pr) ! 0) (get_right_side (snd pr)) m) prs m)"
    if "replace_ok \<sigma> m" and "\<forall>pr \<in> set prs. sat_pred R \<sigma> (snd pr)" for prs m
    using that
  proof (induction prs arbitrary: m)
    case (Cons pr prs)
    have "eval_term \<sigma> (get_left_side (snd pr) ! 0) = eval_concat \<sigma> (get_right_side (snd pr))"
      if e: "is_equation (snd pr)" and l: "length (get_left_side (snd pr)) = 1"
    proof -
      obtain t where "get_left_side (snd pr) = [t]" using l by (auto simp: length_Suc_conv)
      then show ?thesis using Cons.prems(2) e by (simp add: sat_pred_equation)
    qed
    then show ?case using Cons.IH Cons.prems replace_ok_insert[OF Cons.prems(1)] by simp
  qed simp
  show ?thesis
    unfolding construct_replace_map_def by (rule fold) (use assms in \<open>auto simp: replace_ok_def\<close>)
qed

lemma eval_flatten_concat:
  assumes "replace_ok \<sigma> m"
  shows "eval_concat \<sigma> (flatten_concat con m) = eval_concat \<sigma> con"
proof (induction con)
  case (Cons t con)
  have "eval_concat \<sigma> (case map_of m t of Some [rpl] \<Rightarrow> rpl | _ \<Rightarrow> [t]) = eval_term \<sigma> t"
    using assms by (auto simp: replace_ok_def split: option.split list.split)
  then show ?case using Cons by (simp add: flatten_concat_def)
qed (simp add: flatten_concat_def)

lemma unify_right_eval:
  assumes "replace_ok \<sigma> m" and "unify_right j check m tmp1 tmp2"
  shows "\<exists>c2. check tmp1 c2 \<and> eval_concat \<sigma> c2 = eval_concat \<sigma> tmp2"
  using assms(2)
proof (induction j arbitrary: tmp2)
  case (Suc j)
  then show ?case
    using Suc.IH[of "flatten_concat tmp2 m"] eval_flatten_concat[OF assms(1)] by (auto split: if_splits)
qed simp

lemma can_unify_eval:
  assumes "replace_ok \<sigma> (construct_replace_map pp)" and "can_unify pp con1 con2 check"
  shows "\<exists>c1 c2. check c1 c2 \<and> eval_concat \<sigma> c1 = eval_concat \<sigma> con1 \<and> eval_concat \<sigma> c2 = eval_concat \<sigma> con2"
proof -
  have "\<exists>c1 c2. check c1 c2 \<and> eval_concat \<sigma> c1 = eval_concat \<sigma> tmp1 \<and> eval_concat \<sigma> c2 = eval_concat \<sigma> con2"
    if "unify_left i check m tmp1 con2" and "replace_ok \<sigma> m" for i m tmp1
    using that
  proof (induction i arbitrary: tmp1)
    case (Suc i)
    show ?case
    proof (cases "unify_right 4 check m tmp1 con2")
      case True
      then show ?thesis using unify_right_eval[OF Suc.prems(2)] by blast
    next
      case False
      then show ?thesis using Suc.IH[of "flatten_concat tmp1 m"] Suc.prems eval_flatten_concat[OF Suc.prems(2)] by simp
    qed
  qed simp
  then show ?thesis using assms by (simp add: can_unify_def)
qed

lemma contain_check_sublist: "contain_check c1 c2 \<Longrightarrow> sublist (eval_concat \<sigma> c2) (eval_concat \<sigma> c1)"
proof -
  assume "contain_check c1 c2"
  then obtain i where i: "(if i + length c2 \<ge> length c1 then drop i c1 else take (length c2) (drop i c1)) = c2"
    by (auto simp: contain_check_def list_ex_iff)
  have "\<exists>pre post. c1 = pre @ c2 @ post"
  proof (cases "i + length c2 \<ge> length c1")
    case True
    then show ?thesis using i append_take_drop_id[of i c1] by (intro exI[of _ "take i c1"] exI[of _ "[]"]) simp
  next
    case False
    then have "c1 = take i c1 @ c2 @ drop (length c2) (drop i c1)"
      using i append_take_drop_id[of i c1] append_take_drop_id[of "length c2" "drop i c1"] by simp
    then show ?thesis by blast
  qed
  then show ?thesis by (metis eval_concat_simps(3) sublist_def)
qed

lemma eval_literals: "\<forall>t \<in> set c. is_literal t \<Longrightarrow> eval_concat \<sigma> c = concat (map get_name c)"
  by (induction c) (auto simp: eval_term_def)

lemma gather_lits_eval: "gather_lits c = Some w \<Longrightarrow> eval_concat \<sigma> c = w"
  by (induction c arbitrary: w) (auto simp: eval_term_def split: if_splits)

lemma unsat_eqs_or_diseqs_sound:
  assumes wf: "\<And>p. p \<in> snd ` set (fv_predicates (prep_formula pp)) \<Longrightarrow> wf_pred p"
    and sat: "\<And>p. p \<in> snd ` set (fv_predicates (prep_formula pp)) \<Longrightarrow> sat_pred R \<sigma> p"
  shows "\<not> contains_unsat_eqs_or_diseqs pp"
proof
  have rm: "replace_ok \<sigma> (construct_replace_map pp)" using sat by (rule replace_map_ok)
  assume "contains_unsat_eqs_or_diseqs pp"
  then obtain p where p: "p \<in> snd ` set (fv_predicates (prep_formula pp))"
    and bad: "is_inequation p \<and> can_unify pp (get_left_side p) (get_right_side p) (=) \<or>
      is_equation p \<and> is_str_const p \<and> literal_sides_differ p"
    by (auto simp: contains_unsat_eqs_or_diseqs_def list_ex_iff)
  from bad show False
  proof
    assume "is_inequation p \<and> can_unify pp (get_left_side p) (get_right_side p) (=)"
    then show False
      using can_unify_eval[OF rm, of "get_left_side p" "get_right_side p" "(=)"] sat[OF p]
      by (auto simp: sat_pred_def pred_kind_defs side_defs)
  next
    assume eq: "is_equation p \<and> is_str_const p \<and> literal_sides_differ p"
    then have "\<forall>t \<in> set (get_left_side p) \<union> set (get_right_side p). is_literal t"
      using wf_pred_params[OF wf[OF p]] by (auto simp: is_str_const_def)
    then show False using eq sat[OF p] by (simp add: sat_pred_equation eval_literals literal_sides_differ_def)
  qed
qed

text \<open>
  C14: The checks for unsatisfiability are sound: a state of the preprocessor for which one of
  them answers true has no model.
\<close>

theorem unsat_checks_of_preprocessor_sound:
  assumes "prep_ok lang pp"
    and "contains_unsat_eqs_or_diseqs pp \<or> can_unify_not_contains pp \<or> contains_unsat_literals pp"
  shows "\<not> prep_models lang R pp \<sigma>"
proof
  assume m: "prep_models lang R pp \<sigma>"
  have fv: "fv_ok (prep_formula pp)" using assms(1) by (simp add: prep_ok_def)
  have sat: "sat_pred R \<sigma> p" and wf: "wf_pred p" if "p \<in> snd ` set (fv_predicates (prep_formula pp))" for p
    using m assms(1) that by (auto simp: prep_models_def prep_sat_def prep_ok_def fv_ok_ran)
  have rm: "replace_ok \<sigma> (construct_replace_map pp)" using sat by (rule replace_map_ok)
  consider "contains_unsat_eqs_or_diseqs pp" | "can_unify_not_contains pp" | "contains_unsat_literals pp"
    using assms(2) by blast
  then show False
  proof cases
    case 1
    moreover have "\<not> contains_unsat_eqs_or_diseqs pp" using wf sat by (rule unsat_eqs_or_diseqs_sound)
    ultimately show False by blast
  next
    case 2
    then obtain p where p: "p \<in> snd ` set (fv_predicates (prep_formula pp))" "is_not_cont p"
        "can_unify_contain pp (get_haystack p) (get_needle p)"
      by (auto simp: can_unify_not_contains_def list_ex_iff)
    have "sublist (eval_concat \<sigma> (get_needle p)) (eval_concat \<sigma> (get_haystack p))"
    proof (cases "get_haystack p = get_needle p")
      case False
      then obtain c1 c2 where "contain_check c1 c2" "eval_concat \<sigma> c1 = eval_concat \<sigma> (get_haystack p)"
          "eval_concat \<sigma> c2 = eval_concat \<sigma> (get_needle p)"
        using can_unify_eval[OF rm, of "get_haystack p" "get_needle p" contain_check] p(3)
        by (auto simp: can_unify_contain_def)
      then show ?thesis using contain_check_sublist[of c1 c2 \<sigma>] by simp
    qed simp
    then show False using sat[OF p(1)] p(2) by (simp add: sat_pred_def pred_kind_defs side_defs)
  next
    case 3
    then obtain p where p: "p \<in> snd ` set (fv_predicates (prep_formula pp))" "is_eq_or_ineq p"
        "case (gather_lits (get_left_side p), gather_lits (get_right_side p)) of
           (Some left, Some right) \<Rightarrow> (is_equation p \<and> left \<noteq> right) \<or> (is_inequation p \<and> left = right) | _ \<Rightarrow> False"
      by (auto simp: contains_unsat_literals_def list_ex_iff)
    obtain l r where "gather_lits (get_left_side p) = Some l" "gather_lits (get_right_side p) = Some r"
      using p(3) by (auto split: option.splits)
    then show False
      using p(3) sat[OF p(1)] gather_lits_eval[of _ _ \<sigma>] by (auto simp: sat_pred_def pred_kind_defs side_defs)
  qed
qed

text \<open>The equation \<open>z = x y\<close> and the disequation \<open>z \<noteq> x y\<close>.\<close>

definition unsat_formula :: formula where
  "unsat_formula =
     (let x = BasicTerm Variable [120]; y = BasicTerm Variable [121]; z = BasicTerm Variable [122]
      in [create_equation [z] [x, y], create_disequation [z] [x, y]])"

theorem unsat_checks_of_preprocessor_sound_witness:
  "\<not> prep_models id (\<lambda>_. {}) (new_prep 0 unsat_formula example_aut {} False False {} []) example_solution"
proof -
  have "prep_ok id (new_prep 0 unsat_formula example_aut {} False False {} [])"
    by (rule new_prep_ok[OF example_aut_ok(1)])
      (auto simp: unsat_formula_def Let_def example_aut_def get_keys_def get_set_def create_equation_def create_disequation_def
        wf_pred_def pred_kind_defs)
  moreover have "contains_unsat_eqs_or_diseqs (new_prep 0 unsat_formula (\<lparr>aut_entries = [], aut_alphabet = \<lparr>alph_symbols = [], alph_hash = 0\<rparr>\<rparr> :: nat aut_assignment) {} False False {} [])"
    by code_simp
  then have "contains_unsat_eqs_or_diseqs (new_prep 0 unsat_formula example_aut {} False False {} [])"
    by (simp add: contains_unsat_eqs_or_diseqs_def can_unify_def construct_replace_map_def new_prep_def)
  ultimately show ?thesis using unsat_checks_of_preprocessor_sound by blast
qed

end
