(* ===== verification/Decision_Procedure.thy ===== *)
theory Decision_Procedure
  imports Solving_State Preprocess_Unsat
begin

text \<open>
  The stabilization procedure (\<open>decision_procedure.cpp\<close>, \<open>decision_procedure.h\<close>): the worklist
  of solving states, the processing of an inclusion and of a transducer, and the loop that
  looks for the next solution.
\<close>

section \<open>Parameters\<close>

text \<open>
  A segment of a noodle for a transducer: the transducer between a new input variable and a new
  output variable, their automata, and the positions of the sides to which they belong.
\<close>

record 'a transducer_segment =
  seg_transducer :: nat
  seg_input_index :: nat
  seg_input_aut :: 'a
  seg_output_index :: nat
  seg_output_aut :: 'a

text \<open>
  The functions of the automata library that only this procedure uses. \<open>apply_word\<close> and
  \<open>apply_nfa\<close> stand for the application of a transducer to one of its tapes, as an automaton; a
  segment of a noodle for an equation has the positions of its left and its right automaton.
\<close>

record 'a mata_strings =
  is_included :: "'a \<Rightarrow> 'a \<Rightarrow> bool"
  noodlify_for_equation :: "'a list \<Rightarrow> 'a list \<Rightarrow> ('a \<times> nat \<times> nat) list list"
  noodlify_for_transducer :: "nat \<Rightarrow> 'a list \<Rightarrow> 'a list \<Rightarrow> bool \<Rightarrow> 'a transducer_segment list list"
  apply_word :: "nat \<Rightarrow> zstring \<Rightarrow> nat \<Rightarrow> 'a"
  apply_nfa :: "nat \<Rightarrow> 'a \<Rightarrow> nat \<Rightarrow> 'a"
  remove_epsilon :: "'a \<Rightarrow> 'a"

record dp_params =
  m_try_premature_len_checks :: bool
  m_postpone_diseqs_stabilization :: bool
  m_homomorphism_heuristic :: bool
  m_ca_constr :: bool
  m_preprocess_red :: bool
  m_produce_models :: bool

section \<open>The procedure and its worklist\<close>

text \<open>
  The members that only the construction of the length formula of a solution and of models use
  are left out. \<open>dp_fresh\<close> are the counters of \<open>mk_noodler_var_fresh\<close>, which are global in the code.
\<close>

record 'a dec_proc =
  dp_noodlification_no :: nat
  dp_worklist :: "'a solving_state list"
  dp_possible_solutions :: "'a solving_state list"
  dp_solution :: "'a solving_state"
  dp_initial_variables :: "basic_term set"
  dp_popped :: nat
  dp_init_len_vars :: "basic_term set"
  dp_formula :: formula
  dp_init_aut :: "'a aut_assignment"
  dp_init_subst :: "(basic_term \<times> concat) list"
  dp_conversions :: "term_conversion list"
  dp_disequations :: formula
  dp_not_contains :: formula
  dp_input_contains_diseqs :: bool
  dp_inclusions_from_preprocessing :: "predicate list"
  dp_fresh :: fresh_ids

definition is_worklist_empty :: "'a dec_proc \<Rightarrow> bool" where
  "is_worklist_empty dp \<longleftrightarrow> dp_worklist dp = [] \<and> dp_possible_solutions dp = []"

definition push_to_worklist :: "'a solving_state \<Rightarrow> bool \<Rightarrow> 'a dec_proc \<Rightarrow> 'a dec_proc" where
  "push_to_worklist S to_back dp =
     (if ss_to_process S = [] then dp\<lparr>dp_possible_solutions := dp_possible_solutions dp @ [S]\<rparr>
      else if to_back then dp\<lparr>dp_worklist := dp_worklist dp @ [S]\<rparr>
      else dp\<lparr>dp_worklist := S # dp_worklist dp\<rparr>)"

text \<open>The code takes the front of the worklist without a test; an empty deque is an error here.\<close>

definition pop_from_worklist :: "'a dec_proc \<Rightarrow> ('a solving_state \<times> 'a dec_proc) res" where
  "pop_from_worklist dp =
     (if dp_possible_solutions dp \<noteq> [] then
        Inr (last (dp_possible_solutions dp),
          dp\<lparr>dp_possible_solutions := butlast (dp_possible_solutions dp), dp_popped := dp_popped dp + 1\<rparr>)
      else case dp_worklist dp of
        [] \<Rightarrow> Inl Out_Of_Range
      | S # rest \<Rightarrow> Inr (S, dp\<lparr>dp_worklist := rest, dp_popped := dp_popped dp + 1\<rparr>))"

section \<open>Inclusions\<close>

text \<open>
  A side that is empty: every term of the other side is substituted by the empty word, unless
  its language does not contain it (\<open>None\<close>).
\<close>

fun substitute_empty ::
    "'a mata \<Rightarrow> basic_term list \<Rightarrow> 'a solving_state \<Rightarrow> 'a solving_state option res" where
  "substitute_empty m [] S = Inr (Some S)"
| "substitute_empty m (var # vars) S =
     bind_res (contains_epsilon m (ss_aut S) var) (\<lambda>eps.
       if eps then substitute_empty m vars (S\<lparr>ss_subst := entry_put var [] (ss_subst S), ss_aut := aut_erase var (ss_aut S)\<rparr>)
       else Inr None)"

definition process_empty_side :: "'a mata \<Rightarrow> predicate \<Rightarrow> 'a solving_state \<Rightarrow> 'a dec_proc \<Rightarrow> 'a dec_proc res" where
  "process_empty_side m incl S dp =
     (let on_cycle = is_predicate_on_cycle S incl;
          vars = sset_of (if get_right_side incl = [] then get_left_side incl else get_right_side incl)
      in bind_res (substitute_empty m vars S) (\<lambda>r.
        case r of
          None \<Rightarrow> Inr dp
        | Some S \<Rightarrow>
            let S = ss_remove_predicate incl S;
                S = (if get_right_side incl = [] then push_dependent_on (set vars) on_cycle S else S)
            in bind_res (substitute_vars (set vars) S) (\<lambda>S.
               bind_res (remove_vars vars (dp_initial_variables dp) S) (\<lambda>S.
                 Inr (push_to_worklist (push_non_simple_transducers S) on_cycle dp)))))"

text \<open>Accesses of a vector by index; an index out of range, undefined in C++, is an error.\<close>

definition vec_at :: "'x list \<Rightarrow> nat \<Rightarrow> 'x res" where
  "vec_at xs i = (if i < length xs then Inr (xs ! i) else Inl Out_Of_Range)"

definition vec_push :: "nat \<Rightarrow> 'x \<Rightarrow> 'x list list \<Rightarrow> 'x list list res" where
  "vec_push i x xss = bind_res (vec_at xss i) (\<lambda>xs. Inr (xss[i := xs @ [x]]))"

fun create_inclusions_from_multiple_sides :: "concat list \<Rightarrow> concat list \<Rightarrow> predicate list res" where
  "create_inclusions_from_multiple_sides [] rs = Inr []"
| "create_inclusions_from_multiple_sides (l # ls) [] = Inl Out_Of_Range"
| "create_inclusions_from_multiple_sides (l # ls) (r # rs) =
     bind_res (create_inclusions_from_multiple_sides ls rs) (\<lambda>ps. Inr (create_equation l r # ps))"

text \<open>
  A segment of a noodle becomes a fresh variable (or a literal), which is appended to the new
  terms of its left and of its right side.
\<close>

type_synonym 'a noodle_state = "('a solving_state \<times> fresh_ids) \<times> concat list \<times> concat list"

definition equation_segment ::
    "string_encoding \<Rightarrow> 'a mata \<Rightarrow> zstring \<Rightarrow> concat \<Rightarrow> concat list \<Rightarrow> 'a \<times> nat \<times> nat \<Rightarrow> 'a noodle_state \<Rightarrow>
     'a noodle_state res" where
  "equation_segment enc m var_prefix left_side right_division seg st =
     (case (seg, st) of ((aut, l, r), (S, ids), lefts, rights) \<Rightarrow>
        bind_res (vec_at left_side l) (\<lambda>left_var.
        bind_res (vec_at right_division r) (\<lambda>right_vars.
        bind_res (add_fresh_var enc m aut var_prefix (left_var \<in> ss_len_vars S \<or> contains_length_var S right_vars) True (S, ids))
          (\<lambda>(new_var, S, ids).
            bind_res (vec_push l new_var lefts) (\<lambda>lefts.
            bind_res (vec_push r new_var rights) (\<lambda>rights.
              Inr ((S, ids), lefts, rights)))))))"

text \<open>The new terms of the sides as substitutions or inclusions, for both kinds of noodles.\<close>

definition substitute_noodle ::
    "concat list \<Rightarrow> concat list \<Rightarrow> concat list \<Rightarrow> concat list \<Rightarrow> bool \<Rightarrow> basic_term set \<Rightarrow> 'a solving_state \<Rightarrow>
     'a solving_state res" where
  "substitute_noodle left_division lefts right_division rights on_cycle initial_variables S =
     bind_res (create_inclusions_from_multiple_sides rights right_division) (\<lambda>right_inclusions.
     bind_res (process_substituting_inclusions_from_right right_inclusions on_cycle S) (\<lambda>(S, from_right).
     bind_res (create_inclusions_from_multiple_sides left_division lefts) (\<lambda>left_inclusions.
     bind_res (process_substituting_inclusions_from_left left_inclusions on_cycle S) (\<lambda>(S, from_left).
     bind_res (remove_vars from_right initial_variables S) (\<lambda>S.
       remove_vars from_left initial_variables S)))))"

definition equation_noodle ::
    "string_encoding \<Rightarrow> 'a mata \<Rightarrow> concat \<Rightarrow> concat list \<Rightarrow> concat list \<Rightarrow> bool \<Rightarrow> bool \<Rightarrow> 'a solving_state \<Rightarrow>
     ('a \<times> nat \<times> nat) list \<Rightarrow> 'a dec_proc \<Rightarrow> 'a dec_proc res" where
  "equation_noodle enc m left_side left_division right_division on_cycle siblings S noodle dp =
     bind_res (for_each (equation_segment enc m (zs ''align_'' @ show_nat (dp_noodlification_no dp)) left_side right_division)
         noodle ((S, dp_fresh dp), replicate (length left_side) [], replicate (length right_division) []))
       (\<lambda>((S, ids), lefts, rights).
     bind_res (substitute_noodle left_division lefts right_division rights on_cycle (dp_initial_variables dp) S) (\<lambda>S.
       Inr (push_to_worklist (S\<lparr>ss_has_siblings := siblings\<rparr>) on_cycle (dp\<lparr>dp_fresh := ids\<rparr>))))"

definition process_inclusion ::
    "string_encoding \<Rightarrow> 'a mata \<Rightarrow> 'a mata_strings \<Rightarrow> predicate \<Rightarrow> 'a solving_state \<Rightarrow> 'a dec_proc \<Rightarrow> 'a dec_proc res" where
  "process_inclusion enc m ms incl S dp =
     (let on_cycle = is_predicate_on_cycle S incl; left_side = get_left_side incl; right_side = get_right_side incl in
      if right_side = [] \<or> left_side = [] then process_empty_side m incl S dp
      else
        bind_res (get_automata_and_division m S left_side False) (\<lambda>(left_automata, left_division).
        bind_res (get_automata_and_division m S right_side True) (\<lambda>(right_automata, right_division).
        bind_res (if \<not> contains_length_var S right_side \<and> on_cycle
                  then bind_res (get_automaton_concat m (ss_aut S) left_side) (\<lambda>cat.
                       bind_res (vec_at right_automata 0) (\<lambda>right_aut. Inr (is_included ms cat right_aut)))
                  else Inr False) (\<lambda>holds.
        if holds then Inr (push_to_worklist S False dp)
        else
          let S = ss_remove_predicate incl S; noodles = noodlify_for_equation ms left_automata right_automata
          in bind_res (for_each (equation_noodle enc m left_side left_division right_division on_cycle (length noodles > 1) S)
                 noodles dp)
               (\<lambda>dp. Inr (dp\<lparr>dp_noodlification_no := dp_noodlification_no dp + 1\<rparr>))))))"

section \<open>Transducers\<close>

fun is_concatenation_of_literals :: "concat \<Rightarrow> zstring option" where
  "is_concatenation_of_literals [] = Some []"
| "is_concatenation_of_literals (bt # con) =
     (if is_literal bt then map_option (\<lambda>w. get_name bt @ w) (is_concatenation_of_literals con) else None)"

definition simplify_application :: "'a mata \<Rightarrow> 'a mata_strings \<Rightarrow> 'a \<Rightarrow> 'a" where
  "simplify_application m ms aut = reduce_nfa m (remove_epsilon ms (trim_nfa m aut))"

text \<open>One side is a literal: the language of the other side is an application of the transducer.\<close>

definition process_literal_side ::
    "string_encoding \<Rightarrow> 'a mata \<Rightarrow> 'a mata_strings \<Rightarrow> predicate \<Rightarrow> zstring \<Rightarrow> bool \<Rightarrow> 'a solving_state \<Rightarrow> 'a dec_proc \<Rightarrow>
     'a dec_proc res" where
  "process_literal_side enc m ms p literal input_is_literal S dp =
     (let application = simplify_application m ms (apply_word ms (the (transducer p)) literal (if input_is_literal then 0 else 1));
          non_literal_side = (if input_is_literal then get_output p else get_input p)
      in if is_lang_empty m application then Inr dp
         else if non_literal_side = [] then
           (if is_in_lang m application [] then Inr (push_to_worklist S False dp) else Inr dp)
         else
           let new_inclusion = (if input_is_literal then create_equation non_literal_side [] else create_equation [] non_literal_side)
           in bind_res (if \<not> is_lang_eps m application then
                bind_res (add_fresh_var enc m application (zs ''literalsideapp_'' @ show_nat (dp_noodlification_no dp)) False True
                    (S, dp_fresh dp)) (\<lambda>(fresh_var, S, ids).
                  Inr (if input_is_literal then set_right_side new_inclusion [fresh_var] else set_left_side new_inclusion [fresh_var],
                       S, ids))
               else Inr (new_inclusion, S, dp_fresh dp)) (\<lambda>(new_inclusion, S, ids).
             Inr (push_to_worklist (push_front_unique new_inclusion (ss_add_predicate new_inclusion False S)) False
                    (dp\<lparr>dp_fresh := ids\<rparr>))))"

definition process_single_input ::
    "string_encoding \<Rightarrow> 'a mata \<Rightarrow> 'a mata_strings \<Rightarrow> predicate \<Rightarrow> 'a \<Rightarrow> 'a solving_state \<Rightarrow> 'a dec_proc \<Rightarrow> 'a dec_proc res" where
  "process_single_input enc m ms p input_aut S dp =
     (let application = simplify_application m ms (apply_nfa ms (the (transducer p)) input_aut 0)
      in if is_lang_empty m application then Inr dp
         else
           bind_res (add_fresh_var enc m application (zs ''onevarapp_'' @ show_nat (dp_noodlification_no dp)) False True (S, dp_fresh dp))
             (\<lambda>(fresh_var, S, ids).
               let (new_transducer, S) = add_transducer (the (transducer p)) (get_input p) [fresh_var] False S;
                   new_inclusion = create_equation (get_output p) [fresh_var]
               in Inr (push_to_worklist (push_front_unique new_inclusion (ss_add_predicate new_inclusion False S)) False
                         (dp\<lparr>dp_fresh := ids\<rparr>))))"

definition transducer_segment_step ::
    "string_encoding \<Rightarrow> 'a mata \<Rightarrow> zstring \<Rightarrow> concat list \<Rightarrow> concat \<Rightarrow> 'a transducer_segment \<Rightarrow> 'a noodle_state \<Rightarrow>
     'a noodle_state res" where
  "transducer_segment_step enc m no input_divisions output_vars seg st =
     (case st of ((S, ids), outputs, inputs) \<Rightarrow>
        bind_res (vec_at input_divisions (seg_input_index seg)) (\<lambda>input_vars.
        bind_res (add_fresh_var enc m (seg_input_aut seg) (zs ''input_'' @ no) (contains_length_var S input_vars) True (S, ids))
          (\<lambda>(new_input_var, S, ids).
        bind_res (vec_push (seg_input_index seg) new_input_var inputs) (\<lambda>inputs.
        bind_res (vec_at output_vars (seg_output_index seg)) (\<lambda>output_var.
        bind_res (add_fresh_var enc m (seg_output_aut seg) (zs ''output_'' @ no)
            (contains_length_var S input_vars \<or> output_var \<in> ss_len_vars S) True (S, ids))
          (\<lambda>(new_output_var, S, ids).
        bind_res (vec_push (seg_output_index seg) new_output_var outputs) (\<lambda>outputs.
          let (new_trans, S) = add_transducer (seg_transducer seg) [new_input_var] [new_output_var] False S
          in Inr ((S, ids), outputs, inputs))))))))"

definition transducer_noodle ::
    "string_encoding \<Rightarrow> 'a mata \<Rightarrow> concat list \<Rightarrow> concat \<Rightarrow> concat list \<Rightarrow> 'a solving_state \<Rightarrow>
     'a transducer_segment list \<Rightarrow> 'a dec_proc \<Rightarrow> 'a dec_proc res" where
  "transducer_noodle enc m input_divisions output_vars output_divisions S noodle dp =
     bind_res (for_each (transducer_segment_step enc m (show_nat (dp_noodlification_no dp)) input_divisions output_vars)
         noodle ((S, dp_fresh dp), replicate (length output_vars) [], replicate (length input_divisions) []))
       (\<lambda>((S, ids), outputs, inputs).
     bind_res (substitute_noodle output_divisions outputs input_divisions inputs False (dp_initial_variables dp) S) (\<lambda>S.
       Inr (push_to_worklist S False (dp\<lparr>dp_fresh := ids\<rparr>))))"

definition process_transducer ::
    "string_encoding \<Rightarrow> 'a mata \<Rightarrow> 'a mata_strings \<Rightarrow> dp_params \<Rightarrow> predicate \<Rightarrow> 'a solving_state \<Rightarrow> 'a dec_proc \<Rightarrow>
     'a dec_proc res" where
  "process_transducer enc m ms prm p S dp =
     (let S = ss_remove_predicate p S in
      case (is_concatenation_of_literals (get_input p), is_concatenation_of_literals (get_output p)) of
        (Some literal, _) \<Rightarrow> process_literal_side enc m ms p literal True S dp
      | (None, Some literal) \<Rightarrow> process_literal_side enc m ms p literal False S dp
      | (None, None) \<Rightarrow>
        bind_res (get_automata_and_division m S (get_input p) True) (\<lambda>(input_automata, input_divisions).
        if length input_automata = 1 \<and> \<not> contains_length_var S (get_input p)
        then process_single_input enc m ms p (input_automata ! 0) S dp
        else
          bind_res (get_automata_and_division m S (get_output p) False) (\<lambda>(output_automata, output_divisions).
          bind_res (for_each (transducer_noodle enc m input_divisions (get_output p) output_divisions S)
              (noodlify_for_transducer ms (the (transducer p)) input_automata output_automata (m_homomorphism_heuristic prm)) dp)
            (\<lambda>dp. Inr (dp\<lparr>dp_noodlification_no := dp_noodlification_no dp + 1\<rparr>)))))"

section \<open>The search for a solution\<close>

text \<open>
  The preprocessing of postponed disequations. The substitutions of the preprocessor are not
  used; its automata and length variables replace those of the state.
\<close>

definition preprocess_disequations_for_unsat ::
    "'a mata \<Rightarrow> nat \<Rightarrow> dp_params \<Rightarrow> 'a solving_state \<times> fresh_ids \<Rightarrow> (lbool \<times> 'a solving_state \<times> fresh_ids) res" where
  "preprocess_disequations_for_unsat m uninit prm st =
     (let S = fst st; ids = snd st in
      if ss_diseqs S = [] then Inr (l_true, S, ids)
      else
        let pp = remove_trivial (new_prep uninit (ss_diseqs S) (ss_aut S) (ss_len_vars S) (m_preprocess_red prm)
                   (m_produce_models prm) (string_var ` set (ss_conversions S)) ids)
        in bind_res (reduce_diseqalities m pp) (\<lambda>pp.
           bind_res (propagate_eps m pp) (\<lambda>pp.
           bind_res (refine_languages m pp) (\<lambda>pp.
           bind_res (reduce_diseqalities m pp) (\<lambda>pp.
             if \<not> is_sat m (prep_aut pp) \<or> contains_unsat_eqs_or_diseqs pp then Inr (l_false, S, prep_fresh pp)
             else Inr (l_true, S\<lparr>ss_diseqs := get_modified_formula pp, ss_aut := prep_aut pp,
                                 ss_len_vars := ss_len_vars S \<union> prep_len_vars pp\<rparr>, prep_fresh pp))))))"

text \<open>
  The callback for the lengths reads the solution of the procedure and may take fresh
  variables. Calling an empty \<open>std::function\<close> raises an exception.
\<close>

type_synonym 'a check_lens = "bool \<Rightarrow> 'a solving_state \<Rightarrow> fresh_ids \<Rightarrow> lbool \<times> fresh_ids"

definition call_check_lens ::
    "'a check_lens option \<Rightarrow> bool \<Rightarrow> 'a solving_state \<Rightarrow> fresh_ids \<Rightarrow> (lbool \<times> fresh_ids) res" where
  "call_check_lens check_lens b S ids =
     (case check_lens of None \<Rightarrow> Inl (Runtime_Error ''bad_function_call'') | Some f \<Rightarrow> Inr (f b S ids))"

definition len_checks_enabled :: "dp_params \<Rightarrow> 'a check_lens option \<Rightarrow> 'a dec_proc \<Rightarrow> bool" where
  "len_checks_enabled prm check_lens dp \<longleftrightarrow>
     check_lens \<noteq> None \<and> m_try_premature_len_checks prm \<and> dp_conversions dp = [] \<and> dp_not_contains dp = [] \<and>
     (\<not> m_postpone_diseqs_stabilization prm \<or> \<not> dp_input_contains_diseqs dp)"

text \<open>
  A state of the worklist whose queue is empty and which still has postponed disequations:
  whether it is a solution, and the procedure to go on with.
\<close>

definition process_postponed_disequations ::
    "'a mata \<Rightarrow> 'a mata_strings \<Rightarrow> nat \<Rightarrow> dp_params \<Rightarrow> 'a check_lens option \<Rightarrow> 'a solving_state \<Rightarrow> 'a dec_proc \<Rightarrow>
     (bool \<times> 'a dec_proc) res" where
  "process_postponed_disequations m ms uninit prm check_lens S dp =
     (let dp = dp\<lparr>dp_solution := S\<rparr> in
      bind_res (call_check_lens check_lens False S (dp_fresh dp)) (\<lambda>(underapprox_sat, ids).
        case underapprox_sat of
          l_true \<Rightarrow> Inr (True, dp\<lparr>dp_fresh := ids\<rparr>)
        | l_undef \<Rightarrow>
            bind_res (translate_postponed_disequations_to_equations m (is_included ms) (S, ids)) (\<lambda>(S, ids).
              Inr (False, push_to_worklist S True (dp\<lparr>dp_fresh := ids\<rparr>)))
        | l_false \<Rightarrow>
            bind_res (preprocess_disequations_for_unsat m uninit prm (S, ids)) (\<lambda>(res, S, ids).
              if res = l_false then Inr (False, dp\<lparr>dp_fresh := ids\<rparr>)
              else
                bind_res (translate_postponed_disequations_to_equations m (is_included ms) (S, ids)) (\<lambda>(S, ids).
                  Inr (False, push_to_worklist S True (dp\<lparr>dp_fresh := ids\<rparr>))))))"

text \<open>
  An iteration of the loop: the result of the call, or the procedure and whether some state was
  skipped for the next iteration.
\<close>

definition solution_step ::
    "string_encoding \<Rightarrow> 'a mata \<Rightarrow> 'a mata_strings \<Rightarrow> nat \<Rightarrow> dp_params \<Rightarrow> 'a check_lens option \<Rightarrow> bool \<Rightarrow> bool \<Rightarrow> 'a dec_proc \<Rightarrow>
     ((lbool \<times> bool) option \<times> bool \<times> 'a dec_proc) res" where
  "solution_step enc m ms uninit prm check_lens enabled some_skipped dp =
     bind_res (pop_from_worklist dp) (\<lambda>(S, dp).
     bind_res (if enabled \<and> ss_to_process S \<noteq> [] \<and> ss_transducers S = [] \<and> ss_has_siblings S
               then bind_res (call_check_lens check_lens True S (dp_fresh dp)) (\<lambda>(lens_sat, ids).
                      Inr (lens_sat = l_false, dp\<lparr>dp_solution := S, dp_fresh := ids\<rparr>))
               else Inr (False, dp)) (\<lambda>(skip, dp).
       if skip then Inr (None, True, dp)
       else case ss_to_process S of
         [] \<Rightarrow>
           if m_postpone_diseqs_stabilization prm \<and> ss_diseqs S \<noteq> []
           then bind_res (process_postponed_disequations m ms uninit prm check_lens S dp) (\<lambda>(found, dp).
                  Inr (if found then Some (l_true, False) else None, some_skipped, dp))
           else Inr (Some (l_true, some_skipped), some_skipped, dp\<lparr>dp_solution := S\<rparr>)
       | p # rest \<Rightarrow>
           let S = S\<lparr>ss_to_process := rest\<rparr>
           in bind_res (if is_equation p then process_inclusion enc m ms p S dp else process_transducer enc m ms prm p S dp)
                (\<lambda>dp. Inr (None, some_skipped, dp))))"

partial_function (option) solution_loop ::
    "string_encoding \<Rightarrow> 'a mata \<Rightarrow> 'a mata_strings \<Rightarrow> nat \<Rightarrow> dp_params \<Rightarrow> 'a check_lens option \<Rightarrow> bool \<Rightarrow> bool \<Rightarrow> 'a dec_proc \<Rightarrow>
     ((lbool \<times> bool) \<times> 'a dec_proc) res option" where
  "solution_loop enc m ms uninit prm check_lens enabled some_skipped dp =
     (if is_worklist_empty dp then Some (Inr ((l_false, some_skipped), dp))
      else case solution_step enc m ms uninit prm check_lens enabled some_skipped dp of
        Inl e \<Rightarrow> Some (Inl e)
      | Inr (Some result, skipped, dp) \<Rightarrow> Some (Inr (result, dp))
      | Inr (None, skipped, dp) \<Rightarrow> solution_loop enc m ms uninit prm check_lens enabled skipped dp)"

definition compute_next_solution_with_len_checks ::
    "string_encoding \<Rightarrow> 'a mata \<Rightarrow> 'a mata_strings \<Rightarrow> nat \<Rightarrow> dp_params \<Rightarrow> 'a check_lens option \<Rightarrow> 'a dec_proc \<Rightarrow>
     ((lbool \<times> bool) \<times> 'a dec_proc) res option" where
  "compute_next_solution_with_len_checks enc m ms uninit prm check_lens dp =
     solution_loop enc m ms uninit prm check_lens (len_checks_enabled prm check_lens dp) False dp"

definition dp_compute_next_solution ::
    "string_encoding \<Rightarrow> 'a mata \<Rightarrow> 'a mata_strings \<Rightarrow> nat \<Rightarrow> dp_params \<Rightarrow> 'a dec_proc \<Rightarrow> (lbool \<times> 'a dec_proc) res option" where
  "dp_compute_next_solution enc m ms uninit prm dp =
     map_option (\<lambda>r. bind_res r (\<lambda>((res, skipped), dp). Inr (res, dp)))
       (compute_next_solution_with_len_checks enc m ms uninit prm None dp)"

end
