(* ===== verification/Solving_State_Models.thy ===== *)
theory Solving_State_Models
  imports Solving_State
begin

text \<open>
  What a state of the stabilization procedure means: the assignments of words to variables and
  of integers to lengths and numbers that satisfy its languages, substitutions, predicates and
  arithmetic constraints. The theory shows that the operations that rewrite a state keep its
  assignments, and the invariant under which they raise no exception.
\<close>

section \<open>Erasing and adding languages\<close>

lemma map_of_entry_erase [simp]: "map_of (entry_erase k es) = (map_of es)(k := None)"
  by (induction es) (auto simp: entry_erase_def)

lemma set_entry_erase: "set (entry_erase k es) = {e \<in> set es. fst e \<noteq> k}"
  by (auto simp: entry_erase_def)

lemma keys_entry_erase [simp]: "fst ` set (entry_erase k es) = fst ` set es - {k}"
  by (auto simp: set_entry_erase)

lemma distinct_entry_erase: "distinct (map fst es) \<Longrightarrow> distinct (map fst (entry_erase k es))"
  by (simp add: entry_erase_def distinct_map_filter)

lemma set_entry_put:
  "distinct (map fst es) \<Longrightarrow> set (entry_put k v es) = insert (k, v) {e \<in> set es. fst e \<noteq> k}"
proof (induction k v es rule: entry_put.induct)
  case (2 k v e es)
  show ?case
  proof (cases "fst e = k")
    case True
    then have "k \<notin> fst ` set es" using 2(2) by auto
    then have "\<forall>e \<in> set es. fst e \<noteq> k" by auto
    then show ?thesis using True by auto
  qed (use 2 in auto)
qed simp

lemma aut_erase_simps [simp]:
  "get_keys (aut_erase t aa) = get_keys aa - {t}"
  "aut_alphabet (aut_erase t aa) = aut_alphabet aa"
  "term_lang lang (aut_erase t aa) u = (if u = t then {} else term_lang lang aa u)"
  by (simp_all add: aut_erase_def get_keys_def term_lang_def)

lemma aut_put_simps [simp]:
  "get_keys (aut_put t x aa) = insert t (get_keys aa)"
  "aut_alphabet (aut_put t x aa) = aut_alphabet aa"
  "term_lang lang (aut_put t x aa) u = (if u = t then lang x else term_lang lang aa u)"
  by (simp_all add: aut_put_def get_keys_def term_lang_def)

lemma langs_ok_erase:
  "langs_ok lang aa \<sigma> \<longleftrightarrow>
     langs_ok lang (aut_erase t aa) \<sigma> \<and> (t \<in> get_keys aa \<longrightarrow> eval_term \<sigma> t \<in> term_lang lang aa t)"
  by (auto simp: langs_ok_def)

section \<open>The meaning of a state\<close>

type_synonym conversion_sem = "term_conversion \<Rightarrow> zstring \<Rightarrow> int \<Rightarrow> bool"

definition state_vars :: "'a solving_state \<Rightarrow> basic_term set" where
  "state_vars S = get_keys (ss_aut S) \<union> fst ` set (ss_subst S)"

definition state_preds :: "'a solving_state \<Rightarrow> predicate set" where
  "state_preds S = set (ss_inclusions S) \<union> set (ss_transducers S)"

text \<open>
  The words of an assignment \<open>\<sigma>\<close> and the integers of \<open>\<nu>\<close>, which hold the lengths of the
  variables and the numbers of the conversions. Inclusions are read as equations. The meaning
  of the conversions is a parameter.
\<close>

definition arith_models :: "conversion_sem \<Rightarrow> 'a solving_state \<Rightarrow> assignment \<Rightarrow> (basic_term \<Rightarrow> int) \<Rightarrow> bool" where
  "arith_models C S \<sigma> \<nu> \<longleftrightarrow>
     (\<forall>t \<in> state_vars S. is_variable t \<longrightarrow> \<nu> t = int (length (\<sigma> t))) \<and>
     (\<forall>c \<in> set (ss_conversions S). C c (eval_term \<sigma> (string_var c)) (\<nu> (number_var c))) \<and>
     (\<forall>n \<in> set (ss_diseq_len S). len_bool \<nu> n)"

definition state_models ::
    "('a \<Rightarrow> zstring set) \<Rightarrow> (nat \<Rightarrow> (zstring \<times> zstring) set) \<Rightarrow> conversion_sem \<Rightarrow> 'a solving_state \<Rightarrow>
     assignment \<Rightarrow> (basic_term \<Rightarrow> int) \<Rightarrow> bool" where
  "state_models lang R C S \<sigma> \<nu> \<longleftrightarrow>
     langs_ok lang (ss_aut S) \<sigma> \<and> subst_ok (ss_subst S) \<sigma> \<and>
     (\<forall>p \<in> state_preds S \<union> set (ss_diseqs S). sat_pred R \<sigma> p) \<and> arith_models C S \<sigma> \<nu>"

text \<open>
  The invariant, while the variables \<open>N\<close> are substituted in the map but not yet in the
  predicates: no variable is both in the automata assignment and substituted (the literal of
  the empty word may be; it is substituted by the empty word), all terms have automata, and the automaton of a literal accepts the literal. \<open>V\<close> are the automata on which
  the automata library is used.
\<close>

definition preds_within :: "basic_term set \<Rightarrow> predicate set \<Rightarrow> bool" where
  "preds_within K P \<longleftrightarrow> (\<forall>p \<in> P. wf_pred p \<and> get_set p \<subseteq> K)"

definition subst_shape :: "basic_term set \<Rightarrow> basic_term set \<Rightarrow> (basic_term \<times> concat) list \<Rightarrow> bool" where
  "subst_shape N K M \<longleftrightarrow> distinct (map fst M) \<and> N \<subseteq> fst ` set M \<and> N \<inter> K = {} \<and>
     (\<forall>e \<in> set M. (fst e \<in> K \<longrightarrow> is_literal (fst e)) \<and> (is_literal (fst e) \<longrightarrow> snd e = []) \<and> set (snd e) \<subseteq> K \<union> N \<and> (fst e \<in> N \<longrightarrow> set (snd e) \<subseteq> K))"

definition aut_shape :: "('a \<Rightarrow> zstring set) \<Rightarrow> ('a \<Rightarrow> bool) \<Rightarrow> 'a aut_assignment \<Rightarrow> bool" where
  "aut_shape lang V aa \<longleftrightarrow>
     (\<forall>t \<in> get_keys aa. (is_variable t \<or> is_literal t) \<and> (is_literal t \<longrightarrow> term_lang lang aa t = {get_name t})) \<and>
     (\<forall>t x. map_of (aut_entries aa) t = Some x \<longrightarrow> V x)"

definition kinds_ok :: "'a solving_state \<Rightarrow> bool" where
  "kinds_ok S \<longleftrightarrow>
     (\<forall>p \<in> set (ss_inclusions S). is_equation p) \<and> (\<forall>p \<in> set (ss_transducers S). is_transducer p) \<and>
     (\<forall>p \<in> set (ss_to_process S). is_equation p \<or> is_transducer p) \<and> (\<forall>p \<in> set (ss_diseqs S). is_inequation p)"

definition lens_ok :: "'a solving_state \<Rightarrow> bool" where
  "lens_ok S \<longleftrightarrow> (\<forall>n \<in> set (ss_diseq_len S). len_bool_node {} n) \<and> (\<forall>t \<in> ss_len_vars S. is_variable t)"

definition state_okN ::
    "('a \<Rightarrow> zstring set) \<Rightarrow> ('a \<Rightarrow> bool) \<Rightarrow> basic_term set \<Rightarrow> 'a solving_state \<Rightarrow> bool" where
  "state_okN lang V N S \<longleftrightarrow>
     subst_shape N (get_keys (ss_aut S)) (ss_subst S) \<and> aut_shape lang V (ss_aut S) \<and>
     preds_within (get_keys (ss_aut S) \<union> N) (state_preds S \<union> set (ss_to_process S) \<union> set (ss_diseqs S)) \<and>
     kinds_ok S \<and> lens_ok S"

abbreviation state_ok :: "('a \<Rightarrow> zstring set) \<Rightarrow> ('a \<Rightarrow> bool) \<Rightarrow> 'a solving_state \<Rightarrow> bool" where
  "state_ok lang V S \<equiv> state_okN lang V {} S"

lemma subst_shapeD:
  assumes "subst_shape N K M"
  shows "distinct (map fst M)" "N \<subseteq> fst ` set M" "(x, c) \<in> set M \<Longrightarrow> x \<in> K \<Longrightarrow> is_literal x"
    "(x, c) \<in> set M \<Longrightarrow> set c \<subseteq> K \<union> N" "(x, c) \<in> set M \<Longrightarrow> x \<in> N \<Longrightarrow> set c \<subseteq> K" "N \<inter> K = {}"
    "(x, c) \<in> set M \<Longrightarrow> is_literal x \<Longrightarrow> c = []"
proof -
  have *: "\<forall>e \<in> set M. (fst e \<in> K \<longrightarrow> is_literal (fst e)) \<and> (is_literal (fst e) \<longrightarrow> snd e = []) \<and> set (snd e) \<subseteq> K \<union> N \<and> (fst e \<in> N \<longrightarrow> set (snd e) \<subseteq> K)"
    using assms by (simp add: subst_shape_def)
  show "(x, c) \<in> set M \<Longrightarrow> x \<in> K \<Longrightarrow> is_literal x" "(x, c) \<in> set M \<Longrightarrow> set c \<subseteq> K \<union> N"
    "(x, c) \<in> set M \<Longrightarrow> x \<in> N \<Longrightarrow> set c \<subseteq> K" "(x, c) \<in> set M \<Longrightarrow> is_literal x \<Longrightarrow> c = []"
    using bspec[OF *, of "(x, c)"] by simp_all
qed (use assms in \<open>simp_all add: subst_shape_def\<close>)

lemma state_okD:
  assumes "state_okN lang V N S"
  shows "subst_shape N (get_keys (ss_aut S)) (ss_subst S)" "aut_shape lang V (ss_aut S)"
    "preds_within (get_keys (ss_aut S) \<union> N) (state_preds S \<union> set (ss_to_process S) \<union> set (ss_diseqs S))"
    "kinds_ok S" "lens_ok S"
  using assms by (simp_all add: state_okN_def)

lemma aut_shapeD:
  assumes "aut_shape lang V aa"
  shows "t \<in> get_keys aa \<Longrightarrow> is_variable t \<or> is_literal t"
    "t \<in> get_keys aa \<Longrightarrow> is_literal t \<Longrightarrow> term_lang lang aa t = {get_name t}"
    "map_of (aut_entries aa) t = Some x \<Longrightarrow> V x"
  using assms by (simp_all add: aut_shape_def)

lemma preds_withinD: "preds_within K P \<Longrightarrow> p \<in> P \<Longrightarrow> wf_pred p \<and> get_set p \<subseteq> K"
  by (simp add: preds_within_def)

lemma preds_within_mono: "preds_within K P \<Longrightarrow> Q \<subseteq> P \<Longrightarrow> K \<subseteq> L \<Longrightarrow> preds_within L Q"
  unfolding preds_within_def by blast

lemma preds_within_Un [simp]: "preds_within K (P \<union> Q) \<longleftrightarrow> preds_within K P \<and> preds_within K Q"
  by (auto simp: preds_within_def)

section \<open>Substitution\<close>

text \<open>The substitution of the variables \<open>N\<close> as a function.\<close>

definition subst_terms :: "basic_term set \<Rightarrow> (basic_term \<times> concat) list \<Rightarrow> concat \<Rightarrow> concat" where
  "subst_terms N M c = concat (map (\<lambda>t. if t \<in> N then the (map_of M t) else [t]) c)"

definition subst_predicate :: "basic_term set \<Rightarrow> (basic_term \<times> concat) list \<Rightarrow> predicate \<Rightarrow> predicate" where
  "subst_predicate N M p =
     Predicate (ptype p) (map (subst_terms N M) (params p)) (if is_transducer p then transducer p else None)"

definition subst_within :: "basic_term set \<Rightarrow> (basic_term \<times> concat) list \<Rightarrow> assignment \<Rightarrow> bool" where
  "subst_within N M \<sigma> \<longleftrightarrow> (\<forall>x \<in> N. eval_term \<sigma> x = eval_concat \<sigma> (the (map_of M x)))"

lemma subst_terms_simps [simp]:
  "subst_terms N M [] = []"
  "subst_terms N M (t # c) = (if t \<in> N then the (map_of M t) else [t]) @ subst_terms N M c"
  by (simp_all add: subst_terms_def)

lemma eval_subst_terms: "subst_within N M \<sigma> \<Longrightarrow> eval_concat \<sigma> (subst_terms N M c) = eval_concat \<sigma> c"
  by (induction c) (auto simp: subst_within_def)

lemma sat_subst_predicate:
  "wf_pred p \<Longrightarrow> subst_within N M \<sigma> \<Longrightarrow> sat_pred R \<sigma> (subst_predicate N M p) = sat_pred R \<sigma> p"
  by (rule sat_pred_cong)
    (auto simp: subst_predicate_def eval_subst_terms wf_pred_def)

lemma set_subst_terms:
  assumes "set c \<subseteq> K \<union> N" and "\<And>x. x \<in> N \<Longrightarrow> set (the (map_of M x)) \<subseteq> K"
  shows "set (subst_terms N M c) \<subseteq> K"
  using assms by (induction c) auto

lemma subst_predicate_simps [simp]:
  "ptype (subst_predicate N M p) = ptype p" "wf_pred p \<Longrightarrow> wf_pred (subst_predicate N M p)"
  by (auto simp: subst_predicate_def wf_pred_def pred_kind_defs)

lemma get_set_subst_predicate:
  assumes "get_set p \<subseteq> K \<union> N" and "\<And>x. x \<in> N \<Longrightarrow> set (the (map_of M x)) \<subseteq> K"
  shows "get_set (subst_predicate N M p) \<subseteq> K"
  using assms set_subst_terms[of _ K N M] by (simp add: get_set_def subst_predicate_def UN_subset_iff)

lemma substitute_vector_run:
  assumes "N \<subseteq> fst ` set (ss_subst S)"
  shows "substitute_vector N S c = Inr (subst_terms N (ss_subst S) c)"
proof -
  have "\<exists>d. map_of (ss_subst S) x = Some d" if "x \<in> N" for x
    using that assms by (metis map_of_eq_None_iff not_None_eq subsetD)
  then have "map_res (\<lambda>x. if x \<notin> N then Inr [x] else subst_at S x) c =
      Inr (map (\<lambda>x. if x \<in> N then the (map_of (ss_subst S) x) else [x]) c)"
    by (intro map_res_Inr) (fastforce simp: subst_at_def split: option.split)
  then show ?thesis by (simp add: substitute_vector_def subst_terms_def)
qed

lemma substitute_predicate_run:
  assumes "N \<subseteq> fst ` set (ss_subst S)"
  shows "substitute_predicate N S p = Inr (subst_predicate N (ss_subst S) p)"
proof -
  have "map_res (substitute_vector N S) (params p) = Inr (map (subst_terms N (ss_subst S)) (params p))"
    by (rule map_res_Inr) (rule substitute_vector_run[OF assms])
  then show ?thesis by (simp add: substitute_predicate_def subst_predicate_def)
qed

lemma substitute_sets_run:
  assumes "N \<subseteq> fst ` set (ss_subst S)"
  shows "substitute_set N S ps =
      Inr (sset_of (filter (\<lambda>q. \<not> inclusion_has_same_sides q) (map (subst_predicate N (ss_subst S)) ps)))"
    "substitute_queue N S ps = Inr (filter (\<lambda>q. \<not> inclusion_has_same_sides q) (map (subst_predicate N (ss_subst S)) ps))"
proof -
  have "map_res (substitute_predicate N S) ps = Inr (map (subst_predicate N (ss_subst S)) ps)"
    by (rule map_res_Inr) (rule substitute_predicate_run[OF assms])
  then show "substitute_set N S ps =
      Inr (sset_of (filter (\<lambda>q. \<not> inclusion_has_same_sides q) (map (subst_predicate N (ss_subst S)) ps)))"
    "substitute_queue N S ps = Inr (filter (\<lambda>q. \<not> inclusion_has_same_sides q) (map (subst_predicate N (ss_subst S)) ps))"
    by (simp_all add: substitute_set_def substitute_queue_def)
qed

text \<open>
  The terms that replace \<open>N\<close> are not in \<open>N\<close>, so the order in which the entries of the map are
  rewritten does not matter.
\<close>

definition subst_map :: "basic_term set \<Rightarrow> (basic_term \<times> concat) list \<Rightarrow> (basic_term \<times> concat) list" where
  "subst_map N M = map (\<lambda>(x, c). (x, subst_terms N M c)) M"

lemma subst_terms_disjoint: "set c \<inter> N = {} \<Longrightarrow> subst_terms N M c = c"
  by (induction c) auto

lemma keys_subst_map [simp]: "map fst (subst_map N M) = map fst M"
  by (simp add: subst_map_def case_prod_beta comp_def)

lemma set_keys_subst_map [simp]: "fst ` set (subst_map N M) = fst ` set M"
  by (metis keys_subst_map list.set_map)

lemma entry_put_middle:
  "x \<notin> fst ` set pre \<Longrightarrow> entry_put x d (pre @ (x, c) # post) = pre @ (x, d) # post"
  by (induction pre) auto

lemma subst_terms_cong: "(\<And>x. x \<in> N \<Longrightarrow> map_of M x = map_of M' x) \<Longrightarrow> subst_terms N M c = subst_terms N M' c"
  by (induction c) auto

lemma map_of_subst_entries:
  assumes "map_of pre y = r"
  shows "map_of (map (\<lambda>(x, c). (x, f c)) pre) y = map_option f r"
  using assms by (simp add: map_of_map)

lemma substitute_map_lookup:
  assumes dist: "distinct (map fst (pre @ post))" and dis: "set (the (map_of (pre @ post) y)) \<inter> N = {}"
  shows "map_of (map (\<lambda>(x, c). (x, subst_terms N M c)) pre @ post) y = map_of (pre @ post) y"
proof (cases "map_of pre y")
  case None
  then show ?thesis using map_of_subst_entries[OF None, of "subst_terms N M"] None by (simp add: map_add_def)
next
  case (Some d)
  have "(y, d) \<in> set (pre @ post)" using map_of_SomeD[OF Some] by simp
  then have M: "map_of (pre @ post) y = Some d" using dist by (simp only: map_of_eq_Some_iff)
  have "y \<notin> fst ` set post" using map_of_SomeD[OF Some] dist by force
  then have "map_of post y = None" using map_of_eq_None_iff[of post y] by blast
  moreover have "subst_terms N M d = d" using dis M by (intro subst_terms_disjoint) simp
  ultimately show ?thesis using map_of_subst_entries[OF Some, of "subst_terms N M"] M by (simp add: map_add_def)
qed

lemma substitute_map_loop:
  assumes "distinct (map fst M)" and "\<And>x. x \<in> N \<Longrightarrow> set (the (map_of M x)) \<inter> N = {}" and "N \<subseteq> fst ` set M"
    and "M = pre @ post" and "ss_subst S = map (\<lambda>(x, c). (x, subst_terms N M c)) pre @ post"
  shows "for_each (\<lambda>x S. bind_res (subst_at S x) (\<lambda>c. bind_res (substitute_vector N S c) (\<lambda>c'.
         Inr (S\<lparr>ss_subst := entry_put x c' (ss_subst S)\<rparr>)))) (map fst post) S = Inr (S\<lparr>ss_subst := subst_map N M\<rparr>)"
  using assms(4,5)
proof (induction post arbitrary: pre S)
  case Nil
  then show ?case by (simp add: subst_map_def)
next
  case (Cons e post)
  obtain x c where e: "e = (x, c)" by fastforce
  let ?f = "\<lambda>(x, c). (x, subst_terms N M c)"
  have keys: "fst ` set (map ?f pre) = fst ` set pre" by force
  have "x \<notin> fst ` set pre" using assms(1) unfolding Cons.prems(1) e by simp
  then have x: "x \<notin> fst ` set (map ?f pre)" using keys by simp
  have look: "map_of (ss_subst S) y = map_of M y" if "y \<in> N" for y
    unfolding Cons.prems(2) using assms(1) assms(2)[OF that] unfolding Cons.prems(1) by (rule substitute_map_lookup)
  have "map_of (map ?f pre) x = None" using x map_of_eq_None_iff[of "map ?f pre" x] by blast
  then have at: "subst_at S x = Inr c"
    unfolding subst_at_def Cons.prems(2) e map_of_append by (simp add: map_add_def)
  have "fst ` set (ss_subst S) = fst ` set M"
    unfolding Cons.prems(2) unfolding set_append image_Un keys using Cons.prems(1) by (simp add: image_Un)
  then have vec: "substitute_vector N S c = Inr (subst_terms N M c)"
    using subst_terms_cong[OF look] assms(3) by (simp add: substitute_vector_run)
  have put: "entry_put x (subst_terms N M c) (ss_subst S) = map ?f (pre @ [e]) @ post"
    unfolding Cons.prems(2) e using entry_put_middle[OF x, of "subst_terms N M c" c post] by simp
  have "for_each (\<lambda>x S. bind_res (subst_at S x) (\<lambda>c. bind_res (substitute_vector N S c) (\<lambda>c'.
      Inr (S\<lparr>ss_subst := entry_put x c' (ss_subst S)\<rparr>)))) (map fst post) (S\<lparr>ss_subst := map ?f (pre @ [e]) @ post\<rparr>) =
      Inr (S\<lparr>ss_subst := map ?f (pre @ [e]) @ post\<rparr>\<lparr>ss_subst := subst_map N M\<rparr>)"
    by (rule Cons.IH[of "pre @ [e]"]) (use Cons.prems(1) in simp_all)
  then show ?case by (simp add: e at vec put[unfolded e])
qed

lemma substitute_map_run:
  assumes "distinct (map fst (ss_subst S))" and "N \<subseteq> fst ` set (ss_subst S)"
    and "\<And>x. x \<in> N \<Longrightarrow> set (the (map_of (ss_subst S) x)) \<inter> N = {}"
  shows "substitute_map N S = Inr (S\<lparr>ss_subst := subst_map N (ss_subst S)\<rparr>)"
  unfolding substitute_map_def using substitute_map_loop[OF assms(1,3,2), of "[]" "ss_subst S" S] by simp

lemma substituted_concat:
  "concat (map (get_substituted_vars S) c) = subst_terms (fst ` set (ss_subst S)) (ss_subst S) c"
proof (induction c)
  case (Cons t c)
  have "get_substituted_vars S t = (if t \<in> fst ` set (ss_subst S) then the (map_of (ss_subst S) t) else [t])"
    using map_of_eq_None_iff[of "ss_subst S" t] by (auto simp: get_substituted_vars_def split: option.split)
  then show ?case using Cons by simp
qed simp

definition subst_diseq :: "(basic_term \<times> concat) list \<Rightarrow> predicate \<Rightarrow> predicate" where
  "subst_diseq M p = create_disequation (subst_terms (fst ` set M) M (get_left_side p)) (subst_terms (fst ` set M) M (get_right_side p))"

lemma apply_substitutions_run:
  "apply_substitutions_to_disequations S = S\<lparr>ss_diseqs := map (subst_diseq (ss_subst S)) (ss_diseqs S)\<rparr>"
  by (simp add: apply_substitutions_to_disequations_def substituted_concat subst_diseq_def Let_def)

lemma subst_ok_within: "distinct (map fst M) \<Longrightarrow> N \<subseteq> fst ` set M \<Longrightarrow> subst_ok M \<sigma> \<Longrightarrow> subst_within N M \<sigma>"
  unfolding subst_ok_def subst_within_def by fastforce

lemma sat_disequation [simp]:
  "sat_pred R \<sigma> (create_disequation l r) \<longleftrightarrow> eval_concat \<sigma> l \<noteq> eval_concat \<sigma> r"
  by (simp add: sat_pred_def create_disequation_def)

lemma kind_created [simp]:
  "is_inequation (create_disequation l r)" "is_transducer (create_transducer t l r)" "\<not> is_equation (create_transducer t l r)"
  by (simp_all add: pred_kind_defs create_disequation_def create_transducer_def)

lemma sat_inequation:
  "is_inequation p \<Longrightarrow> sat_pred R \<sigma> p \<longleftrightarrow> eval_concat \<sigma> (get_left_side p) \<noteq> eval_concat \<sigma> (get_right_side p)"
  by (simp add: sat_pred_def pred_kind_defs side_defs)

lemma sat_subst_diseq:
  assumes "distinct (map fst M)" and "is_inequation p" and "subst_ok M \<sigma>"
  shows "sat_pred R \<sigma> (subst_diseq M p) = sat_pred R \<sigma> p"
  using eval_subst_terms[OF subst_ok_within[OF assms(1) subset_refl assms(3)]] assms(2)
  by (simp add: subst_diseq_def sat_inequation)

lemma subst_ok_subst_map:
  assumes "distinct (map fst M)" and "N \<subseteq> fst ` set M" and "\<And>x. x \<in> N \<Longrightarrow> set (the (map_of M x)) \<inter> N = {}"
  shows "subst_ok (subst_map N M) \<sigma> = subst_ok M \<sigma>"
proof -
  have within: "subst_within N M \<sigma>" if "subst_ok (subst_map N M) \<sigma>"
    unfolding subst_within_def
  proof
    fix x assume x: "x \<in> N"
    then obtain c where c: "(x, c) \<in> set M" using assms(2) by force
    then have "c = the (map_of M x)" using assms(1) by simp
    then have "subst_terms N M c = c" using assms(3)[OF x] by (intro subst_terms_disjoint) simp
    moreover have "(x, subst_terms N M c) \<in> set (subst_map N M)" using c by (auto simp: subst_map_def)
    ultimately show "eval_term \<sigma> x = eval_concat \<sigma> (the (map_of M x))"
      using that \<open>c = the (map_of M x)\<close> by (auto simp: subst_ok_def)
  qed
  have eq: "subst_ok (subst_map N M) \<sigma> = subst_ok M \<sigma>" if "subst_within N M \<sigma>"
    by (auto simp: subst_ok_def subst_map_def eval_subst_terms[OF that])
  show ?thesis using within eq subst_ok_within[OF assms(1,2)] by blast
qed

lemma subst_predicate_trivial:
  "inclusion_has_same_sides p \<Longrightarrow> sat_pred R \<sigma> p"
  by (simp add: inclusion_has_same_sides_def sat_pred_equation)

definition substituted_state :: "basic_term set \<Rightarrow> 'a solving_state \<Rightarrow> 'a solving_state" where
  "substituted_state N S =
     (let sub = (\<lambda>ps. filter (\<lambda>q. \<not> inclusion_has_same_sides q) (map (subst_predicate N (ss_subst S)) ps));
          M = subst_map N (ss_subst S)
      in S\<lparr>ss_inclusions := sset_of (sub (ss_inclusions S)), ss_transducers := sset_of (sub (ss_transducers S)),
           ss_not_on_cycle := sset_of (sub (ss_not_on_cycle S)), ss_to_process := sub (ss_to_process S),
           ss_subst := M, ss_diseqs := map (subst_diseq M) (ss_diseqs S)\<rparr>)"

lemma okN_disjoint:
  assumes "state_okN lang V N S" and "x \<in> N"
  shows "set (the (map_of (ss_subst S) x)) \<subseteq> get_keys (ss_aut S)" "set (the (map_of (ss_subst S) x)) \<inter> N = {}"
proof -
  note shape = subst_shapeD[OF state_okD(1)[OF assms(1)]]
  obtain c where c: "(x, c) \<in> set (ss_subst S)" using shape(2) assms(2) by force
  then have "map_of (ss_subst S) x = Some c" using shape(1) by simp
  then show "set (the (map_of (ss_subst S) x)) \<subseteq> get_keys (ss_aut S)"
    using shape(5)[OF c assms(2)] by simp
  then show "set (the (map_of (ss_subst S) x)) \<inter> N = {}" using shape(6) by blast
qed

lemma substitute_vars_run:
  assumes "state_okN lang V N S"
  shows "substitute_vars N S = Inr (substituted_state N S)"
proof -
  note ok = subst_shapeD(1,2)[OF state_okD(1)[OF assms]]
  show ?thesis
    using substitute_sets_run[OF ok(2)] ok okN_disjoint(2)[OF assms]
    by (simp add: substitute_vars_def substitute_map_run apply_substitutions_run substituted_state_def Let_def)
qed

lemma subst_shape_subst_map:
  assumes "subst_shape N K M"
  shows "subst_shape {} K (subst_map N M)"
proof -
  note shape = subst_shapeD[OF assms]
  have rhs: "set (the (map_of M x)) \<subseteq> K" if x: "x \<in> N" for x
  proof -
    obtain c where c: "(x, c) \<in> set M" using shape(2) x by force
    then show ?thesis using shape(1) shape(5)[OF c x] by simp
  qed
  have "(fst e \<in> K \<longrightarrow> is_literal (fst e)) \<and> (is_literal (fst e) \<longrightarrow> subst_terms N M (snd e) = []) \<and>
      set (subst_terms N M (snd e)) \<subseteq> K" if e: "e \<in> set M" for e
    using shape(3,4,7)[of "fst e" "snd e"] e set_subst_terms[OF _ rhs, of "snd e"] by simp
  then have "\<forall>e \<in> set (subst_map N M). (fst e \<in> K \<longrightarrow> is_literal (fst e)) \<and> (is_literal (fst e) \<longrightarrow> snd e = []) \<and> set (snd e) \<subseteq> K" by (simp add: subst_map_def case_prod_beta)
  then show ?thesis using shape(1) by (simp add: subst_shape_def)
qed

lemma preds_within_subst:
  assumes "preds_within (K \<union> N) P" and "\<And>x. x \<in> N \<Longrightarrow> set (the (map_of M x)) \<subseteq> K" and "Q \<subseteq> subst_predicate N M ` P"
  shows "preds_within K Q"
  unfolding preds_within_def
proof
  fix q assume "q \<in> Q"
  then obtain p where p: "p \<in> P" "q = subst_predicate N M p" using assms(3) by blast
  show "wf_pred q \<and> get_set q \<subseteq> K"
    using preds_withinD[OF assms(1) p(1)] get_set_subst_predicate[OF _ assms(2)] unfolding p(2) by simp
qed

lemma get_set_disequation [simp]: "get_set (create_disequation l r) = set l \<union> set r"
  by (simp add: get_set_def create_disequation_def)

lemma get_set_sides: "wf_pred p \<Longrightarrow> get_set p = set (get_left_side p) \<union> set (get_right_side p)"
  using wf_pred_params[of p] by (simp add: get_set_def)

lemma preds_within_diseqs:
  assumes "subst_shape {} K M" and "preds_within (K \<union> fst ` set M) P"
  shows "preds_within K (subst_diseq M ` P)"
proof -
  note shape = subst_shapeD[OF assms(1)]
  have rhs: "set (the (map_of M x)) \<subseteq> K" if "x \<in> fst ` set M" for x
    using that shape(1,4) by fastforce
  have "set (subst_terms (fst ` set M) M c) \<subseteq> K" if "set c \<subseteq> K \<union> fst ` set M" for c
    by (rule set_subst_terms[OF that rhs])
  then have "get_set (subst_diseq M p) \<subseteq> K" if "p \<in> P" for p
    using preds_withinD[OF assms(2) that] get_set_sides[of p] by (simp add: subst_diseq_def)
  then show ?thesis by (auto simp: preds_within_def subst_diseq_def)
qed

lemma kind_subst_predicate [simp]:
  "is_equation (subst_predicate N M p) = is_equation p" "is_transducer (subst_predicate N M p) = is_transducer p"
  by (simp_all add: pred_kind_defs)

lemma state_vars_substituted [simp]: "state_vars (substituted_state N S) = state_vars S"
  by (simp add: state_vars_def substituted_state_def Let_def)

lemma substituted_state_simps [simp]:
  "ss_aut (substituted_state N S) = ss_aut S" "ss_len_vars (substituted_state N S) = ss_len_vars S"
  "ss_conversions (substituted_state N S) = ss_conversions S" "ss_diseq_len (substituted_state N S) = ss_diseq_len S"
  "ss_subst (substituted_state N S) = subst_map N (ss_subst S)"
  by (simp_all add: substituted_state_def Let_def)

lemma substituted_state_ok:
  assumes "state_okN lang V N S"
  shows "state_ok lang V (substituted_state N S)"
proof -
  let ?K = "get_keys (ss_aut S)" and ?M = "ss_subst S"
  note ok = state_okD[OF assms]
  note rhs = okN_disjoint(1)[OF assms]
  have shape: "subst_shape {} ?K (subst_map N ?M)" by (rule subst_shape_subst_map[OF ok(1)])
  have "preds_within ?K (state_preds (substituted_state N S) \<union> set (ss_to_process (substituted_state N S)))"
    by (rule preds_within_subst[of _ N "state_preds S \<union> set (ss_to_process S)" ?M])
      (use ok(3) rhs in \<open>auto simp: substituted_state_def Let_def state_preds_def\<close>)
  moreover have "preds_within (?K \<union> fst ` set (subst_map N ?M)) (set (ss_diseqs S))"
    using ok(3) subst_shapeD(2)[OF ok(1)] by (auto intro: preds_within_mono)
  then have "preds_within ?K (set (ss_diseqs (substituted_state N S)))"
    using preds_within_diseqs[OF shape] by (simp add: substituted_state_def Let_def)
  moreover have "kinds_ok (substituted_state N S)"
    using ok(4) by (auto simp: kinds_ok_def substituted_state_def Let_def subst_diseq_def)
  ultimately show ?thesis using shape ok(2,5) by (simp add: state_okN_def lens_ok_def)
qed

lemma substituted_preds_sat:
  assumes "state_okN lang V N S" and "subst_ok (ss_subst S) \<sigma>" and "set ps \<subseteq> state_preds S \<union> set (ss_to_process S)"
  shows "(\<forall>p \<in> set (filter (\<lambda>q. \<not> inclusion_has_same_sides q) (map (subst_predicate N (ss_subst S)) ps)). sat_pred R \<sigma> p) \<longleftrightarrow>
    (\<forall>p \<in> set ps. sat_pred R \<sigma> p)"
proof -
  note shape = subst_shapeD[OF state_okD(1)[OF assms(1)]]
  let ?f = "subst_predicate N (ss_subst S)"
  have f: "sat_pred R \<sigma> (?f p) = sat_pred R \<sigma> p" if "p \<in> set ps" for p
    using that assms(3) preds_withinD[OF state_okD(3)[OF assms(1)], of p] subst_ok_within[OF shape(1,2) assms(2)]
    by (intro sat_subst_predicate) auto
  have "(\<forall>p \<in> set (filter (\<lambda>q. \<not> inclusion_has_same_sides q) (map ?f ps)). sat_pred R \<sigma> p) \<longleftrightarrow>
      (\<forall>p \<in> set ps. sat_pred R \<sigma> (?f p))"
    using subst_predicate_trivial by auto
  then show ?thesis using f by simp
qed

lemma substituted_state_models:
  assumes "state_okN lang V N S"
  shows "state_models lang R C (substituted_state N S) \<sigma> \<nu> = state_models lang R C S \<sigma> \<nu>"
proof (cases "subst_ok (ss_subst S) \<sigma>")
  case True
  let ?S = "substituted_state N S"
  note ok = state_okD[OF assms]
  note shape = subst_shapeD(1,2)[OF subst_shape_subst_map[OF ok(1)]] subst_shapeD(1,2)[OF ok(1)]
  have sub: "subst_ok (subst_map N (ss_subst S)) \<sigma>"
    using True subst_ok_subst_map[OF shape(3,4) okN_disjoint(2)[OF assms]] by simp
  have sub_preds: "set (ss_inclusions S) \<subseteq> state_preds S \<union> set (ss_to_process S)"
      "set (ss_transducers S) \<subseteq> state_preds S \<union> set (ss_to_process S)"
    by (auto simp: state_preds_def)
  have "(\<forall>p \<in> state_preds ?S. sat_pred R \<sigma> p) \<longleftrightarrow> (\<forall>p \<in> state_preds S. sat_pred R \<sigma> p)"
    using substituted_preds_sat[OF assms True sub_preds(1), of R] substituted_preds_sat[OF assms True sub_preds(2), of R]
    by (simp add: substituted_state_def Let_def state_preds_def ball_Un)
  moreover have "(\<forall>p \<in> set (ss_diseqs ?S). sat_pred R \<sigma> p) \<longleftrightarrow> (\<forall>p \<in> set (ss_diseqs S). sat_pred R \<sigma> p)"
    using ok(4) sat_subst_diseq[OF shape(1) _ sub] by (simp add: substituted_state_def Let_def kinds_ok_def)
  moreover have "arith_models C ?S \<sigma> \<nu> = arith_models C S \<sigma> \<nu>" by (simp add: arith_models_def)
  ultimately show ?thesis using True sub by (simp add: state_models_def ball_Un)
next
  case False
  note shape = subst_shapeD[OF state_okD(1)[OF assms]]
  show ?thesis
    using False subst_ok_subst_map[OF shape(1,2) okN_disjoint(2)[OF assms]] by (simp add: state_models_def)
qed

lemma substituted_state_queue:
  assumes "state_okN lang V N S" and "state_models lang R C S \<sigma> \<nu>" and "\<forall>p \<in> set (ss_to_process S). sat_pred R \<sigma> p"
  shows "\<forall>p \<in> set (ss_to_process (substituted_state N S)). sat_pred R \<sigma> p"
proof -
  have "subst_ok (ss_subst S) \<sigma>" using assms(2) by (simp add: state_models_def)
  then show ?thesis
    using substituted_preds_sat[OF assms(1) _, of \<sigma> "ss_to_process S" R] assms(3) by (simp add: substituted_state_def Let_def)
qed

section \<open>The queue\<close>

text \<open>Pushing predicates of the state changes the queue only.\<close>

definition requeued :: "'a solving_state \<Rightarrow> 'a solving_state \<Rightarrow> bool" where
  "requeued S S' \<longleftrightarrow> (\<exists>Q. S' = S\<lparr>ss_to_process := Q\<rparr> \<and> set Q \<subseteq> set (ss_to_process S) \<union> state_preds S)"

lemma requeued_refl [simp]: "requeued S S"
  unfolding requeued_def by (intro exI[of _ "ss_to_process S"]) simp

lemma requeued_trans: "requeued S S' \<Longrightarrow> requeued S' S'' \<Longrightarrow> requeued S S''"
  unfolding requeued_def by (force simp: state_preds_def)

lemma requeued_push: "p \<in> state_preds S \<Longrightarrow> requeued S (push_unique p to_back S)"
  unfolding requeued_def push_unique_def push_front_unique_def push_back_unique_def
  by (auto intro: exI[of _ "ss_to_process S"] exI[of _ "p # ss_to_process S"] exI[of _ "ss_to_process S @ [p]"])

lemma requeued_fold:
  assumes "\<And>p S'. p \<in> set ps \<Longrightarrow> requeued S S' \<Longrightarrow> requeued S' (f p S')"
  shows "requeued S S' \<Longrightarrow> requeued S (fold f ps S')"
  using assms
proof (induction ps arbitrary: S')
  case (Cons p ps)
  have "requeued S (f p S')" using Cons.prems(2)[of p S'] Cons.prems(1) requeued_trans by auto
  then show ?case using Cons.IH Cons.prems(2) by simp
qed simp

lemma requeued_preds: "requeued S S' \<Longrightarrow> state_preds S' = state_preds S"
  by (auto simp: requeued_def state_preds_def)

lemma requeued_push_later: "p \<in> state_preds S \<Longrightarrow> requeued S S' \<Longrightarrow> requeued S' (push_unique p to_back S')"
  by (simp add: requeued_push requeued_preds)

lemma requeued_push_dependent: "requeued S (push_dependent_on vars to_back S)"
proof -
  have "p \<in> state_preds S" if "p \<in> set (ss_inclusions S) \<or> p \<in> set (ss_transducers S)" for p
    using that by (auto simp: state_preds_def)
  then show ?thesis
    unfolding push_dependent_on_def Let_def by (intro requeued_fold) (auto intro: requeued_push_later)
qed

lemma requeued_non_simple: "requeued S (push_non_simple_transducers S)"
proof -
  have "p \<in> state_preds S" if "p \<in> set (ss_transducers S)" for p
    using that by (auto simp: state_preds_def)
  then show ?thesis
    unfolding push_non_simple_transducers_def by (intro requeued_fold) (auto intro: requeued_push_later)
qed

lemma requeued_ok:
  assumes "requeued S S'" and "state_okN lang V N S"
  shows "state_okN lang V N S'"
proof -
  obtain Q where Q: "S' = S\<lparr>ss_to_process := Q\<rparr>" "set Q \<subseteq> set (ss_to_process S) \<union> state_preds S"
    using assms(1) by (auto simp: requeued_def)
  note ok = state_okD[OF assms(2)]
  have "preds_within (get_keys (ss_aut S) \<union> N) (set Q)"
    by (rule preds_within_mono[OF ok(3)]) (use Q(2) in auto)
  moreover have "kinds_ok S'" using Q ok(4) by (auto simp: kinds_ok_def state_preds_def)
  ultimately show ?thesis using ok Q(1) by (simp add: state_okN_def lens_ok_def state_preds_def)
qed

lemma requeued_models:
  assumes "requeued S S'"
  shows "state_models lang R C S' = state_models lang R C S"
proof -
  obtain Q where "S' = S\<lparr>ss_to_process := Q\<rparr>" using assms by (auto simp: requeued_def)
  then show ?thesis by (simp add: fun_eq_iff state_models_def state_preds_def arith_models_def state_vars_def)
qed

lemma requeued_queue:
  assumes "requeued S S'" and "state_models lang R C S \<sigma> \<nu>" and "\<forall>p \<in> set (ss_to_process S). sat_pred R \<sigma> p"
  shows "\<forall>p \<in> set (ss_to_process S'). sat_pred R \<sigma> p"
proof -
  have "set (ss_to_process S') \<subseteq> set (ss_to_process S) \<union> state_preds S" using assms(1) by (auto simp: requeued_def)
  then show ?thesis using assms(2,3) by (auto simp: state_models_def)
qed

section \<open>Equations that become substitutions\<close>

text \<open>
  The terms \<open>T\<close> are the segments of a noodle. The other terms keep the languages of \<open>aa0\<close> until
  they are substituted by segments.
\<close>

definition langs_on :: "('a \<Rightarrow> zstring set) \<Rightarrow> 'a aut_assignment \<Rightarrow> basic_term set \<Rightarrow> assignment \<Rightarrow> bool" where
  "langs_on lang aa T \<sigma> \<longleftrightarrow> (\<forall>t \<in> T. eval_term \<sigma> t \<in> term_lang lang aa t)"

definition stage ::
    "('a \<Rightarrow> zstring set) \<Rightarrow> ('a \<Rightarrow> bool) \<Rightarrow> 'a aut_assignment \<Rightarrow> basic_term set \<Rightarrow> basic_term set \<Rightarrow> 'a solving_state \<Rightarrow> bool" where
  "stage lang V aa0 T N S \<longleftrightarrow> state_okN lang V N S \<and> T \<subseteq> get_keys (ss_aut S) \<and>
     (\<forall>y \<in> N. is_variable y \<and> set (the (map_of (ss_subst S) y)) \<subseteq> T) \<and>
     (\<forall>t \<in> get_keys (ss_aut S). t \<in> get_keys aa0 \<and> term_lang lang (ss_aut S) t = term_lang lang aa0 t)"

text \<open>The effect of a step: it adds equations to the state.\<close>

definition eqs_hold :: "(concat \<times> concat) set \<Rightarrow> assignment \<Rightarrow> bool" where
  "eqs_hold E \<sigma> \<longleftrightarrow> (\<forall>e \<in> E. eval_concat \<sigma> (fst e) = eval_concat \<sigma> (snd e))"

definition same_arith :: "'a solving_state \<Rightarrow> 'a solving_state \<Rightarrow> bool" where
  "same_arith S S' \<longleftrightarrow> state_vars S' = state_vars S \<and> ss_conversions S' = ss_conversions S \<and>
     ss_diseq_len S' = ss_diseq_len S \<and> ss_len_vars S' = ss_len_vars S \<and> length (ss_diseqs S') = length (ss_diseqs S)"

definition adds ::
    "(nat \<Rightarrow> (zstring \<times> zstring) set) \<Rightarrow> conversion_sem \<Rightarrow> ('a \<Rightarrow> zstring set) \<Rightarrow> (assignment \<Rightarrow> bool) \<Rightarrow>
     'a solving_state \<Rightarrow> 'a solving_state \<Rightarrow> bool" where
  "adds R C lang P S S' \<longleftrightarrow>
     (\<forall>\<sigma> \<nu>. state_models lang R C S' \<sigma> \<nu> = (state_models lang R C S \<sigma> \<nu> \<and> P \<sigma>)) \<and>
     (\<forall>\<sigma> \<nu>. state_models lang R C S' \<sigma> \<nu> \<longrightarrow> (\<forall>p \<in> set (ss_to_process S). sat_pred R \<sigma> p) \<longrightarrow>
        (\<forall>p \<in> set (ss_to_process S'). sat_pred R \<sigma> p)) \<and>
     same_arith S S'"

lemma addsD:
  assumes "adds R C lang P S S'"
  shows "state_models lang R C S' \<sigma> \<nu> = (state_models lang R C S \<sigma> \<nu> \<and> P \<sigma>)"
    "state_models lang R C S' \<sigma> \<nu> \<Longrightarrow> (\<forall>p \<in> set (ss_to_process S). sat_pred R \<sigma> p) \<Longrightarrow>
        (\<forall>p \<in> set (ss_to_process S'). sat_pred R \<sigma> p)"
    "same_arith S S'"
  using assms unfolding adds_def by blast+

lemma eqs_hold_simps [simp]:
  "eqs_hold {} \<sigma>" "eqs_hold (E \<union> F) \<sigma> \<longleftrightarrow> eqs_hold E \<sigma> \<and> eqs_hold F \<sigma>"
  "eqs_hold (insert e E) \<sigma> \<longleftrightarrow> eval_concat \<sigma> (fst e) = eval_concat \<sigma> (snd e) \<and> eqs_hold E \<sigma>"
  by (auto simp: eqs_hold_def)

lemma same_arith_refl [simp]: "same_arith S S"
  by (simp add: same_arith_def)

lemma adds_trans:
  assumes "adds R C lang P S S'" and "adds R C lang Q S' S''" and "\<And>\<sigma>. X \<sigma> \<longleftrightarrow> P \<sigma> \<and> Q \<sigma>"
  shows "adds R C lang X S S''"
proof -
  note one = addsD[OF assms(1)] and two = addsD[OF assms(2)]
  have "same_arith S S''" using one(3) two(3) by (simp add: same_arith_def)
  moreover have "\<forall>p \<in> set (ss_to_process S''). sat_pred R \<sigma> p"
    if "state_models lang R C S'' \<sigma> \<nu>" "\<forall>p \<in> set (ss_to_process S). sat_pred R \<sigma> p" for \<sigma> \<nu>
    using two(2)[OF that(1)] one(2)[OF _ that(2)] that(1) two(1) by meson
  ultimately show ?thesis unfolding adds_def assms(3) one(1) two(1) by blast
qed

lemma adds_requeued:
  assumes "requeued S S'"
  shows "adds R C lang (\<lambda>\<sigma>. True) S S'"
proof -
  have "same_arith S S'" using assms by (auto simp: requeued_def same_arith_def state_vars_def)
  then show ?thesis
    using requeued_queue[OF assms] unfolding adds_def requeued_models[OF assms] by simp
qed

lemma adds_substituted:
  assumes "state_okN lang V N S"
  shows "adds R C lang (\<lambda>\<sigma>. True) S (substituted_state N S)"
proof -
  have "same_arith S (substituted_state N S)" by (simp add: same_arith_def) (simp add: substituted_state_def Let_def)
  then show ?thesis
    using substituted_state_queue[OF assms] unfolding adds_def substituted_state_models[OF assms] by simp
qed

lemma adds_predicate:
  assumes "is_equation p \<or> is_transducer p"
  shows "adds R C lang (\<lambda>\<sigma>. sat_pred R \<sigma> p) S (ss_add_predicate p on_cycle S)"
    "p \<in> state_preds (ss_add_predicate p on_cycle S)"
proof -
  let ?S = "ss_add_predicate p on_cycle S"
  have preds: "state_preds ?S = insert p (state_preds S)"
    by (auto simp: ss_add_predicate_def Let_def state_preds_def)
  then show "p \<in> state_preds ?S" by simp
  have fields: "ss_aut ?S = ss_aut S" "ss_subst ?S = ss_subst S" "ss_diseqs ?S = ss_diseqs S"
      "ss_to_process ?S = ss_to_process S" "same_arith S ?S"
    by (simp_all add: ss_add_predicate_def Let_def same_arith_def state_vars_def)
  have "arith_models C ?S = arith_models C S"
    using fields(5) by (simp add: same_arith_def arith_models_def fun_eq_iff)
  then show "adds R C lang (\<lambda>\<sigma>. sat_pred R \<sigma> p) S ?S"
    using fields unfolding adds_def state_models_def preds by auto
qed

lemma ok_add_predicate:
  assumes "state_okN lang V N S" and "is_equation p \<or> is_transducer p" and "wf_pred p"
    and "get_set p \<subseteq> get_keys (ss_aut S) \<union> N"
  shows "state_okN lang V N (ss_add_predicate p on_cycle S)"
proof -
  let ?S = "ss_add_predicate p on_cycle S"
  note ok = state_okD[OF assms(1)]
  have "state_preds ?S = insert p (state_preds S)"
    by (auto simp: ss_add_predicate_def Let_def state_preds_def)
  then have "preds_within (get_keys (ss_aut S) \<union> N) (state_preds ?S)" using ok(3) assms(3,4) by (simp add: preds_within_def)
  moreover have "kinds_ok ?S" using ok(4) assms(2) by (auto simp: kinds_ok_def ss_add_predicate_def Let_def)
  moreover have "ss_aut ?S = ss_aut S" "ss_subst ?S = ss_subst S" "ss_diseqs ?S = ss_diseqs S"
      "ss_to_process ?S = ss_to_process S" "lens_ok ?S = lens_ok S"
    by (simp_all add: ss_add_predicate_def Let_def lens_ok_def)
  ultimately show ?thesis using ok by (simp add: state_okN_def)
qed

section \<open>Substitution keeps the type of a state and its solutions\<close>

text \<open>
  C11: Substituting newly bound variables never raises an exception; it turns a state in which
  they still occur into one in which no substituted variable occurs in a predicate, in the
  queue or in another substitution, with the same solutions.
\<close>

theorem substitute_vars_keeps_solutions:
  assumes "state_okN lang V N S"
  shows "\<exists>S'. substitute_vars N S = Inr S' \<and> state_ok lang V S' \<and>
    (\<forall>\<sigma> \<nu>. state_models lang R C S' \<sigma> \<nu> = state_models lang R C S \<sigma> \<nu>)"
  using substitute_vars_run[OF assms] substituted_state_ok[OF assms] substituted_state_models[OF assms] by blast

definition example_state :: "zstring set solving_state" where
  "example_state =
     (let x = BasicTerm Variable [120]; y = BasicTerm Variable [121]; z = BasicTerm Variable [122];
          incl = create_equation [z] [x, y]
      in new_solving_state \<lparr>aut_entries = [(y, {[], [97]}), (z, {[97]})], aut_alphabet = \<lparr>alph_symbols = [97], alph_hash = 0\<rparr>\<rparr>
           [incl] [incl] [] [] {x} [(x, [y])] False [] [])"

lemma example_state_ok: "state_okN id (\<lambda>_. True) {BasicTerm Variable [120]} example_state"
  by (auto simp: state_okN_def example_state_def new_solving_state_def Let_def subst_shape_def get_keys_def aut_shape_def
      preds_within_def state_preds_def get_set_def create_equation_def wf_pred_def pred_kind_defs kinds_ok_def lens_ok_def
      term_lang_def is_variable_def is_literal_def)

theorem substitute_vars_keeps_solutions_witness:
  "\<exists>S'. substitute_vars {BasicTerm Variable [120]} example_state = Inr S' \<and> state_ok id (\<lambda>_. True) S'"
  using substitute_vars_keeps_solutions[OF example_state_ok] by blast

end
