(* ===== verification/Solving_State_Steps.thy ===== *)
theory Solving_State_Steps
  imports Solving_State_Models
begin

text \<open>
  How the stabilization procedure turns equations between the segments of a noodle and old
  variables into substitutions and new inclusions (\<open>process_substituting_inclusions_from_right\<close>,
  \<open>process_substituting_inclusions_from_left\<close>), and how variables are removed and added
  (\<open>remove_vars\<close>, \<open>add_fresh_var\<close>).
\<close>

section \<open>One equation\<close>

lemma stageD:
  assumes "stage lang V aa0 T N S"
  shows "state_okN lang V N S" "T \<subseteq> get_keys (ss_aut S)"
    "y \<in> N \<Longrightarrow> set (the (map_of (ss_subst S) y)) \<subseteq> T"
    "t \<in> get_keys (ss_aut S) \<Longrightarrow> t \<in> get_keys aa0 \<and> term_lang lang (ss_aut S) t = term_lang lang aa0 t"
    "y \<in> N \<Longrightarrow> is_variable y"
  using assms unfolding stage_def by blast+

lemma stage_start:
  assumes "state_ok lang V S" and "T \<subseteq> get_keys (ss_aut S)"
  shows "stage lang V (ss_aut S) T {} S"
  using assms by (simp add: stage_def)

lemma map_of_aut_erase [simp]: "map_of (aut_entries (aut_erase x aa)) = (map_of (aut_entries aa))(x := None)"
  by (simp add: aut_erase_def)

lemma aut_shape_erase: "aut_shape lang V aa \<Longrightarrow> aut_shape lang V (aut_erase x aa)"
  unfolding aut_shape_def by (simp split: if_splits)

lemma keys_not_substituted: "subst_shape N K M \<Longrightarrow> x \<in> K \<Longrightarrow> is_variable x \<Longrightarrow> x \<notin> fst ` set M"
  using subst_shapeD(3)[of N K M x] variable_not_literal[of x] by force

definition bind_var :: "basic_term \<Rightarrow> concat \<Rightarrow> 'a solving_state \<Rightarrow> 'a solving_state" where
  "bind_var x c S = S\<lparr>ss_subst := entry_put x c (ss_subst S), ss_aut := aut_erase x (ss_aut S)\<rparr>"

lemma bind_var_shape:
  assumes shape: "subst_shape N K M" and rhs: "\<And>y. y \<in> N \<Longrightarrow> set (the (map_of M y)) \<subseteq> T"
    and x: "x \<in> K" "x \<notin> T" "is_variable x" and c: "set c \<subseteq> T" "T \<subseteq> K"
  shows "subst_shape (insert x N) (K - {x}) (entry_put x c M)"
proof -
  note M = subst_shapeD[OF shape]
  have new: "x \<notin> fst ` set M" by (rule keys_not_substituted[OF shape x(1,3)])
  have set: "set (entry_put x c M) = insert (x, c) (set M)" using M(1) new by (auto simp: set_entry_put)
  have "(fst e \<in> K - {x} \<longrightarrow> is_literal (fst e)) \<and> (is_literal (fst e) \<longrightarrow> snd e = []) \<and> set (snd e) \<subseteq> (K - {x}) \<union> insert x N \<and> (fst e \<in> insert x N \<longrightarrow> set (snd e) \<subseteq> K - {x})"
    if e: "e \<in> set M" for e
  proof -
    have "set (snd e) \<subseteq> T" if "fst e \<in> N" using rhs[OF that] M(1) e by (metis map_of_is_SomeI option.sel prod.collapse)
    moreover have "fst e \<noteq> x" using e new by force
    ultimately show ?thesis using M(3,4,7)[of "fst e" "snd e"] e x(2) c(2) by auto
  qed
  then have "\<forall>e \<in> set (entry_put x c M). (fst e \<in> K - {x} \<longrightarrow> is_literal (fst e)) \<and> (is_literal (fst e) \<longrightarrow> snd e = []) \<and>
      set (snd e) \<subseteq> (K - {x}) \<union> insert x N \<and> (fst e \<in> insert x N \<longrightarrow> set (snd e) \<subseteq> K - {x})"
    unfolding set using x(2,3) c variable_not_literal[of x] by auto
  then show ?thesis
    using M(1,2,6) distinct_entry_put[OF M(1), of x c] unfolding subst_shape_def keys_entry_put by blast
qed

lemma bind_var_stage:
  assumes st: "stage lang V aa0 T N S" and x: "x \<in> get_keys (ss_aut S)" "x \<notin> T" "is_variable x" and c: "set c \<subseteq> T"
  shows "stage lang V aa0 T (insert x N) (bind_var x c S)"
proof -
  note stD = stageD[OF st]
  note ok = state_okD[OF stD(1)]
  have keys: "get_keys (ss_aut (bind_var x c S)) \<union> insert x N = get_keys (ss_aut S) \<union> N"
    using x(1) by (auto simp: bind_var_def)
  have shape: "subst_shape (insert x N) (get_keys (ss_aut S) - {x}) (entry_put x c (ss_subst S))"
    by (rule bind_var_shape[OF ok(1) stD(3) x c stD(2)])
  moreover have "kinds_ok (bind_var x c S)" "lens_ok (bind_var x c S)"
    using ok(4,5) by (simp_all add: kinds_ok_def lens_ok_def bind_var_def)
  moreover have "preds_within (get_keys (ss_aut S) \<union> N)
      (state_preds (bind_var x c S) \<union> set (ss_to_process (bind_var x c S)) \<union> set (ss_diseqs (bind_var x c S)))"
    using ok(3) by (simp add: bind_var_def state_preds_def)
  ultimately have "state_okN lang V (insert x N) (bind_var x c S)"
    unfolding state_okN_def keys using aut_shape_erase[OF ok(2)] by (simp add: bind_var_def)
  moreover have "is_variable y \<and> set (the (map_of (ss_subst (bind_var x c S)) y)) \<subseteq> T" if "y \<in> insert x N" for y
    using that stD(3,5) x(3) c by (auto simp: bind_var_def)
  ultimately show ?thesis
    unfolding stage_def using stD(2,4) x(2) by (auto simp: bind_var_def)
qed

lemma bind_var_models:
  assumes st: "stage lang V aa0 T N S" and x: "x \<in> get_keys (ss_aut S)" "x \<notin> T" "is_variable x" and c: "set c \<subseteq> T"
    and law: "\<And>\<sigma>. langs_on lang aa0 T \<sigma> \<Longrightarrow> eval_concat \<sigma> c \<in> term_lang lang aa0 x"
  shows "adds R C lang (eqs_hold {([x], c)}) S (bind_var x c S)"
proof -
  note stD = stageD[OF st]
  note shape = state_okD(1)[OF stD(1)]
  let ?S = "bind_var x c S"
  have new: "x \<notin> fst ` set (ss_subst S)" by (rule keys_not_substituted[OF shape x(1,3)])
  have set: "set (ss_subst ?S) = insert (x, c) (set (ss_subst S))"
    using subst_shapeD(1)[OF shape] new by (auto simp: bind_var_def set_entry_put)
  have vars: "state_vars ?S = state_vars S" using x(1) by (auto simp: state_vars_def bind_var_def)
  have lang: "eval_concat \<sigma> c \<in> term_lang lang (ss_aut S) x" if "langs_ok lang (ss_aut ?S) \<sigma>" for \<sigma>
  proof -
    have "langs_on lang aa0 T \<sigma>"
      unfolding langs_on_def
    proof
      fix t assume t: "t \<in> T"
      then have "t \<in> get_keys (ss_aut S)" "t \<noteq> x" using stD(2) x(2) by auto
      then show "eval_term \<sigma> t \<in> term_lang lang aa0 t"
        using langs_okD[OF that, of t] stD(4)[of t] by (simp add: bind_var_def)
    qed
    then show ?thesis using law stD(4)[OF x(1)] by simp
  qed
  have "state_models lang R C ?S \<sigma> \<nu> = (state_models lang R C S \<sigma> \<nu> \<and> eqs_hold {([x], c)} \<sigma>)" for \<sigma> \<nu>
  proof -
    have "langs_ok lang (ss_aut S) \<sigma> \<longleftrightarrow> langs_ok lang (ss_aut ?S) \<sigma> \<and> eval_term \<sigma> x \<in> term_lang lang (ss_aut S) x"
      using langs_ok_erase[of lang "ss_aut S" \<sigma> x] x(1) by (simp add: bind_var_def)
    moreover have "subst_ok (ss_subst ?S) \<sigma> \<longleftrightarrow> eval_term \<sigma> x = eval_concat \<sigma> c \<and> subst_ok (ss_subst S) \<sigma>"
      by (simp add: subst_ok_def set)
    moreover have "arith_models C ?S \<sigma> \<nu> = arith_models C S \<sigma> \<nu>"
      unfolding arith_models_def vars by (simp add: bind_var_def)
    moreover have "state_preds ?S \<union> set (ss_diseqs ?S) = state_preds S \<union> set (ss_diseqs S)"
      by (simp add: bind_var_def state_preds_def)
    ultimately show ?thesis using lang[of \<sigma>] unfolding state_models_def by auto
  qed
  moreover have "same_arith S ?S" using vars by (simp add: same_arith_def bind_var_def)
  ultimately show ?thesis unfolding adds_def by (simp add: bind_var_def)
qed

lemma adds_cong:
  assumes "adds R C lang P S S'" and "\<And>\<sigma> \<nu>. state_models lang R C S \<sigma> \<nu> \<Longrightarrow> P \<sigma> = Q \<sigma>"
  shows "adds R C lang Q S S'"
  using assms unfolding adds_def by metis

lemma adds_push:
  assumes "adds R C lang P S S'" and "p \<in> state_preds S'"
  shows "adds R C lang P S (push_unique p to_back S')"
  by (rule adds_trans[OF assms(1) adds_requeued[OF requeued_push[OF assms(2)]]]) simp

lemma stage_requeued: "stage lang V aa0 T N S \<Longrightarrow> requeued S S' \<Longrightarrow> stage lang V aa0 T N S'"
  unfolding stage_def using requeued_ok by (fastforce simp: requeued_def)

lemma stage_add_equation:
  assumes "stage lang V aa0 T N S" and "set l \<union> set r \<subseteq> get_keys (ss_aut S) \<union> N"
  shows "stage lang V aa0 T N (ss_add_predicate (create_equation l r) on_cycle S)"
proof -
  let ?S = "ss_add_predicate (create_equation l r) on_cycle S"
  have "ss_aut ?S = ss_aut S" "ss_subst ?S = ss_subst S" by (simp_all add: ss_add_predicate_def Let_def)
  moreover have "state_okN lang V N ?S"
    using assms(2) by (intro ok_add_predicate[OF stageD(1)[OF assms(1)]]) auto
  ultimately show ?thesis using assms(1) by (simp add: stage_def)
qed

lemma adds_equation:
  "adds R C lang (eqs_hold {(l, r)}) S (ss_add_predicate (create_equation l r) on_cycle S)"
  by (rule adds_cong[OF adds_predicate(1)]) simp_all

text \<open>A step of either loop, on the equation between the sides \<open>l\<close> and \<open>r\<close>.\<close>

definition equation_step ::
    "('a \<Rightarrow> zstring set) \<Rightarrow> ('a \<Rightarrow> bool) \<Rightarrow> 'a aut_assignment \<Rightarrow> basic_term set \<Rightarrow> (nat \<Rightarrow> (zstring \<times> zstring) set) \<Rightarrow>
     conversion_sem \<Rightarrow> (concat \<times> concat) set \<Rightarrow> 'a solving_state \<Rightarrow> basic_term list \<Rightarrow> ('a solving_state \<times> basic_term list) res \<Rightarrow> bool" where
  "equation_step lang V aa0 T R C E S ns res \<longleftrightarrow>
     (\<exists>S' ns'. res = Inr (S', ns') \<and> stage lang V aa0 T (set ns') S' \<and> adds R C lang (eqs_hold E) S S' \<and>
        get_keys (ss_aut S') \<union> set ns' = get_keys (ss_aut S) \<union> set ns)"

lemma already_substituted:
  assumes "stage lang V aa0 T N S" and "map_of (ss_subst S) x = Some c"
  shows "set c \<subseteq> get_keys (ss_aut S) \<union> N"
    "state_models lang R C S \<sigma> \<nu> \<Longrightarrow> eval_term \<sigma> x = eval_concat \<sigma> c"
proof -
  note shape = subst_shapeD[OF state_okD(1)[OF stageD(1)[OF assms(1)]]]
  have "(x, c) \<in> set (ss_subst S)" using map_of_SomeD[OF assms(2)] .
  then show "set c \<subseteq> get_keys (ss_aut S) \<union> N"
      "state_models lang R C S \<sigma> \<nu> \<Longrightarrow> eval_term \<sigma> x = eval_concat \<sigma> c"
    using shape(4) by (auto simp: state_models_def subst_ok_def)
qed

lemma equation_step_bind:
  assumes st: "stage lang V aa0 T (set ns) S" and x: "x \<in> get_keys (ss_aut S)" "x \<notin> T" "is_variable x" and c: "set c \<subseteq> T"
    and law: "\<And>\<sigma>. langs_on lang aa0 T \<sigma> \<Longrightarrow> eval_concat \<sigma> c \<in> term_lang lang aa0 x"
    and E: "\<And>\<sigma>. eqs_hold E \<sigma> \<longleftrightarrow> eval_term \<sigma> x = eval_concat \<sigma> c"
  shows "equation_step lang V aa0 T R C E S ns (Inr (bind_var x c S, sset_insert x ns))"
proof -
  have "adds R C lang (eqs_hold E) S (bind_var x c S)"
    by (rule adds_cong[OF bind_var_models[OF st x c law]]) (simp_all add: E)
  moreover have "get_keys (ss_aut (bind_var x c S)) \<union> set (sset_insert x ns) = get_keys (ss_aut S) \<union> set ns"
    using x(1) by (auto simp: bind_var_def)
  ultimately show ?thesis using bind_var_stage[OF st x c] by (simp add: equation_step_def)
qed

lemma equation_step_add:
  assumes st: "stage lang V aa0 T (set ns) S" and terms: "set l \<union> set r \<subseteq> get_keys (ss_aut S) \<union> set ns"
    and E: "\<And>\<sigma> \<nu>. state_models lang R C S \<sigma> \<nu> \<Longrightarrow> eqs_hold E \<sigma> \<longleftrightarrow> eval_concat \<sigma> l = eval_concat \<sigma> r"
  shows "equation_step lang V aa0 T R C E S ns (Inr (ss_add_predicate (create_equation l r) on_cycle S, ns))"
    "equation_step lang V aa0 T R C E S ns
       (Inr (push_unique (create_equation l r) to_back (ss_add_predicate (create_equation l r) on_cycle S), ns))"
proof -
  let ?e = "create_equation l r" and ?S = "ss_add_predicate (create_equation l r) on_cycle S"
  have adds: "adds R C lang (eqs_hold E) S ?S" by (rule adds_cong[OF adds_equation]) (use E in simp)
  have in_preds: "?e \<in> state_preds ?S" by (rule adds_predicate(2)) simp
  have st': "stage lang V aa0 T (set ns) ?S" by (rule stage_add_equation[OF st terms])
  have keys: "ss_aut ?S = ss_aut S" "ss_aut (push_unique ?e to_back ?S) = ss_aut S"
    by (simp_all add: ss_add_predicate_def Let_def push_unique_def push_front_unique_def push_back_unique_def)
  show "equation_step lang V aa0 T R C E S ns (Inr (?S, ns))"
    using adds st' keys(1) by (simp add: equation_step_def)
  show "equation_step lang V aa0 T R C E S ns (Inr (push_unique ?e to_back ?S, ns))"
    using adds_push[OF adds in_preds] stage_requeued[OF st' requeued_push[OF in_preds]] keys(2)
    by (simp add: equation_step_def)
qed

section \<open>The loops\<close>

definition right_law ::
    "('a \<Rightarrow> zstring set) \<Rightarrow> 'a aut_assignment \<Rightarrow> basic_term set \<Rightarrow> basic_term set \<Rightarrow> concat \<Rightarrow> concat \<Rightarrow> bool" where
  "right_law lang aa0 T lens l r \<longleftrightarrow> set l \<subseteq> T \<and> set r \<subseteq> get_keys aa0 \<and> (\<forall>x \<in> set r. is_variable x \<longrightarrow> x \<notin> T) \<and>
     ((\<exists>x \<in> set r. x \<in> lens) \<longrightarrow> (\<exists>x. r = [x])) \<and>
     (\<forall>x \<sigma>. r = [x] \<longrightarrow> langs_on lang aa0 T \<sigma> \<longrightarrow> eval_concat \<sigma> l \<in> term_lang lang aa0 x)"

lemma substitute_right_step:
  assumes st: "stage lang V aa0 T (set ns) S" and all: "get_keys (ss_aut S) \<union> set ns = get_keys aa0"
    and law: "right_law lang aa0 T (ss_len_vars S) l r"
  shows "equation_step lang V aa0 T R C {(l, r)} S ns (substitute_right on_cycle (create_equation l r) (S, ns))"
proof (cases "contains_length_var S r")
  case True
  have "\<exists>x \<in> set r. x \<in> ss_len_vars S" using True by (simp add: contains_length_var_def)
  then obtain x where r: "r = [x]" and x: "x \<in> ss_len_vars S" using law by (auto simp: right_law_def)
  have var: "is_variable x" using state_okD(5)[OF stageD(1)[OF st]] x by (simp add: lens_ok_def)
  show ?thesis
  proof (cases "map_of (ss_subst S) x")
    case None
    have "x \<notin> set ns"
      using None subst_shapeD(2)[OF state_okD(1)[OF stageD(1)[OF st]]] by (auto simp: map_of_eq_None_iff)
    then have "x \<in> get_keys (ss_aut S)" using all law r by (auto simp: right_law_def)
    then have "equation_step lang V aa0 T R C {(l, r)} S ns (Inr (bind_var x l S, sset_insert x ns))"
      using law r var by (intro equation_step_bind[OF st]) (auto simp: right_law_def)
    then show ?thesis using True None r by (simp add: substitute_right_def bind_var_def Let_def)
  next
    case (Some c)
    have "set l \<union> set c \<subseteq> get_keys (ss_aut S) \<union> set ns"
      using already_substituted(1)[OF st Some] stageD(2)[OF st] law by (auto simp: right_law_def)
    moreover have "eqs_hold {(l, r)} \<sigma> \<longleftrightarrow> eval_concat \<sigma> l = eval_concat \<sigma> c" if "state_models lang R C S \<sigma> \<nu>" for \<sigma> \<nu>
      using already_substituted(2)[OF st Some that] r by simp
    ultimately show ?thesis
      using equation_step_add(2)[OF st, of l c R C "{(l, r)}" on_cycle on_cycle] True Some r
      by (simp add: substitute_right_def add_inclusion_def Let_def)
  qed
next
  case False
  have "set l \<union> set r \<subseteq> get_keys (ss_aut S) \<union> set ns" using all law stageD(2)[OF st] by (auto simp: right_law_def)
  then show ?thesis
    using equation_step_add(1)[OF st, of l r R C "{(l, r)}" on_cycle] False by (simp add: substitute_right_def Let_def)
qed

lemma equation_steps:
  assumes step: "\<And>e S ns. e \<in> set es \<Longrightarrow> stage lang V aa0 T (set ns) S \<Longrightarrow> same_arith S0 S \<Longrightarrow>
      get_keys (ss_aut S) \<union> set ns = K \<Longrightarrow> equation_step lang V aa0 T R C {e} S ns (f (create_equation (fst e) (snd e)) (S, ns))"
    and "stage lang V aa0 T (set ns) S" and "same_arith S0 S" and "get_keys (ss_aut S) \<union> set ns = K"
  shows "equation_step lang V aa0 T R C (set es) S ns (for_each f (map (\<lambda>e. create_equation (fst e) (snd e)) es) (S, ns))"
  using assms
proof (induction es arbitrary: S ns)
  case Nil
  then show ?case by (simp add: equation_step_def adds_def)
next
  case (Cons e es)
  obtain S' ns' where run: "f (create_equation (fst e) (snd e)) (S, ns) = Inr (S', ns')"
    and S': "stage lang V aa0 T (set ns') S'" "adds R C lang (eqs_hold {e}) S S'"
      "get_keys (ss_aut S') \<union> set ns' = K"
    using Cons.prems(1)[of e ns S] Cons.prems(2,3,4) by (auto simp: equation_step_def)
  have "same_arith S0 S'" using Cons.prems(3) addsD(3)[OF S'(2)] by (simp add: same_arith_def)
  then have "equation_step lang V aa0 T R C (set es) S' ns' (for_each f (map (\<lambda>e. create_equation (fst e) (snd e)) es) (S', ns'))"
    using S' Cons.prems(1) by (intro Cons.IH) auto
  then obtain S'' ns'' where rest: "for_each f (map (\<lambda>e. create_equation (fst e) (snd e)) es) (S', ns') = Inr (S'', ns'')"
      "stage lang V aa0 T (set ns'') S''" "adds R C lang (eqs_hold (set es)) S' S''"
      "get_keys (ss_aut S'') \<union> set ns'' = K"
    using S'(3) by (auto simp: equation_step_def)
  have "adds R C lang (eqs_hold (set (e # es))) S S''" by (rule adds_trans[OF S'(2) rest(3)]) auto
  then show ?case using run rest Cons.prems(4) by (simp add: equation_step_def)
qed

text \<open>What both functions do with the equations \<open>E\<close>, and the variables \<open>ns\<close> that they substitute.\<close>

definition processed ::
    "('a \<Rightarrow> zstring set) \<Rightarrow> ('a \<Rightarrow> bool) \<Rightarrow> basic_term set \<Rightarrow> (nat \<Rightarrow> (zstring \<times> zstring) set) \<Rightarrow> conversion_sem \<Rightarrow>
     (concat \<times> concat) set \<Rightarrow> 'a solving_state \<Rightarrow> 'a solving_state \<Rightarrow> basic_term list \<Rightarrow> bool" where
  "processed lang V T R C E S S' ns \<longleftrightarrow>
     state_ok lang V S' \<and> adds R C lang (eqs_hold E) S S' \<and> T \<subseteq> get_keys (ss_aut S') \<and>
     get_keys (ss_aut S') \<union> set ns = get_keys (ss_aut S) \<and> set ns \<inter> get_keys (ss_aut S') = {} \<and>
     set ns \<subseteq> fst ` set (ss_subst S') \<and> (\<forall>x \<in> set ns. is_variable x) \<and>
     (\<forall>t \<in> get_keys (ss_aut S'). term_lang lang (ss_aut S') t = term_lang lang (ss_aut S) t)"

lemma processed_substitution:
  assumes st: "stage lang V (ss_aut S) T (set ns) S1" and add: "adds R C lang (eqs_hold E) S S1"
    and keys: "get_keys (ss_aut S1) \<union> set ns = get_keys (ss_aut S)" and req: "requeued S1 S2"
  shows "\<exists>S'. substitute_vars (set ns) S2 = Inr S' \<and>
    processed lang V T R C E S (push_non_simple_transducers S') ns"
proof -
  have st2: "stage lang V (ss_aut S) T (set ns) S2" by (rule stage_requeued[OF st req])
  note ok2 = stageD(1)[OF st2]
  let ?S' = "substituted_state (set ns) S2"
  let ?S'' = "push_non_simple_transducers ?S'"
  have same: "ss_aut ?S'' = ss_aut S1" "ss_subst ?S'' = subst_map (set ns) (ss_subst S1)"
    using requeued_non_simple[of ?S'] req by (auto simp: requeued_def)
  have "state_ok lang V ?S''" by (rule requeued_ok[OF requeued_non_simple substituted_state_ok[OF ok2]])
  moreover have "adds R C lang (eqs_hold E) S ?S''"
  proof -
    have "adds R C lang (\<lambda>\<sigma>. True) S1 ?S'" by (rule adds_trans[OF adds_requeued[OF req] adds_substituted[OF ok2]]) simp
    then have "adds R C lang (\<lambda>\<sigma>. True) S1 ?S''" by (rule adds_trans[OF _ adds_requeued[OF requeued_non_simple]]) simp
    then show ?thesis by (rule adds_trans[OF add]) simp
  qed
  moreover have "set ns \<inter> get_keys (ss_aut S1) = {}" "set ns \<subseteq> fst ` set (ss_subst S1)"
    using subst_shapeD(2,6)[OF state_okD(1)[OF stageD(1)[OF st]]] by auto
  ultimately have "processed lang V T R C E S ?S'' ns"
    unfolding processed_def same using stageD(2,4,5)[OF st] keys by simp
  then show ?thesis using substitute_vars_run[OF ok2] by blast
qed

lemma process_right_ok:
  assumes ok: "state_ok lang V S" and T: "T \<subseteq> get_keys (ss_aut S)"
    and law: "\<And>e. e \<in> set es \<Longrightarrow> right_law lang (ss_aut S) T (ss_len_vars S) (fst e) (snd e)"
  shows "\<exists>S' ns. process_substituting_inclusions_from_right (map (\<lambda>e. create_equation (fst e) (snd e)) es) on_cycle S = Inr (S', ns) \<and>
    processed lang V T R C (set es) S S' ns"
proof -
  let ?eqs = "map (\<lambda>e. create_equation (fst e) (snd e)) es"
  have "equation_step lang V (ss_aut S) T R C (set es) S [] (for_each (substitute_right on_cycle) ?eqs (S, []))"
  proof (rule equation_steps[where S0 = S and K = "get_keys (ss_aut S)"])
    fix e S' ns
    assume "e \<in> set es" "stage lang V (ss_aut S) T (set ns) S'" "same_arith S S'"
      "get_keys (ss_aut S') \<union> set ns = get_keys (ss_aut S)"
    then show "equation_step lang V (ss_aut S) T R C {e} S' ns (substitute_right on_cycle (create_equation (fst e) (snd e)) (S', ns))"
      using substitute_right_step[of lang V "ss_aut S" T ns S' "fst e" "snd e"] law[of e] by (simp add: same_arith_def)
  qed (use stage_start[OF ok T] in simp_all)
  then obtain S1 ns where run: "for_each (substitute_right on_cycle) ?eqs (S, []) = Inr (S1, ns)"
    and S1: "stage lang V (ss_aut S) T (set ns) S1" "adds R C lang (eqs_hold (set es)) S S1"
      "get_keys (ss_aut S1) \<union> set ns = get_keys (ss_aut S)"
    by (auto simp: equation_step_def)
  show ?thesis
    using processed_substitution[OF S1 requeued_refl] run
    by (auto simp: process_substituting_inclusions_from_right_def)
qed

definition left_law ::
    "('a \<Rightarrow> zstring set) \<Rightarrow> 'a aut_assignment \<Rightarrow> basic_term set \<Rightarrow> basic_term \<Rightarrow> concat \<Rightarrow> bool" where
  "left_law lang aa0 T x r \<longleftrightarrow> set r \<subseteq> T \<and> (is_variable x \<or> is_literal x) \<and> (is_variable x \<longrightarrow> x \<notin> T) \<and>
     (is_literal x \<longrightarrow> x \<in> get_keys aa0 \<and> term_lang lang aa0 x = {get_name x}) \<and>
     (\<forall>\<sigma>. x \<in> get_keys aa0 \<longrightarrow> langs_on lang aa0 T \<sigma> \<longrightarrow> eval_concat \<sigma> r \<in> term_lang lang aa0 x)"

lemma stage_langs_on:
  assumes "stage lang V aa0 T N S" and "state_models lang R C S \<sigma> \<nu>"
  shows "langs_on lang aa0 T \<sigma>"
  using assms(2) stageD(2,4)[OF assms(1)] by (auto simp: state_models_def langs_ok_def langs_on_def)

lemma substitute_left_step:
  assumes st: "stage lang V aa0 T (set ns) S" and all: "get_keys (ss_aut S) \<union> set ns = get_keys aa0"
    and x: "x \<in> state_vars S" and law: "left_law lang aa0 T x r"
  shows "equation_step lang V aa0 T R C {([x], r)} S ns (substitute_left on_cycle (create_equation [x] r) (S, ns))"
proof (cases "is_literal x")
  case True
  have "eqs_hold {([x], r)} \<sigma>" if m: "state_models lang R C S \<sigma> \<nu>" for \<sigma> \<nu>
    using stage_langs_on[OF st m] law True by (auto simp: left_law_def eval_term_def)
  then have "adds R C lang (eqs_hold {([x], r)}) S S"
    using adds_cong[OF adds_requeued[OF requeued_refl]] by metis
  then show ?thesis using True st by (simp add: substitute_left_def equation_step_def)
next
  case False
  then have var: "is_variable x" using law by (simp add: left_law_def)
  show ?thesis
  proof (cases "map_of (ss_subst S) x")
    case None
    then have key: "x \<in> get_keys (ss_aut S)" using x by (simp add: state_vars_def map_of_eq_None_iff)
    then have "equation_step lang V aa0 T R C {([x], r)} S ns (Inr (bind_var x r S, sset_insert x ns))"
      using law var all by (intro equation_step_bind[OF st]) (auto simp: left_law_def)
    then show ?thesis using False None by (simp add: substitute_left_def bind_var_def Let_def)
  next
    case (Some c)
    have "set c \<union> set r \<subseteq> get_keys (ss_aut S) \<union> set ns"
      using already_substituted(1)[OF st Some] stageD(2)[OF st] law by (auto simp: left_law_def)
    moreover have "eqs_hold {([x], r)} \<sigma> \<longleftrightarrow> eval_concat \<sigma> c = eval_concat \<sigma> r" if "state_models lang R C S \<sigma> \<nu>" for \<sigma> \<nu>
      using already_substituted(2)[OF st Some that] by simp
    ultimately show ?thesis
      using equation_step_add(2)[OF st, of c r R C "{([x], r)}" on_cycle on_cycle] False Some
      by (simp add: substitute_left_def add_inclusion_def Let_def)
  qed
qed

lemma process_left_ok:
  assumes ok: "state_ok lang V S" and T: "T \<subseteq> get_keys (ss_aut S)"
    and law: "\<And>e. e \<in> set es \<Longrightarrow> \<exists>x. fst e = [x] \<and> x \<in> state_vars S \<and> left_law lang (ss_aut S) T x (snd e)"
  shows "\<exists>S' ns. process_substituting_inclusions_from_left (map (\<lambda>e. create_equation (fst e) (snd e)) es) on_cycle S = Inr (S', ns) \<and>
    processed lang V T R C (set es) S S' ns"
proof -
  let ?eqs = "map (\<lambda>e. create_equation (fst e) (snd e)) es"
  have "equation_step lang V (ss_aut S) T R C (set es) S [] (for_each (substitute_left on_cycle) ?eqs (S, []))"
  proof (rule equation_steps[where S0 = S and K = "get_keys (ss_aut S)"])
    fix e S' ns
    assume e: "e \<in> set es" and S': "stage lang V (ss_aut S) T (set ns) S'" "same_arith S S'"
      "get_keys (ss_aut S') \<union> set ns = get_keys (ss_aut S)"
    obtain x r where x: "e = ([x], r)" "x \<in> state_vars S" "left_law lang (ss_aut S) T x r" using law[OF e] by (cases e) auto
    then have "x \<in> state_vars S'" using S'(2) by (simp add: same_arith_def)
    then show "equation_step lang V (ss_aut S) T R C {e} S' ns (substitute_left on_cycle (create_equation (fst e) (snd e)) (S', ns))"
      using substitute_left_step[OF S'(1,3) _ x(3)] x(1) by simp
  qed (use stage_start[OF ok T] in simp_all)
  then obtain S1 ns where run: "for_each (substitute_left on_cycle) ?eqs (S, []) = Inr (S1, ns)"
    and S1: "stage lang V (ss_aut S) T (set ns) S1" "adds R C lang (eqs_hold (set es)) S S1"
      "get_keys (ss_aut S1) \<union> set ns = get_keys (ss_aut S)"
    by (auto simp: equation_step_def)
  show ?thesis
    using processed_substitution[OF S1 requeued_push_dependent[of S1 "set ns" on_cycle]] run
    by (fastforce simp: process_substituting_inclusions_from_left_def)
qed

section \<open>Removing variables\<close>

definition without_vars :: "basic_term set \<Rightarrow> 'a solving_state \<Rightarrow> 'a solving_state" where
  "without_vars W S =
     S\<lparr>ss_subst := filter (\<lambda>e. fst e \<notin> W) (ss_subst S), ss_len_vars := ss_len_vars S - W\<rparr>"

lemma aut_erase_missing: "x \<notin> get_keys aa \<Longrightarrow> aut_erase x aa = aa"
proof -
  assume "x \<notin> get_keys aa"
  then have "filter (\<lambda>e. fst e \<noteq> x) (aut_entries aa) = aut_entries aa"
    by (intro filter_True) (auto simp: get_keys_def)
  then show ?thesis by (simp add: aut_erase_def entry_erase_def)
qed

lemma remove_vars_fold:
  assumes "set ns \<inter> get_keys (ss_aut S) = {}"
  shows "fold (remove_var keep req) ns S = without_vars (set ns - keep - req) S"
  using assms
proof (induction ns arbitrary: S)
  case Nil
  then show ?case by (simp add: without_vars_def)
next
  case (Cons x ns)
  have erase: "aut_erase x (ss_aut S) = ss_aut S" using Cons.prems by (intro aut_erase_missing) simp
  have step: "remove_var keep req x S = (if x \<in> keep \<or> x \<in> req then S else without_vars {x} S)"
    using erase by (simp add: remove_var_def without_vars_def entry_erase_def)
  have "get_keys (ss_aut (remove_var keep req x S)) = get_keys (ss_aut S)" by (simp add: step without_vars_def)
  then have "fold (remove_var keep req) ns (remove_var keep req x S) = without_vars (set ns - keep - req) (remove_var keep req x S)"
    using Cons.prems by (intro Cons.IH) simp
  moreover have "without_vars W (without_vars {x} S) = without_vars (insert x W) S" for W
    using Diff_insert2[of "ss_len_vars S" x W] by (simp add: without_vars_def conj_commute)
  ultimately show ?case by (auto simp: step insert_Diff_if)
qed

text \<open>The terms that the constraints of a state refer to.\<close>

definition referenced :: "'a solving_state \<Rightarrow> basic_term set" where
  "referenced S = string_var ` set (ss_conversions S) \<union> number_var ` set (ss_conversions S) \<union>
     formula_get_vars (ss_diseqs S) \<union> (\<Union>n \<in> set (ss_diseq_len S). len_free_vars n)"

lemma remove_vars_run:
  assumes "lens_ok S" and "set ns \<inter> get_keys (ss_aut S) = {}"
  shows "remove_vars ns keep S = Inr (without_vars (set ns - keep - referenced S) S)"
proof -
  have "map_res collect_free_vars (ss_diseq_len S) = Inr (map len_free_vars (ss_diseq_len S))"
    using assms(1) collect_free_vars_correct by (intro map_res_Inr) (auto simp: lens_ok_def)
  then show ?thesis
    using remove_vars_fold[OF assms(2)]
    by (simp add: remove_vars_def get_vars_referenced_by_state_constraints_def referenced_def)
qed

lemma without_vars_ok:
  assumes "state_ok lang V S"
  shows "state_ok lang V (without_vars W S)"
proof -
  note ok = state_okD[OF assms]
  have "subst_shape {} (get_keys (ss_aut S)) (filter (\<lambda>e. fst e \<notin> W) (ss_subst S))"
    using ok(1) by (simp add: subst_shape_def distinct_map_filter)
  then show ?thesis
    using ok by (simp add: state_okN_def without_vars_def kinds_ok_def lens_ok_def state_preds_def)
qed

lemma without_vars_models:
  assumes "state_models lang R C S \<sigma> \<nu>"
  shows "state_models lang R C (without_vars W S) \<sigma> \<nu>"
proof -
  have "state_vars (without_vars W S) \<subseteq> state_vars S" by (auto simp: state_vars_def without_vars_def)
  then have "arith_models C (without_vars W S) \<sigma> \<nu>"
    using assms by (auto simp: state_models_def arith_models_def without_vars_def)
  then show ?thesis
    using assms by (auto simp: state_models_def without_vars_def subst_ok_def state_preds_def)
qed

text \<open>The values of removed variables follow from their substitutions.\<close>

lemma without_vars_extend:
  assumes ok: "state_ok lang V S" and W: "W \<subseteq> fst ` set (ss_subst S)" "W \<inter> referenced S = {}" "W \<inter> get_keys (ss_aut S) = {}"
    and lit: "\<And>x c \<sigma>. (x, c) \<in> set (ss_subst S) \<Longrightarrow> x \<in> W \<Longrightarrow> is_literal x \<Longrightarrow> eval_concat \<sigma> c = get_name x"
    and models: "state_models lang R C (without_vars W S) \<sigma> \<nu>"
  shows "\<exists>\<sigma>' \<nu>'. state_models lang R C S \<sigma>' \<nu>' \<and> (\<forall>t. t \<notin> W \<longrightarrow> \<sigma>' t = \<sigma> t \<and> \<nu>' t = \<nu> t)"
proof -
  note okD = state_okD[OF ok]
  note shape = subst_shapeD[OF okD(1)]
  let ?K = "get_keys (ss_aut S)"
  define \<tau> where "\<tau> t = (if t \<in> W then eval_concat \<sigma> (the (map_of (ss_subst S) t)) else \<sigma> t)" for t
  define \<mu> where "\<mu> t = (if t \<in> W then int (length (\<tau> t)) else \<nu> t)" for t
  have same: "eval_concat \<tau> c = eval_concat \<sigma> c" if "set c \<subseteq> ?K" for c
    using that W(3) by (intro eval_concat_cong) (auto simp: \<tau>_def)
  have same_term: "eval_term \<tau> t = eval_term \<sigma> t" if "t \<notin> W" for t
    using that by (simp add: eval_term_def \<tau>_def)
  have sat: "sat_pred R \<tau> p = sat_pred R \<sigma> p" if p: "wf_pred p" "get_set p \<subseteq> ?K" for p
    using p wf_pred_params[OF p(1)] by (intro sat_pred_cong same) (auto simp: get_set_def)
  have "langs_ok lang (ss_aut S) \<tau>"
    using models same_term W(3) by (fastforce simp: state_models_def langs_ok_def without_vars_def)
  moreover have "subst_ok (ss_subst S) \<tau>"
    unfolding subst_ok_def
  proof (clarify)
    fix x c assume xc: "(x, c) \<in> set (ss_subst S)"
    have c: "eval_concat \<tau> c = eval_concat \<sigma> c" using shape(4)[OF xc] by (intro same) simp
    show "eval_term \<tau> x = eval_concat \<tau> c"
    proof (cases "x \<in> W")
      case True
      then show ?thesis using c lit[OF xc True] shape(1) xc by (simp add: eval_term_def \<tau>_def)
    next
      case False
      then have "(x, c) \<in> set (ss_subst (without_vars W S))" using xc by (simp add: without_vars_def)
      then show ?thesis using models c same_term[OF False] by (auto simp: state_models_def subst_ok_def)
    qed
  qed
  moreover have "sat_pred R \<tau> p" if p: "p \<in> state_preds S \<union> set (ss_diseqs S)" for p
    using p models preds_withinD[OF okD(3), of p] sat[of p] by (auto simp: state_models_def without_vars_def state_preds_def)
  moreover have "arith_models C S \<tau> \<mu>"
  proof -
    have arith: "arith_models C (without_vars W S) \<sigma> \<nu>" using models by (simp add: state_models_def)
    have "\<mu> t = int (length (\<tau> t))" if "t \<in> state_vars S" "is_variable t" for t
    proof (cases "t \<in> W")
      case False
      then have "t \<in> state_vars (without_vars W S)" using that(1) by (auto simp: state_vars_def without_vars_def)
      then show ?thesis using arith that(2) False by (simp add: arith_models_def \<mu>_def \<tau>_def)
    qed (simp add: \<mu>_def)
    moreover have "C c (eval_term \<tau> (string_var c)) (\<mu> (number_var c))" if c: "c \<in> set (ss_conversions S)" for c
    proof -
      have "string_var c \<notin> W" "number_var c \<notin> W" using c W(2) by (auto simp: referenced_def)
      then show ?thesis using arith c same_term by (simp add: arith_models_def without_vars_def \<mu>_def)
    qed
    moreover have "len_bool \<mu> n" if n: "n \<in> set (ss_diseq_len S)" for n
    proof -
      have "\<mu> t = \<nu> t" if "t \<in> len_free_vars n" for t using that n W(2) by (auto simp: referenced_def \<mu>_def)
      moreover have "len_bool_node {} n" "len_bool \<nu> n"
        using okD(5) arith n by (auto simp: lens_ok_def arith_models_def without_vars_def)
      ultimately show ?thesis using collect_free_vars_correct[of n \<mu> \<nu>] by blast
    qed
    ultimately show ?thesis by (simp add: arith_models_def)
  qed
  ultimately have "state_models lang R C S \<tau> \<mu>" by (simp add: state_models_def)
  then show ?thesis by (intro exI[of _ \<tau>] exI[of _ \<mu>]) (simp add: \<tau>_def \<mu>_def)
qed

end
