(* ===== verification/Noodle_Segments.thy ===== *)
theory Noodle_Segments
  imports Decision_Procedure Solving_State_Steps
begin

text \<open>
  The first half of a noodlification: the automata of the two sides of a predicate, and the
  fresh variables for the segments of a noodle. The theory states what the procedure relies on
  in the automata library.
\<close>

section \<open>Fresh variables\<close>

text \<open>No variable of \<open>X\<close> has the number of a fresh variable that is still to come.\<close>

definition ids_cover :: "fresh_ids \<Rightarrow> basic_term set \<Rightarrow> bool" where
  "ids_cover ids X \<longleftrightarrow>
     (\<forall>name i. mk_internal_noodler_var (name @ zs ''!n'' @ show_nat i) \<in> X \<longrightarrow> i < count_at ids name)"

definition ids_le :: "fresh_ids \<Rightarrow> fresh_ids \<Rightarrow> bool" where
  "ids_le ids ids' \<longleftrightarrow> (\<forall>name. count_at ids name \<le> count_at ids' name)"

lemma ids_le_refl [simp]: "ids_le ids ids"
  by (simp add: ids_le_def)

lemma ids_le_trans [trans]: "ids_le a b \<Longrightarrow> ids_le b c \<Longrightarrow> ids_le a c"
  unfolding ids_le_def by (meson order_trans)

lemma ids_cover_mono: "ids_cover ids X \<Longrightarrow> Y \<subseteq> X \<Longrightarrow> ids_le ids ids' \<Longrightarrow> ids_cover ids' Y"
  unfolding ids_cover_def ids_le_def by (meson order_less_le_trans subsetD)

lemma ids_cover_Un [simp]: "ids_cover ids (X \<union> Y) \<longleftrightarrow> ids_cover ids X \<and> ids_cover ids Y"
  by (auto simp: ids_cover_def)

lemma ids_cover_literal: "is_literal t \<Longrightarrow> ids_cover ids X \<Longrightarrow> ids_cover ids (insert t X)"
  unfolding ids_cover_def mk_internal_noodler_var_def is_literal_def by auto

lemma fresh_var_new:
  assumes "ids_cover ids X" and "mk_noodler_var_fresh name ids = (v, ids')"
  shows "v \<notin> X" "ids_le ids ids'" "ids_cover ids' (insert v X)" "is_variable v"
proof -
  have v: "v = mk_internal_noodler_var (name @ zs ''!n'' @ show_nat (count_at ids name))" and ids': "ids' = map_increment name ids"
    using assms(2) by (auto simp: mk_noodler_var_fresh_def)
  show "v \<notin> X" using assms(1) unfolding v ids_cover_def by blast
  show le: "ids_le ids ids'" by (simp add: ids_le_def ids' count_at_increment)
  show "is_variable v" by (simp add: v mk_internal_noodler_var_def is_variable_def)
  have "i < count_at ids' n" if "mk_internal_noodler_var (n @ zs ''!n'' @ show_nat i) = v" for n i
    using that fresh_name_inject[of n i name "count_at ids name"]
    by (auto simp: v mk_internal_noodler_var_def ids' count_at_increment)
  then show "ids_cover ids' (insert v X)"
    using ids_cover_mono[OF assms(1) subset_refl le] unfolding ids_cover_def by auto
qed

section \<open>The variables of a state\<close>

definition arith_vars :: "'a solving_state \<Rightarrow> basic_term set" where
  "arith_vars S = string_var ` set (ss_conversions S) \<union> number_var ` set (ss_conversions S) \<union>
     (\<Union>n \<in> set (ss_diseq_len S). len_free_vars n)"

definition mentions :: "'a solving_state \<Rightarrow> basic_term set" where
  "mentions S = state_vars S \<union> arith_vars S"

definition agree ::
    "basic_term set \<Rightarrow> assignment \<Rightarrow> (basic_term \<Rightarrow> int) \<Rightarrow> assignment \<Rightarrow> (basic_term \<Rightarrow> int) \<Rightarrow> bool" where
  "agree X \<sigma> \<nu> \<sigma>' \<nu>' \<longleftrightarrow> (\<forall>t \<in> X. \<sigma>' t = \<sigma> t \<and> \<nu>' t = \<nu> t)"

lemma agree_refl [simp]: "agree X \<sigma> \<nu> \<sigma> \<nu>"
  by (simp add: agree_def)

lemma agree_trans: "agree X \<sigma> \<nu> \<sigma>' \<nu>' \<Longrightarrow> agree X \<sigma>' \<nu>' \<sigma>'' \<nu>'' \<Longrightarrow> agree X \<sigma> \<nu> \<sigma>'' \<nu>''"
  by (simp add: agree_def)

lemma agree_mono: "agree X \<sigma> \<nu> \<sigma>' \<nu>' \<Longrightarrow> Y \<subseteq> X \<Longrightarrow> agree Y \<sigma> \<nu> \<sigma>' \<nu>'"
  by (auto simp: agree_def)

lemma agree_sym: "agree X \<sigma> \<nu> \<sigma>' \<nu>' \<Longrightarrow> agree X \<sigma>' \<nu>' \<sigma> \<nu>"
  by (simp add: agree_def)

lemma mentions_same_arith: "same_arith S S' \<Longrightarrow> mentions S' = mentions S"
  by (simp add: mentions_def same_arith_def arith_vars_def)

lemma mentions_add_predicate [simp]: "mentions (ss_add_predicate p on_cycle S) = mentions S"
  by (simp add: mentions_def state_vars_def arith_vars_def ss_add_predicate_def Let_def)

lemma keys_mentions: "get_keys (ss_aut S) \<subseteq> mentions S"
  by (auto simp: mentions_def state_vars_def)

lemma sat_pred_agree_on:
  assumes "wf_pred p" and "get_set p \<subseteq> X" and "agree X \<sigma> \<nu> \<sigma>' \<nu>'"
  shows "sat_pred R \<sigma>' p = sat_pred R \<sigma> p"
proof -
  have "eval_concat \<sigma>' c = eval_concat \<sigma> c" if "set c \<subseteq> X" for c
    using that assms(3) by (intro eval_concat_cong) (auto simp: agree_def)
  then show ?thesis
    using assms(1,2) wf_pred_params[OF assms(1)] by (intro sat_pred_cong) (auto simp: get_set_def)
qed

lemma state_models_agree:
  assumes ok: "state_ok lang V S" and agree: "agree (mentions S) \<sigma> \<nu> \<sigma>' \<nu>'" and models: "state_models lang R C S \<sigma> \<nu>"
  shows "state_models lang R C S \<sigma>' \<nu>'"
proof -
  note okD = state_okD[OF ok]
  let ?K = "get_keys (ss_aut S)"
  have same: "eval_term \<sigma>' t = eval_term \<sigma> t" "\<nu>' t = \<nu> t" if "t \<in> mentions S" for t
    using that agree by (auto simp: agree_def eval_term_def)
  have K: "t \<in> mentions S" if "t \<in> ?K" for t using that keys_mentions by blast
  have "langs_ok lang (ss_aut S) \<sigma>'"
    using models same(1)[OF K] by (simp add: state_models_def langs_ok_def)
  moreover have "eval_term \<sigma>' x = eval_concat \<sigma>' c" if xc: "(x, c) \<in> set (ss_subst S)" for x c
  proof -
    have "eval_concat \<sigma>' c = eval_concat \<sigma> c"
      using subst_shapeD(4)[OF okD(1) xc] K agree by (intro eval_concat_cong) (auto simp: agree_def)
    moreover have "x \<in> mentions S" using xc by (force simp: mentions_def state_vars_def)
    ultimately show ?thesis using models same(1) xc by (auto simp: state_models_def subst_ok_def)
  qed
  moreover have "sat_pred R \<sigma>' p" if "p \<in> state_preds S \<union> set (ss_diseqs S)" for p
    using that preds_withinD[OF okD(3), of p] sat_pred_agree_on[of p ?K \<sigma> \<nu> \<sigma>' \<nu>' R] agree_mono[OF agree keys_mentions] models
    by (auto simp: state_models_def)
  moreover have "arith_models C S \<sigma>' \<nu>'"
  proof -
    have "len_bool \<nu>' n" if n: "n \<in> set (ss_diseq_len S)" for n
    proof -
      have "\<nu>' t = \<nu> t" if "t \<in> len_free_vars n" for t using that n same(2) by (auto simp: mentions_def arith_vars_def)
      moreover have "len_bool_node {} n" "len_bool \<nu> n"
        using okD(5) models n by (auto simp: lens_ok_def arith_models_def state_models_def)
      ultimately show ?thesis using collect_free_vars_correct[of n \<nu>' \<nu>] by blast
    qed
    moreover have "C c (eval_term \<sigma>' (string_var c)) (\<nu>' (number_var c))" if "c \<in> set (ss_conversions S)" for c
      using that models same by (simp add: state_models_def arith_models_def mentions_def arith_vars_def)
    moreover have "\<nu>' t = int (length (\<sigma>' t))" if "t \<in> state_vars S" "is_variable t" for t
      using that models agree by (auto simp: state_models_def arith_models_def agree_def mentions_def)
    ultimately show ?thesis by (simp add: arith_models_def)
  qed
  ultimately show ?thesis by (auto simp: state_models_def subst_ok_def)
qed

section \<open>A fresh variable for an automaton\<close>

definition segment_law :: "('a \<Rightarrow> zstring set) \<Rightarrow> ('a \<Rightarrow> bool) \<Rightarrow> 'a mata \<Rightarrow> 'a \<Rightarrow> bool" where
  "segment_law lang V m x \<longleftrightarrow> V x \<and> view_law lang m x \<and> trimmed (view m x)"

text \<open>
  What \<open>add_fresh_var\<close> does: the new term is a literal or a variable that no other part of the
  state mentions, and its language is that of the automaton.
\<close>

definition with_term :: "basic_term \<Rightarrow> 'a \<Rightarrow> basic_term set \<Rightarrow> 'a solving_state \<Rightarrow> 'a solving_state" where
  "with_term v aut lens S = S\<lparr>ss_aut := aut_put v aut (ss_aut S), ss_len_vars := lens\<rparr>"

definition new_term :: "('a \<Rightarrow> zstring set) \<Rightarrow> basic_term set \<Rightarrow> 'a \<Rightarrow> basic_term \<Rightarrow> bool" where
  "new_term lang X aut v \<longleftrightarrow> is_literal v \<and> lang aut = {get_name v} \<or> is_variable v \<and> v \<notin> X"

lemma add_fresh_var_run:
  assumes law: "segment_law lang V m aut" and ids: "ids_cover ids X"
  obtains v lens ids' where "add_fresh_var enc m aut var_prefix is_length True (S, ids) = Inr (v, with_term v aut lens S, ids')"
    "new_term lang X aut v" "ids_le ids ids'" "ids_cover ids' (insert v X)"
    "lens = (if is_variable v \<and> is_length then insert v (ss_len_vars S) else ss_len_vars S)"
proof -
  obtain r where r: "aut_encodes_literal enc (view m aut) = Some r" "\<And>w. r = Some w \<Longrightarrow> lang aut = {w}"
    using aut_encodes_literal_runs[of "view m aut" enc] law by (auto simp: segment_law_def view_law_def)
  show ?thesis
  proof (cases r)
    case (Some w)
    let ?v = "BasicTerm Literal w"
    have lit: "is_literal ?v" "\<not> is_variable ?v" by (simp_all add: is_literal_def is_variable_def)
    show ?thesis
    proof (rule that)
      show "add_fresh_var enc m aut var_prefix is_length True (S, ids) = Inr (?v, with_term ?v aut (ss_len_vars S) S, ids)"
        using r(1) Some by (simp add: add_fresh_var_def with_term_def Let_def)
      show "new_term lang X aut ?v" using r(2)[OF Some] lit by (simp add: new_term_def)
    qed (use lit ids_cover_literal[OF lit(1) ids] in simp_all)
  next
    case None
    obtain v ids' where v: "mk_noodler_var_fresh var_prefix ids = (v, ids')" by fastforce
    note new = fresh_var_new[OF ids v]
    show ?thesis
    proof (rule that)
      show "add_fresh_var enc m aut var_prefix is_length True (S, ids) =
          Inr (v, with_term v aut (if is_variable v \<and> is_length then insert v (ss_len_vars S) else ss_len_vars S) S, ids')"
        using r(1) None v new(4) by (simp add: add_fresh_var_def with_term_def Let_def)
      show "new_term lang X aut v" using new by (simp add: new_term_def)
    qed (use new in simp_all)
  qed
qed

lemma with_term_simps [simp]:
  "ss_subst (with_term v aut lens S) = ss_subst S" "ss_to_process (with_term v aut lens S) = ss_to_process S"
  "ss_aut (with_term v aut lens S) = aut_put v aut (ss_aut S)" "ss_diseqs (with_term v aut lens S) = ss_diseqs S"
  "state_preds (with_term v aut lens S) = state_preds S" "ss_len_vars (with_term v aut lens S) = lens"
  "state_vars (with_term v aut lens S) = insert v (state_vars S)" "arith_vars (with_term v aut lens S) = arith_vars S"
  "mentions (with_term v aut lens S) = insert v (mentions S)"
  by (auto simp: with_term_def state_preds_def state_vars_def arith_vars_def mentions_def)

lemma with_term_ok:
  assumes ok: "state_ok lang V S" and v: "new_term lang (mentions S) aut v" and V: "V aut"
    and lens: "\<And>t. t \<in> lens \<Longrightarrow> is_variable t"
  shows "state_ok lang V (with_term v aut lens S)"
proof -
  note okD = state_okD[OF ok]
  have "v \<notin> fst ` set (ss_subst S)" if "\<not> is_literal v"
    using v that by (auto simp: new_term_def mentions_def state_vars_def)
  then have "subst_shape {} (insert v (get_keys (ss_aut S))) (ss_subst S)"
    using okD(1) unfolding subst_shape_def by force
  moreover have "aut_shape lang V (aut_put v aut (ss_aut S))"
  proof -
    have "map_of (aut_entries (aut_put v aut (ss_aut S))) = (map_of (aut_entries (ss_aut S)))(v \<mapsto> aut)"
      by (simp add: aut_put_def fun_eq_iff)
    then show ?thesis
      using okD(2) v V variable_not_literal[of v] by (auto simp: aut_shape_def new_term_def split: if_splits)
  qed
  moreover have "kinds_ok (with_term v aut lens S)" "lens_ok (with_term v aut lens S)"
    using okD(4,5) lens by (simp_all add: kinds_ok_def lens_ok_def with_term_def)
  moreover have "preds_within (insert v (get_keys (ss_aut S))) (state_preds S \<union> set (ss_to_process S) \<union> set (ss_diseqs S))"
    by (rule preds_within_mono[OF okD(3)]) auto
  ultimately show ?thesis by (simp add: state_okN_def)
qed

lemma with_term_models:
  assumes ok: "state_ok lang V S" and v: "new_term lang (mentions S) aut v"
  shows "state_models lang R C (with_term v aut lens S) \<sigma> \<nu> \<longleftrightarrow>
    state_models lang R C S \<sigma> \<nu> \<and> eval_term \<sigma> v \<in> lang aut \<and> (is_variable v \<longrightarrow> \<nu> v = int (length (\<sigma> v)))"
proof -
  have lit: "\<not> is_variable v \<and> term_lang lang (ss_aut S) v = lang aut" if "v \<in> get_keys (ss_aut S)"
    using that v aut_shapeD(2)[OF state_okD(2)[OF ok] that] variable_not_literal[of v] keys_mentions
    by (auto simp: new_term_def)
  have "langs_ok lang (aut_put v aut (ss_aut S)) \<sigma> \<longleftrightarrow> langs_ok lang (ss_aut S) \<sigma> \<and> eval_term \<sigma> v \<in> lang aut"
    using lit by (auto simp: langs_ok_def)
  moreover have "arith_models C (with_term v aut lens S) \<sigma> \<nu> \<longleftrightarrow>
      arith_models C S \<sigma> \<nu> \<and> (is_variable v \<longrightarrow> \<nu> v = int (length (\<sigma> v)))"
    unfolding arith_models_def by (auto simp: with_term_def state_vars_def)
  ultimately show ?thesis by (auto simp: state_models_def)
qed

lemma with_term_extend:
  assumes ok: "state_ok lang V S" and v: "new_term lang (mentions S \<union> X) aut v"
    and models: "state_models lang R C S \<sigma> \<nu>" and w: "w \<in> lang aut"
  obtains \<sigma>' \<nu>' where "state_models lang R C (with_term v aut lens S) \<sigma>' \<nu>'" "eval_term \<sigma>' v = w"
    "agree (mentions S \<union> X) \<sigma> \<nu> \<sigma>' \<nu>'"
proof -
  have v': "new_term lang (mentions S) aut v" using v by (auto simp: new_term_def)
  show ?thesis
  proof (cases "is_literal v")
    case True
    then have var: "\<not> is_variable v" using variable_not_literal[of v] by blast
    then have "lang aut = {get_name v}" using v by (simp add: new_term_def)
    then have ev: "eval_term \<sigma> v = w" using w True by (simp add: eval_term_def)
    then have "state_models lang R C (with_term v aut lens S) \<sigma> \<nu>"
      using models w var unfolding with_term_models[OF ok v'] by simp
    then show ?thesis by (rule that) (simp_all add: ev)
  next
    case False
    then have new: "v \<notin> mentions S \<union> X" using v by (simp add: new_term_def)
    define \<sigma>' where "\<sigma>' = \<sigma>(v := w)"
    define \<nu>' where "\<nu>' = \<nu>(v := int (length w))"
    have agree: "agree (mentions S \<union> X) \<sigma> \<nu> \<sigma>' \<nu>'" using new by (auto simp: agree_def \<sigma>'_def \<nu>'_def)
    have "state_models lang R C S \<sigma>' \<nu>'"
      by (rule state_models_agree[OF ok agree_mono[OF agree] models]) simp
    moreover have "eval_term \<sigma>' v = w" "\<nu>' v = int (length (\<sigma>' v))" using False by (simp_all add: eval_term_def \<sigma>'_def \<nu>'_def)
    ultimately have "state_models lang R C (with_term v aut lens S) \<sigma>' \<nu>'"
      using w unfolding with_term_models[OF ok v'] by simp
    then show ?thesis by (rule that) (fact \<open>eval_term \<sigma>' v = w\<close> agree)+
  qed
qed

section \<open>The automata of a side\<close>

lemma concat_lang_append:
  "concat_lang L (c @ d) = {u @ v | u v. u \<in> concat_lang L c \<and> v \<in> concat_lang L d}"
proof (induction c)
  case (Cons t c)
  show ?case unfolding append_Cons concat_lang.simps Cons by (auto simp: append_assoc) (metis append_assoc)+
qed simp

definition part_law ::
    "('a \<Rightarrow> zstring set) \<Rightarrow> ('a \<Rightarrow> bool) \<Rightarrow> 'a solving_state \<Rightarrow> 'a \<Rightarrow> concat \<Rightarrow> bool" where
  "part_law lang V S a d \<longleftrightarrow> V a \<and> lang a = concat_lang (term_lang lang (ss_aut S)) d \<and> d \<noteq> [] \<and>
     (contains_length_var S d \<longrightarrow> length d = 1)"

definition division_ok ::
    "('a \<Rightarrow> zstring set) \<Rightarrow> ('a \<Rightarrow> bool) \<Rightarrow> 'a solving_state \<Rightarrow> bool \<Rightarrow> concat \<Rightarrow> 'a list \<Rightarrow> concat list \<Rightarrow> bool" where
  "division_ok lang V S grouping con as ds \<longleftrightarrow> concat ds = con \<and> list_all2 (part_law lang V S) as ds \<and>
     (\<not> grouping \<longrightarrow> ds = map (\<lambda>t. [t]) con) \<and> (grouping \<and> \<not> contains_length_var S con \<longrightarrow> length ds = 1)"

lemma contains_length_var_simps [simp]:
  "\<not> contains_length_var S []" "contains_length_var S (t # c) \<longleftrightarrow> t \<in> ss_len_vars S \<or> contains_length_var S c"
  "contains_length_var S (c @ d) \<longleftrightarrow> contains_length_var S c \<or> contains_length_var S d"
  by (auto simp: contains_length_var_def)

lemma divide_concatenation_ok:
  assumes laws: "mata_laws lang m" "\<And>x y. V x \<Longrightarrow> V y \<Longrightarrow> V (concatenate m x y)" and shape: "aut_shape lang V (ss_aut S)"
    and keys: "set rest \<subseteq> get_keys (ss_aut S)" and prev: "part_law lang V S a d" "prev_len = contains_length_var S d"
      "\<not> grouping \<Longrightarrow> length d = 1"
  shows "\<exists>as ds. divide_concatenation m S grouping rest a d prev_len = Inr (as, ds) \<and> division_ok lang V S grouping (d @ rest) as ds"
  using keys prev
proof (induction rest arbitrary: a d prev_len)
  case Nil
  then show ?case by (auto simp: division_ok_def part_law_def length_Suc_conv)
next
  case (Cons t rest)
  obtain x where x: "aut_at (ss_aut S) t = Inr x" using Cons.prems(1) aut_at_cases[of t "ss_aut S"] by auto
  have t: "part_law lang V S x [t]"
    using x aut_shapeD(3)[OF shape, of t x] by (simp add: part_law_def term_lang_at aut_at_Inr)
  show ?case
  proof (cases "\<not> grouping \<or> prev_len \<or> t \<in> ss_len_vars S")
    case True
    obtain as ds where rec: "divide_concatenation m S grouping rest x [t] (t \<in> ss_len_vars S) = Inr (as, ds)"
        "division_ok lang V S grouping ([t] @ rest) as ds"
      using Cons.IH[of x "[t]" "t \<in> ss_len_vars S"] Cons.prems(1) t by auto
    have "division_ok lang V S grouping (d @ t # rest) (a # as) (d # ds)"
      using rec(2) Cons.prems(2,3,4) True by (auto simp: division_ok_def length_Suc_conv)
    then show ?thesis using rec(1) x True by (simp add: Let_def)
  next
    case False
    have "part_law lang V S (concatenate m a x) (d @ [t])"
      using Cons.prems(2,3) t laws False by (simp add: part_law_def mata_lawsD(3) concat_lang_append)
    then obtain as ds where "divide_concatenation m S grouping rest (concatenate m a x) (d @ [t]) (t \<in> ss_len_vars S) = Inr (as, ds)"
        "division_ok lang V S grouping ((d @ [t]) @ rest) as ds"
      using Cons.IH[of "concatenate m a x" "d @ [t]" "t \<in> ss_len_vars S"] Cons.prems False by auto
    then show ?thesis using x False by (simp add: Let_def)
  qed
qed

lemma get_automata_and_division_ok:
  assumes laws: "mata_laws lang m" "\<And>x y. V x \<Longrightarrow> V y \<Longrightarrow> V (concatenate m x y)" and shape: "aut_shape lang V (ss_aut S)"
    and con: "set con \<subseteq> get_keys (ss_aut S)" "con \<noteq> []"
  obtains as ds where "get_automata_and_division m S con grouping = Inr (as, ds)" "division_ok lang V S grouping con as ds"
proof -
  obtain t rest where c: "con = t # rest" using con(2) by (cases con) auto
  obtain x where x: "aut_at (ss_aut S) t = Inr x" using con(1) c aut_at_cases[of t "ss_aut S"] by auto
  have "part_law lang V S x [t]"
    using x aut_shapeD(3)[OF shape, of t x] by (simp add: part_law_def term_lang_at aut_at_Inr)
  then show ?thesis
    using divide_concatenation_ok[OF laws shape, of rest x "[t]" "t \<in> ss_len_vars S" grouping] con(1) c x that
    by (auto simp: get_automata_and_division_def)
qed

section \<open>The segments of the sides\<close>

text \<open>The elements of a list by their position \<open>is\<close> among \<open>n\<close> sides.\<close>

definition grouped :: "nat \<Rightarrow> nat list \<Rightarrow> 'x list \<Rightarrow> 'x list list" where
  "grouped n is xs = map (\<lambda>i. map snd (filter (\<lambda>p. fst p = i) (zip is xs))) [0..<n]"

lemma grouped_simps [simp]:
  "length (grouped n is xs) = n" "grouped n [] xs = replicate n []" "map (map f) (grouped n is xs) = grouped n is (map f xs)"
  by (auto simp: grouped_def map_replicate_trivial zip_map2 filter_map comp_def case_prod_beta map_replicate_const)

lemma vec_push_grouped:
  assumes "i < n" and "length is = length xs"
  shows "vec_push i x (grouped n is xs) = Inr (grouped n (is @ [i]) (xs @ [x]))"
  using assms by (auto simp: vec_push_def vec_at_def grouped_def intro: nth_equalityI)

lemma set_grouped: "g \<in> set (grouped n is xs) \<Longrightarrow> set g \<subseteq> set xs"
  by (auto simp: grouped_def) (meson set_zip_rightD)

lemma split_last_group:
  fixes zs :: "(nat \<times> 'x) list"
  assumes "sorted (map fst zs)" and "\<And>p. p \<in> set zs \<Longrightarrow> fst p \<le> n"
  shows "filter (\<lambda>p. fst p < n) zs @ filter (\<lambda>p. fst p = n) zs = zs"
  using assms
proof (induction zs)
  case (Cons p zs)
  have "filter (\<lambda>q. fst q < n) zs = []" if "fst p = n"
    using that Cons.prems by (force simp: filter_empty_conv)
  moreover have "fst p < n \<or> fst p = n" using Cons.prems(2)[of p] by auto
  moreover have "filter (\<lambda>p. fst p < n) zs @ filter (\<lambda>p. fst p = n) zs = zs" using Cons by simp
  ultimately show ?case by auto
qed simp

lemma concat_groups:
  fixes zs :: "(nat \<times> 'x) list"
  assumes "sorted (map fst zs)" and "\<And>p. p \<in> set zs \<Longrightarrow> fst p < n"
  shows "concat (map (\<lambda>i. filter (\<lambda>p. fst p = i) zs) [0..<n]) = zs"
  using assms
proof (induction n arbitrary: zs)
  case (Suc n)
  let ?zs = "filter (\<lambda>p. fst p < n) zs"
  have "filter (\<lambda>p. fst p = i) ?zs = filter (\<lambda>p. fst p = i) zs" if "i < n" for i
    using that by (auto intro: filter_cong)
  then have "concat (map (\<lambda>i. filter (\<lambda>p. fst p = i) zs) [0..<n]) = concat (map (\<lambda>i. filter (\<lambda>p. fst p = i) ?zs) [0..<n])"
    by (intro arg_cong[of _ _ concat] map_cong) simp_all
  also have "\<dots> = ?zs" by (rule Suc.IH) (use Suc.prems(1) sorted_filter[of fst zs] in auto)
  finally show ?case using split_last_group[OF Suc.prems(1), of n] Suc.prems(2) by (force simp: less_Suc_eq_le)
qed (metis concat.simps(1) list.map(1) list.set_intros(1) neq_Nil_conv not_less_zero upt_0)

lemma concat_grouped:
  assumes "sorted is" and "\<And>i. i \<in> set is \<Longrightarrow> i < n" and "length is = length xs"
  shows "concat (grouped n is xs) = xs"
proof -
  have "concat (map (\<lambda>i. filter (\<lambda>p. fst p = i) (zip is xs)) [0..<n]) = zip is xs"
    by (rule concat_groups) (use assms in \<open>auto dest: set_zip_leftD\<close>)
  then have "map snd (concat (map (\<lambda>i. filter (\<lambda>p. fst p = i) (zip is xs)) [0..<n])) = xs" using assms(3) by simp
  then show ?thesis by (simp add: grouped_def map_concat comp_def)
qed

section \<open>New terms for automata\<close>

definition words_of :: "('a \<Rightarrow> zstring set) \<Rightarrow> 'a list \<Rightarrow> zstring list \<Rightarrow> bool" where
  "words_of lang as ws \<longleftrightarrow> list_all2 (\<lambda>a w. w \<in> lang a) as ws"

text \<open>
  The state \<open>S'\<close> is \<open>S\<close> with new terms \<open>vs\<close> for the automata \<open>as\<close>. They can take all words of the
  automata for which \<open>Q\<close> holds.
\<close>

definition extended ::
    "('a \<Rightarrow> zstring set) \<Rightarrow> ('a \<Rightarrow> bool) \<Rightarrow> (nat \<Rightarrow> (zstring \<times> zstring) set) \<Rightarrow> conversion_sem \<Rightarrow> basic_term set \<Rightarrow>
     'a solving_state \<Rightarrow> 'a list \<Rightarrow> basic_term list \<Rightarrow> (zstring list \<Rightarrow> bool) \<Rightarrow> 'a solving_state \<Rightarrow> bool" where
  "extended lang V R C X S as vs Q S' \<longleftrightarrow> state_ok lang V S' \<and>
     list_all2 (\<lambda>a v. new_term lang (mentions S \<union> X) a v \<and> term_lang lang (ss_aut S') v = lang a) as vs \<and>
     get_keys (ss_aut S') = get_keys (ss_aut S) \<union> set vs \<and> mentions S' = mentions S \<union> set vs \<and>
     ss_to_process S' = ss_to_process S \<and> length (ss_diseqs S') = length (ss_diseqs S) \<and>
     (\<forall>t \<in> get_keys (ss_aut S). term_lang lang (ss_aut S') t = term_lang lang (ss_aut S) t) \<and>
     (\<forall>t \<in> mentions S. t \<in> ss_len_vars S' \<longleftrightarrow> t \<in> ss_len_vars S) \<and>
     (\<forall>\<sigma> \<nu>. state_models lang R C S' \<sigma> \<nu> \<longrightarrow> state_models lang R C S \<sigma> \<nu> \<and> Q (map (eval_term \<sigma>) vs)) \<and>
     (\<forall>\<sigma> \<nu> ws. state_models lang R C S \<sigma> \<nu> \<longrightarrow> words_of lang as ws \<longrightarrow> Q ws \<longrightarrow>
        (\<exists>\<sigma>' \<nu>'. state_models lang R C S' \<sigma>' \<nu>' \<and> map (eval_term \<sigma>') vs = ws \<and> agree (mentions S \<union> X) \<sigma> \<nu> \<sigma>' \<nu>'))"

lemma extendedD:
  assumes "extended lang V R C X S as vs Q S'"
  shows "state_ok lang V S'"
    "list_all2 (\<lambda>a v. new_term lang (mentions S \<union> X) a v \<and> term_lang lang (ss_aut S') v = lang a) as vs"
    "get_keys (ss_aut S') = get_keys (ss_aut S) \<union> set vs" "mentions S' = mentions S \<union> set vs"
    "ss_to_process S' = ss_to_process S"
    "t \<in> get_keys (ss_aut S) \<Longrightarrow> term_lang lang (ss_aut S') t = term_lang lang (ss_aut S) t"
    "t \<in> mentions S \<Longrightarrow> t \<in> ss_len_vars S' \<longleftrightarrow> t \<in> ss_len_vars S"
    "state_models lang R C S' \<sigma> \<nu> \<Longrightarrow> state_models lang R C S \<sigma> \<nu> \<and> Q (map (eval_term \<sigma>) vs)"
    "state_models lang R C S \<sigma> \<nu> \<Longrightarrow> words_of lang as ws \<Longrightarrow> Q ws \<Longrightarrow>
        \<exists>\<sigma>' \<nu>'. state_models lang R C S' \<sigma>' \<nu>' \<and> map (eval_term \<sigma>') vs = ws \<and> agree (mentions S \<union> X) \<sigma> \<nu> \<sigma>' \<nu>'"
    "length (ss_diseqs S') = length (ss_diseqs S)"
  using assms unfolding extended_def by simp_all

lemma extended_refl: "state_ok lang V S \<Longrightarrow> extended lang V R C X S [] [] (\<lambda>ws. True) S"
  unfolding extended_def by (auto simp: words_of_def intro: agree_refl)

lemma eval_new_terms:
  assumes "extended lang V R C X S as vs Q S'" and "agree (mentions S') \<sigma> \<nu> \<sigma>' \<nu>'"
  shows "map (eval_term \<sigma>') vs = map (eval_term \<sigma>) vs"
  using extendedD(4)[OF assms(1)] assms(2) by (auto simp: agree_def eval_term_def)

lemma extended_trans:
  assumes one: "extended lang V R C X S as vs Q S'" and two: "extended lang V R C X S' bs us P S''"
    and QP: "\<And>ws zs. length ws = length as \<Longrightarrow> length zs = length bs \<Longrightarrow> T (ws @ zs) \<longleftrightarrow> Q ws \<and> P zs"
  shows "extended lang V R C X S (as @ bs) (vs @ us) T S''"
proof -
  note one' = extendedD[OF one] and two' = extendedD[OF two]
  have len: "length vs = length as" "length us = length bs" using one'(2) two'(2) by (simp_all add: list_all2_lengthD)
  have "list_all2 (\<lambda>a v. new_term lang (mentions S \<union> X) a v \<and> term_lang lang (ss_aut S'') v = lang a) as vs"
    using one'(2,3) two'(6) by (auto simp: list_all2_conv_all_nth)
  moreover have "list_all2 (\<lambda>a v. new_term lang (mentions S \<union> X) a v \<and> term_lang lang (ss_aut S'') v = lang a) bs us"
    using two'(2) one'(4) by (auto simp: list_all2_conv_all_nth new_term_def)
  ultimately have terms: "list_all2 (\<lambda>a v. new_term lang (mentions S \<union> X) a v \<and> term_lang lang (ss_aut S'') v = lang a) (as @ bs) (vs @ us)"
    using list_all2_appendI by blast
  have langs: "term_lang lang (ss_aut S'') t = term_lang lang (ss_aut S) t" if "t \<in> get_keys (ss_aut S)" for t
    using that one'(3,6) two'(6) by simp
  have lens: "t \<in> ss_len_vars S'' \<longleftrightarrow> t \<in> ss_len_vars S" if "t \<in> mentions S" for t
    using that one'(4,7) two'(7) by simp
  have bwd: "state_models lang R C S \<sigma> \<nu> \<and> T (map (eval_term \<sigma>) (vs @ us))" if "state_models lang R C S'' \<sigma> \<nu>" for \<sigma> \<nu>
    using two'(8)[OF that] one'(8) QP[of "map (eval_term \<sigma>) vs" "map (eval_term \<sigma>) us"] len by auto
  have fwd: "\<exists>\<sigma>' \<nu>'. state_models lang R C S'' \<sigma>' \<nu>' \<and> map (eval_term \<sigma>') (vs @ us) = xs \<and> agree (mentions S \<union> X) \<sigma> \<nu> \<sigma>' \<nu>'"
    if models: "state_models lang R C S \<sigma> \<nu>" and words: "words_of lang (as @ bs) xs" and T: "T xs" for \<sigma> \<nu> xs
  proof -
    obtain ws zs where xs: "xs = ws @ zs" "words_of lang as ws" "words_of lang bs zs"
      using words by (auto simp: words_of_def list_all2_append1)
    have QP': "Q ws" "P zs" using T QP[of ws zs] xs by (simp_all add: words_of_def list_all2_lengthD)
    obtain \<sigma>1 \<nu>1 where 1: "state_models lang R C S' \<sigma>1 \<nu>1" "map (eval_term \<sigma>1) vs = ws" "agree (mentions S \<union> X) \<sigma> \<nu> \<sigma>1 \<nu>1"
      using one'(9)[OF models xs(2) QP'(1)] by blast
    obtain \<sigma>2 \<nu>2 where 2: "state_models lang R C S'' \<sigma>2 \<nu>2" "map (eval_term \<sigma>2) us = zs" "agree (mentions S' \<union> X) \<sigma>1 \<nu>1 \<sigma>2 \<nu>2"
      using two'(9)[OF 1(1) xs(3) QP'(2)] by blast
    have "map (eval_term \<sigma>2) vs = ws" using eval_new_terms[OF one agree_mono[OF 2(3)]] 1(2) by simp
    moreover have "agree (mentions S \<union> X) \<sigma> \<nu> \<sigma>2 \<nu>2"
      using agree_trans[OF 1(3) agree_mono[OF 2(3)]] one'(4) by auto
    ultimately show ?thesis using 2 xs(1) by auto
  qed
  have keys: "get_keys (ss_aut S'') = get_keys (ss_aut S) \<union> set (vs @ us)" "mentions S'' = mentions S \<union> set (vs @ us)"
      "ss_to_process S'' = ss_to_process S" "length (ss_diseqs S'') = length (ss_diseqs S)"
    using one'(3,4,5,10) two'(3,4,5,10) by auto
  show ?thesis
    unfolding extended_def using two'(1) terms keys langs lens bwd fwd by blast
qed

lemma extended_with_term:
  assumes ok: "state_ok lang V S" and v: "new_term lang (mentions S \<union> X) aut v" and V: "V aut"
    and lens: "\<And>t. t \<in> lens \<Longrightarrow> is_variable t" "ss_len_vars S \<subseteq> lens" "lens \<subseteq> insert v (ss_len_vars S)"
  shows "extended lang V R C X S [aut] [v] (\<lambda>ws. True) (with_term v aut lens S)"
proof -
  have v': "new_term lang (mentions S) aut v" using v by (auto simp: new_term_def)
  have lit: "term_lang lang (ss_aut S) v = lang aut" if "v \<in> get_keys (ss_aut S)"
    using that v' aut_shapeD(2)[OF state_okD(2)[OF ok] that] keys_mentions by (auto simp: new_term_def)
  have "t \<in> lens \<longleftrightarrow> t \<in> ss_len_vars S" if "t \<in> mentions S" for t
    using that lens v' variable_not_literal[of v] by (auto simp: new_term_def)
  moreover have "\<exists>\<sigma>' \<nu>'. state_models lang R C (with_term v aut lens S) \<sigma>' \<nu>' \<and> map (eval_term \<sigma>') [v] = ws \<and>
      agree (mentions S \<union> X) \<sigma> \<nu> \<sigma>' \<nu>'"
    if models: "state_models lang R C S \<sigma> \<nu>" and words: "words_of lang [aut] ws" for \<sigma> \<nu> ws
  proof -
    obtain w where w: "ws = [w]" "w \<in> lang aut" using words by (auto simp: words_of_def list_all2_Cons1)
    show ?thesis using with_term_extend[OF ok v models w(2), of lens] w(1) by (metis list.simps(8,9))
  qed
  ultimately show ?thesis
    unfolding extended_def using with_term_ok[OF ok v' V lens(1)] with_term_models[OF ok v', of R C lens] v lit by auto
qed

lemma extended_add_predicate:
  assumes ext: "extended lang V R C X S as vs Q S'" and p: "is_equation p \<or> is_transducer p" "wf_pred p"
      "get_set p \<subseteq> get_keys (ss_aut S) \<union> set vs"
    and P: "\<And>\<sigma>. sat_pred R \<sigma> p \<longleftrightarrow> P (map (eval_term \<sigma>) vs)"
  shows "extended lang V R C X S as vs (\<lambda>ws. Q ws \<and> P ws) (ss_add_predicate p on_cycle S')"
proof -
  let ?S = "ss_add_predicate p on_cycle S'"
  note ext' = extendedD[OF ext]
  note add = addsD[OF adds_predicate(1)[OF p(1), of R C lang S' on_cycle]]
  have ok: "state_ok lang V ?S" using p ext'(3) by (intro ok_add_predicate[OF ext'(1)]) simp_all
  have fields: "ss_aut ?S = ss_aut S'" "ss_to_process ?S = ss_to_process S'" "ss_len_vars ?S = ss_len_vars S'" "ss_diseqs ?S = ss_diseqs S'"
    by (simp_all add: ss_add_predicate_def Let_def)
  have bwd: "state_models lang R C S \<sigma> \<nu> \<and> Q (map (eval_term \<sigma>) vs) \<and> P (map (eval_term \<sigma>) vs)"
    if "state_models lang R C ?S \<sigma> \<nu>" for \<sigma> \<nu>
    using that ext'(8)[of \<sigma> \<nu>] P unfolding add(1) by simp
  have fwd: "\<exists>\<sigma>' \<nu>'. state_models lang R C ?S \<sigma>' \<nu>' \<and> map (eval_term \<sigma>') vs = ws \<and> agree (mentions S \<union> X) \<sigma> \<nu> \<sigma>' \<nu>'"
    if "state_models lang R C S \<sigma> \<nu>" "words_of lang as ws" "Q ws" "P ws" for \<sigma> \<nu> ws
    using ext'(9)[OF that(1,2,3)] P that(4) unfolding add(1) by metis
  show ?thesis
    unfolding extended_def fields mentions_add_predicate using ok ext'(2-7,10) bwd fwd by blast
qed

lemma add_fresh_extended:
  assumes ok: "state_ok lang V S" and law: "segment_law lang V m aut" and ids: "ids_cover ids (mentions S \<union> X)"
  obtains v S' ids' where "add_fresh_var enc m aut var_prefix is_length True (S, ids) = Inr (v, S', ids')"
    "extended lang V R C X S [aut] [v] (\<lambda>ws. True) S'" "ids_le ids ids'" "ids_cover ids' (mentions S' \<union> X)"
proof (rule add_fresh_var_run[OF law ids])
  fix v lens ids'
  assume run: "add_fresh_var enc m aut var_prefix is_length True (S, ids) = Inr (v, with_term v aut lens S, ids')"
    and v: "new_term lang (mentions S \<union> X) aut v" and ids': "ids_le ids ids'" "ids_cover ids' (insert v (mentions S \<union> X))"
    and lens: "lens = (if is_variable v \<and> is_length then insert v (ss_len_vars S) else ss_len_vars S)"
  have "extended lang V R C X S [aut] [v] (\<lambda>ws. True) (with_term v aut lens S)"
    using law lens state_okD(5)[OF ok]
    by (intro extended_with_term[OF ok v]) (auto simp: segment_law_def lens_ok_def split: if_splits)
  then show ?thesis by (rule that[OF run _ ids'(1)]) (use ids'(2) in simp)
qed

section \<open>The segments of an equation\<close>

lemma equation_segments_run:
  assumes "\<And>a l r. (a, l, r) \<in> set noodle \<Longrightarrow> segment_law lang V m a \<and> l < length ls \<and> r < length rd"
    and "state_ok lang V S" and "ids_cover ids (mentions S \<union> X)" and "length lis = length vpre" and "length ris = length vpre"
  shows "\<exists>vs S' ids'.
    for_each (equation_segment enc m var_prefix ls rd) noodle ((S, ids), grouped (length ls) lis vpre, grouped (length rd) ris vpre) =
      Inr ((S', ids'), grouped (length ls) (lis @ map (\<lambda>s. fst (snd s)) noodle) (vpre @ vs),
           grouped (length rd) (ris @ map (\<lambda>s. snd (snd s)) noodle) (vpre @ vs)) \<and>
    extended lang V R C X S (map fst noodle) vs (\<lambda>ws. True) S' \<and> ids_le ids ids' \<and> ids_cover ids' (mentions S' \<union> X)"
  using assms
proof (induction noodle arbitrary: S ids vpre lis ris)
  case Nil
  then show ?case using extended_refl[OF Nil(2), of R C X] by (intro exI[of _ "[]"]) auto
next
  case (Cons seg noodle)
  obtain a l r where seg: "seg = (a, l, r)" by (metis prod_cases3)
  have law: "segment_law lang V m a" and bounds: "l < length ls" "r < length rd" using Cons.prems(1)[of a l r] seg by simp_all
  have laws: "segment_law lang V m a \<and> l < length ls \<and> r < length rd" if "(a, l, r) \<in> set noodle" for a l r
    using Cons.prems(1)[of a l r] that by simp
  let ?len = "ls ! l \<in> ss_len_vars S \<or> contains_length_var S (rd ! r)"
  obtain v S1 ids1 where v: "add_fresh_var enc m a var_prefix ?len True (S, ids) = Inr (v, S1, ids1)"
    and ext: "extended lang V R C X S [a] [v] (\<lambda>ws. True) S1" and ids1: "ids_le ids ids1" "ids_cover ids1 (mentions S1 \<union> X)"
    using add_fresh_extended[OF Cons.prems(2) law Cons.prems(3)] by blast
  have step: "equation_segment enc m var_prefix ls rd seg ((S, ids), grouped (length ls) lis vpre, grouped (length rd) ris vpre) =
      Inr ((S1, ids1), grouped (length ls) (lis @ [l]) (vpre @ [v]), grouped (length rd) (ris @ [r]) (vpre @ [v]))"
    using bounds v Cons.prems(4,5)
    by (simp add: equation_segment_def seg vec_at_def vec_push_grouped)
  obtain vs S' ids' where rest: "for_each (equation_segment enc m var_prefix ls rd) noodle
        ((S1, ids1), grouped (length ls) (lis @ [l]) (vpre @ [v]), grouped (length rd) (ris @ [r]) (vpre @ [v])) =
      Inr ((S', ids'), grouped (length ls) ((lis @ [l]) @ map (\<lambda>s. fst (snd s)) noodle) ((vpre @ [v]) @ vs),
           grouped (length rd) ((ris @ [r]) @ map (\<lambda>s. snd (snd s)) noodle) ((vpre @ [v]) @ vs))"
    and ext': "extended lang V R C X S1 (map fst noodle) vs (\<lambda>ws. True) S'"
    and ids': "ids_le ids1 ids'" "ids_cover ids' (mentions S' \<union> X)"
    using Cons.IH[OF laws extendedD(1)[OF ext] ids1(2), of "lis @ [l]" "vpre @ [v]" "ris @ [r]"] Cons.prems(4,5) by auto
  have "extended lang V R C X S ([a] @ map fst noodle) ([v] @ vs) (\<lambda>ws. True) S'"
    by (rule extended_trans[OF ext ext']) simp
  then show ?case
    using step rest ids_le_trans[OF ids1(1) ids'(1)] ids'(2) seg by (intro exI[of _ "v # vs"]) auto
qed

section \<open>The segments of a transducer\<close>

text \<open>The input and the output terms of the segments alternate.\<close>

fun weave :: "'x list \<Rightarrow> 'x list \<Rightarrow> 'x list" where
  "weave (x # xs) (y # ys) = x # y # weave xs ys"
| "weave xs ys = []"

fun related :: "(nat \<Rightarrow> (zstring \<times> zstring) set) \<Rightarrow> nat list \<Rightarrow> zstring list \<Rightarrow> bool" where
  "related R (t # ts) (u # v # ws) \<longleftrightarrow> (u, v) \<in> R t \<and> related R ts ws"
| "related R ts ws \<longleftrightarrow> ts = []"

lemma map_weave: "map f (weave xs ys) = weave (map f xs) (map f ys)"
  by (induction xs ys rule: weave.induct) simp_all

lemma set_weave: "length xs = length ys \<Longrightarrow> set (weave xs ys) = set xs \<union> set ys"
  by (induction xs ys rule: weave.induct) auto

lemma words_of_weave: "words_of lang as us \<Longrightarrow> words_of lang bs vs \<Longrightarrow> words_of lang (weave as bs) (weave us vs)"
  unfolding words_of_def
  by (induction as bs arbitrary: us vs rule: weave.induct) (auto simp: list_all2_Cons1)

lemma weave_inject:
  assumes "length ys = length xs" and "length us = length xs" and "length vs = length xs" and "weave xs ys = weave us vs"
  shows "xs = us \<and> ys = vs"
  using assms
proof (induction xs arbitrary: ys us vs)
  case (Cons x xs)
  obtain y ys' u us' v vs' where eqs: "ys = y # ys'" "us = u # us'" "vs = v # vs'"
    using Cons.prems(1-3) by (cases ys; cases us; cases vs) auto
  have "xs = us' \<and> ys' = vs'" by (rule Cons.IH) (use Cons.prems eqs in simp_all)
  then show ?case using Cons.prems(4) eqs by simp
qed simp

lemma transducer_segments_run:
  assumes "\<And>s. s \<in> set noodle \<Longrightarrow> segment_law lang V m (seg_input_aut s) \<and> segment_law lang V m (seg_output_aut s) \<and>
      seg_input_index s < length ids \<and> seg_output_index s < length os"
    and "state_ok lang V S" and "ids_cover fresh (mentions S \<union> X)" and "length ois = length opre" and "length iis = length ipre"
  shows "\<exists>ins outs S' fresh'.
    for_each (transducer_segment_step enc m no ids os) noodle ((S, fresh), grouped (length os) ois opre, grouped (length ids) iis ipre) =
      Inr ((S', fresh'), grouped (length os) (ois @ map seg_output_index noodle) (opre @ outs),
           grouped (length ids) (iis @ map seg_input_index noodle) (ipre @ ins)) \<and>
    length ins = length noodle \<and> length outs = length noodle \<and>
    extended lang V R C X S (weave (map seg_input_aut noodle) (map seg_output_aut noodle)) (weave ins outs)
      (related R (map seg_transducer noodle)) S' \<and> ids_le fresh fresh' \<and> ids_cover fresh' (mentions S' \<union> X)"
  using assms
proof (induction noodle arbitrary: S fresh opre ipre ois iis)
  case Nil
  then show ?case using extended_refl[OF Nil(2), of R C X] by (intro exI[of _ "[]"]) auto
next
  case (Cons s noodle)
  let ?t = "seg_transducer s" and ?a = "seg_input_aut s" and ?b = "seg_output_aut s"
  let ?i = "seg_input_index s" and ?o = "seg_output_index s"
  have law: "segment_law lang V m ?a" "segment_law lang V m ?b" and bounds: "?i < length ids" "?o < length os"
    using Cons.prems(1)[of s] by simp_all
  have laws: "segment_law lang V m (seg_input_aut s) \<and> segment_law lang V m (seg_output_aut s) \<and>
      seg_input_index s < length ids \<and> seg_output_index s < length os" if "s \<in> set noodle" for s
    using Cons.prems(1)[of s] that by simp
  obtain v S1 f1 where v: "add_fresh_var enc m ?a (zs ''input_'' @ no) (contains_length_var S (ids ! ?i)) True (S, fresh) = Inr (v, S1, f1)"
    and ext1: "extended lang V R C X S [?a] [v] (\<lambda>ws. True) S1" and f1: "ids_le fresh f1" "ids_cover f1 (mentions S1 \<union> X)"
    using add_fresh_extended[OF Cons.prems(2) law(1) Cons.prems(3)] by blast
  let ?len = "contains_length_var S1 (ids ! ?i) \<or> os ! ?o \<in> ss_len_vars S1"
  obtain u S2 f2 where u: "add_fresh_var enc m ?b (zs ''output_'' @ no) ?len True (S1, f1) = Inr (u, S2, f2)"
    and ext2: "extended lang V R C X S1 [?b] [u] (\<lambda>ws. True) S2" and f2: "ids_le f1 f2" "ids_cover f2 (mentions S2 \<union> X)"
    using add_fresh_extended[OF extendedD(1)[OF ext1] law(2) f1(2)] by blast
  let ?p = "create_transducer ?t [v] [u]"
  let ?S3 = "ss_add_predicate ?p False S2"
  have "extended lang V R C X S ([?a] @ [?b]) ([v] @ [u]) (\<lambda>ws. True) S2"
    by (rule extended_trans[OF ext1 ext2]) simp
  then have "extended lang V R C X S ([?a] @ [?b]) ([v] @ [u]) (\<lambda>ws. True \<and> related R [?t] ws) ?S3"
    by (rule extended_add_predicate) (simp_all add: create_transducer_def wf_pred_def pred_kind_defs get_set_def sat_pred_def)
  then have ext3: "extended lang V R C X S [?a, ?b] [v, u] (related R [?t]) ?S3" by simp
  have f3: "ids_cover f2 (mentions ?S3 \<union> X)"
    using f2(2) by simp
  have step: "transducer_segment_step enc m no ids os s ((S, fresh), grouped (length os) ois opre, grouped (length ids) iis ipre) =
      Inr ((?S3, f2), grouped (length os) (ois @ [?o]) (opre @ [u]), grouped (length ids) (iis @ [?i]) (ipre @ [v]))"
    using bounds v u Cons.prems(4,5)
    by (simp add: transducer_segment_step_def vec_at_def vec_push_grouped add_transducer_def Let_def)
  obtain ins outs S' f' where rest: "for_each (transducer_segment_step enc m no ids os) noodle
        ((?S3, f2), grouped (length os) (ois @ [?o]) (opre @ [u]), grouped (length ids) (iis @ [?i]) (ipre @ [v])) =
      Inr ((S', f'), grouped (length os) ((ois @ [?o]) @ map seg_output_index noodle) ((opre @ [u]) @ outs),
           grouped (length ids) ((iis @ [?i]) @ map seg_input_index noodle) ((ipre @ [v]) @ ins))"
    and ext': "extended lang V R C X ?S3 (weave (map seg_input_aut noodle) (map seg_output_aut noodle)) (weave ins outs)
      (related R (map seg_transducer noodle)) S'"
    and len: "length ins = length noodle" "length outs = length noodle"
    and f': "ids_le f2 f'" "ids_cover f' (mentions S' \<union> X)"
    using Cons.IH[OF laws extendedD(1)[OF ext3] f3, of "ois @ [?o]" "opre @ [u]" "iis @ [?i]" "ipre @ [v]"] Cons.prems(4,5) by auto
  have "extended lang V R C X S ([?a, ?b] @ weave (map seg_input_aut noodle) (map seg_output_aut noodle)) ([v, u] @ weave ins outs)
      (related R (?t # map seg_transducer noodle)) S'"
    by (rule extended_trans[OF ext3 ext']) (auto simp: length_Suc_conv numeral_2_eq_2)
  then show ?case
    using step rest len ids_le_trans[OF ids_le_trans[OF f1(1) f2(1)] f'(1)] f'(2)
    by (intro exI[of _ "v # ins"] exI[of _ "u # outs"]) auto
qed

end
