(* ===== verification/Disequalities.thy ===== *)
theory Disequalities
  imports Noodle_Segments
begin

text \<open>
  The translation of a disequation to equations and constraints on code points
  (\<open>replace_disequality\<close> in \<open>solving_state.cpp\<close>). It is right when the number variables of the codes
  belong to one term each; their names do not guarantee it.
\<close>

section \<open>Code points\<close>

definition code_point :: "zstring \<Rightarrow> int" where
  "code_point w = (if length w = 1 then int (w ! 0) else -1)"

definition code_law :: "conversion_sem \<Rightarrow> bool" where
  "code_law C \<longleftrightarrow> (\<forall>t n w x k. C (TermConversion TO_CODE t n w) x k \<longleftrightarrow> k = code_point x)"

lemma code_point_inject:
  assumes "length u \<le> 1" and "length v \<le> 1" and "code_point u = code_point v"
  shows "u = v"
  using assms by (cases u; cases v) (auto simp: code_point_def)

text \<open>Two words differ exactly if they differ at some position, where one of them may end.\<close>

definition differ_at :: "zstring \<Rightarrow> zstring \<Rightarrow> zstring \<Rightarrow> zstring \<Rightarrow> zstring \<Rightarrow> zstring \<Rightarrow> bool" where
  "differ_at x1 a1 y1 x2 a2 y2 \<longleftrightarrow> length x1 = length x2 \<and> length a1 \<le> 1 \<and> length a2 \<le> 1 \<and>
     code_point a1 \<noteq> code_point a2 \<and> (a1 = [] \<longrightarrow> y1 = []) \<and> (a2 = [] \<longrightarrow> y2 = [])"

lemma differ_at_different: "differ_at x1 a1 y1 x2 a2 y2 \<Longrightarrow> x1 @ a1 @ y1 \<noteq> x2 @ a2 @ y2"
  by (cases a1; cases a2) (auto simp: differ_at_def)

definition words_differ :: "zstring \<Rightarrow> zstring \<Rightarrow> bool" where
  "words_differ u v \<longleftrightarrow> (\<exists>x1 a1 y1 x2 a2 y2. u = x1 @ a1 @ y1 \<and> v = x2 @ a2 @ y2 \<and> differ_at x1 a1 y1 x2 a2 y2)"

lemma words_differI: "differ_at x1 a1 y1 x2 a2 y2 \<Longrightarrow> u = x1 @ a1 @ y1 \<Longrightarrow> v = x2 @ a2 @ y2 \<Longrightarrow> words_differ u v"
  unfolding words_differ_def by blast

lemma different_words_differ: "u \<noteq> v \<Longrightarrow> words_differ u v"
proof (induction u v rule: list_induct2')
  case (2 c u)
  show ?case by (rule words_differI[of "[]" "[c]" u "[]" "[]" "[]"]) (simp_all add: differ_at_def code_point_def)
next
  case (3 d v)
  show ?case by (rule words_differI[of "[]" "[]" "[]" "[]" "[d]" v]) (simp_all add: differ_at_def code_point_def)
next
  case (4 c u d v)
  show ?case
  proof (cases "c = d")
    case True
    then obtain x1 a1 y1 x2 a2 y2 where "u = x1 @ a1 @ y1" "v = x2 @ a2 @ y2" "differ_at x1 a1 y1 x2 a2 y2"
      using 4 unfolding words_differ_def by auto
    then show ?thesis by (intro words_differI[of "c # x1" a1 y1 "d # x2" a2 y2]) (simp_all add: differ_at_def)
  next
    case False
    then show ?thesis
      by (intro words_differI[of "[]" "[c]" u "[]" "[d]" v]) (simp_all add: differ_at_def code_point_def)
  qed
qed simp

section \<open>The constraints that the translation adds\<close>

lemma len_bool_neq [simp]: "len_bool \<nu> (len_op NEQ [a, b]) \<longleftrightarrow> len_int \<nu> a \<noteq> len_int \<nu> b"
  by (simp add: len_op_def)

lemma len_implies_empty_iff:
  "is_variable a \<Longrightarrow> is_variable y \<Longrightarrow> len_bool \<nu> (len_implies_empty a y) \<longleftrightarrow> (\<nu> a = 0 \<longrightarrow> \<nu> y = 0)"
  by (simp add: len_implies_empty_def len_op_def[of OR] is_variable_def)

lemma to_code_var_type [simp]: "get_type (to_code_var t) = Variable"
  by (simp add: to_code_var_def mk_internal_noodler_var_def)

text \<open>More conversions and length constraints, and other length-sensitive variables.\<close>

definition constrained ::
    "basic_term set \<Rightarrow> term_conversion list \<Rightarrow> len_node list \<Rightarrow> 'a solving_state \<Rightarrow> 'a solving_state" where
  "constrained lens cs ns S =
     S\<lparr>ss_len_vars := lens, ss_conversions := ss_conversions S @ cs, ss_diseq_len := ss_diseq_len S @ ns\<rparr>"

lemma constrained_models:
  "state_models lang R C (constrained lens cs ns S) \<sigma> \<nu> \<longleftrightarrow> state_models lang R C S \<sigma> \<nu> \<and>
     (\<forall>c \<in> set cs. C c (eval_term \<sigma> (string_var c)) (\<nu> (number_var c))) \<and> (\<forall>n \<in> set ns. len_bool \<nu> n)"
  by (auto simp: constrained_def state_models_def state_preds_def arith_models_def state_vars_def)

lemma create_to_code_ineq_constrained:
  "create_to_code_ineq a b S = constrained (insert b (insert a (ss_len_vars S)))
     [TermConversion TO_CODE a (to_code_var a) 0, TermConversion TO_CODE b (to_code_var b) 0]
     [len_op NEQ [len_leaf (to_code_var a), len_leaf (to_code_var b)]] S"
  by (simp add: create_to_code_ineq_def constrained_def)

lemma create_to_code_ineq_models:
  assumes "code_law C"
  shows "state_models lang R C (create_to_code_ineq a b S) \<sigma> \<nu> \<longleftrightarrow> state_models lang R C S \<sigma> \<nu> \<and>
    \<nu> (to_code_var a) = code_point (eval_term \<sigma> a) \<and> \<nu> (to_code_var b) = code_point (eval_term \<sigma> b) \<and>
    code_point (eval_term \<sigma> a) \<noteq> code_point (eval_term \<sigma> b)"
  using assms by (auto simp: create_to_code_ineq_constrained constrained_models code_law_def)

text \<open>A fresh variable with a language.\<close>

lemma with_var_models:
  assumes "v \<notin> mentions S" and "is_variable v"
  shows "state_models lang R C (with_term v aut lens S) \<sigma> \<nu> \<longleftrightarrow>
    state_models lang R C S \<sigma> \<nu> \<and> \<sigma> v \<in> lang aut \<and> \<nu> v = int (length (\<sigma> v))"
proof -
  have "v \<notin> get_keys (ss_aut S)" using assms(1) keys_mentions by blast
  then have "langs_ok lang (aut_put v aut (ss_aut S)) \<sigma> \<longleftrightarrow> langs_ok lang (ss_aut S) \<sigma> \<and> \<sigma> v \<in> lang aut"
    using assms(2) variable_not_literal[of v] by (auto simp: langs_ok_def eval_term_def)
  moreover have "arith_models C (with_term v aut lens S) \<sigma> \<nu> \<longleftrightarrow> arith_models C S \<sigma> \<nu> \<and> \<nu> v = int (length (\<sigma> v))"
    unfolding arith_models_def using assms(2) by (auto simp: with_term_def state_vars_def)
  ultimately show ?thesis by (auto simp: state_models_def)
qed

section \<open>The general case\<close>

text \<open>The state after the translation, over the six new variables.\<close>

definition diseq_state ::
    "basic_term \<Rightarrow> basic_term \<Rightarrow> basic_term \<Rightarrow> basic_term \<Rightarrow> basic_term \<Rightarrow> basic_term \<Rightarrow> 'a \<Rightarrow> 'a \<Rightarrow> 'a solving_state \<Rightarrow> 'a solving_state" where
  "diseq_state x1 a1 y1 x2 a2 y2 star eps S =
     (let L = ss_len_vars S;
          S = with_term y2 star L (with_term a2 eps L (with_term x2 star L
                (with_term y1 star L (with_term a1 eps L (with_term x1 star L S)))));
          S = create_to_code_ineq a1 a2 (constrained (insert x2 (insert x1 L)) [] [len_op EQ [len_leaf x1, len_leaf x2]] S)
      in constrained (insert y2 (insert y1 (ss_len_vars S))) [] [len_implies_empty a1 y1, len_implies_empty a2 y2] S)"

lemma replace_disequality_general:
  assumes "is_char_disequality m incl S diseq = Inr False"
    and "mk_noodler_var_fresh (zs ''diseq_start'') ids = (x1, ids1)" "mk_noodler_var_fresh (zs ''diseq_char'') ids1 = (a1, ids2)"
      "mk_noodler_var_fresh (zs ''diseq_end'') ids2 = (y1, ids3)" "mk_noodler_var_fresh (zs ''diseq_start'') ids3 = (x2, ids4)"
      "mk_noodler_var_fresh (zs ''diseq_char'') ids4 = (a2, ids5)" "mk_noodler_var_fresh (zs ''diseq_end'') ids5 = (y2, ids6)"
  shows "replace_disequality m incl diseq (S, ids) =
    Inr ([create_equation (get_left_side diseq) [x1, a1, y1], create_equation (get_right_side diseq) [x2, a2, y2]],
      diseq_state x1 a1 y1 x2 a2 y2 (of_nfa m (sigma_star_automaton (aut_alphabet (ss_aut S))))
        (of_nfa m (sigma_eps_automaton (aut_alphabet (ss_aut S)))) S, ids6)"
  using assms
  by (simp add: replace_disequality_def diseq_state_def Let_def with_term_def constrained_def create_to_code_ineq_def)

lemma diseq_state_models:
  assumes C: "code_law C" and vars: "\<forall>v \<in> {x1, a1, y1, x2, a2, y2}. is_variable v \<and> v \<notin> mentions S"
    and dist: "distinct [x1, a1, y1, x2, a2, y2]" and eps: "\<forall>w \<in> lang eps. length w \<le> 1"
  shows "state_models lang R C (diseq_state x1 a1 y1 x2 a2 y2 star eps S) \<sigma> \<nu> \<longleftrightarrow> state_models lang R C S \<sigma> \<nu> \<and>
    (\<forall>v \<in> {x1, y1, x2, y2}. \<sigma> v \<in> lang star) \<and> (\<forall>v \<in> {a1, a2}. \<sigma> v \<in> lang eps) \<and>
    (\<forall>v \<in> {x1, a1, y1, x2, a2, y2}. \<nu> v = int (length (\<sigma> v))) \<and>
    (\<forall>v \<in> {a1, a2}. \<nu> (to_code_var v) = code_point (\<sigma> v)) \<and> differ_at (\<sigma> x1) (\<sigma> a1) (\<sigma> y1) (\<sigma> x2) (\<sigma> a2) (\<sigma> y2)"
proof -
  have new: "is_variable x1" "is_variable a1" "is_variable y1" "is_variable x2" "is_variable a2" "is_variable y2"
      "x1 \<notin> mentions S" "a1 \<notin> mentions S" "y1 \<notin> mentions S" "x2 \<notin> mentions S" "a2 \<notin> mentions S" "y2 \<notin> mentions S"
    using vars by blast+
  have ne: "a1 \<noteq> x1" "y1 \<noteq> x1" "x2 \<noteq> x1" "a2 \<noteq> x1" "y2 \<noteq> x1" "y1 \<noteq> a1" "x2 \<noteq> a1" "a2 \<noteq> a1" "y2 \<noteq> a1" "x2 \<noteq> y1" "a2 \<noteq> y1" "y2 \<noteq> y1" "a2 \<noteq> x2" "y2 \<noteq> x2" "y2 \<noteq> a2"
    using dist by auto
  have lens: "len_int \<nu> (len_leaf x1) = \<nu> x1" "len_int \<nu> (len_leaf x2) = \<nu> x2"
    using vars by (auto simp: is_variable_def)
  have ev: "eval_term \<sigma> a1 = \<sigma> a1" "eval_term \<sigma> a2 = \<sigma> a2"
    using vars variable_not_literal by (simp_all add: eval_term_def)
  have "state_models lang R C (diseq_state x1 a1 y1 x2 a2 y2 star eps S) \<sigma> \<nu> \<longleftrightarrow> state_models lang R C S \<sigma> \<nu> \<and>
    (\<forall>v \<in> {x1, y1, x2, y2}. \<sigma> v \<in> lang star) \<and> (\<forall>v \<in> {a1, a2}. \<sigma> v \<in> lang eps) \<and>
    (\<forall>v \<in> {x1, a1, y1, x2, a2, y2}. \<nu> v = int (length (\<sigma> v))) \<and>
    (\<forall>v \<in> {a1, a2}. \<nu> (to_code_var v) = code_point (\<sigma> v)) \<and> \<nu> x1 = \<nu> x2 \<and>
    code_point (\<sigma> a1) \<noteq> code_point (\<sigma> a2) \<and> (\<nu> a1 = 0 \<longrightarrow> \<nu> y1 = 0) \<and> (\<nu> a2 = 0 \<longrightarrow> \<nu> y2 = 0)"
    unfolding diseq_state_def Let_def constrained_models create_to_code_ineq_models[OF C] ev
    by (simp add: with_var_models new ne lens len_implies_empty_iff) argo
  then show ?thesis using eps by (auto simp: differ_at_def)
qed

section \<open>Names of number variables\<close>

text \<open>No number variable in \<open>X\<close> belongs to a fresh variable that is still to come.\<close>

definition codes_cover :: "fresh_ids \<Rightarrow> basic_term set \<Rightarrow> bool" where
  "codes_cover ids X \<longleftrightarrow> (\<forall>name i. to_code_var (mk_internal_noodler_var (name @ zs ''!n'' @ show_nat i)) \<in> X \<longrightarrow>
     i < count_at ids name)"

lemma to_code_var_inject: "to_code_var t = to_code_var u \<longleftrightarrow> get_name t = get_name u"
  by (simp add: to_code_var_def mk_internal_noodler_var_def)

lemma to_code_var_not_fresh: "to_code_var t \<noteq> mk_internal_noodler_var (name @ zs ''!n'' @ show_nat i)"
proof
  assume "to_code_var t = mk_internal_noodler_var (name @ zs ''!n'' @ show_nat i)"
  then have "last (get_name t @ zs ''!ineq_to_code'') = last (name @ zs ''!n'' @ show_nat i)"
    by (simp add: to_code_var_def mk_internal_noodler_var_def)
  moreover have "\<not> is_digit (last (get_name t @ zs ''!ineq_to_code''))" by (simp add: zs_def is_digit_def)
  moreover have "show_nat i \<noteq> [] \<Longrightarrow> is_digit (last (show_nat i))" using show_nat_digits[of i] by (simp add: list_all_iff)
  moreover have "show_nat i \<noteq> []" by (subst show_nat.simps) simp
  ultimately show False by simp
qed

lemma fresh_var_name:
  assumes "mk_noodler_var_fresh name ids = (v, ids')"
  obtains i where "v = mk_internal_noodler_var (name @ zs ''!n'' @ show_nat i)" "count_at ids name \<le> i"
  using assms by (auto simp: mk_noodler_var_fresh_def)

lemma fresh_code:
  assumes "codes_cover ids0 X" and "ids_le ids0 ids" and "mk_noodler_var_fresh name ids = (v, ids')"
  shows "to_code_var v \<notin> X"
proof -
  obtain i where v: "v = mk_internal_noodler_var (name @ zs ''!n'' @ show_nat i)" "count_at ids name \<le> i"
    by (rule fresh_var_name[OF assms(3)])
  have "\<not> i < count_at ids0 name" using v(2) assms(2) by (auto simp: ids_le_def not_less intro: order_trans)
  then show ?thesis using assms(1) v(1) unfolding codes_cover_def by blast
qed

section \<open>Correctness\<close>

definition over_alphabet :: "('a \<Rightarrow> zstring set) \<Rightarrow> 'a aut_assignment \<Rightarrow> bool" where
  "over_alphabet lang aa \<longleftrightarrow> (\<forall>t \<in> get_keys aa. term_lang lang aa t \<subseteq> lists (set (alph_symbols (aut_alphabet aa))))"

text \<open>
  The number variables for the codes of the terms are different, and one that is already in use
  belongs to the same term.
\<close>

definition codes_apart :: "'a solving_state \<Rightarrow> basic_term set \<Rightarrow> bool" where
  "codes_apart S ts \<longleftrightarrow> inj_on get_name ts \<and>
     (\<forall>t \<in> ts. to_code_var t \<in> mentions S \<longrightarrow> TermConversion TO_CODE t (to_code_var t) 0 \<in> set (ss_conversions S))"

lemma known_code:
  assumes "code_law C" and "state_models lang R C S \<sigma> \<nu>" and "codes_apart S ts" and "t \<in> ts" and "to_code_var t \<in> mentions S"
  shows "\<nu> (to_code_var t) = code_point (eval_term \<sigma> t)"
proof -
  have "TermConversion TO_CODE t (to_code_var t) 0 \<in> set (ss_conversions S)" using assms(3-5) by (auto simp: codes_apart_def)
  then have "C (TermConversion TO_CODE t (to_code_var t) 0) (eval_term \<sigma> t) (\<nu> (to_code_var t))"
    using assms(2) by (fastforce simp: state_models_def arith_models_def)
  then show ?thesis using assms(1) unfolding code_law_def by blast
qed

lemma char_disequality_correct:
  assumes C: "code_law C" and ok: "state_ok lang V S" and terms: "a \<in> mentions S" "b \<in> mentions S" and codes: "codes_apart S {a, b}"
    and models: "state_models lang R C S \<sigma> \<nu>" and diff: "code_point (eval_term \<sigma> a) \<noteq> code_point (eval_term \<sigma> b)"
  shows "\<exists>\<nu>'. state_models lang R C (create_to_code_ineq a b S) \<sigma> \<nu>' \<and> agree (mentions S) \<sigma> \<nu> \<sigma> \<nu>'"
proof -
  define \<nu>' where "\<nu>' = \<nu>(to_code_var a := code_point (eval_term \<sigma> a), to_code_var b := code_point (eval_term \<sigma> b))"
  have "a \<noteq> b" using diff by blast
  then have ne: "to_code_var a \<noteq> to_code_var b" using codes by (auto simp: codes_apart_def to_code_var_inject)
  have agree: "agree (mentions S) \<sigma> \<nu> \<sigma> \<nu>'"
    using known_code[OF C models codes] by (auto simp: agree_def \<nu>'_def)
  then have "state_models lang R C S \<sigma> \<nu>'" by (rule state_models_agree[OF ok _ models])
  then have "state_models lang R C (create_to_code_ineq a b S) \<sigma> \<nu>'"
    unfolding create_to_code_ineq_models[OF C] using diff ne by (simp add: \<nu>'_def)
  then show ?thesis using agree by blast
qed

lemma is_char_disequality_run:
  assumes laws: "mata_laws lang m" and incl: "\<And>x y. incl x y \<longleftrightarrow> lang x \<subseteq> lang y" and keys: "get_set diseq \<subseteq> get_keys (ss_aut S)" "wf_pred diseq"
  obtains "is_char_disequality m incl S diseq = Inr False"
  | a b where "is_char_disequality m incl S diseq = Inr True" "get_left_side diseq = [a]" "get_right_side diseq = [b]"
      "\<And>w. w \<in> term_lang lang (ss_aut S) a \<union> term_lang lang (ss_aut S) b \<Longrightarrow> length w \<le> 1"
proof (cases "length (get_left_side diseq) = 1 \<and> length (get_right_side diseq) = 1")
  case True
  then obtain a b where ab: "get_left_side diseq = [a]" "get_right_side diseq = [b]" by (auto simp: length_Suc_conv)
  have in_keys: "a \<in> get_keys (ss_aut S)" "b \<in> get_keys (ss_aut S)" using keys(1) get_set_sides[OF keys(2)] ab by auto
  obtain x where x: "aut_at (ss_aut S) a = Inr x" using in_keys(1) aut_at_cases[of a "ss_aut S"] by auto
  obtain y where y: "aut_at (ss_aut S) b = Inr y" using in_keys(2) aut_at_cases[of b "ss_aut S"] by auto
  note xy = x y
  let ?eps = "of_nfa m (sigma_eps_automaton (aut_alphabet (ss_aut S)))"
  have run: "is_char_disequality m incl S diseq = Inr (incl x ?eps \<and> incl y ?eps)"
    using xy by (simp add: is_char_disequality_def ab Let_def)
  show ?thesis
  proof (cases "incl x ?eps \<and> incl y ?eps")
    case True
    have "length w \<le> 1" if "w \<in> term_lang lang (ss_aut S) a \<union> term_lang lang (ss_aut S) b" for w
      using that True unfolding term_lang_at[OF xy(1)] term_lang_at[OF xy(2)] incl mata_lawsD(1)[OF laws] lang_sigma_eps
      by (auto simp: words_over_def)
    then show ?thesis using that(2) run True ab by auto
  qed (use that(1) run in auto)
next
  case False
  then have "is_char_disequality m incl S diseq = Inr False" by (auto simp: is_char_disequality_def)
  then show ?thesis by (rule that(1))
qed

text \<open>The six fresh variables and the number variables of two of them are new.\<close>

definition diseq_vars_new :: "basic_term set \<Rightarrow> basic_term list \<Rightarrow> bool" where
  "diseq_vars_new X vs \<longleftrightarrow> distinct vs \<and> (\<forall>v \<in> set vs. is_variable v \<and> v \<notin> X) \<and>
     to_code_var (vs ! 1) \<notin> X \<union> set vs \<and> to_code_var (vs ! 4) \<notin> X \<union> set vs \<and> to_code_var (vs ! 1) \<noteq> to_code_var (vs ! 4)"

lemma diseq_vars_fresh:
  assumes ids: "ids_cover ids X" "codes_cover ids X"
    and v: "mk_noodler_var_fresh n1 ids = (x1, ids1)" "mk_noodler_var_fresh n2 ids1 = (a1, ids2)"
      "mk_noodler_var_fresh n3 ids2 = (y1, ids3)" "mk_noodler_var_fresh n1 ids3 = (x2, ids4)"
      "mk_noodler_var_fresh n2 ids4 = (a2, ids5)" "mk_noodler_var_fresh n3 ids5 = (y2, ids6)"
  shows "diseq_vars_new X [x1, a1, y1, x2, a2, y2]" "ids_le ids ids6"
proof -
  note f1 = fresh_var_new[OF ids(1) v(1)]
  note f2 = fresh_var_new[OF f1(3) v(2)]
  note f3 = fresh_var_new[OF f2(3) v(3)]
  note f4 = fresh_var_new[OF f3(3) v(4)]
  note f5 = fresh_var_new[OF f4(3) v(5)]
  note f6 = fresh_var_new[OF f5(3) v(6)]
  note le4 = ids_le_trans[OF ids_le_trans[OF ids_le_trans[OF f1(2) f2(2)] f3(2)] f4(2)]
  show "ids_le ids ids6" by (rule ids_le_trans[OF ids_le_trans[OF le4 f5(2)] f6(2)])
  have new: "to_code_var a1 \<notin> X" "to_code_var a2 \<notin> X"
    by (rule fresh_code[OF ids(2) f1(2) v(2)], rule fresh_code[OF ids(2) le4 v(5)])
  have "to_code_var t \<noteq> u" if "mk_noodler_var_fresh n i = (u, j)" for t u n i j
    using that to_code_var_not_fresh by (auto simp: mk_noodler_var_fresh_def)
  note not_fresh = this[OF v(1)] this[OF v(2)] this[OF v(3)] this[OF v(4)] this[OF v(5)] this[OF v(6)]
  have "a1 = BasicTerm Variable (get_name a1)" "a2 = BasicTerm Variable (get_name a2)"
    using v(2,5) by (auto simp: mk_noodler_var_fresh_def mk_internal_noodler_var_def)
  then have "to_code_var a1 \<noteq> to_code_var a2" using f5(1) unfolding to_code_var_inject by auto
  moreover have "distinct (rev [x1, a1, y1, x2, a2, y2])" using f2(1) f3(1) f4(1) f5(1) f6(1) by simp
  then have "distinct [x1, a1, y1, x2, a2, y2]" unfolding distinct_rev .
  ultimately show "diseq_vars_new X [x1, a1, y1, x2, a2, y2]"
    using f1(1,4) f2(1,4) f3(1,4) f4(1,4) f5(1,4) f6(1,4) new not_fresh unfolding diseq_vars_new_def by simp
qed

lemma diseq_extension:
  assumes C: "code_law C" and ok: "state_ok lang V S" and new: "diseq_vars_new (mentions S) [x1, a1, y1, x2, a2, y2]"
    and eps: "\<forall>w \<in> lang eps. length w \<le> 1" and models: "state_models lang R C S \<sigma> \<nu>"
    and words: "p1 \<in> lang star" "c1 \<in> lang eps" "q1 \<in> lang star" "p2 \<in> lang star" "c2 \<in> lang eps" "q2 \<in> lang star"
      "differ_at p1 c1 q1 p2 c2 q2"
  shows "\<exists>\<sigma>' \<nu>'. state_models lang R C (diseq_state x1 a1 y1 x2 a2 y2 star eps S) \<sigma>' \<nu>' \<and> agree (mentions S) \<sigma> \<nu> \<sigma>' \<nu>' \<and>
    eval_concat \<sigma>' [x1, a1, y1] = p1 @ c1 @ q1 \<and> eval_concat \<sigma>' [x2, a2, y2] = p2 @ c2 @ q2"
proof -
  let ?vs = "[x1, a1, y1, x2, a2, y2]"
  define \<sigma>' where "\<sigma>' = \<sigma>(x1 := p1, a1 := c1, y1 := q1, x2 := p2, a2 := c2, y2 := q2)"
  define \<nu>' where "\<nu>' = (\<lambda>t. if t \<in> set ?vs then int (length (\<sigma>' t)) else if t = to_code_var a1 then code_point c1
      else if t = to_code_var a2 then code_point c2 else \<nu> t)"
  have dist: "distinct ?vs" and vars: "\<forall>v \<in> {x1, a1, y1, x2, a2, y2}. is_variable v \<and> v \<notin> mentions S"
    and codes: "to_code_var a1 \<notin> mentions S \<union> set ?vs" "to_code_var a2 \<notin> mentions S \<union> set ?vs" "to_code_var a1 \<noteq> to_code_var a2"
    using new unfolding diseq_vars_new_def by auto
  have vals: "\<sigma>' x1 = p1" "\<sigma>' a1 = c1" "\<sigma>' y1 = q1" "\<sigma>' x2 = p2" "\<sigma>' a2 = c2" "\<sigma>' y2 = q2"
    using dist unfolding \<sigma>'_def by auto
  have "t \<notin> set ?vs \<and> t \<noteq> to_code_var a1 \<and> t \<noteq> to_code_var a2" if "t \<in> mentions S" for t
    using that vars codes by auto
  then have agree: "agree (mentions S) \<sigma> \<nu> \<sigma>' \<nu>'" unfolding agree_def \<nu>'_def \<sigma>'_def by auto
  have "state_models lang R C S \<sigma>' \<nu>'" by (rule state_models_agree[OF ok agree models])
  moreover have "\<nu>' v = int (length (\<sigma>' v))" if "v \<in> {x1, a1, y1, x2, a2, y2}" for v using that unfolding \<nu>'_def by simp
  moreover have "\<nu>' (to_code_var a1) = code_point c1" "\<nu>' (to_code_var a2) = code_point c2"
    using codes unfolding \<nu>'_def by simp_all
  ultimately have "state_models lang R C (diseq_state x1 a1 y1 x2 a2 y2 star eps S) \<sigma>' \<nu>'"
    unfolding diseq_state_models[where lang = lang and eps = eps, OF C vars dist eps] using words by (simp add: vals)
  moreover have "eval_term \<sigma>' v = \<sigma>' v" if "v \<in> {x1, a1, y1, x2, a2, y2}" for v
    using bspec[OF vars that] variable_not_literal[of v] by (simp add: eval_term_def)
  then have "eval_concat \<sigma>' [x1, a1, y1] = p1 @ c1 @ q1" "eval_concat \<sigma>' [x2, a2, y2] = p2 @ c2 @ q2" by (simp_all add: vals)
  ultimately show ?thesis using agree by blast
qed

lemma eval_over_alphabet:
  assumes "over_alphabet lang aa" and "langs_ok lang aa \<sigma>" and "set c \<subseteq> get_keys aa"
  shows "eval_concat \<sigma> c \<in> lists (set (alph_symbols (aut_alphabet aa)))"
  using assms(3)
proof (induction c)
  case (Cons t c)
  then have "eval_term \<sigma> t \<in> lists (set (alph_symbols (aut_alphabet aa)))"
    using assms(1,2) by (auto simp: over_alphabet_def langs_ok_def)
  then show ?case using Cons by (auto simp: eval_concat_def)
qed (simp add: eval_concat_def)

definition translates ::
    "('a \<Rightarrow> zstring set) \<Rightarrow> (nat \<Rightarrow> (zstring \<times> zstring) set) \<Rightarrow> conversion_sem \<Rightarrow> predicate \<Rightarrow> 'a solving_state \<Rightarrow>
     predicate list \<Rightarrow> 'a solving_state \<Rightarrow> bool" where
  "translates lang R C diseq S eqs S' \<longleftrightarrow>
     (\<forall>\<sigma> \<nu>. state_models lang R C S' \<sigma> \<nu> \<and> sat_formula R \<sigma> eqs \<longrightarrow> state_models lang R C S \<sigma> \<nu> \<and> sat_pred R \<sigma> diseq) \<and>
     (\<forall>\<sigma> \<nu>. state_models lang R C S \<sigma> \<nu> \<and> sat_pred R \<sigma> diseq \<longrightarrow>
        (\<exists>\<sigma>' \<nu>'. state_models lang R C S' \<sigma>' \<nu>' \<and> sat_formula R \<sigma>' eqs \<and> agree (mentions S) \<sigma> \<nu> \<sigma>' \<nu>'))"

lemma char_disequality_translates:
  assumes C: "code_law C" and ok: "state_ok lang V S" and diseq: "is_inequation diseq" "get_left_side diseq = [a]" "get_right_side diseq = [b]"
    and keys: "a \<in> get_keys (ss_aut S)" "b \<in> get_keys (ss_aut S)" and codes: "codes_apart S {a, b}"
    and short: "\<And>w. w \<in> term_lang lang (ss_aut S) a \<union> term_lang lang (ss_aut S) b \<Longrightarrow> length w \<le> 1"
  shows "translates lang R C diseq S [] (create_to_code_ineq a b S)"
proof -
  have sat: "sat_pred R \<sigma> diseq \<longleftrightarrow> eval_term \<sigma> a \<noteq> eval_term \<sigma> b" for \<sigma>
    using diseq by (simp add: sat_inequation eval_concat_def)
  have len: "length (eval_term \<sigma> a) \<le> 1" "length (eval_term \<sigma> b) \<le> 1" if "state_models lang R C S \<sigma> \<nu>" for \<sigma> \<nu>
    using that keys short by (auto simp: state_models_def langs_ok_def)
  have men: "a \<in> mentions S" "b \<in> mentions S" using keys keys_mentions by blast+
  have "code_point (eval_term \<sigma> a) \<noteq> code_point (eval_term \<sigma> b)" if "state_models lang R C S \<sigma> \<nu>" "sat_pred R \<sigma> diseq" for \<sigma> \<nu>
    using code_point_inject[OF len[OF that(1)]] that(2) sat by blast
  then have fwd: "\<exists>\<nu>'. state_models lang R C (create_to_code_ineq a b S) \<sigma> \<nu>' \<and> agree (mentions S) \<sigma> \<nu> \<sigma> \<nu>'"
    if "state_models lang R C S \<sigma> \<nu>" "sat_pred R \<sigma> diseq" for \<sigma> \<nu>
    using that char_disequality_correct[OF C ok men codes that(1)] by blast
  have bwd: "state_models lang R C S \<sigma> \<nu> \<and> sat_pred R \<sigma> diseq" if "state_models lang R C (create_to_code_ineq a b S) \<sigma> \<nu>" for \<sigma> \<nu>
    using that unfolding create_to_code_ineq_models[OF C] sat by metis
  have none: "sat_formula R \<sigma> []" for \<sigma> by (simp add: sat_formula_def)
  show ?thesis unfolding translates_def using fwd bwd none by blast
qed

lemma general_disequality_translates:
  assumes C: "code_law C" and ok: "state_ok lang V S" and new: "diseq_vars_new (mentions S) [x1, a1, y1, x2, a2, y2]"
    and diseq: "is_inequation diseq" "wf_pred diseq" "get_set diseq \<subseteq> get_keys (ss_aut S)" and over: "over_alphabet lang (ss_aut S)"
    and star: "lang star = lists (set (alph_symbols (aut_alphabet (ss_aut S))))"
    and eps: "lang eps = insert [] (words_over (set (alph_symbols (aut_alphabet (ss_aut S)))) 1)"
  shows "translates lang R C diseq S
    [create_equation (get_left_side diseq) [x1, a1, y1], create_equation (get_right_side diseq) [x2, a2, y2]]
    (diseq_state x1 a1 y1 x2 a2 y2 star eps S)"
proof -
  let ?L = "get_left_side diseq" and ?R = "get_right_side diseq" and ?S = "diseq_state x1 a1 y1 x2 a2 y2 star eps S"
  let ?eqs = "[create_equation ?L [x1, a1, y1], create_equation ?R [x2, a2, y2]]"
  have short: "\<forall>w \<in> lang eps. length w \<le> 1" unfolding eps by (auto simp: words_over_def)
  have dist: "distinct [x1, a1, y1, x2, a2, y2]" and vars: "\<forall>v \<in> {x1, a1, y1, x2, a2, y2}. is_variable v \<and> v \<notin> mentions S"
    using new unfolding diseq_vars_new_def by auto
  note models = diseq_state_models[where lang = lang and eps = eps, OF C vars dist short]
  have sides: "set ?L \<subseteq> get_keys (ss_aut S)" "set ?R \<subseteq> get_keys (ss_aut S)" using diseq(3) get_set_sides[OF diseq(2)] by auto
  have eqs: "sat_formula R \<sigma> ?eqs \<longleftrightarrow> eval_concat \<sigma> ?L = eval_concat \<sigma> [x1, a1, y1] \<and> eval_concat \<sigma> ?R = eval_concat \<sigma> [x2, a2, y2]" for \<sigma>
    by (simp add: sat_formula_def)
  have bwd: "state_models lang R C S \<sigma> \<nu> \<and> sat_pred R \<sigma> diseq" if m: "state_models lang R C ?S \<sigma> \<nu>" "sat_formula R \<sigma> ?eqs" for \<sigma> \<nu>
  proof -
    have "eval_term \<sigma> v = \<sigma> v" if "v \<in> {x1, a1, y1, x2, a2, y2}" for v
      using bspec[OF vars that] variable_not_literal[of v] by (simp add: eval_term_def)
    then have "eval_concat \<sigma> ?L = \<sigma> x1 @ \<sigma> a1 @ \<sigma> y1" "eval_concat \<sigma> ?R = \<sigma> x2 @ \<sigma> a2 @ \<sigma> y2"
      using m(2) unfolding eqs by simp_all
    moreover have "differ_at (\<sigma> x1) (\<sigma> a1) (\<sigma> y1) (\<sigma> x2) (\<sigma> a2) (\<sigma> y2)" "state_models lang R C S \<sigma> \<nu>"
      using m(1) unfolding models by blast+
    ultimately show ?thesis using differ_at_different by (simp add: sat_inequation[OF diseq(1)])
  qed
  have fwd: "\<exists>\<sigma>' \<nu>'. state_models lang R C ?S \<sigma>' \<nu>' \<and> sat_formula R \<sigma>' ?eqs \<and> agree (mentions S) \<sigma> \<nu> \<sigma>' \<nu>'"
    if m: "state_models lang R C S \<sigma> \<nu>" "sat_pred R \<sigma> diseq" for \<sigma> \<nu>
  proof -
    obtain p1 c1 q1 p2 c2 q2 where w: "eval_concat \<sigma> ?L = p1 @ c1 @ q1" "eval_concat \<sigma> ?R = p2 @ c2 @ q2" "differ_at p1 c1 q1 p2 c2 q2"
      using different_words_differ[of "eval_concat \<sigma> ?L" "eval_concat \<sigma> ?R"] m(2) diseq(1)
      unfolding words_differ_def sat_inequation[OF diseq(1)] by blast
    have "langs_ok lang (ss_aut S) \<sigma>" using m(1) by (simp add: state_models_def)
    from eval_over_alphabet[OF over this sides(1)] eval_over_alphabet[OF over this sides(2)]
    have alph: "p1 \<in> lang star" "c1 \<in> lang eps" "q1 \<in> lang star" "p2 \<in> lang star" "c2 \<in> lang eps" "q2 \<in> lang star"
      using w unfolding star eps by (auto simp: words_over_def differ_at_def length_Suc_conv le_Suc_eq)
    obtain \<sigma>' \<nu>' where ext: "state_models lang R C ?S \<sigma>' \<nu>'" "agree (mentions S) \<sigma> \<nu> \<sigma>' \<nu>'"
        "eval_concat \<sigma>' [x1, a1, y1] = p1 @ c1 @ q1" "eval_concat \<sigma>' [x2, a2, y2] = p2 @ c2 @ q2"
      using diseq_extension[OF C ok new short m(1) alph w(3)] by blast
    have "eval_concat \<sigma>' ?L = eval_concat \<sigma> ?L" "eval_concat \<sigma>' ?R = eval_concat \<sigma> ?R"
      using sides ext(2) keys_mentions[of S] by (auto intro!: eval_concat_cong simp: agree_def)
    then show ?thesis using ext w(1,2) eqs by metis
  qed
  show ?thesis unfolding translates_def using bwd fwd by blast
qed

text \<open>
  C12: Replacing a disequation by equations over fresh variables and constraints on lengths and code
  points never raises an exception, and the result is equivalent to the disequation: every model of the
  new state and the equations is one of the old state that satisfies the disequation, and every such
  model of the old state extends to the new variables. The words have to be over the alphabet, and the
  number variables for codes have to belong to one term each.
\<close>

theorem replace_disequality_correct:
  assumes "mata_laws lang m" and "\<And>x y. incl x y \<longleftrightarrow> lang x \<subseteq> lang y" and "code_law C" and "state_ok lang V S"
    and "is_inequation diseq" and "wf_pred diseq" and "get_set diseq \<subseteq> get_keys (ss_aut S)" and "over_alphabet lang (ss_aut S)"
    and "ids_cover ids (mentions S)" and "codes_cover ids (mentions S)" and "codes_apart S (get_set diseq)"
  shows "\<exists>eqs S' ids'. replace_disequality m incl diseq (S, ids) = Inr (eqs, S', ids') \<and> ids_le ids ids' \<and>
    translates lang R C diseq S eqs S'"
proof (rule is_char_disequality_run[OF assms(1,2,7,6)])
  assume chars: "is_char_disequality m incl S diseq = Inr False"
  obtain x1 ids1 where v1: "mk_noodler_var_fresh (zs ''diseq_start'') ids = (x1, ids1)" by fastforce
  obtain a1 ids2 where v2: "mk_noodler_var_fresh (zs ''diseq_char'') ids1 = (a1, ids2)" by fastforce
  obtain y1 ids3 where v3: "mk_noodler_var_fresh (zs ''diseq_end'') ids2 = (y1, ids3)" by fastforce
  obtain x2 ids4 where v4: "mk_noodler_var_fresh (zs ''diseq_start'') ids3 = (x2, ids4)" by fastforce
  obtain a2 ids5 where v5: "mk_noodler_var_fresh (zs ''diseq_char'') ids4 = (a2, ids5)" by fastforce
  obtain y2 ids6 where v6: "mk_noodler_var_fresh (zs ''diseq_end'') ids5 = (y2, ids6)" by fastforce
  note run = replace_disequality_general[OF chars v1 v2 v3 v4 v5 v6]
  note new = diseq_vars_fresh[OF assms(9,10) v1 v2 v3 v4 v5 v6]
  have "lang (of_nfa m (sigma_star_automaton (aut_alphabet (ss_aut S)))) = lists (set (alph_symbols (aut_alphabet (ss_aut S))))"
    by (simp add: mata_lawsD(1)[OF assms(1)] lang_sigma_star)
  moreover have "lang (of_nfa m (sigma_eps_automaton (aut_alphabet (ss_aut S)))) =
      insert [] (words_over (set (alph_symbols (aut_alphabet (ss_aut S)))) 1)"
    by (simp add: mata_lawsD(1)[OF assms(1)] lang_sigma_eps)
  ultimately show ?thesis
    using run new(2) general_disequality_translates[OF assms(3,4) new(1) assms(5-8)] by blast
next
  fix a b
  assume ab: "is_char_disequality m incl S diseq = Inr True" "get_left_side diseq = [a]" "get_right_side diseq = [b]"
    "\<And>w. w \<in> term_lang lang (ss_aut S) a \<union> term_lang lang (ss_aut S) b \<Longrightarrow> length w \<le> 1"
  have run: "replace_disequality m incl diseq (S, ids) = Inr ([], create_to_code_ineq a b S, ids)"
    using ab by (simp add: replace_disequality_def Let_def)
  have set: "get_set diseq = {a, b}" using get_set_sides[OF assms(6)] ab(2,3) by auto
  have "translates lang R C diseq S [] (create_to_code_ineq a b S)"
    by (rule char_disequality_translates[OF assms(3,4,5) ab(2,3) _ _ _ ab(4)]) (use assms(7,11) in \<open>simp_all add: set\<close>)
  then show ?thesis using run by (intro exI[of _ "[]"] exI[of _ "create_to_code_ineq a b S"] exI[of _ ids]) simp
qed

section \<open>Examples\<close>

definition code_sem :: conversion_sem where
  "code_sem c w k \<longleftrightarrow> (case c of TermConversion tp t n width \<Rightarrow> tp = TO_CODE \<longrightarrow> k = code_point w)"

lemma code_sem_law: "code_law code_sem"
  by (simp add: code_law_def code_sem_def)

text \<open>A variable with the letters \<open>a\<close> and \<open>b\<close>, and a term with the given word.\<close>

definition diseq_example :: "basic_term \<Rightarrow> basic_term \<Rightarrow> zstring \<Rightarrow> zstring set solving_state" where
  "diseq_example x y w =
     new_solving_state \<lparr>aut_entries = [(x, {[97], [98]}), (y, {w})], aut_alphabet = \<lparr>alph_symbols = [97, 98], alph_hash = 0\<rparr>\<rparr>
       [] [] [] [] {} [] False [] []"

lemmas diseq_example_defs = diseq_example_def new_solving_state_def get_keys_def

abbreviation ex_x :: basic_term where
  "ex_x \<equiv> BasicTerm Variable [120]"

abbreviation ex_y :: basic_term where
  "ex_y \<equiv> BasicTerm Variable [121]"

lemma diseq_example_mentions: "mentions (diseq_example x y w) = {x, y}"
  by (auto simp: mentions_def state_vars_def arith_vars_def diseq_example_defs)

lemma diseq_example_ok: "state_ok id (\<lambda>_. True) (diseq_example ex_x ex_y w)"
  by (auto simp: state_okN_def diseq_example_defs subst_shape_def aut_shape_def preds_within_def state_preds_def
      kinds_ok_def lens_ok_def term_lang_def is_variable_def is_literal_def)

lemma diseq_example_over: "over_alphabet id (ss_aut (diseq_example ex_x ex_y [97]))"
  by (auto simp: over_alphabet_def diseq_example_defs term_lang_def)

lemma diseq_example_ids: "ids_cover [] {ex_x, ex_y}" "codes_cover [] {ex_x, ex_y}"
  by (auto simp: ids_cover_def codes_cover_def mk_internal_noodler_var_def to_code_var_def zs_def)

theorem replace_disequality_correct_witness:
  "let d = create_disequation [ex_x] [ex_y, ex_x]; S = diseq_example ex_x ex_y [97]
   in \<exists>eqs S' ids'. replace_disequality set_mata (\<subseteq>) d (S, []) = Inr (eqs, S', ids') \<and> translates id (\<lambda>_. {}) code_sem d S eqs S'"
proof -
  let ?d = "create_disequation [ex_x] [ex_y, ex_x]" and ?S = "diseq_example ex_x ex_y [97]"
  have d: "is_inequation ?d" "wf_pred ?d" "get_set ?d = {ex_x, ex_y}"
    by (auto simp: create_disequation_def pred_kind_defs wf_pred_def get_set_def)
  have keys: "get_set ?d \<subseteq> get_keys (ss_aut ?S)" unfolding d(3) by (simp add: diseq_example_defs)
  have codes: "codes_apart ?S (get_set ?d)"
    unfolding codes_apart_def diseq_example_mentions d(3) by (auto simp: to_code_var_def mk_internal_noodler_var_def zs_def)
  have "\<exists>eqs S' ids'. replace_disequality set_mata (\<subseteq>) ?d (?S, []) = Inr (eqs, S', ids') \<and> ids_le [] ids' \<and>
      translates id (\<lambda>_. {}) code_sem ?d ?S eqs S'"
    by (rule replace_disequality_correct[OF set_mata_laws _ code_sem_law diseq_example_ok d(1,2) keys diseq_example_over _ _ codes])
      (simp_all add: diseq_example_mentions diseq_example_ids)
  then show ?thesis by (auto simp: Let_def)
qed

text \<open>
  C13: The number variable for the code of a term depends on the name of the term only. For the disequation
  of a variable called \<open>a\<close> and the literal \<open>"a"\<close> the state has a model with the disequation, but the
  translated state has none.
\<close>

theorem code_variables_collide:
  "let x = BasicTerm Variable [97]; y = BasicTerm Literal [97]; d = create_disequation [x] [y]; S = diseq_example x y [97]
   in (\<exists>\<sigma> \<nu>. state_models id (\<lambda>_. {}) code_sem S \<sigma> \<nu> \<and> sat_pred (\<lambda>_. {}) \<sigma> d) \<and>
      (\<exists>S'. replace_disequality set_mata (\<subseteq>) d (S, []) = Inr ([], S', []) \<and> (\<forall>\<sigma> \<nu>. \<not> state_models id (\<lambda>_. {}) code_sem S' \<sigma> \<nu>))"
proof -
  let ?x = "BasicTerm Variable [97]" and ?y = "BasicTerm Literal [97]"
  let ?d = "create_disequation [?x] [?y]" and ?S = "diseq_example ?x ?y [97]"
  have "state_models id (\<lambda>_. {}) code_sem ?S (\<lambda>_. [98]) (\<lambda>_. 1)" "sat_pred (\<lambda>_. {}) (\<lambda>_. [98]) ?d"
    by (auto simp: state_models_def diseq_example_defs langs_ok_def term_lang_def eval_term_def is_literal_def subst_ok_def
        state_preds_def arith_models_def state_vars_def sat_pred_def create_disequation_def eval_concat_def)
  moreover have "is_char_disequality set_mata (\<subseteq>) ?S ?d = Inr True"
    by (simp add: is_char_disequality_def side_defs create_disequation_def aut_at_def diseq_example_defs set_mata_def
        lang_sigma_eps words_over_def Let_def)
  then have "replace_disequality set_mata (\<subseteq>) ?d (?S, []) = Inr ([], create_to_code_ineq ?x ?y ?S, [])"
    by (simp add: replace_disequality_def side_defs create_disequation_def)
  moreover have "\<not> state_models id (\<lambda>_. {}) code_sem (create_to_code_ineq ?x ?y ?S) \<sigma> \<nu>" for \<sigma> \<nu>
    unfolding create_to_code_ineq_constrained constrained_models by (simp add: to_code_var_def)
  ultimately show ?thesis unfolding Let_def by blast
qed

end
