(* ===== verification/Noodle_Steps.thy ===== *)
theory Noodle_Steps
  imports Noodle_Segments
begin

text \<open>
  Noodlification keeps the solutions of a state: every noodle yields a state whose solutions
  are solutions of the old state, and the states of all noodles together have all of them. The
  theory proves it for the processing of inclusions and of transducers.
\<close>

section \<open>Replacing a state\<close>

text \<open>
  The state \<open>S'\<close> has the solutions of \<open>S\<close> that satisfy \<open>P\<close>, as far as the variables \<open>I\<close> are
  concerned.
\<close>

definition replaced ::
    "(nat \<Rightarrow> (zstring \<times> zstring) set) \<Rightarrow> conversion_sem \<Rightarrow> ('a \<Rightarrow> zstring set) \<Rightarrow> basic_term set \<Rightarrow> (assignment \<Rightarrow> bool) \<Rightarrow>
     'a solving_state \<Rightarrow> 'a solving_state \<Rightarrow> bool" where
  "replaced R C lang I P S S' \<longleftrightarrow>
     (\<forall>\<sigma> \<nu>. state_models lang R C S \<sigma> \<nu> \<and> P \<sigma> \<longrightarrow> state_models lang R C S' \<sigma> \<nu>) \<and>
     (\<forall>\<sigma> \<nu>. state_models lang R C S' \<sigma> \<nu> \<longrightarrow>
        (\<exists>\<sigma>' \<nu>'. state_models lang R C S \<sigma>' \<nu>' \<and> P \<sigma>' \<and> agree I \<sigma> \<nu> \<sigma>' \<nu>' \<and>
           ((\<forall>p \<in> set (ss_to_process S). sat_pred R \<sigma>' p) \<longrightarrow> (\<forall>p \<in> set (ss_to_process S'). sat_pred R \<sigma> p))))"

lemma replacedD:
  assumes "replaced R C lang I P S S'"
  shows "state_models lang R C S \<sigma> \<nu> \<Longrightarrow> P \<sigma> \<Longrightarrow> state_models lang R C S' \<sigma> \<nu>"
    "state_models lang R C S' \<sigma> \<nu> \<Longrightarrow> \<exists>\<sigma>' \<nu>'. state_models lang R C S \<sigma>' \<nu>' \<and> P \<sigma>' \<and> agree I \<sigma> \<nu> \<sigma>' \<nu>' \<and>
       ((\<forall>p \<in> set (ss_to_process S). sat_pred R \<sigma>' p) \<longrightarrow> (\<forall>p \<in> set (ss_to_process S'). sat_pred R \<sigma> p))"
  using assms unfolding replaced_def by blast+

lemma adds_replaced:
  assumes "adds R C lang P S S'"
  shows "replaced R C lang I P S S'"
  unfolding replaced_def
proof (intro conjI allI impI)
  fix \<sigma> \<nu> assume models: "state_models lang R C S' \<sigma> \<nu>"
  show "\<exists>\<sigma>' \<nu>'. state_models lang R C S \<sigma>' \<nu>' \<and> P \<sigma>' \<and> agree I \<sigma> \<nu> \<sigma>' \<nu>' \<and>
      ((\<forall>p \<in> set (ss_to_process S). sat_pred R \<sigma>' p) \<longrightarrow> (\<forall>p \<in> set (ss_to_process S'). sat_pred R \<sigma> p))"
    using addsD(1,2)[OF assms, of \<sigma> \<nu>] models by (intro exI[of _ \<sigma>] exI[of _ \<nu>]) simp
qed (simp add: addsD(1)[OF assms])

lemma mentions_without_vars: "mentions (without_vars W S) \<subseteq> mentions S"
  by (auto simp: mentions_def state_vars_def arith_vars_def without_vars_def)

lemma without_vars_twice: "without_vars W' (without_vars W S) = without_vars (W \<union> W') S"
proof -
  have "ss_len_vars S - W - W' = ss_len_vars S - (W \<union> W')" by blast
  then show ?thesis by (simp add: without_vars_def conj_commute)
qed

lemma without_vars_replaced:
  assumes ok: "state_ok lang V S" and W: "W \<subseteq> fst ` set (ss_subst S)" "W \<inter> referenced S = {}" "W \<inter> get_keys (ss_aut S) = {}" "W \<inter> I = {}"
    and lit: "\<And>x c \<sigma>. (x, c) \<in> set (ss_subst S) \<Longrightarrow> x \<in> W \<Longrightarrow> is_literal x \<Longrightarrow> eval_concat \<sigma> c = get_name x"
  shows "replaced R C lang I (\<lambda>\<sigma>. True) S (without_vars W S)"
proof -
  have "\<exists>\<sigma>' \<nu>'. state_models lang R C S \<sigma>' \<nu>' \<and> agree I \<sigma> \<nu> \<sigma>' \<nu>' \<and>
      ((\<forall>p \<in> set (ss_to_process S). sat_pred R \<sigma>' p) \<longrightarrow> (\<forall>p \<in> set (ss_to_process (without_vars W S)). sat_pred R \<sigma> p))"
    if models: "state_models lang R C (without_vars W S) \<sigma> \<nu>" for \<sigma> \<nu>
  proof -
    obtain \<sigma>' \<nu>' where ext: "state_models lang R C S \<sigma>' \<nu>'" "\<And>t. t \<notin> W \<Longrightarrow> \<sigma>' t = \<sigma> t \<and> \<nu>' t = \<nu> t"
      using without_vars_extend[OF ok W(1,2,3) lit models] by blast
    have agree: "agree (- W) \<sigma> \<nu> \<sigma>' \<nu>'" using ext(2) by (simp add: agree_def)
    have "sat_pred R \<sigma> p = sat_pred R \<sigma>' p" if "p \<in> set (ss_to_process S)" for p
      using that preds_withinD[OF state_okD(3)[OF ok], of p] W(3) sat_pred_agree_on[of p "- W" \<sigma> \<nu> \<sigma>' \<nu>' R] agree by auto
    moreover have "agree I \<sigma> \<nu> \<sigma>' \<nu>'" using W(4) by (intro agree_mono[OF agree]) auto
    ultimately show ?thesis using ext(1) by (auto simp: without_vars_def)
  qed
  then show ?thesis unfolding replaced_def using without_vars_models by blast
qed

lemma replaced_trans:
  assumes "replaced R C lang I P S S'" and "replaced R C lang I Q S' S''" and "\<And>\<sigma>. Q \<sigma>"
  shows "replaced R C lang I P S S''"
  unfolding replaced_def
proof (intro conjI allI impI)
  fix \<sigma> \<nu> assume "state_models lang R C S \<sigma> \<nu> \<and> P \<sigma>"
  then show "state_models lang R C S'' \<sigma> \<nu>" using replacedD(1)[OF assms(1)] replacedD(1)[OF assms(2)] assms(3) by blast
next
  fix \<sigma> \<nu> assume "state_models lang R C S'' \<sigma> \<nu>"
  then obtain \<sigma>1 \<nu>1 where 1: "state_models lang R C S' \<sigma>1 \<nu>1" "agree I \<sigma> \<nu> \<sigma>1 \<nu>1"
      "(\<forall>p \<in> set (ss_to_process S'). sat_pred R \<sigma>1 p) \<longrightarrow> (\<forall>p \<in> set (ss_to_process S''). sat_pred R \<sigma> p)"
    using replacedD(2)[OF assms(2)] by blast
  obtain \<sigma>2 \<nu>2 where 2: "state_models lang R C S \<sigma>2 \<nu>2" "P \<sigma>2" "agree I \<sigma>1 \<nu>1 \<sigma>2 \<nu>2"
      "(\<forall>p \<in> set (ss_to_process S). sat_pred R \<sigma>2 p) \<longrightarrow> (\<forall>p \<in> set (ss_to_process S'). sat_pred R \<sigma>1 p)"
    using replacedD(2)[OF assms(1) 1(1)] by blast
  have "agree I \<sigma> \<nu> \<sigma>2 \<nu>2" by (rule agree_trans[OF 1(2) 2(3)])
  then show "\<exists>\<sigma>' \<nu>'. state_models lang R C S \<sigma>' \<nu>' \<and> P \<sigma>' \<and> agree I \<sigma> \<nu> \<sigma>' \<nu>' \<and>
      ((\<forall>p \<in> set (ss_to_process S). sat_pred R \<sigma>' p) \<longrightarrow> (\<forall>p \<in> set (ss_to_process S''). sat_pred R \<sigma> p))"
    using 1(3) 2(1,2,4) by (intro exI[of _ \<sigma>2] exI[of _ \<nu>2]) simp
qed

lemma create_inclusions_run:
  "length ls = length rs \<Longrightarrow>
     create_inclusions_from_multiple_sides ls rs = Inr (map (\<lambda>e. create_equation (fst e) (snd e)) (zip ls rs))"
  by (induction ls rs rule: create_inclusions_from_multiple_sides.induct) simp_all

lemma left_law_transfer:
  assumes "left_law lang aa T x r" and "T \<subseteq> get_keys aa'" and "get_keys aa' \<subseteq> get_keys aa"
    and "\<And>t. t \<in> get_keys aa' \<Longrightarrow> term_lang lang aa' t = term_lang lang aa t"
    and "\<And>t. t \<in> get_keys aa \<Longrightarrow> is_literal t \<Longrightarrow> t \<in> get_keys aa'"
  shows "left_law lang aa' T x r"
proof -
  have "langs_on lang aa' T \<sigma> \<longleftrightarrow> langs_on lang aa T \<sigma>" for \<sigma>
    using assms(2,4) by (auto simp: langs_on_def)
  then show ?thesis using assms by (auto simp: left_law_def)
qed

text \<open>The second half of a noodlification, for the equations between new terms and old variables.\<close>

definition noodle_equations :: "concat \<Rightarrow> concat list \<Rightarrow> concat list \<Rightarrow> concat list \<Rightarrow> (concat \<times> concat) set" where
  "noodle_equations ls lefts rd rights = set (zip rights rd) \<union> set (zip (map (\<lambda>t. [t]) ls) lefts)"

lemma substitute_noodle_ok:
  assumes ok: "state_ok lang V S" and T: "T \<subseteq> get_keys (ss_aut S)"
    and right: "length rights = length rd" "\<And>l r. (l, r) \<in> set (zip rights rd) \<Longrightarrow> right_law lang (ss_aut S) T (ss_len_vars S) l r"
    and left: "length lefts = length ls"
      "\<And>x r. (x, r) \<in> set (zip ls lefts) \<Longrightarrow> x \<in> get_keys (ss_aut S) \<and> left_law lang (ss_aut S) T x r"
  shows "\<exists>S'. substitute_noodle (map (\<lambda>t. [t]) ls) lefts rd rights on_cycle I S = Inr S' \<and> state_ok lang V S' \<and>
    mentions S' \<subseteq> mentions S \<and> length (ss_diseqs S') = length (ss_diseqs S) \<and>
    replaced R C lang I (eqs_hold (noodle_equations ls lefts rd rights)) S S'"
proof -
  have "\<And>e. e \<in> set (zip rights rd) \<Longrightarrow> right_law lang (ss_aut S) T (ss_len_vars S) (fst e) (snd e)"
    using right(2) by simp
  then obtain S1 nsR where run1: "process_substituting_inclusions_from_right
        (map (\<lambda>e. create_equation (fst e) (snd e)) (zip rights rd)) on_cycle S = Inr (S1, nsR)"
    and S1: "processed lang V T R C (set (zip rights rd)) S S1 nsR"
    using process_right_ok[OF ok T, of "zip rights rd"] by blast
  have S1': "state_ok lang V S1" "adds R C lang (eqs_hold (set (zip rights rd))) S S1" "T \<subseteq> get_keys (ss_aut S1)"
      "get_keys (ss_aut S1) \<union> set nsR = get_keys (ss_aut S)" "set nsR \<inter> get_keys (ss_aut S1) = {}"
      "\<And>x. x \<in> set nsR \<Longrightarrow> is_variable x"
      "\<And>t. t \<in> get_keys (ss_aut S1) \<Longrightarrow> term_lang lang (ss_aut S1) t = term_lang lang (ss_aut S) t"
    using S1 unfolding processed_def by blast+
  let ?left = "zip (map (\<lambda>t. [t]) ls) lefts"
  have "\<exists>x. fst e = [x] \<and> x \<in> state_vars S1 \<and> left_law lang (ss_aut S1) T x (snd e)" if e: "e \<in> set ?left" for e
  proof -
    obtain x r where xr: "e = ([x], r)" "(x, r) \<in> set (zip ls lefts)" using e by (auto simp: zip_map1)
    have lit: "t \<in> get_keys (ss_aut S1)" if "t \<in> get_keys (ss_aut S)" "is_literal t" for t
      using that S1'(4,6) variable_not_literal[of t] by blast
    have "get_keys (ss_aut S1) \<subseteq> get_keys (ss_aut S)" using S1'(4) by blast
    then have "left_law lang (ss_aut S1) T x r"
      by (rule left_law_transfer[OF conjunct2[OF left(2)[OF xr(2)]] S1'(3) _ S1'(7) lit])
    moreover have "x \<in> state_vars S1"
      using left(2)[OF xr(2)] addsD(3)[OF S1'(2)] by (auto simp: same_arith_def state_vars_def)
    ultimately show ?thesis using xr(1) by simp
  qed
  then obtain S2 nsL where run2: "process_substituting_inclusions_from_left
        (map (\<lambda>e. create_equation (fst e) (snd e)) ?left) on_cycle S1 = Inr (S2, nsL)"
    and S2: "processed lang V T R C (set ?left) S1 S2 nsL"
    using process_left_ok[OF S1'(1,3), of ?left] by blast
  have S2': "state_ok lang V S2" "adds R C lang (eqs_hold (set ?left)) S1 S2" "get_keys (ss_aut S2) \<union> set nsL = get_keys (ss_aut S1)"
      "set nsL \<inter> get_keys (ss_aut S2) = {}" "\<And>x. x \<in> set nsL \<Longrightarrow> is_variable x"
    using S2 unfolding processed_def by blast+
  have adds: "adds R C lang (eqs_hold (noodle_equations ls lefts rd rights)) S S2"
    by (rule adds_trans[OF S1'(2) S2'(2)]) (simp add: noodle_equations_def)
  have vars: "state_vars S2 = state_vars S" using addsD(3)[OF adds] by (simp add: same_arith_def)
  define W1 where "W1 = set nsR - I - referenced S2"
  define W2 where "W2 = set nsL - I - referenced (without_vars W1 S2)"
  have nsR: "set nsR \<inter> get_keys (ss_aut S2) = {}" using S1'(5) S2'(3) by blast
  have rem1: "remove_vars nsR I S2 = Inr (without_vars W1 S2)"
    unfolding W1_def by (rule remove_vars_run[OF state_okD(5)[OF S2'(1)] nsR])
  have rem2: "remove_vars nsL I (without_vars W1 S2) = Inr (without_vars (W1 \<union> W2) S2)"
    using remove_vars_run[OF state_okD(5)[OF without_vars_ok[OF S2'(1)]], of nsL W1 I] S2'(4)
    by (simp add: without_vars_twice W2_def) (simp add: without_vars_def)
  have ref: "referenced (without_vars W1 S2) = referenced S2" by (simp add: referenced_def without_vars_def)
  have W: "W1 \<union> W2 \<subseteq> set nsR \<union> set nsL" "(W1 \<union> W2) \<inter> referenced S2 = {}" "(W1 \<union> W2) \<inter> I = {}"
    unfolding W2_def ref by (auto simp: W1_def)
  have keys: "(W1 \<union> W2) \<inter> get_keys (ss_aut S2) = {}" using W(1) nsR S2'(4) by blast
  have "W1 \<union> W2 \<subseteq> state_vars S2"
    using W(1) S1'(4) S2'(3) unfolding vars by (auto simp: state_vars_def)
  then have sub: "W1 \<union> W2 \<subseteq> fst ` set (ss_subst S2)" using keys by (auto simp: state_vars_def)
  have "\<not> is_literal x" if "x \<in> W1 \<union> W2" for x using that W(1) S1'(6) S2'(5) variable_not_literal[of x] by blast
  then have "replaced R C lang I (\<lambda>\<sigma>. True) S2 (without_vars (W1 \<union> W2) S2)"
    by (intro without_vars_replaced[OF S2'(1) sub W(2) keys W(3)]) blast
  then have repl: "replaced R C lang I (eqs_hold (noodle_equations ls lefts rd rights)) S (without_vars (W1 \<union> W2) S2)"
    by (rule replaced_trans[OF adds_replaced[OF adds]]) simp
  have men: "mentions (without_vars (W1 \<union> W2) S2) \<subseteq> mentions S"
    using mentions_without_vars[of _ S2] mentions_same_arith[OF addsD(3)[OF adds]] by simp
  have "substitute_noodle (map (\<lambda>t. [t]) ls) lefts rd rights on_cycle I S = Inr (without_vars (W1 \<union> W2) S2)"
    using create_inclusions_run[OF right(1)] create_inclusions_run[of "map (\<lambda>t. [t]) ls" lefts] left(1) run1 run2 rem1 rem2
    by (simp add: substitute_noodle_def)
  moreover have "length (ss_diseqs (without_vars (W1 \<union> W2) S2)) = length (ss_diseqs S)"
    using addsD(3)[OF adds] by (simp add: same_arith_def without_vars_def)
  ultimately show ?thesis using without_vars_ok[OF S2'(1)] men repl by blast
qed

section \<open>The laws of the equations of a noodle\<close>

lemma eval_grouped:
  assumes "i < n"
  shows "eval_concat \<sigma> (grouped n is us ! i) = map concat (grouped n is (map (eval_term \<sigma>) us)) ! i"
proof -
  have "map (eval_term \<sigma>) (grouped n is us ! i) = grouped n is (map (eval_term \<sigma>) us) ! i"
    using assms grouped_simps(3)[of "eval_term \<sigma>" n "is" us] by (metis grouped_simps(1) nth_map)
  then show ?thesis using assms by (simp add: eval_concat_def)
qed

lemma new_terms:
  assumes ext: "extended lang V R C X S as vs Q S'" and v: "v \<in> set vs" "is_variable v"
  shows "v \<notin> mentions S"
proof -
  obtain i where i: "i < length vs" "v = vs ! i" using v(1) by (auto simp: in_set_conv_nth)
  have "new_term lang (mentions S \<union> X) (as ! i) (vs ! i)"
    using extendedD(2)[OF ext] i(1) by (simp add: list_all2_conv_all_nth)
  then show ?thesis using v(2) i(2) variable_not_literal[of v] by (auto simp: new_term_def)
qed

text \<open>
  The terms \<open>us\<close> are the new terms of one side, whose automata are \<open>As\<close>. The words of the
  segments form words of these automata.
\<close>

definition side_words ::
    "('a \<Rightarrow> zstring set) \<Rightarrow> 'a aut_assignment \<Rightarrow> basic_term set \<Rightarrow> 'a list \<Rightarrow> nat list \<Rightarrow> basic_term list \<Rightarrow> bool" where
  "side_words lang aa T As is us \<longleftrightarrow> set us \<subseteq> T \<and>
     (\<forall>\<sigma>. langs_on lang aa T \<sigma> \<longrightarrow> words_of lang As (map concat (grouped (length As) is (map (eval_term \<sigma>) us))))"

lemma side_words_at:
  assumes "side_words lang aa T As is us" and "i < length As" and "langs_on lang aa T \<sigma>"
  shows "eval_concat \<sigma> (grouped (length As) is us ! i) \<in> lang (As ! i)"
  using assms unfolding side_words_def words_of_def eval_grouped[OF assms(2)] by (auto simp: list_all2_conv_all_nth)

lemma noodle_right_law:
  assumes ext: "extended lang V R C X S as vs Q S'" and div: "division_ok lang V S grouping rs As rd"
    and rs: "set rs \<subseteq> get_keys (ss_aut S)" and side: "side_words lang (ss_aut S') (set vs) As is us"
    and lr: "(l, r) \<in> set (zip (grouped (length rd) is us) rd)"
  shows "right_law lang (ss_aut S') (set vs) (ss_len_vars S') l r"
proof -
  have len: "length As = length rd" and parts: "\<And>j. j < length rd \<Longrightarrow> part_law lang V S (As ! j) (rd ! j)"
    using div by (auto simp: division_ok_def list_all2_conv_all_nth)
  obtain j where j: "j < length rd" "l = grouped (length rd) is us ! j" "r = rd ! j" using lr by (auto simp: set_zip)
  have "r \<in> set rd" using j by simp
  moreover have "(\<Union>d \<in> set rd. set d) = set rs" using div by (auto simp: division_ok_def)
  ultimately have r: "set r \<subseteq> get_keys (ss_aut S)" using rs by blast
  have "l \<in> set (grouped (length rd) is us)" using j by simp
  then have "set l \<subseteq> set vs" using set_grouped[of l "length rd" "is" us] side by (auto simp: side_words_def)
  moreover have "set r \<subseteq> get_keys (ss_aut S')" using r extendedD(3)[OF ext] by blast
  moreover have "x \<notin> set vs" if "x \<in> set r" "is_variable x" for x
    using new_terms[OF ext _ that(2)] that(1) r keys_mentions by blast
  moreover have "\<exists>x. r = [x]" if "x \<in> set r" "x \<in> ss_len_vars S'" for x
  proof -
    have "x \<in> mentions S" using that(1) r keys_mentions by blast
    then have "contains_length_var S r" using that extendedD(7)[OF ext] by (auto simp: contains_length_var_def)
    then have "length r = 1" using parts[OF j(1)] j(3) by (simp add: part_law_def)
    then show ?thesis by (auto simp: length_Suc_conv)
  qed
  moreover have "eval_concat \<sigma> l \<in> term_lang lang (ss_aut S') x" if x: "r = [x]" and langs: "langs_on lang (ss_aut S') (set vs) \<sigma>" for x \<sigma>
  proof -
    have "rd ! j = [x]" using j(3) x by simp
    then have "lang (As ! j) = term_lang lang (ss_aut S) x" using parts[OF j(1)] by (simp add: part_law_def)
    moreover have "x \<in> get_keys (ss_aut S)" using r x by simp
    ultimately show ?thesis
      using side_words_at[OF side _ langs, of j] j len extendedD(6)[OF ext] by simp
  qed
  ultimately show ?thesis unfolding right_law_def by blast
qed

lemma noodle_left_law:
  assumes ext: "extended lang V R C X S as vs Q S'" and div: "division_ok lang V S False ls As ld"
    and ls: "set ls \<subseteq> get_keys (ss_aut S)" and side: "side_words lang (ss_aut S') (set vs) As is us"
    and xr: "(x, r) \<in> set (zip ls (grouped (length ls) is us))"
  shows "x \<in> get_keys (ss_aut S') \<and> left_law lang (ss_aut S') (set vs) x r"
proof -
  have ld: "ld = map (\<lambda>t. [t]) ls" using div by (simp add: division_ok_def)
  then have len: "length As = length ls" and parts: "\<And>j. j < length ls \<Longrightarrow> part_law lang V S (As ! j) [ls ! j]"
    using div by (auto simp: division_ok_def list_all2_conv_all_nth)
  obtain j where j: "j < length ls" "x = ls ! j" "r = grouped (length ls) is us ! j" using xr by (auto simp: set_zip)
  have x: "x \<in> get_keys (ss_aut S)" using j ls by auto
  then have x': "x \<in> get_keys (ss_aut S')" using extendedD(3)[OF ext] by blast
  note shape = aut_shapeD[OF state_okD(2)[OF extendedD(1)[OF ext]]]
  have "r \<in> set (grouped (length ls) is us)" using j by simp
  then have "set r \<subseteq> set vs" using set_grouped[of r "length ls" "is" us] side by (auto simp: side_words_def)
  moreover have "x \<notin> set vs" if "is_variable x" using new_terms[OF ext _ that] x keys_mentions by blast
  moreover have "eval_concat \<sigma> r \<in> term_lang lang (ss_aut S') x" if langs: "langs_on lang (ss_aut S') (set vs) \<sigma>" for \<sigma>
    using side_words_at[OF side _ langs, of j] j len parts[OF j(1)] extendedD(6)[OF ext x] by (simp add: part_law_def)
  ultimately show ?thesis unfolding left_law_def using shape(1,2)[OF x'] x' by blast
qed

text \<open>What the equations of a noodle say about the words of the sides.\<close>

lemma eqs_hold_zip:
  assumes "length ls = length rs"
  shows "eqs_hold (set (zip ls rs)) \<sigma> \<longleftrightarrow> map (eval_concat \<sigma>) ls = map (eval_concat \<sigma>) rs"
  using assms by (induction ls rs rule: list_induct2) auto

lemma eval_groups: "map (eval_concat \<sigma>) (grouped n is us) = map concat (grouped n is (map (eval_term \<sigma>) us))"
  by (rule nth_equalityI) (simp_all add: eval_grouped)

lemma noodle_equations_hold:
  "eqs_hold (noodle_equations ls (grouped (length ls) lis us) rd (grouped (length rd) ris rts)) \<sigma> \<longleftrightarrow>
     map (eval_term \<sigma>) ls = map concat (grouped (length ls) lis (map (eval_term \<sigma>) us)) \<and>
     map (eval_concat \<sigma>) rd = map concat (grouped (length rd) ris (map (eval_term \<sigma>) rts))"
proof -
  have single: "eval_concat \<sigma> \<circ> (\<lambda>t. [t]) = eval_term \<sigma>" by (simp add: fun_eq_iff)
  show ?thesis
    using eqs_hold_zip[of "grouped (length rd) ris rts" rd \<sigma>] eqs_hold_zip[of "map (\<lambda>t. [t]) ls" "grouped (length ls) lis us" \<sigma>]
    unfolding noodle_equations_def eval_groups map_map single by auto
qed

section \<open>The states of the noodles\<close>

text \<open>Every solution of \<open>S'\<close> is one of \<open>S\<close> that satisfies \<open>P\<close>, up to the variables outside of \<open>I\<close>.\<close>

definition derived ::
    "(nat \<Rightarrow> (zstring \<times> zstring) set) \<Rightarrow> conversion_sem \<Rightarrow> ('a \<Rightarrow> zstring set) \<Rightarrow> basic_term set \<Rightarrow> (assignment \<Rightarrow> bool) \<Rightarrow>
     'a solving_state \<Rightarrow> 'a solving_state \<Rightarrow> bool" where
  "derived R C lang I P S S' \<longleftrightarrow> (\<forall>\<sigma> \<nu>. state_models lang R C S' \<sigma> \<nu> \<longrightarrow>
     (\<exists>\<sigma>' \<nu>'. state_models lang R C S \<sigma>' \<nu>' \<and> P \<sigma>' \<and> agree I \<sigma> \<nu> \<sigma>' \<nu>' \<and>
        ((\<forall>p \<in> set (ss_to_process S). sat_pred R \<sigma>' p) \<longrightarrow> (\<forall>p \<in> set (ss_to_process S'). sat_pred R \<sigma> p))))"

lemma replaced_derived: "replaced R C lang I P S S' \<Longrightarrow> derived R C lang I P S S'"
  unfolding derived_def using replacedD(2) by metis

definition dp_states :: "'a dec_proc \<Rightarrow> 'a solving_state set" where
  "dp_states dp = set (dp_worklist dp) \<union> set (dp_possible_solutions dp)"

text \<open>
  The procedure \<open>dp'\<close> has the states of \<open>dp\<close> and the new states \<open>N\<close>, which are derived from \<open>S\<close>.
\<close>

definition spawns ::
    "('a \<Rightarrow> zstring set) \<Rightarrow> ('a \<Rightarrow> bool) \<Rightarrow> (nat \<Rightarrow> (zstring \<times> zstring) set) \<Rightarrow> conversion_sem \<Rightarrow> (assignment \<Rightarrow> bool) \<Rightarrow>
     'a solving_state \<Rightarrow> 'a dec_proc \<Rightarrow> 'a dec_proc \<Rightarrow> 'a solving_state set \<Rightarrow> bool" where
  "spawns lang V R C P S dp dp' N \<longleftrightarrow> dp_states dp' = dp_states dp \<union> N \<and>
     dp_initial_variables dp' = dp_initial_variables dp \<and> ids_le (dp_fresh dp) (dp_fresh dp') \<and>
     (\<forall>S' \<in> N. state_ok lang V S' \<and> ids_cover (dp_fresh dp') (mentions S') \<and> length (ss_diseqs S') = length (ss_diseqs S) \<and>
        derived R C lang (dp_initial_variables dp) P S S')"

lemma dp_states_push [simp]: "dp_states (push_to_worklist S to_back dp) = insert S (dp_states dp)"
  by (auto simp: push_to_worklist_def dp_states_def)

lemma push_simps [simp]:
  "dp_initial_variables (push_to_worklist S to_back dp) = dp_initial_variables dp"
  "dp_fresh (push_to_worklist S to_back dp) = dp_fresh dp"
  "dp_noodlification_no (push_to_worklist S to_back dp) = dp_noodlification_no dp"
  by (simp_all add: push_to_worklist_def)

lemma dp_states_update [simp]:
  "dp_states (dp\<lparr>dp_fresh := f\<rparr>) = dp_states dp" "dp_states (dp\<lparr>dp_noodlification_no := k\<rparr>) = dp_states dp"
  "dp_states (dp\<lparr>dp_solution := S\<rparr>) = dp_states dp"
  by (simp_all add: dp_states_def)

lemma spawns_none: "spawns lang V R C P S dp dp {}"
  by (simp add: spawns_def)

lemma spawns_trans:
  assumes "spawns lang V R C P S dp dp1 N1" and "spawns lang V R C P S dp1 dp2 N2"
  shows "spawns lang V R C P S dp dp2 (N1 \<union> N2)"
proof -
  have "ids_cover (dp_fresh dp2) (mentions S')" if "S' \<in> N1" for S'
    using that assms ids_cover_mono[OF _ subset_refl] by (auto simp: spawns_def)
  then show ?thesis
    using assms ids_le_trans[of "dp_fresh dp" "dp_fresh dp1" "dp_fresh dp2"] unfolding spawns_def by auto
qed

text \<open>
  A loop over noodles: each of them yields one state, in which the solutions for which \<open>D\<close>
  holds live on.
\<close>

definition lives_on ::
    "('a \<Rightarrow> zstring set) \<Rightarrow> (nat \<Rightarrow> (zstring \<times> zstring) set) \<Rightarrow> conversion_sem \<Rightarrow> basic_term set \<Rightarrow>
     assignment \<Rightarrow> (basic_term \<Rightarrow> int) \<Rightarrow> 'a solving_state set \<Rightarrow> bool" where
  "lives_on lang R C I \<sigma> \<nu> N \<longleftrightarrow>
     (\<exists>S' \<in> N. \<exists>\<sigma>' \<nu>'. state_models lang R C S' \<sigma>' \<nu>' \<and> agree I \<sigma> \<nu> \<sigma>' \<nu>')"

lemma lives_on_Un: "lives_on lang R C I \<sigma> \<nu> (N \<union> M) \<longleftrightarrow> lives_on lang R C I \<sigma> \<nu> N \<or> lives_on lang R C I \<sigma> \<nu> M"
  unfolding lives_on_def by (rule bex_Un)

lemma for_each_noodles:
  assumes step: "\<And>n dp. n \<in> set ns \<Longrightarrow> dp_initial_variables dp = I \<Longrightarrow> ids_cover (dp_fresh dp) (mentions S \<union> I) \<Longrightarrow>
      \<exists>dp' N. f n dp = Inr dp' \<and> spawns lang V R C P S dp dp' N \<and> (\<forall>\<sigma> \<nu>. D n \<sigma> \<nu> \<longrightarrow> lives_on lang R C I \<sigma> \<nu> N)"
    and "dp_initial_variables dp = I" and "ids_cover (dp_fresh dp) (mentions S \<union> I)"
  shows "\<exists>dp' N. for_each f ns dp = Inr dp' \<and> spawns lang V R C P S dp dp' N \<and>
    (\<forall>n \<in> set ns. \<forall>\<sigma> \<nu>. D n \<sigma> \<nu> \<longrightarrow> lives_on lang R C I \<sigma> \<nu> N)"
  using assms
proof (induction ns arbitrary: dp)
  case Nil
  then show ?case using spawns_none by fastforce
next
  case (Cons n ns)
  obtain dp1 N1 where 1: "f n dp = Inr dp1" "spawns lang V R C P S dp dp1 N1" "\<forall>\<sigma> \<nu>. D n \<sigma> \<nu> \<longrightarrow> lives_on lang R C I \<sigma> \<nu> N1"
    using Cons.prems(1)[of n dp] Cons.prems(2,3) by auto
  have "dp_initial_variables dp1 = I" "ids_cover (dp_fresh dp1) (mentions S \<union> I)"
    using 1(2) Cons.prems(2,3) ids_cover_mono[OF Cons.prems(3) subset_refl] by (simp_all add: spawns_def)
  then obtain dp2 N2 where 2: "for_each f ns dp1 = Inr dp2" "spawns lang V R C P S dp1 dp2 N2"
      "\<forall>n \<in> set ns. \<forall>\<sigma> \<nu>. D n \<sigma> \<nu> \<longrightarrow> lives_on lang R C I \<sigma> \<nu> N2"
    using Cons.IH[of dp1] Cons.prems(1) by (metis list.set_intros(2))
  have "lives_on lang R C I \<sigma> \<nu> (N1 \<union> N2)" if "n' \<in> set (n # ns)" "D n' \<sigma> \<nu>" for n' \<sigma> \<nu>
    using that 1(3) 2(3) unfolding lives_on_Un by auto
  then show ?case using 1(1) 2(1) spawns_trans[OF 1(2) 2(2)] by (intro exI[of _ dp2] exI[of _ "N1 \<union> N2"]) auto
qed

section \<open>Noodles of equations\<close>

text \<open>
  What the procedure relies on: the segments of a noodle are ordered on both sides and form
  words of the automata of the sides, and every way to align words of the two sides is covered
  by a noodle.
\<close>

abbreviation left_positions :: "('a \<times> nat \<times> nat) list \<Rightarrow> nat list" where
  "left_positions noodle \<equiv> map (\<lambda>s. fst (snd s)) noodle"

abbreviation right_positions :: "('a \<times> nat \<times> nat) list \<Rightarrow> nat list" where
  "right_positions noodle \<equiv> map (\<lambda>s. snd (snd s)) noodle"

definition equation_noodle_law ::
    "('a \<Rightarrow> zstring set) \<Rightarrow> ('a \<Rightarrow> bool) \<Rightarrow> 'a mata \<Rightarrow> 'a list \<Rightarrow> 'a list \<Rightarrow> ('a \<times> nat \<times> nat) list \<Rightarrow> bool" where
  "equation_noodle_law lang V m Ls Rs noodle \<longleftrightarrow>
     (\<forall>(a, l, r) \<in> set noodle. segment_law lang V m a \<and> l < length Ls \<and> r < length Rs) \<and>
     sorted (left_positions noodle) \<and> sorted (right_positions noodle) \<and>
     (\<forall>ws. words_of lang (map fst noodle) ws \<longrightarrow>
        words_of lang Ls (map concat (grouped (length Ls) (left_positions noodle) ws)) \<and>
        words_of lang Rs (map concat (grouped (length Rs) (right_positions noodle) ws)))"

definition aligns ::
    "('a \<Rightarrow> zstring set) \<Rightarrow> ('a \<times> nat \<times> nat) list \<Rightarrow> zstring list \<Rightarrow> zstring list \<Rightarrow> bool" where
  "aligns lang noodle us vs \<longleftrightarrow> (\<exists>ws. words_of lang (map fst noodle) ws \<and>
     us = map concat (grouped (length us) (left_positions noodle) ws) \<and>
     vs = map concat (grouped (length vs) (right_positions noodle) ws))"

definition noodlify_equation_law :: "('a \<Rightarrow> zstring set) \<Rightarrow> ('a \<Rightarrow> bool) \<Rightarrow> 'a mata \<Rightarrow> 'a mata_strings \<Rightarrow> bool" where
  "noodlify_equation_law lang V m ms \<longleftrightarrow> (\<forall>Ls Rs. (\<forall>a \<in> set Ls \<union> set Rs. V a) \<longrightarrow>
     (\<forall>noodle \<in> set (noodlify_for_equation ms Ls Rs). equation_noodle_law lang V m Ls Rs noodle) \<and>
     (\<forall>us vs. words_of lang Ls us \<longrightarrow> words_of lang Rs vs \<longrightarrow> concat us = concat vs \<longrightarrow>
        (\<exists>noodle \<in> set (noodlify_for_equation ms Ls Rs). aligns lang noodle us vs)))"

lemma state_siblings [simp]:
  "state_models lang R C (S\<lparr>ss_has_siblings := b\<rparr>) = state_models lang R C S"
  "state_okN lang V N (S\<lparr>ss_has_siblings := b\<rparr>) = state_okN lang V N S"
  "mentions (S\<lparr>ss_has_siblings := b\<rparr>) = mentions S"
  by (simp_all add: fun_eq_iff state_models_def state_okN_def state_preds_def arith_models_def state_vars_def
      mentions_def arith_vars_def kinds_ok_def lens_ok_def)

lemma eval_concat_concat: "eval_concat \<sigma> (concat ds) = concat (map (eval_concat \<sigma>) ds)"
  by (induction ds) simp_all

lemma concat_concats: "concat (map concat xss) = concat (concat xss)"
  by (induction xss) simp_all

lemma concat_grouped_words:
  assumes "sorted is" and "\<And>i. i \<in> set is \<Longrightarrow> i < n" and "length is = length ws"
  shows "concat (map concat (grouped n is ws)) = concat ws"
  using concat_grouped[OF assms] by (simp add: concat_concats)

lemma words_of_new_terms:
  assumes "extended lang V R C X S as vs Q S'" and "langs_on lang (ss_aut S') (set vs) \<sigma>"
  shows "words_of lang as (map (eval_term \<sigma>) vs)"
  using extendedD(2)[OF assms(1)] assms(2) nth_mem by (fastforce simp: words_of_def list_all2_conv_all_nth langs_on_def)

lemma division_okD:
  assumes "division_ok lang V S grouping con as ds"
  shows "concat ds = con" "length as = length ds" "\<not> grouping \<Longrightarrow> length as = length con" "\<And>a. a \<in> set as \<Longrightarrow> V a"
proof -
  show "concat ds = con" using assms by (simp add: division_ok_def)
  have parts: "list_all2 (part_law lang V S) as ds" using assms by (simp add: division_ok_def)
  then show len: "length as = length ds" by (rule list_all2_lengthD)
  show "length as = length con" if "\<not> grouping"
  proof -
    have "ds = map (\<lambda>t. [t]) con" using that assms by (simp add: division_ok_def)
    then show ?thesis using len by simp
  qed
  show "V a" if "a \<in> set as" for a
    using that parts by (auto simp: list_all2_conv_all_nth in_set_conv_nth part_law_def)
qed

text \<open>
  The second half for the noodles of equations and of transducers. \<open>us\<close> and \<open>rts\<close> are the new
  terms of the two sides.
\<close>

definition sides_match ::
    "concat \<Rightarrow> nat list \<Rightarrow> basic_term list \<Rightarrow> concat list \<Rightarrow> nat list \<Rightarrow> basic_term list \<Rightarrow> assignment \<Rightarrow> bool" where
  "sides_match ls lis us rd ris rts \<sigma> \<longleftrightarrow>
     map (eval_term \<sigma>) ls = map concat (grouped (length ls) lis (map (eval_term \<sigma>) us)) \<and>
     map (eval_concat \<sigma>) rd = map concat (grouped (length rd) ris (map (eval_term \<sigma>) rts))"

lemma noodle_substituted:
  assumes ext: "extended lang V R C I S as vs Q S1"
    and left: "division_ok lang V S False ls Ls ld" "set ls \<subseteq> get_keys (ss_aut S)" "side_words lang (ss_aut S1) (set vs) Ls lis us"
    and right: "division_ok lang V S grouping rs Rs rd" "set rs \<subseteq> get_keys (ss_aut S)" "side_words lang (ss_aut S1) (set vs) Rs ris rts"
  obtains S' where "substitute_noodle ld (grouped (length ls) lis us) rd (grouped (length rd) ris rts) on_cycle I S1 = Inr S'"
    "state_ok lang V S'" "mentions S' \<subseteq> mentions S1" "replaced R C lang I (sides_match ls lis us rd ris rts) S1 S'"
    "length (ss_diseqs S') = length (ss_diseqs S)"
proof -
  have ld: "ld = map (\<lambda>t. [t]) ls" using left(1) by (simp add: division_ok_def)
  have "set vs \<subseteq> get_keys (ss_aut S1)" using extendedD(3)[OF ext] by blast
  then obtain S' where S': "substitute_noodle ld (grouped (length ls) lis us) rd (grouped (length rd) ris rts) on_cycle I S1 = Inr S'"
      "state_ok lang V S'" "mentions S' \<subseteq> mentions S1" "length (ss_diseqs S') = length (ss_diseqs S1)"
      "replaced R C lang I (eqs_hold (noodle_equations ls (grouped (length ls) lis us) rd (grouped (length rd) ris rts))) S1 S'"
    using substitute_noodle_ok[OF extendedD(1)[OF ext], of "set vs" "grouped (length rd) ris rts" rd "grouped (length ls) lis us" ls
        on_cycle I R C] noodle_right_law[OF ext right] noodle_left_law[OF ext left] unfolding ld by auto
  have "eqs_hold (noodle_equations ls (grouped (length ls) lis us) rd (grouped (length rd) ris rts)) = sides_match ls lis us rd ris rts"
    by (simp add: fun_eq_iff noodle_equations_hold sides_match_def)
  then show ?thesis using that S' extendedD(10)[OF ext] by simp
qed

lemma noodle_derived:
  assumes ext: "extended lang V R C I S as vs Q S1" and repl: "replaced R C lang I M S1 S'"
    and P: "\<And>\<sigma>. langs_on lang (ss_aut S1) (set vs) \<sigma> \<Longrightarrow> Q (map (eval_term \<sigma>) vs) \<Longrightarrow> M \<sigma> \<Longrightarrow> P \<sigma>"
  shows "derived R C lang I P S S'"
  unfolding derived_def
proof (intro allI impI)
  fix \<sigma> \<nu> assume "state_models lang R C S' \<sigma> \<nu>"
  then obtain \<sigma>' \<nu>' where m: "state_models lang R C S1 \<sigma>' \<nu>'" "M \<sigma>'" "agree I \<sigma> \<nu> \<sigma>' \<nu>'"
      "(\<forall>p \<in> set (ss_to_process S1). sat_pred R \<sigma>' p) \<longrightarrow> (\<forall>p \<in> set (ss_to_process S'). sat_pred R \<sigma> p)"
    using replacedD(2)[OF repl, of \<sigma> \<nu>] by auto
  have "langs_on lang (ss_aut S1) (set vs) \<sigma>'"
    using m(1) extendedD(3)[OF ext] by (auto simp: langs_on_def state_models_def langs_ok_def)
  then show "\<exists>\<sigma>' \<nu>'. state_models lang R C S \<sigma>' \<nu>' \<and> P \<sigma>' \<and> agree I \<sigma> \<nu> \<sigma>' \<nu>' \<and>
      ((\<forall>p \<in> set (ss_to_process S). sat_pred R \<sigma>' p) \<longrightarrow> (\<forall>p \<in> set (ss_to_process S'). sat_pred R \<sigma> p))"
    using m extendedD(8)[OF ext m(1)] extendedD(5)[OF ext] P[of \<sigma>'] by (intro exI[of _ \<sigma>'] exI[of _ \<nu>']) simp
qed

lemma noodle_lives_on:
  assumes ext: "extended lang V R C I S as vs Q S1" and repl: "replaced R C lang I M S1 S'"
    and models: "state_models lang R C S \<sigma> \<nu>" and ws: "words_of lang as ws" "Q ws"
    and M: "\<And>\<sigma>'. map (eval_term \<sigma>') vs = ws \<Longrightarrow> (\<And>t. t \<in> get_keys (ss_aut S) \<Longrightarrow> eval_term \<sigma>' t = eval_term \<sigma> t) \<Longrightarrow> M \<sigma>'"
  shows "lives_on lang R C I \<sigma> \<nu> {S'}"
proof -
  obtain \<sigma>' \<nu>' where m: "state_models lang R C S1 \<sigma>' \<nu>'" "map (eval_term \<sigma>') vs = ws" "agree (mentions S \<union> I) \<sigma> \<nu> \<sigma>' \<nu>'"
    using extendedD(9)[OF ext models ws] by blast
  have "eval_term \<sigma>' t = eval_term \<sigma> t" if "t \<in> get_keys (ss_aut S)" for t
    using that m(3) keys_mentions by (auto simp: agree_def eval_term_def)
  then have "state_models lang R C S' \<sigma>' \<nu>'" using replacedD(1)[OF repl m(1)] M m(2) by blast
  then show ?thesis using m(3) by (auto simp: lives_on_def intro: agree_mono)
qed

lemma sides_match_agree:
  assumes same: "\<And>t. t \<in> K \<Longrightarrow> eval_term \<sigma>' t = eval_term \<sigma> t" and ls: "set ls \<subseteq> K" "set (concat rd) \<subseteq> K"
    and us: "map (eval_term \<sigma>') us = ws" "map (eval_term \<sigma>') rts = zs'"
    and m: "map (eval_term \<sigma>) ls = map concat (grouped (length ls) lis ws)" "map (eval_concat \<sigma>) rd = map concat (grouped (length rd) ris zs')"
  shows "sides_match ls lis us rd ris rts \<sigma>'"
proof -
  have "map (eval_term \<sigma>') ls = map (eval_term \<sigma>) ls" using same ls(1) by auto
  moreover have "eval_concat \<sigma>' d = eval_concat \<sigma> d" if d: "d \<in> set rd" for d
  proof -
    have "eval_term \<sigma>' t = eval_term \<sigma> t" if "t \<in> set d" for t using that d ls(2) same by auto
    then show ?thesis unfolding eval_concat_def by (metis map_cong)
  qed
  then have "map (eval_concat \<sigma>') rd = map (eval_concat \<sigma>) rd" by simp
  ultimately show ?thesis using us m by (simp add: sides_match_def)
qed

lemma sides_match_eval:
  assumes "sides_match ls lis us rd ris rts \<sigma>" and "sorted lis" and "\<And>i. i \<in> set lis \<Longrightarrow> i < length ls" and "length lis = length us"
    and "sorted ris" and "\<And>i. i \<in> set ris \<Longrightarrow> i < length rd" and "length ris = length rts"
  shows "eval_concat \<sigma> ls = eval_concat \<sigma> us" "eval_concat \<sigma> (concat rd) = eval_concat \<sigma> rts"
  using assms(1) concat_grouped_words[OF assms(2,3), of "map (eval_term \<sigma>) us"] concat_grouped_words[OF assms(5,6), of "map (eval_term \<sigma>) rts"]
    assms(4,7)
  by (simp_all add: sides_match_def eval_concat_concat) (simp_all add: eval_concat_def)

lemma spawns_state:
  assumes "state_ok lang V S'" and "mentions S' \<subseteq> mentions S1" and "ids_cover ids (mentions S1)" and "ids_le (dp_fresh dp) ids"
    and "derived R C lang (dp_initial_variables dp) P S S'" and "length (ss_diseqs S') = length (ss_diseqs S)"
  shows "spawns lang V R C P S dp (push_to_worklist S' to_back (dp\<lparr>dp_fresh := ids\<rparr>)) {S'}"
  using assms ids_cover_mono[OF assms(3,2) ids_le_refl] by (simp add: spawns_def)

lemma equation_noodle_ok:
  assumes ok: "state_ok lang V S" and left: "division_ok lang V S False ls Ls ld" "set ls \<subseteq> get_keys (ss_aut S)"
    and right: "division_ok lang V S grouping rs Rs rd" "set rs \<subseteq> get_keys (ss_aut S)"
    and law: "equation_noodle_law lang V m Ls Rs noodle"
    and dp: "dp_initial_variables dp = I" "ids_cover (dp_fresh dp) (mentions S \<union> I)"
  shows "\<exists>dp' N. equation_noodle enc m ls ld rd on_cycle siblings S noodle dp = Inr dp' \<and>
    spawns lang V R C (\<lambda>\<sigma>. eval_concat \<sigma> ls = eval_concat \<sigma> rs) S dp dp' N \<and>
    (\<forall>\<sigma> \<nu>. state_models lang R C S \<sigma> \<nu> \<and> aligns lang noodle (map (eval_term \<sigma>) ls) (map (eval_concat \<sigma>) rd) \<longrightarrow>
       lives_on lang R C I \<sigma> \<nu> N)"
proof -
  let ?L = "left_positions noodle" and ?R = "right_positions noodle"
  note lens = division_okD(3)[OF left(1)] division_okD(2)[OF right(1)] and rs = division_okD(1)[OF right(1)]
  have seg: "segment_law lang V m a \<and> l < length ls \<and> r < length rd" if "(a, l, r) \<in> set noodle" for a l r
    using law that lens by (auto simp: equation_noodle_law_def)
  have pos: "sorted ?L" "sorted ?R" "\<And>i. i \<in> set ?L \<Longrightarrow> i < length ls" "\<And>i. i \<in> set ?R \<Longrightarrow> i < length rd"
    using law seg by (auto simp: equation_noodle_law_def)
  obtain vs S1 ids where run: "for_each (equation_segment enc m (zs ''align_'' @ show_nat (dp_noodlification_no dp)) ls rd) noodle
        ((S, dp_fresh dp), replicate (length ls) [], replicate (length rd) []) =
      Inr ((S1, ids), grouped (length ls) ?L vs, grouped (length rd) ?R vs)"
    and ext: "extended lang V R C I S (map fst noodle) vs (\<lambda>ws. True) S1"
    and ids: "ids_le (dp_fresh dp) ids" "ids_cover ids (mentions S1 \<union> I)"
    using equation_segments_run[OF seg ok dp(2), where noodle = noodle and vpre = "[]" and lis = "[]" and ris = "[]" and R = R and C = C and enc = enc
        and var_prefix = "zs ''align_'' @ show_nat (dp_noodlification_no dp)"] by auto
  have len: "length vs = length noodle" using list_all2_lengthD[OF extendedD(2)[OF ext]] by simp
  have side: "side_words lang (ss_aut S1) (set vs) Ls ?L vs" "side_words lang (ss_aut S1) (set vs) Rs ?R vs"
    using law words_of_new_terms[OF ext] by (auto simp: side_words_def equation_noodle_law_def)
  let ?M = "sides_match ls ?L vs rd ?R vs"
  obtain S' where S': "substitute_noodle ld (grouped (length ls) ?L vs) rd (grouped (length rd) ?R vs) on_cycle I S1 = Inr S'"
      "state_ok lang V S'" "mentions S' \<subseteq> mentions S1" "replaced R C lang I ?M S1 S'" "length (ss_diseqs S') = length (ss_diseqs S)"
    by (rule noodle_substituted[OF ext left side(1) right side(2)])
  let ?S' = "S'\<lparr>ss_has_siblings := siblings\<rparr>"
  have repl: "replaced R C lang I ?M S1 ?S'" using S'(4) by (simp add: replaced_def)
  have "eval_concat \<sigma> ls = eval_concat \<sigma> rs" if "?M \<sigma>" for \<sigma>
    using sides_match_eval[OF that pos(1,3) _ pos(2,4)] len rs by simp
  then have "derived R C lang I (\<lambda>\<sigma>. eval_concat \<sigma> ls = eval_concat \<sigma> rs) S ?S'"
    by (intro noodle_derived[OF ext repl])
  then have spawn: "spawns lang V R C (\<lambda>\<sigma>. eval_concat \<sigma> ls = eval_concat \<sigma> rs) S dp
      (push_to_worklist ?S' on_cycle (dp\<lparr>dp_fresh := ids\<rparr>)) {?S'}"
    using S'(2,3,5) ids dp(1) by (intro spawns_state[of _ _ _ S1]) simp_all
  have "lives_on lang R C I \<sigma> \<nu> {?S'}"
    if models: "state_models lang R C S \<sigma> \<nu>" and al: "aligns lang noodle (map (eval_term \<sigma>) ls) (map (eval_concat \<sigma>) rd)" for \<sigma> \<nu>
  proof -
    obtain ws where ws: "words_of lang (map fst noodle) ws" "map (eval_term \<sigma>) ls = map concat (grouped (length ls) ?L ws)"
        "map (eval_concat \<sigma>) rd = map concat (grouped (length rd) ?R ws)"
      using al by (auto simp: aligns_def)
    show ?thesis
      by (rule noodle_lives_on[OF ext repl models ws(1) TrueI]) (rule sides_match_agree[OF _ left(2) _ _ _ ws(2,3)], use right(2) rs in auto)
  qed
  then show ?thesis
    using run S'(1) spawn dp(1)
    by (intro exI[of _ "push_to_worklist ?S' on_cycle (dp\<lparr>dp_fresh := ids\<rparr>)"] exI[of _ "{?S'}"]) (simp add: equation_noodle_def)
qed

section \<open>Noodles of transducers\<close>

definition transducer_noodle_law ::
    "('a \<Rightarrow> zstring set) \<Rightarrow> ('a \<Rightarrow> bool) \<Rightarrow> (nat \<Rightarrow> (zstring \<times> zstring) set) \<Rightarrow> 'a mata \<Rightarrow> nat \<Rightarrow> 'a list \<Rightarrow> 'a list \<Rightarrow>
     'a transducer_segment list \<Rightarrow> bool" where
  "transducer_noodle_law lang V R m t Is Os noodle \<longleftrightarrow>
     (\<forall>s \<in> set noodle. segment_law lang V m (seg_input_aut s) \<and> segment_law lang V m (seg_output_aut s) \<and>
        seg_input_index s < length Is \<and> seg_output_index s < length Os) \<and>
     sorted (map seg_input_index noodle) \<and> sorted (map seg_output_index noodle) \<and>
     (\<forall>us vs. words_of lang (map seg_input_aut noodle) us \<longrightarrow> words_of lang (map seg_output_aut noodle) vs \<longrightarrow>
        words_of lang Is (map concat (grouped (length Is) (map seg_input_index noodle) us)) \<and>
        words_of lang Os (map concat (grouped (length Os) (map seg_output_index noodle) vs)) \<and>
        (related R (map seg_transducer noodle) (weave us vs) \<longrightarrow> (concat us, concat vs) \<in> R t))"

definition transduces ::
    "('a \<Rightarrow> zstring set) \<Rightarrow> (nat \<Rightarrow> (zstring \<times> zstring) set) \<Rightarrow> 'a transducer_segment list \<Rightarrow> zstring list \<Rightarrow> zstring list \<Rightarrow> bool" where
  "transduces lang R noodle us vs \<longleftrightarrow> (\<exists>ws ys. words_of lang (map seg_input_aut noodle) ws \<and> words_of lang (map seg_output_aut noodle) ys \<and>
     related R (map seg_transducer noodle) (weave ws ys) \<and>
     us = map concat (grouped (length us) (map seg_input_index noodle) ws) \<and>
     vs = map concat (grouped (length vs) (map seg_output_index noodle) ys))"

definition noodlify_transducer_law ::
    "('a \<Rightarrow> zstring set) \<Rightarrow> ('a \<Rightarrow> bool) \<Rightarrow> (nat \<Rightarrow> (zstring \<times> zstring) set) \<Rightarrow> 'a mata \<Rightarrow> 'a mata_strings \<Rightarrow> bool" where
  "noodlify_transducer_law lang V R m ms \<longleftrightarrow> (\<forall>t Is Os h. (\<forall>a \<in> set Is \<union> set Os. V a) \<longrightarrow>
     (\<forall>noodle \<in> set (noodlify_for_transducer ms t Is Os h). transducer_noodle_law lang V R m t Is Os noodle) \<and>
     (\<forall>us vs. words_of lang Is us \<longrightarrow> words_of lang Os vs \<longrightarrow> (concat us, concat vs) \<in> R t \<longrightarrow>
        (\<exists>noodle \<in> set (noodlify_for_transducer ms t Is Os h). transduces lang R noodle us vs)))"

lemma noodlify_transducer_lawD:
  assumes "noodlify_transducer_law lang V R m ms" and "\<forall>a \<in> set Is \<union> set Os. V a"
  shows "noodle \<in> set (noodlify_for_transducer ms t Is Os h) \<Longrightarrow> transducer_noodle_law lang V R m t Is Os noodle"
    "words_of lang Is us \<Longrightarrow> words_of lang Os vs \<Longrightarrow> (concat us, concat vs) \<in> R t \<Longrightarrow>
       \<exists>noodle \<in> set (noodlify_for_transducer ms t Is Os h). transduces lang R noodle us vs"
  using assms unfolding noodlify_transducer_law_def by metis+

lemma transducer_noodle_lawD:
  assumes "transducer_noodle_law lang V R m t Is Os noodle"
    and "words_of lang (map seg_input_aut noodle) us" and "words_of lang (map seg_output_aut noodle) vs"
  shows "words_of lang Is (map concat (grouped (length Is) (map seg_input_index noodle) us))"
    "words_of lang Os (map concat (grouped (length Os) (map seg_output_index noodle) vs))"
    "related R (map seg_transducer noodle) (weave us vs) \<Longrightarrow> (concat us, concat vs) \<in> R t"
  using assms unfolding transducer_noodle_law_def by blast+

lemma words_of_weaveD:
  assumes "words_of lang (weave as bs) (weave us vs)" and "length bs = length as" and "length us = length as" and "length vs = length as"
  shows "words_of lang as us" "words_of lang bs vs"
proof -
  have "words_of lang as us \<and> words_of lang bs vs"
    using assms
  proof (induction as arbitrary: bs us vs)
    case (Cons a as)
    obtain b bs' u us' v vs' where eqs: "bs = b # bs'" "us = u # us'" "vs = v # vs'"
      using Cons.prems(2-4) by (cases bs; cases us; cases vs) auto
    then show ?case using Cons.IH[of bs' us' vs'] Cons.prems by (simp add: words_of_def)
  qed (simp add: words_of_def)
  then show "words_of lang as us" "words_of lang bs vs" by simp_all
qed

lemma transducer_noodle_ok:
  assumes ok: "state_ok lang V S" and out: "division_ok lang V S False os Os od" "set os \<subseteq> get_keys (ss_aut S)"
    and inp: "division_ok lang V S grouping is Is idv" "set is \<subseteq> get_keys (ss_aut S)"
    and law: "transducer_noodle_law lang V R m t Is Os noodle"
    and dp: "dp_initial_variables dp = I" "ids_cover (dp_fresh dp) (mentions S \<union> I)"
  shows "\<exists>dp' N. transducer_noodle enc m idv os od S noodle dp = Inr dp' \<and>
    spawns lang V R C (\<lambda>\<sigma>. (eval_concat \<sigma> is, eval_concat \<sigma> os) \<in> R t) S dp dp' N \<and>
    (\<forall>\<sigma> \<nu>. state_models lang R C S \<sigma> \<nu> \<and> transduces lang R noodle (map (eval_concat \<sigma>) idv) (map (eval_term \<sigma>) os) \<longrightarrow>
       lives_on lang R C I \<sigma> \<nu> N)"
proof -
  let ?i = "map seg_input_index noodle" and ?o = "map seg_output_index noodle"
  let ?as = "map seg_input_aut noodle" and ?bs = "map seg_output_aut noodle" and ?ts = "map seg_transducer noodle"
  note lens = division_okD(3)[OF out(1)] division_okD(2)[OF inp(1)] and is_eq = division_okD(1)[OF inp(1)]
  have seg: "segment_law lang V m (seg_input_aut s) \<and> segment_law lang V m (seg_output_aut s) \<and>
      seg_input_index s < length idv \<and> seg_output_index s < length os" if "s \<in> set noodle" for s
    using law that lens by (simp add: transducer_noodle_law_def)
  have pos: "sorted ?i" "sorted ?o" "\<And>i. i \<in> set ?i \<Longrightarrow> i < length idv" "\<And>i. i \<in> set ?o \<Longrightarrow> i < length os"
    using law seg by (auto simp: transducer_noodle_law_def)
  obtain ins outs S1 ids where run: "for_each (transducer_segment_step enc m (show_nat (dp_noodlification_no dp)) idv os) noodle
        ((S, dp_fresh dp), replicate (length os) [], replicate (length idv) []) =
      Inr ((S1, ids), grouped (length os) ?o outs, grouped (length idv) ?i ins)"
    and ext: "extended lang V R C I S (weave ?as ?bs) (weave ins outs) (related R ?ts) S1"
    and len: "length ins = length noodle" "length outs = length noodle"
    and ids: "ids_le (dp_fresh dp) ids" "ids_cover ids (mentions S1 \<union> I)"
    using transducer_segments_run[OF seg ok dp(2), where noodle = noodle and opre = "[]" and ois = "[]" and ipre = "[]" and iis = "[]"
        and R = R and C = C and enc = enc and no = "show_nat (dp_noodlification_no dp)"] by auto
  have words: "words_of lang ?as (map (eval_term \<sigma>) ins)" "words_of lang ?bs (map (eval_term \<sigma>) outs)"
    if "langs_on lang (ss_aut S1) (set (weave ins outs)) \<sigma>" for \<sigma>
    using words_of_weaveD[of lang ?as ?bs "map (eval_term \<sigma>) ins" "map (eval_term \<sigma>) outs"] words_of_new_terms[OF ext that] len
    by (simp_all add: map_weave)
  have side: "side_words lang (ss_aut S1) (set (weave ins outs)) Os ?o outs" "side_words lang (ss_aut S1) (set (weave ins outs)) Is ?i ins"
    using transducer_noodle_lawD(1,2)[OF law words] len unfolding side_words_def by (auto simp: set_weave)
  let ?M = "sides_match os ?o outs idv ?i ins"
  obtain S' where S': "substitute_noodle od (grouped (length os) ?o outs) idv (grouped (length idv) ?i ins) False I S1 = Inr S'"
      "state_ok lang V S'" "mentions S' \<subseteq> mentions S1" "replaced R C lang I ?M S1 S'" "length (ss_diseqs S') = length (ss_diseqs S)"
    by (rule noodle_substituted[OF ext out side(1) inp side(2)])
  have "(eval_concat \<sigma> is, eval_concat \<sigma> os) \<in> R t"
    if l: "langs_on lang (ss_aut S1) (set (weave ins outs)) \<sigma>" and r: "related R ?ts (map (eval_term \<sigma>) (weave ins outs))" and m: "?M \<sigma>" for \<sigma>
  proof -
    have "(concat (map (eval_term \<sigma>) ins), concat (map (eval_term \<sigma>) outs)) \<in> R t"
      using transducer_noodle_lawD(3)[OF law words[OF l]] r unfolding map_weave by blast
    then show ?thesis
      using sides_match_eval[OF m pos(2,4) _ pos(1,3)] len is_eq by (simp add: eval_concat_def[of \<sigma> ins] eval_concat_def[of \<sigma> outs])
  qed
  then have "derived R C lang I (\<lambda>\<sigma>. (eval_concat \<sigma> is, eval_concat \<sigma> os) \<in> R t) S S'"
    by (rule noodle_derived[OF ext S'(4)])
  then have spawn: "spawns lang V R C (\<lambda>\<sigma>. (eval_concat \<sigma> is, eval_concat \<sigma> os) \<in> R t) S dp
      (push_to_worklist S' False (dp\<lparr>dp_fresh := ids\<rparr>)) {S'}"
    using S'(2,3,5) ids dp(1) by (intro spawns_state[of _ _ _ S1]) simp_all
  have "lives_on lang R C I \<sigma> \<nu> {S'}"
    if models: "state_models lang R C S \<sigma> \<nu>" and tr: "transduces lang R noodle (map (eval_concat \<sigma>) idv) (map (eval_term \<sigma>) os)" for \<sigma> \<nu>
  proof -
    obtain ws ys where ws: "words_of lang ?as ws" "words_of lang ?bs ys" "related R ?ts (weave ws ys)"
        "map (eval_concat \<sigma>) idv = map concat (grouped (length idv) ?i ws)" "map (eval_term \<sigma>) os = map concat (grouped (length os) ?o ys)"
      using tr by (auto simp: transduces_def)
    have wl: "length ws = length noodle" "length ys = length noodle" using ws(1,2) by (simp_all add: words_of_def list_all2_lengthD[symmetric])
    show ?thesis
    proof (rule noodle_lives_on[OF ext S'(4) models words_of_weave[OF ws(1,2)] ws(3)])
      fix \<sigma>' assume ev: "map (eval_term \<sigma>') (weave ins outs) = weave ws ys" and same: "\<And>t. t \<in> get_keys (ss_aut S) \<Longrightarrow> eval_term \<sigma>' t = eval_term \<sigma> t"
      have "map (eval_term \<sigma>') ins = ws \<and> map (eval_term \<sigma>') outs = ys"
        by (rule weave_inject) (use ev len wl in \<open>simp_all add: map_weave\<close>)
      then show "?M \<sigma>'" using out(2) inp(2) is_eq by (intro sides_match_agree[OF same _ _ _ _ ws(5,4)]) auto
    qed
  qed
  then show ?thesis
    using run S'(1) spawn dp(1)
    by (intro exI[of _ "push_to_worklist S' False (dp\<lparr>dp_fresh := ids\<rparr>)"] exI[of _ "{S'}"]) (simp add: transducer_noodle_def)
qed

end
