(* ===== verification/Predicate_Steps.thy ===== *)
theory Predicate_Steps
  imports Noodle_Steps
begin

text \<open>
  Processing one predicate of the queue keeps the solutions of a state: \<open>process_inclusion\<close> with
  its three cases, and \<open>process_transducer\<close>.
\<close>

section \<open>Removing a predicate\<close>

lemma remove_predicate_simps [simp]:
  "ss_aut (ss_remove_predicate p S) = ss_aut S" "ss_subst (ss_remove_predicate p S) = ss_subst S"
  "ss_to_process (ss_remove_predicate p S) = ss_to_process S" "ss_len_vars (ss_remove_predicate p S) = ss_len_vars S"
  "mentions (ss_remove_predicate p S) = mentions S" "contains_length_var (ss_remove_predicate p S) = contains_length_var S"
  by (simp_all add: ss_remove_predicate_def Let_def mentions_def state_vars_def arith_vars_def contains_length_var_def fun_eq_iff)

lemma diseqs_remove_predicate [simp]: "ss_diseqs (ss_remove_predicate p S) = ss_diseqs S"
  by (simp add: ss_remove_predicate_def Let_def)

lemma remove_predicate_ok:
  assumes "state_okN lang V N S"
  shows "state_okN lang V N (ss_remove_predicate p S)"
proof -
  note ok = state_okD[OF assms]
  have "state_preds (ss_remove_predicate p S) \<subseteq> state_preds S" "ss_diseqs (ss_remove_predicate p S) = ss_diseqs S"
    by (auto simp: ss_remove_predicate_def Let_def state_preds_def)
  then have "preds_within (get_keys (ss_aut S) \<union> N) (state_preds (ss_remove_predicate p S) \<union> set (ss_to_process S) \<union>
      set (ss_diseqs (ss_remove_predicate p S)))"
    by (intro preds_within_mono[OF ok(3)]) auto
  moreover have "kinds_ok (ss_remove_predicate p S)" "lens_ok (ss_remove_predicate p S)"
    using ok(4,5) by (auto simp: kinds_ok_def lens_ok_def ss_remove_predicate_def Let_def)
  ultimately show ?thesis using ok by (simp add: state_okN_def)
qed

lemma remove_predicate_models:
  "state_models lang R C S \<sigma> \<nu> \<Longrightarrow> state_models lang R C (ss_remove_predicate p S) \<sigma> \<nu>"
  "state_models lang R C (ss_remove_predicate p S) \<sigma> \<nu> \<Longrightarrow> sat_pred R \<sigma> p \<Longrightarrow> state_models lang R C S \<sigma> \<nu>"
proof -
  let ?S = "ss_remove_predicate p S"
  have preds: "state_preds ?S \<subseteq> state_preds S" "state_preds S \<subseteq> insert p (state_preds ?S)"
    by (auto simp: ss_remove_predicate_def Let_def state_preds_def)
  have "ss_diseqs ?S = ss_diseqs S" "arith_models C ?S = arith_models C S"
    by (simp_all add: ss_remove_predicate_def Let_def arith_models_def state_vars_def fun_eq_iff)
  then show "state_models lang R C S \<sigma> \<nu> \<Longrightarrow> state_models lang R C ?S \<sigma> \<nu>"
    "state_models lang R C ?S \<sigma> \<nu> \<Longrightarrow> sat_pred R \<sigma> p \<Longrightarrow> state_models lang R C S \<sigma> \<nu>"
    using preds by (auto simp: state_models_def)
qed

text \<open>What the processing of the predicate \<open>p\<close> of the state \<open>S\<close> achieves.\<close>

definition processes ::
    "('a \<Rightarrow> zstring set) \<Rightarrow> ('a \<Rightarrow> bool) \<Rightarrow> (nat \<Rightarrow> (zstring \<times> zstring) set) \<Rightarrow> conversion_sem \<Rightarrow> predicate \<Rightarrow>
     'a solving_state \<Rightarrow> 'a dec_proc \<Rightarrow> 'a dec_proc res \<Rightarrow> bool" where
  "processes lang V R C p S dp res \<longleftrightarrow> (\<exists>dp' N. res = Inr dp' \<and> spawns lang V R C (\<lambda>\<sigma>. sat_pred R \<sigma> p) S dp dp' N \<and>
     (\<forall>\<sigma> \<nu>. state_models lang R C S \<sigma> \<nu> \<and> sat_pred R \<sigma> p \<longrightarrow> lives_on lang R C (dp_initial_variables dp) \<sigma> \<nu> N))"

lemma derivedD:
  assumes "derived R C lang I P S S'" and "state_models lang R C S' \<sigma> \<nu>"
  obtains \<sigma>' \<nu>' where "state_models lang R C S \<sigma>' \<nu>'" "P \<sigma>'" "agree I \<sigma> \<nu> \<sigma>' \<nu>'"
    "(\<forall>p \<in> set (ss_to_process S). sat_pred R \<sigma>' p) \<longrightarrow> (\<forall>p \<in> set (ss_to_process S'). sat_pred R \<sigma> p)"
  using assms unfolding derived_def by blast

lemma processes_removed:
  assumes "processes lang V R C p (ss_remove_predicate p S) dp res"
  shows "processes lang V R C p S dp res"
proof -
  let ?S = "ss_remove_predicate p S"
  obtain dp' N where res: "res = Inr dp'" "spawns lang V R C (\<lambda>\<sigma>. sat_pred R \<sigma> p) ?S dp dp' N"
      "\<forall>\<sigma> \<nu>. state_models lang R C ?S \<sigma> \<nu> \<and> sat_pred R \<sigma> p \<longrightarrow> lives_on lang R C (dp_initial_variables dp) \<sigma> \<nu> N"
    using assms by (auto simp: processes_def)
  have "derived R C lang I (\<lambda>\<sigma>. sat_pred R \<sigma> p) S S'" if der: "derived R C lang I (\<lambda>\<sigma>. sat_pred R \<sigma> p) ?S S'" for I S'
    unfolding derived_def
  proof (intro allI impI)
    fix \<sigma> \<nu> assume models: "state_models lang R C S' \<sigma> \<nu>"
    obtain \<sigma>' \<nu>' where m: "state_models lang R C ?S \<sigma>' \<nu>'" "sat_pred R \<sigma>' p" "agree I \<sigma> \<nu> \<sigma>' \<nu>'"
        "(\<forall>p \<in> set (ss_to_process S). sat_pred R \<sigma>' p) \<longrightarrow> (\<forall>p \<in> set (ss_to_process S'). sat_pred R \<sigma> p)"
      using derivedD[OF der models] unfolding remove_predicate_simps by blast
    then show "\<exists>\<sigma>' \<nu>'. state_models lang R C S \<sigma>' \<nu>' \<and> sat_pred R \<sigma>' p \<and> agree I \<sigma> \<nu> \<sigma>' \<nu>' \<and>
        ((\<forall>p \<in> set (ss_to_process S). sat_pred R \<sigma>' p) \<longrightarrow> (\<forall>p \<in> set (ss_to_process S'). sat_pred R \<sigma> p))"
      using remove_predicate_models(2)[OF m(1,2)] by blast
  qed
  then have "spawns lang V R C (\<lambda>\<sigma>. sat_pred R \<sigma> p) S dp dp' N" using res(2) by (simp add: spawns_def)
  then show ?thesis unfolding processes_def using res(1,3) remove_predicate_models(1) by blast
qed

lemma processes_state:
  assumes "state_ok lang V S'" and "mentions S' \<subseteq> mentions S1" and "ids_cover ids (mentions S1)" and "ids_le (dp_fresh dp) ids"
    and "derived R C lang (dp_initial_variables dp) (\<lambda>\<sigma>. sat_pred R \<sigma> p) S S'" and "length (ss_diseqs S') = length (ss_diseqs S)"
    and "\<And>\<sigma> \<nu>. state_models lang R C S \<sigma> \<nu> \<Longrightarrow> sat_pred R \<sigma> p \<Longrightarrow> lives_on lang R C (dp_initial_variables dp) \<sigma> \<nu> {S'}"
  shows "processes lang V R C p S dp (Inr (push_to_worklist S' to_back (dp\<lparr>dp_fresh := ids\<rparr>)))"
  unfolding processes_def using spawns_state[OF assms(1-6)] assms(7) by blast

lemma processes_same:
  assumes "state_ok lang V S" and "ids_cover (dp_fresh dp) (mentions S)"
    and "\<And>\<sigma> \<nu>. state_models lang R C S \<sigma> \<nu> \<Longrightarrow> sat_pred R \<sigma> p"
  shows "processes lang V R C p S dp (Inr (push_to_worklist S to_back dp))"
proof -
  have "derived R C lang (dp_initial_variables dp) (\<lambda>\<sigma>. sat_pred R \<sigma> p) S S"
    unfolding derived_def using assms(3) agree_refl by blast
  then have "processes lang V R C p S dp (Inr (push_to_worklist S to_back (dp\<lparr>dp_fresh := dp_fresh dp\<rparr>)))"
    using assms(1,2) by (intro processes_state[of _ _ _ S]) (auto simp: lives_on_def intro: agree_refl)
  then show ?thesis by simp
qed

lemma processes_none:
  assumes "\<And>\<sigma> \<nu>. state_models lang R C S \<sigma> \<nu> \<Longrightarrow> \<not> sat_pred R \<sigma> p"
  shows "processes lang V R C p S dp (Inr dp)"
  unfolding processes_def using spawns_none assms by blast

lemma replaced_lives_on:
  "replaced R C lang I P S S' \<Longrightarrow> state_models lang R C S \<sigma> \<nu> \<Longrightarrow> P \<sigma> \<Longrightarrow> lives_on lang R C I \<sigma> \<nu> {S'}"
  unfolding lives_on_def using replacedD(1) agree_refl by blast

section \<open>An empty side\<close>

definition emptied :: "basic_term list \<Rightarrow> 'a solving_state \<Rightarrow> 'a solving_state" where
  "emptied vars S = fold (\<lambda>x. bind_var x []) vars S"

lemma substitute_empty_run:
  assumes "mata_laws lang m" and "set vars \<subseteq> get_keys (ss_aut S)" and "distinct vars"
  shows "substitute_empty m vars S =
    Inr (if \<forall>x \<in> set vars. [] \<in> term_lang lang (ss_aut S) x then Some (emptied vars S) else None)"
  using assms(2,3)
proof (induction vars arbitrary: S)
  case (Cons x vars)
  obtain a where a: "aut_at (ss_aut S) x = Inr a" using Cons.prems(1) aut_at_cases[of x "ss_aut S"] by auto
  have eps: "contains_epsilon m (ss_aut S) x = Inr ([] \<in> term_lang lang (ss_aut S) x)"
    using a mata_lawsD(12)[OF assms(1)] by (simp add: contains_epsilon_def term_lang_at[OF a])
  have "set vars \<subseteq> get_keys (ss_aut (bind_var x [] S))" using Cons.prems by (auto simp: bind_var_def)
  then have rec: "substitute_empty m vars (bind_var x [] S) =
      Inr (if \<forall>y \<in> set vars. [] \<in> term_lang lang (ss_aut (bind_var x [] S)) y then Some (emptied vars (bind_var x [] S)) else None)"
    using Cons.IH Cons.prems(2) by simp
  have "term_lang lang (ss_aut (bind_var x [] S)) y = term_lang lang (ss_aut S) y" if "y \<in> set vars" for y
    using that Cons.prems(2) by (auto simp: bind_var_def)
  then show ?case using eps rec by (simp add: bind_var_def[symmetric] emptied_def)
qed (simp add: emptied_def)

definition empty_stage :: "('a \<Rightarrow> zstring set) \<Rightarrow> ('a \<Rightarrow> bool) \<Rightarrow> basic_term set \<Rightarrow> 'a solving_state \<Rightarrow> bool" where
  "empty_stage lang V N S \<longleftrightarrow> state_okN lang V N S \<and> (\<forall>y \<in> N. map_of (ss_subst S) y = Some [])"

lemma bind_empty_shape:
  assumes shape: "subst_shape N K M" and N: "\<And>y. y \<in> N \<Longrightarrow> map_of M y = Some []" and x: "x \<in> K"
  shows "subst_shape (insert x N) (K - {x}) (entry_put x [] M)"
proof -
  note M = subst_shapeD[OF shape]
  have "snd e = []" if "e \<in> set M" "fst e \<in> N" for e
    using N[OF that(2)] M(1) that(1) by (metis map_of_is_SomeI option.inject prod.collapse)
  then have "\<forall>e \<in> set (entry_put x [] M). (fst e \<in> K - {x} \<longrightarrow> is_literal (fst e)) \<and> (is_literal (fst e) \<longrightarrow> snd e = []) \<and>
      set (snd e) \<subseteq> (K - {x}) \<union> insert x N \<and> (fst e \<in> insert x N \<longrightarrow> set (snd e) \<subseteq> K - {x})"
    unfolding set_entry_put[OF M(1)] using M(3,4,7) by fastforce
  then show ?thesis
    using M(1,2,6) distinct_entry_put[OF M(1), of x "[]"] unfolding subst_shape_def keys_entry_put by blast
qed

lemma bind_empty:
  assumes st: "empty_stage lang V N S" and x: "x \<in> get_keys (ss_aut S)" "[] \<in> term_lang lang (ss_aut S) x"
  shows "empty_stage lang V (insert x N) (bind_var x [] S)" "adds R C lang (\<lambda>\<sigma>. eval_term \<sigma> x = []) S (bind_var x [] S)"
proof -
  let ?S = "bind_var x [] S"
  have okN: "state_okN lang V N S" and N: "\<And>y. y \<in> N \<Longrightarrow> map_of (ss_subst S) y = Some []"
    using st by (simp_all add: empty_stage_def)
  note ok = state_okD[OF okN]
  note M = subst_shapeD[OF ok(1)]
  have keys: "get_keys (ss_aut ?S) \<union> insert x N = get_keys (ss_aut S) \<union> N" using x(1) by (auto simp: bind_var_def)
  have "subst_shape (insert x N) (get_keys (ss_aut S) - {x}) (entry_put x [] (ss_subst S))"
    by (rule bind_empty_shape[OF ok(1) N x(1)])
  moreover have "kinds_ok ?S" "lens_ok ?S" using ok(4,5) by (simp_all add: kinds_ok_def lens_ok_def bind_var_def)
  moreover have "preds_within (get_keys (ss_aut S) \<union> N) (state_preds ?S \<union> set (ss_to_process ?S) \<union> set (ss_diseqs ?S))"
    using ok(3) by (simp add: bind_var_def state_preds_def)
  ultimately have "state_okN lang V (insert x N) ?S"
    unfolding state_okN_def keys using aut_shape_erase[OF ok(2)] by (simp add: bind_var_def)
  then show "empty_stage lang V (insert x N) ?S" using N by (simp add: empty_stage_def bind_var_def)
  have vars: "state_vars ?S = state_vars S" using x(1) by (auto simp: state_vars_def bind_var_def)
  have old: "c = []" if "(x, c) \<in> set (ss_subst S)" for c using M(3,7)[OF that] x(1) by blast
  have "state_models lang R C ?S \<sigma> \<nu> = (state_models lang R C S \<sigma> \<nu> \<and> eval_term \<sigma> x = [])" for \<sigma> \<nu>
  proof -
    have "langs_ok lang (ss_aut S) \<sigma> \<longleftrightarrow> langs_ok lang (ss_aut ?S) \<sigma> \<and> eval_term \<sigma> x \<in> term_lang lang (ss_aut S) x"
      using langs_ok_erase[of lang "ss_aut S" \<sigma> x] x(1) by (simp add: bind_var_def)
    moreover have "subst_ok (ss_subst ?S) \<sigma> \<longleftrightarrow> eval_term \<sigma> x = [] \<and> subst_ok (ss_subst S) \<sigma>"
      using old by (auto simp: subst_ok_def bind_var_def set_entry_put[OF M(1)]) (metis eval_concat_simps(1))
    moreover have "arith_models C ?S \<sigma> \<nu> = arith_models C S \<sigma> \<nu>"
      unfolding arith_models_def vars by (simp add: bind_var_def)
    moreover have "state_preds ?S \<union> set (ss_diseqs ?S) = state_preds S \<union> set (ss_diseqs S)"
      by (simp add: bind_var_def state_preds_def)
    ultimately show ?thesis using x(2) unfolding state_models_def by auto
  qed
  moreover have "same_arith S ?S" using vars by (simp add: same_arith_def bind_var_def)
  ultimately show "adds R C lang (\<lambda>\<sigma>. eval_term \<sigma> x = []) S ?S" unfolding adds_def by (simp add: bind_var_def)
qed

lemma emptied_ok:
  assumes "empty_stage lang V N S" and "set vars \<subseteq> get_keys (ss_aut S)" and "distinct vars"
    and "\<And>x. x \<in> set vars \<Longrightarrow> [] \<in> term_lang lang (ss_aut S) x"
  shows "empty_stage lang V (set vars \<union> N) (emptied vars S) \<and> adds R C lang (\<lambda>\<sigma>. \<forall>x \<in> set vars. eval_term \<sigma> x = []) S (emptied vars S)"
  using assms
proof (induction vars arbitrary: N S)
  case Nil
  then show ?case using adds_requeued[OF requeued_refl] by (simp add: emptied_def)
next
  case (Cons x vars)
  note step = bind_empty[OF Cons.prems(1), of x]
  have x: "x \<in> get_keys (ss_aut S)" "[] \<in> term_lang lang (ss_aut S) x" using Cons.prems(2,4) by simp_all
  have rec: "empty_stage lang V (set vars \<union> insert x N) (emptied vars (bind_var x [] S)) \<and>
      adds R C lang (\<lambda>\<sigma>. \<forall>y \<in> set vars. eval_term \<sigma> y = []) (bind_var x [] S) (emptied vars (bind_var x [] S))"
    using step(1)[OF x] Cons.prems(2-4) by (intro Cons.IH) (auto simp: bind_var_def)
  then have "adds R C lang (\<lambda>\<sigma>. \<forall>y \<in> set (x # vars). eval_term \<sigma> y = []) S (emptied vars (bind_var x [] S))"
    by (intro adds_trans[OF step(2)[OF x] conjunct2[OF rec]]) auto
  then show ?case using rec by (simp add: emptied_def)
qed

lemma remove_predicate_emptied: "ss_remove_predicate p (emptied vars S) = emptied vars (ss_remove_predicate p S)"
proof -
  have "ss_remove_predicate p (bind_var x [] S) = bind_var x [] (ss_remove_predicate p S)" for x and S :: "'a solving_state"
    by (simp add: ss_remove_predicate_def bind_var_def Let_def)
  then show ?thesis unfolding emptied_def by (induction vars arbitrary: S) simp_all
qed

lemma mentions_requeued: "requeued S S' \<Longrightarrow> mentions S' = mentions S"
  by (auto simp: requeued_def mentions_def state_vars_def arith_vars_def)

text \<open>The state after the substitution by the empty word.\<close>

lemma emptied_replaced:
  assumes ok: "state_ok lang V S" and vars: "set vars \<subseteq> get_keys (ss_aut S)" "distinct vars"
      "\<And>x. x \<in> set vars \<Longrightarrow> [] \<in> term_lang lang (ss_aut S) x"
    and req: "requeued (emptied vars S) S2"
  shows "\<exists>S3 S4. substitute_vars (set vars) S2 = Inr S3 \<and> remove_vars vars I S3 = Inr S4 \<and> state_ok lang V S4 \<and>
    mentions S4 \<subseteq> mentions S \<and> length (ss_diseqs S4) = length (ss_diseqs S) \<and> replaced R C lang I (\<lambda>\<sigma>. \<forall>x \<in> set vars. eval_term \<sigma> x = []) S S4"
proof -
  let ?P = "\<lambda>\<sigma>. \<forall>x \<in> set vars. eval_term \<sigma> x = []"
  have "empty_stage lang V {} S" using ok by (simp add: empty_stage_def)
  from emptied_ok[OF this vars, of R C] have stage: "empty_stage lang V (set vars) (emptied vars S)"
      and adds1: "adds R C lang ?P S (emptied vars S)" by simp_all
  have ok2: "state_okN lang V (set vars) S2" using requeued_ok[OF req] stage by (simp add: empty_stage_def)
  let ?S3 = "substituted_state (set vars) S2"
  have ok3: "state_ok lang V ?S3" by (rule substituted_state_ok[OF ok2])
  have "adds R C lang ?P S S2" by (rule adds_trans[OF adds1 adds_requeued[OF req]]) simp
  then have adds3: "adds R C lang ?P S ?S3" by (rule adds_trans[OF _ adds_substituted[OF ok2]]) simp
  define W where "W = set vars - I - referenced ?S3"
  have keys: "set vars \<inter> get_keys (ss_aut ?S3) = {}" "set vars \<subseteq> fst ` set (ss_subst ?S3)"
    using subst_shapeD(2,6)[OF state_okD(1)[OF ok2]] by simp_all
  have run: "remove_vars vars I ?S3 = Inr (without_vars W ?S3)"
    unfolding W_def by (rule remove_vars_run[OF state_okD(5)[OF ok3] keys(1)])
  have lit: "eval_concat \<sigma> c = get_name x" if "(x, c) \<in> set (ss_subst ?S3)" "x \<in> W" "is_literal x" for x c \<sigma>
  proof -
    have x: "x \<in> set vars" using that(2) by (simp add: W_def)
    have "term_lang lang (ss_aut S) x = {get_name x}"
      using aut_shapeD(2)[OF state_okD(2)[OF ok]] that(3) x vars(1) by blast
    then show ?thesis using vars(3)[OF x] subst_shapeD(7)[OF state_okD(1)[OF ok3] that(1,3)] by simp
  qed
  have "replaced R C lang I (\<lambda>\<sigma>. True) ?S3 (without_vars W ?S3)"
    by (rule without_vars_replaced[OF ok3 _ _ _ _ lit]) (use keys in \<open>auto simp: W_def\<close>)
  then have "replaced R C lang I ?P S (without_vars W ?S3)" by (rule replaced_trans[OF adds_replaced[OF adds3]]) simp
  moreover have "mentions (without_vars W ?S3) \<subseteq> mentions S"
    using mentions_without_vars[of W ?S3] mentions_same_arith[OF addsD(3)[OF adds3]] by simp
  moreover have "length (ss_diseqs (without_vars W ?S3)) = length (ss_diseqs S)"
    using addsD(3)[OF adds3] by (simp add: same_arith_def without_vars_def)
  ultimately show ?thesis using substitute_vars_run[OF ok2] run without_vars_ok[OF ok3] by blast
qed

lemma eval_concat_empty: "eval_concat \<sigma> c = [] \<longleftrightarrow> (\<forall>x \<in> set c. eval_term \<sigma> x = [])"
  by (induction c) auto

lemma process_empty_side_ok:
  assumes laws: "mata_laws lang m" and ok: "state_ok lang V S"
    and incl: "is_equation incl" "wf_pred incl" "get_set incl \<subseteq> get_keys (ss_aut S)" "get_right_side incl = [] \<or> get_left_side incl = []"
    and ids: "ids_cover (dp_fresh dp) (mentions S)"
  shows "processes lang V R C incl S dp (process_empty_side m incl S dp)"
proof (rule processes_removed)
  let ?S0 = "ss_remove_predicate incl S"
  define side where "side = (if get_right_side incl = [] then get_left_side incl else get_right_side incl)"
  define vars where "vars = sset_of side"
  have set_vars: "set vars = set side" by (simp add: vars_def)
  have keys: "set vars \<subseteq> get_keys (ss_aut ?S0)" "distinct vars"
    using incl(3) get_set_sides[OF incl(2)] strict_sorted_iff[of vars] by (auto simp: vars_def side_def)
  have sat: "sat_pred R \<sigma> incl \<longleftrightarrow> (\<forall>x \<in> set vars. eval_term \<sigma> x = [])" for \<sigma>
    using incl(4) eval_concat_empty[of \<sigma> side] by (auto simp: sat_pred_equation[OF incl(1)] set_vars side_def)
  have proc: "process_empty_side m incl S dp = bind_res (substitute_empty m vars S) (\<lambda>r. case r of None \<Rightarrow> Inr dp | Some S1 \<Rightarrow>
      let S1 = ss_remove_predicate incl S1;
          S1 = (if get_right_side incl = [] then push_dependent_on (set vars) (is_predicate_on_cycle S incl) S1 else S1)
      in bind_res (substitute_vars (set vars) S1) (\<lambda>S1. bind_res (remove_vars vars (dp_initial_variables dp) S1) (\<lambda>S1.
           Inr (push_to_worklist (push_non_simple_transducers S1) (is_predicate_on_cycle S incl) dp))))"
    by (simp only: process_empty_side_def Let_def side_def vars_def)
  note run = substitute_empty_run[OF laws, of vars S]
  show "processes lang V R C incl ?S0 dp (process_empty_side m incl S dp)"
  proof (cases "\<forall>x \<in> set vars. [] \<in> term_lang lang (ss_aut S) x")
    case True
    let ?on = "is_predicate_on_cycle S incl"
    let ?S1 = "emptied vars ?S0"
    define S2 where "S2 = (if get_right_side incl = [] then push_dependent_on (set vars) ?on ?S1 else ?S1)"
    have req: "requeued ?S1 S2" using requeued_push_dependent[of ?S1 "set vars" ?on] by (simp add: S2_def)
    obtain S3 S4 where S34: "substitute_vars (set vars) S2 = Inr S3" "remove_vars vars (dp_initial_variables dp) S3 = Inr S4"
        "state_ok lang V S4" "mentions S4 \<subseteq> mentions ?S0" "length (ss_diseqs S4) = length (ss_diseqs ?S0)"
        "replaced R C lang (dp_initial_variables dp) (\<lambda>\<sigma>. sat_pred R \<sigma> incl) ?S0 S4"
      using emptied_replaced[OF remove_predicate_ok[OF ok] keys _ req, of "dp_initial_variables dp" R C] True unfolding sat by auto
    let ?S5 = "push_non_simple_transducers S4"
    note req5 = requeued_non_simple[of S4]
    have repl: "replaced R C lang (dp_initial_variables dp) (\<lambda>\<sigma>. sat_pred R \<sigma> incl) ?S0 ?S5"
      by (rule replaced_trans[OF S34(6) adds_replaced[OF adds_requeued[OF req5]]]) simp
    have res: "process_empty_side m incl S dp = Inr (push_to_worklist ?S5 ?on (dp\<lparr>dp_fresh := dp_fresh dp\<rparr>))"
      using run True keys S34(1,2)
      by (simp add: proc remove_predicate_emptied S2_def Let_def)
    show ?thesis
      unfolding res
      by (rule processes_state[OF _ _ _ ids_le_refl replaced_derived[OF repl] _ replaced_lives_on[OF repl], of V ?S0])
        (use requeued_ok[OF req5 S34(3)] S34(4,5) mentions_requeued[OF req5] req5 ids in \<open>auto simp: requeued_def\<close>)
  next
    case False
    then have "substitute_empty m vars S = Inr None" using run keys unfolding if_not_P[OF False] by simp
    then have res: "process_empty_side m incl S dp = Inr dp" by (simp add: proc)
    obtain x where x: "x \<in> set vars" "[] \<notin> term_lang lang (ss_aut S) x" using False by blast
    have "\<not> sat_pred R \<sigma> incl" if m: "state_models lang R C ?S0 \<sigma> \<nu>" for \<sigma> \<nu>
    proof -
      have "eval_term \<sigma> x \<in> term_lang lang (ss_aut S) x"
        using m x(1) keys(1) by (auto simp: state_models_def langs_ok_def)
      then show ?thesis using x unfolding sat by metis
    qed
    then show ?thesis unfolding res by (rule processes_none)
  qed
qed

section \<open>Inclusions\<close>

text \<open>
  The library applies a transducer to a word or to an automaton on one of its tapes. The results
  that are used as languages of fresh variables are trimmed.
\<close>

definition application_law ::
    "('a \<Rightarrow> zstring set) \<Rightarrow> ('a \<Rightarrow> bool) \<Rightarrow> (nat \<Rightarrow> (zstring \<times> zstring) set) \<Rightarrow> 'a mata \<Rightarrow> 'a mata_strings \<Rightarrow> bool" where
  "application_law lang V R m ms \<longleftrightarrow> (\<forall>x. lang (remove_epsilon ms x) = lang x) \<and>
     (\<forall>t w. lang (apply_word ms t w 0) = {v. (w, v) \<in> R t} \<and> lang (apply_word ms t w 1) = {u. (u, w) \<in> R t}) \<and>
     (\<forall>t a. V a \<longrightarrow> lang (apply_nfa ms t a 0) = {v. \<exists>u \<in> lang a. (u, v) \<in> R t}) \<and>
     (\<forall>t w l. lang (apply_word ms t w l) \<noteq> {} \<longrightarrow> segment_law lang V m (simplify_application m ms (apply_word ms t w l))) \<and>
     (\<forall>t a. V a \<longrightarrow> lang (apply_nfa ms t a 0) \<noteq> {} \<longrightarrow> segment_law lang V m (simplify_application m ms (apply_nfa ms t a 0)))"

definition dp_laws ::
    "('a \<Rightarrow> zstring set) \<Rightarrow> ('a \<Rightarrow> bool) \<Rightarrow> (nat \<Rightarrow> (zstring \<times> zstring) set) \<Rightarrow> 'a mata \<Rightarrow> 'a mata_strings \<Rightarrow> bool" where
  "dp_laws lang V R m ms \<longleftrightarrow> mata_laws lang m \<and> (\<forall>x y. V x \<longrightarrow> V y \<longrightarrow> V (concatenate m x y)) \<and>
     noodlify_equation_law lang V m ms \<and> noodlify_transducer_law lang V R m ms \<and> application_law lang V R m ms"

lemma dp_lawsD:
  assumes "dp_laws lang V R m ms"
  shows "mata_laws lang m" "V x \<Longrightarrow> V y \<Longrightarrow> V (concatenate m x y)" "noodlify_equation_law lang V m ms"
    "noodlify_transducer_law lang V R m ms" "application_law lang V R m ms"
  using assms by (simp_all add: dp_laws_def)

lemma noodlify_equation_lawD:
  assumes "noodlify_equation_law lang V m ms" and "\<forall>a \<in> set Ls \<union> set Rs. V a"
  shows "noodle \<in> set (noodlify_for_equation ms Ls Rs) \<Longrightarrow> equation_noodle_law lang V m Ls Rs noodle"
    "words_of lang Ls us \<Longrightarrow> words_of lang Rs vs \<Longrightarrow> concat us = concat vs \<Longrightarrow>
       \<exists>noodle \<in> set (noodlify_for_equation ms Ls Rs). aligns lang noodle us vs"
  using assms unfolding noodlify_equation_law_def by metis+

lemma division_ok_removed [simp]:
  "division_ok lang V (ss_remove_predicate p S) grouping con as ds = division_ok lang V S grouping con as ds"
proof -
  have "part_law lang V (ss_remove_predicate p S) = part_law lang V S" by (simp add: fun_eq_iff part_law_def)
  then show ?thesis by (simp only: division_ok_def remove_predicate_simps)
qed

lemma words_of_division:
  assumes div: "division_ok lang V S grouping con as ds" and con: "set con \<subseteq> get_keys (ss_aut S)" and langs: "langs_ok lang (ss_aut S) \<sigma>"
  shows "words_of lang as (map (eval_concat \<sigma>) ds)"
proof -
  have parts: "list_all2 (part_law lang V S) as ds" using div by (simp add: division_ok_def)
  have "eval_concat \<sigma> (ds ! i) \<in> lang (as ! i)" if i: "i < length ds" for i
  proof -
    have "(\<Union>d \<in> set ds. set d) = set con" using division_okD(1)[OF div] by auto
    then have "set (ds ! i) \<subseteq> get_keys (ss_aut S)" using con nth_mem[OF i] by blast
    then have "eval_concat \<sigma> (ds ! i) \<in> concat_lang (term_lang lang (ss_aut S)) (ds ! i)"
      using eval_in_concat_lang[OF langs] by blast
    then show ?thesis using parts i by (simp add: list_all2_conv_all_nth part_law_def)
  qed
  then show ?thesis using division_okD(2)[OF div] by (simp add: words_of_def list_all2_conv_all_nth)
qed

lemma noodles_of_inclusion:
  assumes laws: "dp_laws lang V R m ms" and ok: "state_ok lang V S"
    and incl: "is_equation incl" "get_left_side incl = ls" "get_right_side incl = rs"
    and left: "division_ok lang V S False ls Ls ld" "set ls \<subseteq> get_keys (ss_aut S)"
    and right: "division_ok lang V S True rs Rs rd" "set rs \<subseteq> get_keys (ss_aut S)"
    and ids: "ids_cover (dp_fresh dp) (mentions S \<union> dp_initial_variables dp)"
  shows "processes lang V R C incl S dp
    (bind_res (for_each (equation_noodle enc m ls ld rd on_cycle siblings S) (noodlify_for_equation ms Ls Rs) dp)
       (\<lambda>dp. Inr (dp\<lparr>dp_noodlification_no := dp_noodlification_no dp + 1\<rparr>)))"
proof -
  let ?I = "dp_initial_variables dp" and ?ns = "noodlify_for_equation ms Ls Rs"
  let ?D = "\<lambda>noodle \<sigma> \<nu>. state_models lang R C S \<sigma> \<nu> \<and> aligns lang noodle (map (eval_term \<sigma>) ls) (map (eval_concat \<sigma>) rd)"
  have V: "\<forall>a \<in> set Ls \<union> set Rs. V a" using division_okD(4)[OF left(1)] division_okD(4)[OF right(1)] by blast
  have sat: "(\<lambda>\<sigma>. sat_pred R \<sigma> incl) = (\<lambda>\<sigma>. eval_concat \<sigma> ls = eval_concat \<sigma> rs)"
    using incl by (simp add: sat_pred_equation fun_eq_iff)
  have "\<exists>dp' N. for_each (equation_noodle enc m ls ld rd on_cycle siblings S) ?ns dp = Inr dp' \<and>
      spawns lang V R C (\<lambda>\<sigma>. sat_pred R \<sigma> incl) S dp dp' N \<and> (\<forall>n \<in> set ?ns. \<forall>\<sigma> \<nu>. ?D n \<sigma> \<nu> \<longrightarrow> lives_on lang R C ?I \<sigma> \<nu> N)"
    unfolding sat
  proof (rule for_each_noodles[OF _ refl ids])
    fix n and dp' :: "'a dec_proc" assume n: "n \<in> set ?ns" and dp': "dp_initial_variables dp' = ?I" "ids_cover (dp_fresh dp') (mentions S \<union> ?I)"
    have "equation_noodle_law lang V m Ls Rs n"
      by (rule noodlify_equation_lawD(1)[OF dp_lawsD(3)[OF laws] V n])
    then show "\<exists>dp'' N. equation_noodle enc m ls ld rd on_cycle siblings S n dp' = Inr dp'' \<and>
        spawns lang V R C (\<lambda>\<sigma>. eval_concat \<sigma> ls = eval_concat \<sigma> rs) S dp' dp'' N \<and> (\<forall>\<sigma> \<nu>. ?D n \<sigma> \<nu> \<longrightarrow> lives_on lang R C ?I \<sigma> \<nu> N)"
      using equation_noodle_ok[OF ok left right _ dp'] by blast
  qed
  then obtain dp' N where res: "for_each (equation_noodle enc m ls ld rd on_cycle siblings S) ?ns dp = Inr dp'"
      "spawns lang V R C (\<lambda>\<sigma>. sat_pred R \<sigma> incl) S dp dp' N" "\<And>n \<sigma> \<nu>. n \<in> set ?ns \<Longrightarrow> ?D n \<sigma> \<nu> \<Longrightarrow> lives_on lang R C ?I \<sigma> \<nu> N"
    by blast
  have "lives_on lang R C ?I \<sigma> \<nu> N" if m: "state_models lang R C S \<sigma> \<nu>" "sat_pred R \<sigma> incl" for \<sigma> \<nu>
  proof -
    have langs: "langs_ok lang (ss_aut S) \<sigma>" using m(1) by (simp add: state_models_def)
    have ld: "map (eval_concat \<sigma>) ld = map (eval_term \<sigma>) ls" using left(1) by (auto simp: division_ok_def)
    have "concat (map (eval_term \<sigma>) ls) = concat (map (eval_concat \<sigma>) rd)"
      using m(2) incl division_okD(1)[OF right(1)] eval_concat_concat[of \<sigma> rd] by (simp add: sat_pred_equation eval_concat_def[of \<sigma> ls])
    then obtain n where "n \<in> set ?ns" "aligns lang n (map (eval_term \<sigma>) ls) (map (eval_concat \<sigma>) rd)"
      using noodlify_equation_lawD(2)[OF dp_lawsD(3)[OF laws] V words_of_division[OF left langs] words_of_division[OF right langs]]
      unfolding ld by blast
    then show ?thesis using res(3) m(1) by blast
  qed
  moreover have "spawns lang V R C (\<lambda>\<sigma>. sat_pred R \<sigma> incl) S dp (dp'\<lparr>dp_noodlification_no := dp_noodlification_no dp' + 1\<rparr>) N"
    using res(2) by (simp add: spawns_def)
  ultimately show ?thesis using res(1) by (auto simp: processes_def)
qed

lemma process_inclusion_ok:
  assumes laws: "dp_laws lang V R m ms" and ok: "state_ok lang V S"
    and incl: "is_equation incl" "wf_pred incl" "get_set incl \<subseteq> get_keys (ss_aut S)"
    and ids: "ids_cover (dp_fresh dp) (mentions S \<union> dp_initial_variables dp)"
    and inv: "\<And>\<sigma> \<nu>. state_models lang R C S \<sigma> \<nu> \<Longrightarrow> sat_pred R \<sigma> incl"
  shows "processes lang V R C incl S dp (process_inclusion enc m ms incl S dp)"
proof (cases "get_right_side incl = [] \<or> get_left_side incl = []")
  case True
  then show ?thesis
    using process_empty_side_ok[OF dp_lawsD(1)[OF laws] ok incl True, of dp R C] ids by (simp add: process_inclusion_def Let_def)
next
  case False
  let ?ls = "get_left_side incl" and ?rs = "get_right_side incl" and ?S0 = "ss_remove_predicate incl S"
  have keys: "set ?ls \<subseteq> get_keys (ss_aut S)" "set ?rs \<subseteq> get_keys (ss_aut S)" using incl(3) get_set_sides[OF incl(2)] by auto
  note div = get_automata_and_division_ok[OF dp_lawsD(1)[OF laws] _ state_okD(2)[OF ok]]
  obtain Ls ld where left: "get_automata_and_division m S ?ls False = Inr (Ls, ld)" "division_ok lang V S False ?ls Ls ld"
    using div[OF _ keys(1)] dp_lawsD(2)[OF laws] False by blast
  obtain Rs rd where right: "get_automata_and_division m S ?rs True = Inr (Rs, rd)" "division_ok lang V S True ?rs Rs rd"
    using div[OF _ keys(2)] dp_lawsD(2)[OF laws] False by blast
  let ?on = "is_predicate_on_cycle S incl"
  obtain cat where cat: "get_automaton_concat m (ss_aut S) ?ls = Inr cat"
    using concat_automata_lang[OF dp_lawsD(1)[OF laws], of ?ls "ss_aut S" "create_empty_string_nfa m"] keys(1)
    by (auto simp: get_automaton_concat_def)
  have "length Rs = 1" if "\<not> contains_length_var S ?rs"
    using that right(2) division_okD(2)[OF right(2)] by (simp add: division_ok_def)
  then have test: "\<exists>b. (if \<not> contains_length_var S ?rs \<and> ?on
      then bind_res (get_automaton_concat m (ss_aut S) ?ls) (\<lambda>cat. bind_res (vec_at Rs 0) (\<lambda>right_aut. Inr (is_included ms cat right_aut)))
      else Inr False) = Inr b"
    using cat by (auto simp: vec_at_def)
  then obtain b where b: "(if \<not> contains_length_var S ?rs \<and> ?on
      then bind_res (get_automaton_concat m (ss_aut S) ?ls) (\<lambda>cat. bind_res (vec_at Rs 0) (\<lambda>right_aut. Inr (is_included ms cat right_aut)))
      else Inr False) = Inr b" by blast
  show ?thesis
  proof (cases b)
    case True
    have "processes lang V R C incl S dp (Inr (push_to_worklist S False dp))"
      by (rule processes_same[OF ok _ inv]) (use ids in simp)
    then show ?thesis using False left(1) right(1) b True by (simp add: process_inclusion_def Let_def)
  next
    case no: False
    have "processes lang V R C incl ?S0 dp (bind_res (for_each (equation_noodle enc m ?ls ld rd ?on
        (length (noodlify_for_equation ms Ls Rs) > 1) ?S0) (noodlify_for_equation ms Ls Rs) dp)
        (\<lambda>dp. Inr (dp\<lparr>dp_noodlification_no := dp_noodlification_no dp + 1\<rparr>)))"
      by (rule noodles_of_inclusion[OF laws remove_predicate_ok[OF ok] incl(1) refl refl])
        (use left(2) right(2) keys ids in simp_all)
    from processes_removed[OF this] show ?thesis
      using False left(1) right(1) b no by (simp add: process_inclusion_def Let_def)
  qed
qed

section \<open>Transducers\<close>

lemma sat_transducer: "is_transducer p \<Longrightarrow> sat_pred R \<sigma> p \<longleftrightarrow> (eval_concat \<sigma> (get_input p), eval_concat \<sigma> (get_output p)) \<in> R (the (transducer p))"
  by (simp add: sat_pred_def pred_kind_defs side_defs)

lemma literal_concatenation_eval: "is_concatenation_of_literals c = Some w \<Longrightarrow> eval_concat \<sigma> c = w"
  by (induction c arbitrary: w) (auto simp: eval_term_def split: if_splits)

lemma application_lawD:
  assumes "application_law lang V R m ms" and "mata_laws lang m"
  shows "lang (simplify_application m ms (apply_word ms t w 0)) = {v. (w, v) \<in> R t}"
    "lang (simplify_application m ms (apply_word ms t w 1)) = {u. (u, w) \<in> R t}"
    "V a \<Longrightarrow> lang (simplify_application m ms (apply_nfa ms t a 0)) = {v. \<exists>u \<in> lang a. (u, v) \<in> R t}"
    "lang (simplify_application m ms (apply_word ms t w l)) \<noteq> {} \<Longrightarrow> segment_law lang V m (simplify_application m ms (apply_word ms t w l))"
    "V a \<Longrightarrow> lang (simplify_application m ms (apply_nfa ms t a 0)) \<noteq> {} \<Longrightarrow> segment_law lang V m (simplify_application m ms (apply_nfa ms t a 0))"
proof -
  have "lang (simplify_application m ms x) = lang x" for x
    using assms by (simp add: simplify_application_def mata_lawsD application_law_def)
  then show "lang (simplify_application m ms (apply_word ms t w 0)) = {v. (w, v) \<in> R t}"
    "lang (simplify_application m ms (apply_word ms t w 1)) = {u. (u, w) \<in> R t}"
    "V a \<Longrightarrow> lang (simplify_application m ms (apply_nfa ms t a 0)) = {v. \<exists>u \<in> lang a. (u, v) \<in> R t}"
    "lang (simplify_application m ms (apply_word ms t w l)) \<noteq> {} \<Longrightarrow> segment_law lang V m (simplify_application m ms (apply_word ms t w l))"
    "V a \<Longrightarrow> lang (simplify_application m ms (apply_nfa ms t a 0)) \<noteq> {} \<Longrightarrow> segment_law lang V m (simplify_application m ms (apply_nfa ms t a 0))"
    using assms(1) unfolding application_law_def by simp_all
qed

text \<open>Fresh terms for automata, then new predicates \<open>M\<close> and a longer queue.\<close>

lemma processes_extended:
  assumes ext: "extended lang V R C (dp_initial_variables dp) S as vs Q S1" and adds: "adds R C lang M S1 S'" and ok: "state_ok lang V S'"
    and ids: "ids_cover ids (mentions S1)" "ids_le (dp_fresh dp) ids"
    and sound: "\<And>\<sigma>. langs_on lang (ss_aut S1) (set vs) \<sigma> \<Longrightarrow> Q (map (eval_term \<sigma>) vs) \<Longrightarrow> M \<sigma> \<Longrightarrow> sat_pred R \<sigma> p"
    and complete: "\<And>\<sigma> \<nu>. state_models lang R C S \<sigma> \<nu> \<Longrightarrow> sat_pred R \<sigma> p \<Longrightarrow> \<exists>ws. words_of lang as ws \<and> Q ws \<and>
      (\<forall>\<sigma>'. map (eval_term \<sigma>') vs = ws \<longrightarrow> (\<forall>t \<in> get_keys (ss_aut S). eval_term \<sigma>' t = eval_term \<sigma> t) \<longrightarrow> M \<sigma>')"
  shows "processes lang V R C p S dp (Inr (push_to_worklist S' to_back (dp\<lparr>dp_fresh := ids\<rparr>)))"
proof -
  note repl = adds_replaced[OF adds, of "dp_initial_variables dp"]
  have men: "mentions S' \<subseteq> mentions S1" using mentions_same_arith[OF addsD(3)[OF adds]] by simp
  have der: "derived R C lang (dp_initial_variables dp) (\<lambda>\<sigma>. sat_pred R \<sigma> p) S S'"
    by (rule noodle_derived[OF ext repl sound])
  have "lives_on lang R C (dp_initial_variables dp) \<sigma> \<nu> {S'}" if m: "state_models lang R C S \<sigma> \<nu>" "sat_pred R \<sigma> p" for \<sigma> \<nu>
  proof -
    obtain ws where ws: "words_of lang as ws" "Q ws"
        "\<And>\<sigma>'. map (eval_term \<sigma>') vs = ws \<Longrightarrow> (\<And>t. t \<in> get_keys (ss_aut S) \<Longrightarrow> eval_term \<sigma>' t = eval_term \<sigma> t) \<Longrightarrow> M \<sigma>'"
      using complete[OF m] by blast
    show ?thesis by (rule noodle_lives_on[OF ext repl m(1) ws])
  qed
  then show ?thesis
    using addsD(3)[OF adds] extendedD(10)[OF ext] by (intro processes_state[OF ok men ids der]) (simp_all add: same_arith_def)
qed

lemma eval_concat_same: "(\<And>t. t \<in> set c \<Longrightarrow> eval_term \<sigma>' t = eval_term \<sigma> t) \<Longrightarrow> eval_concat \<sigma>' c = eval_concat \<sigma> c"
  unfolding eval_concat_def by (metis map_cong)

text \<open>A new inclusion at the front of the queue.\<close>

lemma adds_pushed_equation:
  "adds R C lang (\<lambda>\<sigma>. eval_concat \<sigma> l = eval_concat \<sigma> r) S
     (push_front_unique (create_equation l r) (ss_add_predicate (create_equation l r) on_cycle S))"
proof -
  let ?e = "create_equation l r" and ?S = "ss_add_predicate (create_equation l r) on_cycle S"
  have "?e \<in> state_preds ?S" by (rule adds_predicate(2)) simp
  then have "adds R C lang (eqs_hold {(l, r)}) S (push_unique ?e False ?S)" by (rule adds_push[OF adds_equation])
  then have "adds R C lang (eqs_hold {(l, r)}) S (push_front_unique ?e ?S)" by (simp add: push_unique_def)
  then show ?thesis by (rule adds_cong) simp
qed

lemma ok_pushed_equation:
  assumes "state_ok lang V S" and "set l \<union> set r \<subseteq> get_keys (ss_aut S)"
  shows "state_ok lang V (push_front_unique (create_equation l r) (ss_add_predicate (create_equation l r) on_cycle S))"
proof -
  let ?e = "create_equation l r" and ?S = "ss_add_predicate (create_equation l r) on_cycle S"
  have "?e \<in> state_preds ?S" by (rule adds_predicate(2)) simp
  then have "requeued ?S (push_unique ?e False ?S)" by (rule requeued_push)
  moreover have "state_ok lang V ?S" using assms by (intro ok_add_predicate) simp_all
  ultimately show ?thesis using requeued_ok by (simp add: push_unique_def)
qed

lemma process_single_input_ok:
  assumes laws: "dp_laws lang V R m ms" and ok: "state_ok lang V S"
    and p: "is_transducer p" "wf_pred p" "get_set p \<subseteq> get_keys (ss_aut S)"
    and a: "V a" "lang a = concat_lang (term_lang lang (ss_aut S)) (get_input p)"
    and ids: "ids_cover (dp_fresh dp) (mentions S \<union> dp_initial_variables dp)"
  shows "processes lang V R C p S dp (process_single_input enc m ms p a S dp)"
proof -
  let ?t = "the (transducer p)"
  let ?app = "simplify_application m ms (apply_nfa ms ?t a 0)"
  note app = application_lawD[OF dp_lawsD(5,1)[OF laws]]
  have lang: "lang ?app = {v. \<exists>u \<in> lang a. (u, v) \<in> R ?t}" by (rule app(3)[OF a(1)])
  have sides: "set (get_input p) \<subseteq> get_keys (ss_aut S)" "set (get_output p) \<subseteq> get_keys (ss_aut S)"
    using p(3) get_set_sides[OF p(2)] by (auto simp: side_defs)
  have out: "eval_concat \<sigma> (get_output p) \<in> lang ?app" if "state_models lang R C S \<sigma> \<nu>" "sat_pred R \<sigma> p" for \<sigma> \<nu>
    using that eval_in_concat_lang[OF _ sides(1), of lang \<sigma>] unfolding lang sat_transducer[OF p(1)] a(2)
    by (auto simp: state_models_def)
  show ?thesis
  proof (cases "is_lang_empty m ?app")
    case True
    then have "lang ?app = {}" using mata_lawsD(10)[OF dp_lawsD(1)[OF laws]] by simp
    then show ?thesis using True out processes_none[of lang R C S p V dp] by (fastforce simp: process_single_input_def Let_def)
  next
    case False
    then have "lang ?app \<noteq> {}" using mata_lawsD(10)[OF dp_lawsD(1)[OF laws]] by simp
    then have seg: "segment_law lang V m ?app" by (rule app(5)[OF a(1)])
    obtain v S1 ids1 where v: "add_fresh_var enc m ?app (zs ''onevarapp_'' @ show_nat (dp_noodlification_no dp)) False True (S, dp_fresh dp) =
          Inr (v, S1, ids1)"
      and ext: "extended lang V R C (dp_initial_variables dp) S [?app] [v] (\<lambda>ws. True) S1"
      and ids1: "ids_le (dp_fresh dp) ids1" "ids_cover ids1 (mentions S1 \<union> dp_initial_variables dp)"
      using add_fresh_extended[OF ok seg ids] by blast
    let ?tr = "create_transducer ?t (get_input p) [v]"
    let ?S2 = "ss_add_predicate ?tr False S1"
    let ?S3 = "push_front_unique (create_equation (get_output p) [v]) (ss_add_predicate (create_equation (get_output p) [v]) False ?S2)"
    have keys: "get_keys (ss_aut S1) = insert v (get_keys (ss_aut S))" using extendedD(3)[OF ext] by simp
    have ok2: "state_ok lang V ?S2"
      by (rule ok_add_predicate[OF extendedD(1)[OF ext]])
        (use sides keys in \<open>auto simp: create_transducer_def get_set_def wf_pred_def pred_kind_defs\<close>)
    have aut2: "ss_aut ?S2 = ss_aut S1" by (simp add: ss_add_predicate_def Let_def)
    have ok3: "state_ok lang V ?S3" by (rule ok_pushed_equation[OF ok2]) (use sides keys aut2 in auto)
    have sat_tr: "sat_pred R \<sigma> ?tr \<longleftrightarrow> (eval_concat \<sigma> (get_input p), eval_term \<sigma> v) \<in> R ?t" for \<sigma>
      by (simp add: sat_pred_def create_transducer_def)
    let ?M = "\<lambda>\<sigma>. (eval_concat \<sigma> (get_input p), eval_term \<sigma> v) \<in> R ?t \<and> eval_concat \<sigma> (get_output p) = eval_term \<sigma> v"
    have adds: "adds R C lang ?M S1 ?S3"
      by (rule adds_trans[OF adds_predicate(1)[of ?tr] adds_pushed_equation]) (simp_all add: sat_tr)
    have "processes lang V R C p S dp (Inr (push_to_worklist ?S3 False (dp\<lparr>dp_fresh := ids1\<rparr>)))"
    proof (rule processes_extended[OF ext adds ok3 _ ids1(1)])
      fix \<sigma> \<nu> assume m: "state_models lang R C S \<sigma> \<nu>" "sat_pred R \<sigma> p"
      have same: "?M \<sigma>'" if "map (eval_term \<sigma>') [v] = [eval_concat \<sigma> (get_output p)]"
        "\<forall>t \<in> get_keys (ss_aut S). eval_term \<sigma>' t = eval_term \<sigma> t" for \<sigma>'
      proof -
        have "eval_concat \<sigma>' (get_input p) = eval_concat \<sigma> (get_input p)" "eval_concat \<sigma>' (get_output p) = eval_concat \<sigma> (get_output p)"
          using that(2) sides by (auto intro!: eval_concat_same)
        then show ?thesis using that(1) m(2) by (simp add: sat_transducer[OF p(1)])
      qed
      show "\<exists>ws. words_of lang [?app] ws \<and> True \<and>
          (\<forall>\<sigma>'. map (eval_term \<sigma>') [v] = ws \<longrightarrow> (\<forall>t \<in> get_keys (ss_aut S). eval_term \<sigma>' t = eval_term \<sigma> t) \<longrightarrow> ?M \<sigma>')"
        by (rule exI[of _ "[eval_concat \<sigma> (get_output p)]"]) (use out[OF m] same in \<open>auto simp: words_of_def\<close>)
    qed (use ids1(2) sat_transducer[OF p(1)] in auto)
    then show ?thesis using False v by (simp add: process_single_input_def Let_def add_transducer_def)
  qed
qed

text \<open>The predicate is an equation between one side and a word of an automaton.\<close>

lemma processes_equation:
  assumes ok: "state_ok lang V S" and nl: "set nl \<subseteq> get_keys (ss_aut S)"
    and sat: "\<And>\<sigma>. sat_pred R \<sigma> p \<longleftrightarrow> eval_concat \<sigma> nl \<in> {[]}"
    and lr: "{l, r} = {nl, []}" and ids: "ids_cover (dp_fresh dp) (mentions S)"
  shows "processes lang V R C p S dp (Inr (push_to_worklist
    (push_front_unique (create_equation l r) (ss_add_predicate (create_equation l r) False S)) False (dp\<lparr>dp_fresh := dp_fresh dp\<rparr>)))"
proof -
  let ?S = "push_front_unique (create_equation l r) (ss_add_predicate (create_equation l r) False S)"
  have lr': "l = nl \<and> r = [] \<or> l = [] \<and> r = nl" using lr by (auto simp: doubleton_eq_iff)
  have ok': "state_ok lang V ?S" by (rule ok_pushed_equation[OF ok]) (use lr' nl in auto)
  have "adds R C lang (\<lambda>\<sigma>. sat_pred R \<sigma> p) S ?S"
    by (rule adds_cong[OF adds_pushed_equation]) (use lr' in \<open>auto simp: sat\<close>)
  then have repl: "replaced R C lang (dp_initial_variables dp) (\<lambda>\<sigma>. sat_pred R \<sigma> p) S ?S"
    and men: "mentions ?S \<subseteq> mentions S" and len: "length (ss_diseqs ?S) = length (ss_diseqs S)"
    using adds_replaced mentions_same_arith[OF addsD(3)] addsD(3) unfolding same_arith_def by blast+
  show ?thesis
    by (rule processes_state[OF ok' men ids ids_le_refl replaced_derived[OF repl] len replaced_lives_on[OF repl]])
qed

lemma processes_fresh_equation:
  assumes ok: "state_ok lang V S" and nl: "set nl \<subseteq> get_keys (ss_aut S)" and seg: "segment_law lang V m app"
    and sat: "\<And>\<sigma>. sat_pred R \<sigma> p \<longleftrightarrow> eval_concat \<sigma> nl \<in> lang app"
    and ids: "ids_cover (dp_fresh dp) (mentions S \<union> dp_initial_variables dp)"
  obtains v S1 ids1 where "add_fresh_var enc m app var_prefix is_length True (S, dp_fresh dp) = Inr (v, S1, ids1)"
    "\<And>l r. {l, r} = {nl, [v]} \<Longrightarrow> processes lang V R C p S dp (Inr (push_to_worklist
      (push_front_unique (create_equation l r) (ss_add_predicate (create_equation l r) False S1)) False (dp\<lparr>dp_fresh := ids1\<rparr>)))"
proof -
  obtain v S1 ids1 where v: "add_fresh_var enc m app var_prefix is_length True (S, dp_fresh dp) = Inr (v, S1, ids1)"
    and ext: "extended lang V R C (dp_initial_variables dp) S [app] [v] (\<lambda>ws. True) S1"
    and ids1: "ids_le (dp_fresh dp) ids1" "ids_cover ids1 (mentions S1 \<union> dp_initial_variables dp)"
    using add_fresh_extended[OF ok seg ids] by blast
  have keys: "get_keys (ss_aut S1) = insert v (get_keys (ss_aut S))" using extendedD(3)[OF ext] by simp
  have "processes lang V R C p S dp (Inr (push_to_worklist
      (push_front_unique (create_equation l r) (ss_add_predicate (create_equation l r) False S1)) False (dp\<lparr>dp_fresh := ids1\<rparr>)))"
    if "{l, r} = {nl, [v]}" for l r
  proof -
    have lr: "l = nl \<and> r = [v] \<or> l = [v] \<and> r = nl" using that by (auto simp: doubleton_eq_iff)
    let ?S = "push_front_unique (create_equation l r) (ss_add_predicate (create_equation l r) False S1)"
    have ok': "state_ok lang V ?S" by (rule ok_pushed_equation[OF extendedD(1)[OF ext]]) (use lr nl keys in auto)
    have adds: "adds R C lang (\<lambda>\<sigma>. eval_concat \<sigma> nl = eval_term \<sigma> v) S1 ?S"
      by (rule adds_cong[OF adds_pushed_equation]) (use lr in auto)
    show ?thesis
    proof (rule processes_extended[OF ext adds ok' _ ids1(1)])
      fix \<sigma> assume "langs_on lang (ss_aut S1) (set [v]) \<sigma>" "eval_concat \<sigma> nl = eval_term \<sigma> v"
      moreover have "term_lang lang (ss_aut S1) v = lang app" using extendedD(2)[OF ext] by simp
      ultimately show "sat_pred R \<sigma> p" unfolding sat by (simp add: langs_on_def)
    next
      fix \<sigma> \<nu> assume m: "state_models lang R C S \<sigma> \<nu>" "sat_pred R \<sigma> p"
      have same: "eval_concat \<sigma>' nl = eval_term \<sigma>' v" if "map (eval_term \<sigma>') [v] = [eval_concat \<sigma> nl]"
        "\<forall>t \<in> get_keys (ss_aut S). eval_term \<sigma>' t = eval_term \<sigma> t" for \<sigma>'
      proof -
        have "eval_concat \<sigma>' nl = eval_concat \<sigma> nl" using that(2) nl by (auto intro!: eval_concat_same)
        then show ?thesis using that(1) by simp
      qed
      show "\<exists>ws. words_of lang [app] ws \<and> True \<and> (\<forall>\<sigma>'. map (eval_term \<sigma>') [v] = ws \<longrightarrow>
          (\<forall>t \<in> get_keys (ss_aut S). eval_term \<sigma>' t = eval_term \<sigma> t) \<longrightarrow> eval_concat \<sigma>' nl = eval_term \<sigma>' v)"
        by (rule exI[of _ "[eval_concat \<sigma> nl]"]) (use m(2) sat same in \<open>auto simp: words_of_def\<close>)
    qed (use ids1(2) in auto)
  qed
  then show ?thesis by (rule that[OF v])
qed

lemma process_literal_side_ok:
  assumes laws: "dp_laws lang V R m ms" and ok: "state_ok lang V S"
    and p: "is_transducer p" "wf_pred p" "get_set p \<subseteq> get_keys (ss_aut S)"
    and lit: "is_concatenation_of_literals (if inp then get_input p else get_output p) = Some w"
    and ids: "ids_cover (dp_fresh dp) (mentions S \<union> dp_initial_variables dp)"
  shows "processes lang V R C p S dp (process_literal_side enc m ms p w inp S dp)"
proof -
  define app where "app = simplify_application m ms (apply_word ms (the (transducer p)) w (if inp then 0 else 1))"
  define nl where "nl = (if inp then get_output p else get_input p)"
  note app = application_lawD[OF dp_lawsD(5,1)[OF laws]] and M = mata_lawsD[OF dp_lawsD(1)[OF laws]]
  have nl: "set nl \<subseteq> get_keys (ss_aut S)" using p(3) get_set_sides[OF p(2)] by (auto simp: nl_def side_defs)
  have sat: "sat_pred R \<sigma> p \<longleftrightarrow> eval_concat \<sigma> nl \<in> lang app" for \<sigma>
    using literal_concatenation_eval[OF lit, of \<sigma>] app(1,2) by (simp add: sat_transducer[OF p(1)] app_def nl_def split: if_splits)
  have proc: "process_literal_side enc m ms p w inp S dp =
      (if is_lang_empty m app then Inr dp
       else if nl = [] then (if is_in_lang m app [] then Inr (push_to_worklist S False dp) else Inr dp)
       else let e = (if inp then create_equation nl [] else create_equation [] nl)
       in bind_res (if \<not> is_lang_eps m app then
            bind_res (add_fresh_var enc m app (zs ''literalsideapp_'' @ show_nat (dp_noodlification_no dp)) False True (S, dp_fresh dp))
              (\<lambda>(v, S, ids). Inr (if inp then set_right_side e [v] else set_left_side e [v], S, ids))
          else Inr (e, S, dp_fresh dp)) (\<lambda>(e, S, ids).
         Inr (push_to_worklist (push_front_unique e (ss_add_predicate e False S)) False (dp\<lparr>dp_fresh := ids\<rparr>))))"
    unfolding process_literal_side_def app_def nl_def Let_def by (rule refl)
  consider (none) "lang app = {}" | (check) "lang app \<noteq> {}" "nl = []" | (eps) "lang app = {[]}" "nl \<noteq> []"
    | (fresh) "lang app \<noteq> {}" "lang app \<noteq> {[]}" "nl \<noteq> []" by blast
  then show ?thesis
  proof cases
    case none
    then show ?thesis unfolding proc using processes_none[of lang R C S p V dp] by (simp add: M(10) sat)
  next
    case check
    show ?thesis
    proof (cases "[] \<in> lang app")
      case True
      have "processes lang V R C p S dp (Inr (push_to_worklist S False dp))"
        by (rule processes_same[OF ok]) (use ids sat True check(2) in simp_all)
      then show ?thesis unfolding proc using check True by (simp add: M(10,12))
    next
      case False
      then show ?thesis unfolding proc using check processes_none[of lang R C S p V dp] by (simp add: M(10,12) sat)
    qed
  next
    case eps
    have "processes lang V R C p S dp (Inr (push_to_worklist (push_front_unique (create_equation l r)
        (ss_add_predicate (create_equation l r) False S)) False (dp\<lparr>dp_fresh := dp_fresh dp\<rparr>)))" if "{l, r} = {nl, []}" for l r
      by (rule processes_equation[OF ok nl _ that]) (use eps sat ids in simp_all)
    from this[of nl "[]"] this[of "[]" nl] show ?thesis unfolding proc using eps by (cases inp) (simp_all add: M(10,11) Let_def insert_commute)
  next
    case fresh
    have seg: "segment_law lang V m app" using app(4) fresh(1) by (simp add: app_def)
    obtain v S1 ids1 where v: "add_fresh_var enc m app (zs ''literalsideapp_'' @ show_nat (dp_noodlification_no dp)) False True (S, dp_fresh dp) =
        Inr (v, S1, ids1)"
      and res: "\<And>l r. {l, r} = {nl, [v]} \<Longrightarrow> processes lang V R C p S dp (Inr (push_to_worklist
        (push_front_unique (create_equation l r) (ss_add_predicate (create_equation l r) False S1)) False (dp\<lparr>dp_fresh := ids1\<rparr>)))"
      using processes_fresh_equation[OF ok nl seg sat ids] by blast
    have "set_right_side (create_equation nl []) [v] = create_equation nl [v]" "set_left_side (create_equation [] nl) [v] = create_equation [v] nl"
      by (simp_all add: set_right_side_def set_left_side_def create_equation_def)
    then show ?thesis
      unfolding proc using fresh v res[of nl "[v]"] res[of "[v]" nl] by (cases inp) (simp_all add: M(10,11) Let_def insert_commute)
  qed
qed

lemma noodles_of_transducer:
  assumes laws: "dp_laws lang V R m ms" and ok: "state_ok lang V S"
    and p: "is_transducer p" "get_output p = os" "get_input p = is" "the (transducer p) = t"
    and out: "division_ok lang V S False os Os od" "set os \<subseteq> get_keys (ss_aut S)"
    and inp: "division_ok lang V S True is Is idv" "set is \<subseteq> get_keys (ss_aut S)"
    and ids: "ids_cover (dp_fresh dp) (mentions S \<union> dp_initial_variables dp)"
  shows "processes lang V R C p S dp
    (bind_res (for_each (transducer_noodle enc m idv os od S) (noodlify_for_transducer ms t Is Os h) dp)
       (\<lambda>dp. Inr (dp\<lparr>dp_noodlification_no := dp_noodlification_no dp + 1\<rparr>)))"
proof -
  let ?I = "dp_initial_variables dp" and ?ns = "noodlify_for_transducer ms t Is Os h"
  let ?D = "\<lambda>noodle \<sigma> \<nu>. state_models lang R C S \<sigma> \<nu> \<and> transduces lang R noodle (map (eval_concat \<sigma>) idv) (map (eval_term \<sigma>) os)"
  have V: "\<forall>a \<in> set Is \<union> set Os. V a" using division_okD(4)[OF out(1)] division_okD(4)[OF inp(1)] by blast
  have sat: "(\<lambda>\<sigma>. sat_pred R \<sigma> p) = (\<lambda>\<sigma>. (eval_concat \<sigma> is, eval_concat \<sigma> os) \<in> R t)"
    using p by (simp add: sat_transducer fun_eq_iff)
  have "\<exists>dp' N. for_each (transducer_noodle enc m idv os od S) ?ns dp = Inr dp' \<and>
      spawns lang V R C (\<lambda>\<sigma>. sat_pred R \<sigma> p) S dp dp' N \<and> (\<forall>n \<in> set ?ns. \<forall>\<sigma> \<nu>. ?D n \<sigma> \<nu> \<longrightarrow> lives_on lang R C ?I \<sigma> \<nu> N)"
    unfolding sat
  proof (rule for_each_noodles[OF _ refl ids])
    fix n and dp' :: "'a dec_proc"
    assume n: "n \<in> set ?ns" and dp': "dp_initial_variables dp' = ?I" "ids_cover (dp_fresh dp') (mentions S \<union> ?I)"
    have "transducer_noodle_law lang V R m t Is Os n" by (rule noodlify_transducer_lawD(1)[OF dp_lawsD(4)[OF laws] V n])
    then show "\<exists>dp'' N. transducer_noodle enc m idv os od S n dp' = Inr dp'' \<and>
        spawns lang V R C (\<lambda>\<sigma>. (eval_concat \<sigma> is, eval_concat \<sigma> os) \<in> R t) S dp' dp'' N \<and>
        (\<forall>\<sigma> \<nu>. ?D n \<sigma> \<nu> \<longrightarrow> lives_on lang R C ?I \<sigma> \<nu> N)"
      using transducer_noodle_ok[OF ok out inp _ dp'] by blast
  qed
  then obtain dp' N where res: "for_each (transducer_noodle enc m idv os od S) ?ns dp = Inr dp'"
      "spawns lang V R C (\<lambda>\<sigma>. sat_pred R \<sigma> p) S dp dp' N" "\<And>n \<sigma> \<nu>. n \<in> set ?ns \<Longrightarrow> ?D n \<sigma> \<nu> \<Longrightarrow> lives_on lang R C ?I \<sigma> \<nu> N"
    by blast
  have "lives_on lang R C ?I \<sigma> \<nu> N" if m: "state_models lang R C S \<sigma> \<nu>" "sat_pred R \<sigma> p" for \<sigma> \<nu>
  proof -
    have langs: "langs_ok lang (ss_aut S) \<sigma>" using m(1) by (simp add: state_models_def)
    have od: "map (eval_concat \<sigma>) od = map (eval_term \<sigma>) os" using out(1) by (auto simp: division_ok_def)
    have "(concat (map (eval_concat \<sigma>) idv), concat (map (eval_term \<sigma>) os)) \<in> R t"
      using m(2) p division_okD(1)[OF inp(1)] eval_concat_concat[of \<sigma> idv] by (simp add: sat_transducer eval_concat_def[of \<sigma> os])
    then obtain n where "n \<in> set ?ns" "transduces lang R n (map (eval_concat \<sigma>) idv) (map (eval_term \<sigma>) os)"
      using noodlify_transducer_lawD(2)[OF dp_lawsD(4)[OF laws] V words_of_division[OF inp langs] words_of_division[OF out langs]]
      unfolding od by blast
    then show ?thesis using res(3) m(1) by blast
  qed
  moreover have "spawns lang V R C (\<lambda>\<sigma>. sat_pred R \<sigma> p) S dp (dp'\<lparr>dp_noodlification_no := dp_noodlification_no dp' + 1\<rparr>) N"
    using res(2) by (simp add: spawns_def)
  ultimately show ?thesis using res(1) by (auto simp: processes_def)
qed

lemma literals_nonempty: "is_concatenation_of_literals c = None \<Longrightarrow> c \<noteq> []"
  by auto

lemma process_transducer_ok:
  assumes laws: "dp_laws lang V R m ms" and ok: "state_ok lang V S"
    and p: "is_transducer p" "wf_pred p" "get_set p \<subseteq> get_keys (ss_aut S)"
    and ids: "ids_cover (dp_fresh dp) (mentions S \<union> dp_initial_variables dp)"
  shows "processes lang V R C p S dp (process_transducer enc m ms prm p S dp)"
proof (rule processes_removed)
  let ?S = "ss_remove_predicate p S"
  have ok0: "state_ok lang V ?S" by (rule remove_predicate_ok[OF ok])
  have p0: "get_set p \<subseteq> get_keys (ss_aut ?S)" "ids_cover (dp_fresh dp) (mentions ?S \<union> dp_initial_variables dp)"
    using p(3) ids by simp_all
  note literal = process_literal_side_ok[OF laws ok0 p(1,2) p0(1) _ p0(2)]
  consider (inp) w where "is_concatenation_of_literals (get_input p) = Some w"
    | (outp) w where "is_concatenation_of_literals (get_input p) = None" "is_concatenation_of_literals (get_output p) = Some w"
    | (neither) "is_concatenation_of_literals (get_input p) = None" "is_concatenation_of_literals (get_output p) = None"
    by (cases "is_concatenation_of_literals (get_input p)"; cases "is_concatenation_of_literals (get_output p)") auto
  then show "processes lang V R C p ?S dp (process_transducer enc m ms prm p S dp)"
  proof cases
    case inp
    then show ?thesis using literal[of True w] by (simp add: process_transducer_def Let_def)
  next
    case outp
    then show ?thesis using literal[of False w] by (simp add: process_transducer_def Let_def)
  next
    case neither
    have keys: "set (get_input p) \<subseteq> get_keys (ss_aut ?S)" "set (get_output p) \<subseteq> get_keys (ss_aut ?S)"
      using p(3) get_set_sides[OF p(2)] by (auto simp: side_defs)
    note div = get_automata_and_division_ok[OF dp_lawsD(1)[OF laws] _ state_okD(2)[OF ok0]]
    obtain Is idv where inp: "get_automata_and_division m ?S (get_input p) True = Inr (Is, idv)"
        "division_ok lang V ?S True (get_input p) Is idv"
      using div[OF _ keys(1)] dp_lawsD(2)[OF laws] literals_nonempty[OF neither(1)] by blast
    obtain Os od where out: "get_automata_and_division m ?S (get_output p) False = Inr (Os, od)"
        "division_ok lang V ?S False (get_output p) Os od"
      using div[OF _ keys(2)] dp_lawsD(2)[OF laws] literals_nonempty[OF neither(2)] by blast
    show ?thesis
    proof (cases "length Is = 1 \<and> \<not> contains_length_var ?S (get_input p)")
      case True
      then obtain a where a: "Is = [a]" by (auto simp: length_Suc_conv)
      have "length idv = 1" using division_okD(2)[OF inp(2)] a by simp
      then obtain d where d: "idv = [d]" by (auto simp: length_Suc_conv)
      have "d = get_input p" using division_okD(1)[OF inp(2)] d by simp
      moreover have "list_all2 (part_law lang V ?S) Is idv" using inp(2) by (simp only: division_ok_def)
      ultimately have "V a \<and> lang a = concat_lang (term_lang lang (ss_aut ?S)) (get_input p)"
        unfolding a d by (simp add: part_law_def)
      then have "processes lang V R C p ?S dp (process_single_input enc m ms p a ?S dp)"
        by (intro process_single_input_ok[OF laws ok0 p(1,2) p0(1) _ _ p0(2)]) simp_all
      then show ?thesis using neither inp(1) True a by (simp add: process_transducer_def Let_def)
    next
      case False
      note noodles_of_transducer[OF laws ok0 p(1) refl refl refl out(2) keys(2) inp(2) keys(1) p0(2),
          of C enc "m_homomorphism_heuristic prm"]
      then show ?thesis using neither inp(1) out(1) False by (auto simp: process_transducer_def Let_def)
    qed
  qed
qed

end
