(* ===== verification/Word_Library.thy ===== *)
theory Word_Library
  imports Predicate_Steps
begin

text \<open>
  An automata library that keeps the laws on which the theorems about the stabilization procedure
  rest, for automata that accept one word each.
\<close>

text \<open>
  A noodle has a segment for every letter of the common word. All transducers are the identity.
\<close>

definition is_word :: "zstring set \<Rightarrow> bool" where
  "is_word x \<longleftrightarrow> (\<exists>w. x = {w})"

definition word_mata :: "zstring set mata" where
  "word_mata = set_mata\<lparr>view := \<lambda>x. create_word_nfa (the_elem x)\<rparr>"

definition letter_positions :: "nat \<Rightarrow> zstring list \<Rightarrow> nat list" where
  "letter_positions k us = concat (map (\<lambda>(i, u). replicate (length u) i) (enumerate k us))"

definition letters :: "zstring list \<Rightarrow> zstring list" where
  "letters us = map (\<lambda>c. [c]) (concat us)"

definition word_noodles :: "zstring set list \<Rightarrow> zstring set list \<Rightarrow> (zstring \<times> nat \<times> nat) list list" where
  "word_noodles Ls Rs =
     (let us = map the_elem Ls; vs = map the_elem Rs
      in if concat us = concat vs then [zip (letters us) (zip (letter_positions 0 us) (letter_positions 0 vs))] else [])"

definition word_strings :: "zstring set mata_strings" where
  "word_strings = \<lparr>is_included = (\<subseteq>),
     noodlify_for_equation = (\<lambda>Ls Rs. map (map (\<lambda>(w, l, r). ({w}, l, r))) (word_noodles Ls Rs)),
     noodlify_for_transducer = (\<lambda>t Is Os h. map (map (\<lambda>(w, i, j). \<lparr>seg_transducer = t, seg_input_index = i, seg_input_aut = {w},
       seg_output_index = j, seg_output_aut = {w}\<rparr>)) (word_noodles Is Os)),
     apply_word = (\<lambda>t w l. {w}), apply_nfa = (\<lambda>t a l. a), remove_epsilon = id\<rparr>"

lemma letter_positions_simps [simp]:
  "letter_positions k [] = []" "letter_positions k (u # us) = replicate (length u) k @ letter_positions (Suc k) us"
  by (simp_all add: letter_positions_def)

lemma letters_simps [simp]: "letters [] = []" "letters (u # us) = map (\<lambda>c. [c]) u @ letters us"
  by (simp_all add: letters_def)

lemma length_letter_positions [simp]: "length (letter_positions k us) = length (letters us)"
  by (induction us arbitrary: k) simp_all

lemma letter_positions_range: "i \<in> set (letter_positions k us) \<Longrightarrow> k \<le> i \<and> i < k + length us"
  by (induction us arbitrary: k) fastforce+

lemma sorted_letter_positions: "sorted (letter_positions k us)"
  by (induction us arbitrary: k) (auto simp: sorted_append dest: letter_positions_range)

lemma letters_grouped_from:
  "map (\<lambda>i. concat (map snd (filter (\<lambda>p. fst p = i) (zip (letter_positions k us) (letters us))))) [k..<k + length us] = us"
proof (induction us arbitrary: k)
  case (Cons u us)
  have *: "concat (map snd (filter (\<lambda>p. fst p = i) (zip (replicate (length u) k) (map (\<lambda>c. [c]) u)))) = (if i = k then u else [])"
    for i by (induction u) auto
  have **: "filter (\<lambda>p. fst p = k) (zip (letter_positions (Suc k) us) (letters us)) = []"
    by (auto simp: filter_empty_conv dest!: set_zip_leftD letter_positions_range)
  have "[k..<k + length (u # us)] = k # [Suc k..<Suc k + length us]"
    using upt_conv_Cons[of k "k + length (u # us)"] by simp
  moreover have "map (\<lambda>i. concat (map snd (filter (\<lambda>p. fst p = i) (zip (letter_positions k (u # us)) (letters (u # us))))))
      [Suc k..<Suc k + length us] = us"
    by (rule trans[OF map_cong[OF refl] Cons[of "Suc k"]]) (auto simp: zip_append *)
  ultimately show ?case by (simp only: list.map) (simp add: zip_append * **)
qed simp

lemma letters_grouped: "map concat (grouped (length us) (letter_positions 0 us) (letters us)) = us"
  using letters_grouped_from[of 0 us] by (simp add: grouped_def comp_def)

lemma words_of_words: "words_of id (map (\<lambda>w. {w}) ws) vs \<longleftrightarrow> vs = ws"
  unfolding words_of_def by (induction ws arbitrary: vs) (auto simp: list_all2_Cons1)

lemma word_list: "\<forall>a \<in> set Ls. is_word a \<Longrightarrow> \<exists>us. Ls = map (\<lambda>w. {w}) us"
  by (induction Ls) (auto simp: is_word_def intro: exI[of _ "_ # _"])

lemma word_segment_law: "segment_law id is_word word_mata {w}"
  using create_word_nfa_dfa[of w] lang_create_word[of w]
  by (auto simp: segment_law_def is_word_def view_law_def word_mata_def word_dfa_def)

lemma word_noodles_words:
  "word_noodles (map (\<lambda>w. {w}) us) (map (\<lambda>w. {w}) vs) =
     (if concat us = concat vs then [zip (letters us) (zip (letter_positions 0 us) (letter_positions 0 vs))] else [])"
  by (simp add: word_noodles_def comp_def Let_def)

lemma same_letters: "concat us = concat vs \<Longrightarrow> letters us = letters vs"
  by (simp add: letters_def)

lemma noodle_positions:
  assumes "(w, i, j) \<in> set (zip ws (zip (letter_positions 0 us) (letter_positions 0 vs)))"
  shows "i < length us \<and> j < length vs"
proof -
  have "(i, j) \<in> set (zip (letter_positions 0 us) (letter_positions 0 vs))" using assms by (rule set_zip_rightD)
  then have "i \<in> set (letter_positions 0 us)" "j \<in> set (letter_positions 0 vs)" by (auto dest: set_zip_leftD set_zip_rightD)
  then show ?thesis using letter_positions_range by fastforce
qed

definition word_relation :: "nat \<Rightarrow> (zstring \<times> zstring) set" where
  "word_relation t = Id"

lemma word_equation_law: "noodlify_equation_law id is_word word_mata word_strings"
  unfolding noodlify_equation_law_def
proof (intro allI impI)
  fix Ls Rs :: "zstring set list"
  assume "\<forall>a \<in> set Ls \<union> set Rs. is_word a"
  then obtain us vs where words: "Ls = map (\<lambda>w. {w}) us" "Rs = map (\<lambda>w. {w}) vs" using word_list by (metis UnCI)
  let ?noodle = "map (\<lambda>(w, l, r). ({w}, l, r)) (zip (letters us) (zip (letter_positions 0 us) (letter_positions 0 vs)))"
  have parts: "map fst ?noodle = map (\<lambda>w. {w}) (letters us)" "left_positions ?noodle = letter_positions 0 us"
      "right_positions ?noodle = letter_positions 0 vs" if "concat us = concat vs"
    using same_letters[OF that] by (simp_all add: list_eq_iff_nth_eq)
  have run: "noodlify_for_equation word_strings Ls Rs = (if concat us = concat vs then [?noodle] else [])"
    by (simp add: word_strings_def words word_noodles_words)
  have "equation_noodle_law id is_word word_mata Ls Rs ?noodle" if "concat us = concat vs"
    unfolding equation_noodle_law_def parts[OF that] words words_of_words
    using word_segment_law letters_grouped[of us] letters_grouped[of vs] sorted_letter_positions same_letters[OF that]
    by (auto simp: words_of_words dest!: noodle_positions)
  moreover have "aligns id ?noodle us vs" if "concat us = concat vs"
    unfolding aligns_def parts[OF that] words_of_words
    using letters_grouped[of us] letters_grouped[of vs] same_letters[OF that] by simp
  ultimately show "(\<forall>noodle \<in> set (noodlify_for_equation word_strings Ls Rs). equation_noodle_law id is_word word_mata Ls Rs noodle) \<and>
      (\<forall>us vs. words_of id Ls us \<longrightarrow> words_of id Rs vs \<longrightarrow> concat us = concat vs \<longrightarrow>
        (\<exists>noodle \<in> set (noodlify_for_equation word_strings Ls Rs). aligns id noodle us vs))"
    unfolding run by (auto simp: words words_of_words)
qed

lemma word_transducer_law: "noodlify_transducer_law id is_word word_relation word_mata word_strings"
  unfolding noodlify_transducer_law_def
proof (intro allI impI)
  fix t Is Os h
  assume "\<forall>a \<in> set Is \<union> set Os. is_word a"
  then obtain us vs where words: "Is = map (\<lambda>w. {w}) us" "Os = map (\<lambda>w. {w}) vs" using word_list by (metis UnCI)
  let ?noodle = "map (\<lambda>(w, i, j). \<lparr>seg_transducer = t, seg_input_index = i, seg_input_aut = {w},
       seg_output_index = j, seg_output_aut = {w}\<rparr>) (zip (letters us) (zip (letter_positions 0 us) (letter_positions 0 vs)))"
  have parts: "map seg_input_aut ?noodle = map (\<lambda>w. {w}) (letters us)" "map seg_output_aut ?noodle = map (\<lambda>w. {w}) (letters us)"
      "map seg_input_index ?noodle = letter_positions 0 us" "map seg_output_index ?noodle = letter_positions 0 vs"
      if "concat us = concat vs"
    using same_letters[OF that] by (simp_all add: list_eq_iff_nth_eq)
  have related: "related word_relation ts (weave ws ws)" if "length ts = length ws" for ts and ws :: "zstring list"
    using that by (induction ts ws rule: list_induct2) (simp_all add: word_relation_def)
  have run: "noodlify_for_transducer word_strings t Is Os h = (if concat us = concat vs then [?noodle] else [])"
    by (simp add: word_strings_def words word_noodles_words)
  have "transducer_noodle_law id is_word word_relation word_mata t Is Os ?noodle" if "concat us = concat vs"
    unfolding transducer_noodle_law_def parts[OF that] words words_of_words
    using word_segment_law letters_grouped[of us] letters_grouped[of vs] sorted_letter_positions same_letters[OF that]
    by (auto simp: words_of_words word_relation_def dest!: noodle_positions)
  moreover have "transduces id word_relation ?noodle us vs" if "concat us = concat vs"
    unfolding transduces_def parts[OF that] words_of_words
    using letters_grouped[of us] letters_grouped[of vs] same_letters[OF that] by (auto intro!: related)
  ultimately show "(\<forall>noodle \<in> set (noodlify_for_transducer word_strings t Is Os h).
        transducer_noodle_law id is_word word_relation word_mata t Is Os noodle) \<and>
      (\<forall>us vs. words_of id Is us \<longrightarrow> words_of id Os vs \<longrightarrow> (concat us, concat vs) \<in> word_relation t \<longrightarrow>
        (\<exists>noodle \<in> set (noodlify_for_transducer word_strings t Is Os h). transduces id word_relation noodle us vs))"
    unfolding run by (auto simp: words words_of_words word_relation_def)
qed

lemma word_application_law: "application_law id is_word word_relation word_mata word_strings"
proof -
  have "simplify_application word_mata word_strings x = x" for x
    by (simp add: simplify_application_def word_strings_def word_mata_def set_mata_def)
  then show ?thesis
    using word_segment_law by (auto simp: application_law_def word_strings_def word_relation_def is_word_def)
qed

lemma word_dp_laws: "dp_laws id is_word word_relation word_mata word_strings"
proof -
  have "mata_laws id word_mata" by (simp add: mata_laws_def word_mata_def set_mata_def)
  moreover have "is_word (concatenate word_mata x y)" if "is_word x" "is_word y" for x y
    using that by (auto simp: is_word_def word_mata_def set_mata_def)
  ultimately show ?thesis
    using word_equation_law word_transducer_law word_application_law by (simp add: dp_laws_def)
qed

end
