(* ===== verification/Stabilization.thy ===== *)
theory Stabilization
  imports Word_Library
begin

text \<open>
  The main loop of the stabilization procedure, \<open>compute_next_solution_with_len_checks\<close> of
  \<open>src/src/smt/theory_str_noodler/decision_procedure.cpp\<close>: an iteration never raises an
  exception, keeps the invariant of the worklist and, unless it skips a state because of its
  lengths, the solutions of the worklist. The postponed disequations are outside of these
  statements: either there are none, or they are not postponed to the end of the stabilization.
\<close>

section \<open>The invariant of the worklist\<close>

text \<open>
  The predicates in the queue hold in all models of the state, and the fresh names are new for
  the state and for the variables of the input.
\<close>

definition queue_ok ::
    "('a \<Rightarrow> zstring set) \<Rightarrow> (nat \<Rightarrow> (zstring \<times> zstring) set) \<Rightarrow> conversion_sem \<Rightarrow> 'a solving_state \<Rightarrow> bool" where
  "queue_ok lang R C S \<longleftrightarrow> (\<forall>\<sigma> \<nu>. state_models lang R C S \<sigma> \<nu> \<longrightarrow> (\<forall>p \<in> set (ss_to_process S). sat_pred R \<sigma> p))"

definition dp_state_ok ::
    "('a \<Rightarrow> zstring set) \<Rightarrow> ('a \<Rightarrow> bool) \<Rightarrow> (nat \<Rightarrow> (zstring \<times> zstring) set) \<Rightarrow> conversion_sem \<Rightarrow> dp_params \<Rightarrow> fresh_ids \<Rightarrow>
     'a solving_state \<Rightarrow> bool" where
  "dp_state_ok lang V R C prm ids S \<longleftrightarrow> state_ok lang V S \<and> queue_ok lang R C S \<and> ids_cover ids (mentions S) \<and>
     (m_postpone_diseqs_stabilization prm \<longrightarrow> ss_diseqs S = [])"

definition dp_ok ::
    "('a \<Rightarrow> zstring set) \<Rightarrow> ('a \<Rightarrow> bool) \<Rightarrow> (nat \<Rightarrow> (zstring \<times> zstring) set) \<Rightarrow> conversion_sem \<Rightarrow> dp_params \<Rightarrow> 'a dec_proc \<Rightarrow> bool" where
  "dp_ok lang V R C prm dp \<longleftrightarrow> (\<forall>S \<in> dp_states dp. dp_state_ok lang V R C prm (dp_fresh dp) S) \<and>
     ids_cover (dp_fresh dp) (dp_initial_variables dp)"

text \<open>
  The check of the lengths of a state, which the caller gives, may take fresh names.
\<close>

definition check_lens_law :: "'a check_lens option \<Rightarrow> bool" where
  "check_lens_law check_lens \<longleftrightarrow>
     (case check_lens of None \<Rightarrow> True | Some f \<Rightarrow> \<forall>b S ids. ids_le ids (snd (f b S ids)))"

text \<open>
  The states whose solutions are those of the procedure: the ones to be processed and, when one
  was found, the solution.
\<close>

definition open_states :: "(lbool \<times> bool) option \<Rightarrow> 'a dec_proc \<Rightarrow> 'a solving_state set" where
  "open_states found dp = (if found = None then dp_states dp else insert (dp_solution dp) (dp_states dp))"

definition solution_found :: "(lbool \<times> bool) option \<Rightarrow> bool \<Rightarrow> 'a dec_proc \<Rightarrow> bool" where
  "solution_found found skipped dp \<longleftrightarrow>
     (case found of None \<Rightarrow> True | Some x \<Rightarrow> x = (l_true, skipped) \<and> ss_to_process (dp_solution dp) = [])"

definition advances ::
    "('a \<Rightarrow> zstring set) \<Rightarrow> ('a \<Rightarrow> bool) \<Rightarrow> (nat \<Rightarrow> (zstring \<times> zstring) set) \<Rightarrow> conversion_sem \<Rightarrow> dp_params \<Rightarrow> 'a dec_proc \<Rightarrow>
     bool \<Rightarrow> (lbool \<times> bool) option \<Rightarrow> bool \<Rightarrow> 'a dec_proc \<Rightarrow> bool" where
  "advances lang V R C prm dp skipped found skipped' dp' \<longleftrightarrow>
     dp_ok lang V R C prm dp' \<and> dp_initial_variables dp' = dp_initial_variables dp \<and> (skipped \<longrightarrow> skipped') \<and>
     (\<forall>\<sigma> \<nu>. lives_on lang R C (dp_initial_variables dp) \<sigma> \<nu> (open_states found dp') \<longrightarrow>
        lives_on lang R C (dp_initial_variables dp) \<sigma> \<nu> (dp_states dp)) \<and>
     (\<not> skipped' \<longrightarrow> (\<forall>\<sigma> \<nu>. lives_on lang R C (dp_initial_variables dp) \<sigma> \<nu> (dp_states dp) \<longrightarrow>
        lives_on lang R C (dp_initial_variables dp) \<sigma> \<nu> (open_states found dp')))"

lemma check_lens_called:
  assumes "check_lens_law check_lens" and "check_lens \<noteq> None"
  obtains r ids' where "call_check_lens check_lens b S ids = Inr (r, ids')" "ids_le ids ids'"
proof -
  obtain f where f: "check_lens = Some f" using assms(2) by blast
  then show ?thesis
    using assms(1) that[of "fst (f b S ids)" "snd (f b S ids)"] by (simp add: check_lens_law_def call_check_lens_def)
qed

lemma dp_state_ok_mono: "dp_state_ok lang V R C prm ids S \<Longrightarrow> ids_le ids ids' \<Longrightarrow> dp_state_ok lang V R C prm ids' S"
  unfolding dp_state_ok_def using ids_cover_mono by blast

lemma dp_ok_smaller:
  assumes "dp_ok lang V R C prm dp" and "dp_states dp' \<subseteq> dp_states dp"
    and "dp_initial_variables dp' = dp_initial_variables dp" and "ids_le (dp_fresh dp) (dp_fresh dp')"
  shows "dp_ok lang V R C prm dp'"
  using assms dp_state_ok_mono[OF _ assms(4)] ids_cover_mono[OF _ order_refl assms(4)] unfolding dp_ok_def by (metis subsetD)

lemma lives_on_mono: "lives_on lang R C I \<sigma> \<nu> N \<Longrightarrow> N \<subseteq> M \<Longrightarrow> lives_on lang R C I \<sigma> \<nu> M"
  unfolding lives_on_def by blast

section \<open>An iteration\<close>

lemma pop_from_worklist_run:
  assumes "\<not> is_worklist_empty dp"
  obtains S dp' where "pop_from_worklist dp = Inr (S, dp')" "dp_states dp = insert S (dp_states dp')"
    "dp_initial_variables dp' = dp_initial_variables dp" "dp_fresh dp' = dp_fresh dp"
proof (cases "dp_possible_solutions dp = []")
  case True
  then obtain S rest where "dp_worklist dp = S # rest"
    using assms by (cases "dp_worklist dp") (auto simp: is_worklist_empty_def)
  then show ?thesis
    using True by (intro that[of S "dp\<lparr>dp_worklist := rest, dp_popped := dp_popped dp + 1\<rparr>"])
      (simp_all add: pop_from_worklist_def dp_states_def)
next
  case False
  have "set (dp_possible_solutions dp) = insert (last (dp_possible_solutions dp)) (set (butlast (dp_possible_solutions dp)))"
    using arg_cong[OF append_butlast_last_id[OF False], of set] by simp
  then show ?thesis
    using False by (intro that[of "last (dp_possible_solutions dp)" "dp\<lparr>dp_possible_solutions := butlast (dp_possible_solutions dp),
        dp_popped := dp_popped dp + 1\<rparr>"]) (simp_all add: pop_from_worklist_def dp_states_def)
qed

text \<open>
  A predicate of the queue is processed in the state without it. The models of that state are
  those of the popped one.
\<close>

lemma popped_predicate:
  assumes "dp_state_ok lang V R C prm ids S" and "ss_to_process S = p # rest"
  shows "state_ok lang V (S\<lparr>ss_to_process := rest\<rparr>)" "wf_pred p" "get_set p \<subseteq> get_keys (ss_aut S)"
    "is_equation p \<or> is_transducer p" "ids_cover ids (mentions (S\<lparr>ss_to_process := rest\<rparr>))"
    "state_models lang R C (S\<lparr>ss_to_process := rest\<rparr>) = state_models lang R C S"
    "queue_ok lang R C (S\<lparr>ss_to_process := rest\<rparr>)" "state_models lang R C S \<sigma> \<nu> \<Longrightarrow> sat_pred R \<sigma> p"
proof -
  let ?S = "S\<lparr>ss_to_process := rest\<rparr>"
  note ok = assms(1)[unfolded dp_state_ok_def]
  show "state_ok lang V ?S"
    using conjunct1[OF ok] assms(2) unfolding state_okN_def preds_within_def kinds_ok_def lens_ok_def state_preds_def by simp
  show "wf_pred p" "get_set p \<subseteq> get_keys (ss_aut S)" "is_equation p \<or> is_transducer p"
    using conjunct1[OF ok] assms(2) unfolding state_okN_def preds_within_def kinds_ok_def by simp_all
  show "ids_cover ids (mentions ?S)" using ok by (simp add: mentions_def state_vars_def arith_vars_def)
  show models: "state_models lang R C ?S = state_models lang R C S"
    by (simp add: fun_eq_iff state_models_def state_preds_def arith_models_def state_vars_def)
  show "queue_ok lang R C ?S" using ok assms(2) unfolding queue_ok_def models by simp
  show "state_models lang R C S \<sigma> \<nu> \<Longrightarrow> sat_pred R \<sigma> p" using ok assms(2) by (auto simp: queue_ok_def)
qed

lemma derived_queue_ok:
  assumes "derived R C lang I P S S'" and "queue_ok lang R C S"
  shows "queue_ok lang R C S'"
  using assms unfolding queue_ok_def derived_def by metis

lemma processes_advances:
  assumes ok: "dp_ok lang V R C prm dp" and S: "dp_state_ok lang V R C prm (dp_fresh dp) S" "ss_to_process S = p # rest"
    and res: "processes lang V R C p (S\<lparr>ss_to_process := rest\<rparr>) dp res"
    and before: "dp_states dp0 = insert S (dp_states dp)" "dp_initial_variables dp = dp_initial_variables dp0"
  shows "\<exists>dp'. res = Inr dp' \<and> advances lang V R C prm dp0 skipped None skipped dp'"
proof -
  let ?S = "S\<lparr>ss_to_process := rest\<rparr>" and ?I = "dp_initial_variables dp0"
  note pop = popped_predicate[OF S]
  obtain dp' N where dp': "res = Inr dp'" and sp: "spawns lang V R C (\<lambda>\<sigma>. sat_pred R \<sigma> p) ?S dp dp' N"
    and live: "\<And>\<sigma> \<nu>. state_models lang R C ?S \<sigma> \<nu> \<Longrightarrow> sat_pred R \<sigma> p \<Longrightarrow> lives_on lang R C ?I \<sigma> \<nu> N"
    using res before(2) unfolding processes_def by auto
  have states: "dp_states dp' = dp_states dp \<union> N" and ids: "ids_le (dp_fresh dp) (dp_fresh dp')"
    and init: "dp_initial_variables dp' = ?I"
    using sp before(2) by (simp_all add: spawns_def)
  have new: "state_ok lang V S'" "ids_cover (dp_fresh dp') (mentions S')" "length (ss_diseqs S') = length (ss_diseqs S)"
      "derived R C lang ?I (\<lambda>\<sigma>. sat_pred R \<sigma> p) ?S S'" if "S' \<in> N" for S'
    using sp that before(2) by (auto simp: spawns_def)
  have "dp_state_ok lang V R C prm (dp_fresh dp') S'" if "S' \<in> N" for S'
    using new[OF that] derived_queue_ok[OF new(4)[OF that] pop(7)] S(1) by (auto simp: dp_state_ok_def)
  then have ok': "dp_ok lang V R C prm dp'"
    using ok dp_state_ok_mono[OF _ ids] ids_cover_mono[OF _ order_refl ids] states init before(2)
    unfolding dp_ok_def by (metis Un_iff)
  have bwd: "lives_on lang R C ?I \<sigma> \<nu> (dp_states dp0)" if live': "lives_on lang R C ?I \<sigma> \<nu> (dp_states dp')" for \<sigma> \<nu>
  proof (cases "lives_on lang R C ?I \<sigma> \<nu> (dp_states dp)")
    case True
    then show ?thesis by (rule lives_on_mono) (auto simp: before(1))
  next
    case False
    then have "lives_on lang R C ?I \<sigma> \<nu> N" using live' by (simp add: states lives_on_Un)
    then obtain S' \<sigma>1 \<nu>1 where N: "S' \<in> N" "state_models lang R C S' \<sigma>1 \<nu>1" "agree ?I \<sigma> \<nu> \<sigma>1 \<nu>1"
      unfolding lives_on_def by blast
    obtain \<sigma>2 \<nu>2 where two: "state_models lang R C ?S \<sigma>2 \<nu>2" "agree ?I \<sigma>1 \<nu>1 \<sigma>2 \<nu>2"
      using derivedD[OF new(4)[OF N(1)] N(2)] by blast
    show ?thesis
      unfolding lives_on_def before(1) using two(1) agree_trans[OF N(3) two(2)] by (auto simp: pop(6))
  qed
  have fwd: "lives_on lang R C ?I \<sigma> \<nu> (dp_states dp')" if old: "lives_on lang R C ?I \<sigma> \<nu> (dp_states dp0)" for \<sigma> \<nu>
  proof -
    obtain S0 \<sigma>1 \<nu>1 where S0: "S0 \<in> dp_states dp0" "state_models lang R C S0 \<sigma>1 \<nu>1" "agree ?I \<sigma> \<nu> \<sigma>1 \<nu>1"
      using old unfolding lives_on_def by blast
    show ?thesis
    proof (cases "S0 = S")
      case True
      then have "lives_on lang R C ?I \<sigma>1 \<nu>1 N" using S0(2) pop(8) live by (simp add: pop(6))
      then have "lives_on lang R C ?I \<sigma> \<nu> N" unfolding lives_on_def using agree_trans[OF S0(3)] by blast
      then show ?thesis by (simp add: states lives_on_Un)
    next
      case False
      then show ?thesis unfolding lives_on_def states using S0 before(1) by blast
    qed
  qed
  show ?thesis using dp' ok' init bwd fwd by (simp add: advances_def open_states_def)
qed


lemma solution_step_ok:
  assumes laws: "dp_laws lang V R m ms" and ok: "dp_ok lang V R C prm dp" and check: "check_lens_law check_lens"
    and work: "\<not> is_worklist_empty dp" and enabled: "enabled \<longrightarrow> check_lens \<noteq> None"
  obtains found skipped' dp' where "solution_step enc m ms uninit prm check_lens enabled skipped dp = Inr (found, skipped', dp')"
    "advances lang V R C prm dp skipped found skipped' dp'" "solution_found found skipped' dp'"
proof -
  let ?I = "dp_initial_variables dp"
  obtain S dp1 where pop: "pop_from_worklist dp = Inr (S, dp1)" "dp_states dp = insert S (dp_states dp1)"
      "dp_initial_variables dp1 = ?I" "dp_fresh dp1 = dp_fresh dp"
    by (rule pop_from_worklist_run[OF work])
  obtain skip dp2 where chk: "(if enabled \<and> ss_to_process S \<noteq> [] \<and> ss_transducers S = [] \<and> ss_has_siblings S
               then bind_res (call_check_lens check_lens True S (dp_fresh dp1)) (\<lambda>(lens_sat, ids).
                      Inr (lens_sat = l_false, dp1\<lparr>dp_solution := S, dp_fresh := ids\<rparr>))
               else Inr (False, dp1)) = Inr (skip, dp2)" "dp_states dp2 = dp_states dp1"
      "dp_initial_variables dp2 = ?I" "ids_le (dp_fresh dp) (dp_fresh dp2)"
  proof (cases "enabled \<and> ss_to_process S \<noteq> [] \<and> ss_transducers S = [] \<and> ss_has_siblings S")
    case True
    obtain r ids' where r: "call_check_lens check_lens True S (dp_fresh dp1) = Inr (r, ids')" "ids_le (dp_fresh dp1) ids'"
      using check_lens_called[OF check] enabled True by blast
    show ?thesis
      by (rule that[of "r = l_false" "dp1\<lparr>dp_solution := S, dp_fresh := ids'\<rparr>"]) (use True r pop(3,4) in \<open>simp_all add: dp_states_def\<close>)
  next
    case False
    then show ?thesis using that[of False dp1] pop(3,4) by auto
  qed
  have S: "dp_state_ok lang V R C prm (dp_fresh dp2) S"
    using ok pop(2) by (intro dp_state_ok_mono[OF _ chk(4)]) (simp add: dp_ok_def)
  have ok2: "dp_ok lang V R C prm dp2" by (rule dp_ok_smaller[OF ok _ chk(3,4)]) (auto simp: chk(2) pop(2))
  have ids2: "ids_cover (dp_fresh dp2) ?I" using ok2 chk(3) by (simp add: dp_ok_def)
  have run: "solution_step enc m ms uninit prm check_lens enabled skipped dp = (if skip then Inr (None, True, dp2)
      else case ss_to_process S of
         [] \<Rightarrow>
           if m_postpone_diseqs_stabilization prm \<and> ss_diseqs S \<noteq> []
           then bind_res (process_postponed_disequations m ms uninit prm check_lens S dp2) (\<lambda>(found, dp).
                  Inr (if found then Some (l_true, False) else None, skipped, dp))
           else Inr (Some (l_true, skipped), skipped, dp2\<lparr>dp_solution := S\<rparr>)
       | p # rest \<Rightarrow>
           let S = S\<lparr>ss_to_process := rest\<rparr>
           in bind_res (if is_equation p then process_inclusion enc m ms p S dp2 else process_transducer enc m ms prm p S dp2)
                (\<lambda>dp. Inr (None, skipped, dp)))"
    by (simp only: solution_step_def pop(1) chk(1) bind_res_simps prod.case)
  consider (skip) skip | (solved) "\<not> skip" "ss_to_process S = []" | (process) p rest where "\<not> skip" "ss_to_process S = p # rest"
    by (cases "ss_to_process S") auto
  then show ?thesis
  proof cases
    case skip
    have "advances lang V R C prm dp skipped None True dp2"
      using ok2 chk(3) lives_on_mono[of lang R C ?I _ _ "dp_states dp2" "dp_states dp"]
      by (auto simp: advances_def open_states_def chk(2) pop(2))
    then show ?thesis
      using skip by (intro that[of None True dp2]) (simp_all add: run solution_found_def)
  next
    case solved
    let ?dp = "dp2\<lparr>dp_solution := S\<rparr>"
    have "dp_states ?dp = dp_states dp1" using chk(2) by (simp add: dp_states_def)
    then have "advances lang V R C prm dp skipped (Some (l_true, skipped)) skipped ?dp"
      using dp_ok_smaller[OF ok2, of ?dp] chk(2,3) by (simp add: advances_def open_states_def pop(2))
    then show ?thesis
      using solved S by (intro that[of "Some (l_true, skipped)" skipped ?dp]) (auto simp: run solution_found_def dp_state_ok_def)
  next
    case process
    let ?S = "S\<lparr>ss_to_process := rest\<rparr>"
    let ?res = "if is_equation p then process_inclusion enc m ms p ?S dp2 else process_transducer enc m ms prm p ?S dp2"
    note pp = popped_predicate[OF S process(2)]
    have ids: "ids_cover (dp_fresh dp2) (mentions ?S \<union> dp_initial_variables dp2)" using pp(5) ids2 chk(3) by simp
    have keys: "get_set p \<subseteq> get_keys (ss_aut ?S)" using pp(3) by simp
    have "processes lang V R C p ?S dp2 ?res"
    proof (cases "is_equation p")
      case True
      then show ?thesis using process_inclusion_ok[OF laws pp(1) True pp(2) keys ids, of C enc] unfolding pp(6) using pp(8) by simp
    next
      case False
      then show ?thesis using process_transducer_ok[OF laws pp(1) _ pp(2) keys ids] pp(4) by simp
    qed
    from processes_advances[OF ok2 S process(2) this, of dp skipped] obtain dp' where
      dp': "?res = Inr dp'" "advances lang V R C prm dp skipped None skipped dp'"
      using pop(2) chk(2,3) by auto
    show ?thesis
      using process dp' by (intro that[of None skipped dp']) (simp_all add: run solution_found_def)
  qed
qed

section \<open>The loop\<close>

lemma advances_trans:
  assumes "advances lang V R C prm dp a None b dp1" and "advances lang V R C prm dp1 b found c dp2"
  shows "advances lang V R C prm dp a found c dp2"
proof -
  have "open_states None dp1 = dp_states dp1" by (simp add: open_states_def)
  note a = assms(1)[unfolded advances_def this]
  have init: "dp_initial_variables dp1 = dp_initial_variables dp" using a by blast
  note b = assms(2)[unfolded advances_def init]
  show ?thesis unfolding advances_def using a b by blast
qed

text \<open>
  What a call of the loop returns: a solution, or that there is none when the worklist is empty.
\<close>

definition loop_result ::
    "('a \<Rightarrow> zstring set) \<Rightarrow> ('a \<Rightarrow> bool) \<Rightarrow> (nat \<Rightarrow> (zstring \<times> zstring) set) \<Rightarrow> conversion_sem \<Rightarrow> dp_params \<Rightarrow> 'a dec_proc \<Rightarrow>
     bool \<Rightarrow> ((lbool \<times> bool) \<times> 'a dec_proc) res \<Rightarrow> bool" where
  "loop_result lang V R C prm dp skipped res \<longleftrightarrow> (\<exists>found skipped' dp'.
     advances lang V R C prm dp skipped found skipped' dp' \<and> solution_found found skipped' dp' \<and>
     res = Inr (case found of None \<Rightarrow> (l_false, skipped') | Some x \<Rightarrow> x, dp') \<and> (found = None \<longrightarrow> is_worklist_empty dp'))"

lemma loop_result_empty:
  assumes "dp_ok lang V R C prm dp" and "is_worklist_empty dp"
  shows "loop_result lang V R C prm dp skipped (Inr ((l_false, skipped), dp))"
  unfolding loop_result_def using assms
  by (intro exI[of _ None] exI[of _ skipped] exI[of _ dp]) (simp add: advances_def open_states_def solution_found_def)

lemma loop_result_next:
  assumes "advances lang V R C prm dp skipped None skipped1 dp1" and "loop_result lang V R C prm dp1 skipped1 res"
  shows "loop_result lang V R C prm dp skipped res"
  using assms advances_trans unfolding loop_result_def by blast

lemma solution_loop_ok:
  assumes "solution_loop enc m ms uninit prm check_lens enabled skipped dp = Some res"
    and "dp_laws lang V R m ms" and "check_lens_law check_lens" and "enabled \<longrightarrow> check_lens \<noteq> None" and "dp_ok lang V R C prm dp"
  shows "loop_result lang V R C prm dp skipped res"
proof -
  let ?P = "\<lambda>enc m ms uninit prm check_lens enabled skipped dp res. dp_laws lang V R m ms \<longrightarrow> check_lens_law check_lens \<longrightarrow>
      (enabled \<longrightarrow> check_lens \<noteq> None) \<longrightarrow> dp_ok lang V R C prm dp \<longrightarrow> loop_result lang V R C prm dp skipped res"
  have "?P enc m ms uninit prm check_lens enabled skipped dp res"
  proof (rule solution_loop.raw_induct[where P = ?P, OF _ assms(1)], intro impI)
    fix loop enc m ms uninit prm and check_lens :: "'a check_lens option" and enabled skipped and dp :: "'a dec_proc" and res
    assume IH: "\<And>enc m ms uninit prm check_lens enabled skipped dp res.
        loop enc m ms uninit prm check_lens enabled skipped dp = Some res \<Longrightarrow> ?P enc m ms uninit prm check_lens enabled skipped dp res"
      and body: "(if is_worklist_empty dp then Some (Inr ((l_false, skipped), dp))
        else case solution_step enc m ms uninit prm check_lens enabled skipped dp of
          Inl e \<Rightarrow> Some (Inl e)
        | Inr (Some result, skipped, dp) \<Rightarrow> Some (Inr (result, dp))
        | Inr (None, skipped, dp) \<Rightarrow> loop enc m ms uninit prm check_lens enabled skipped dp) = Some res"
      and laws: "dp_laws lang V R m ms" and check: "check_lens_law check_lens" "enabled \<longrightarrow> check_lens \<noteq> None"
      and ok: "dp_ok lang V R C prm dp"
    show "loop_result lang V R C prm dp skipped res"
    proof (cases "is_worklist_empty dp")
      case True
      then show ?thesis using loop_result_empty[OF ok True, of skipped] body by auto
    next
      case False
      obtain found skipped' dp' where
        step: "solution_step enc m ms uninit prm check_lens enabled skipped dp = Inr (found, skipped', dp')"
          "advances lang V R C prm dp skipped found skipped' dp'" "solution_found found skipped' dp'"
        by (rule solution_step_ok[OF laws ok check(1) False check(2)])
      show ?thesis
      proof (cases found)
        case None
        then have "loop enc m ms uninit prm check_lens enabled skipped' dp' = Some res" using body False step(1) by simp
        moreover have "dp_ok lang V R C prm dp'" using step(2) by (simp add: advances_def)
        ultimately have "loop_result lang V R C prm dp' skipped' res" using IH laws check by blast
        then show ?thesis using loop_result_next step(2) None by blast
      next
        case (Some x)
        then have "res = Inr (x, dp')" using body False step(1) by simp
        then show ?thesis
          unfolding loop_result_def using Some step(2,3) by (intro exI[of _ found] exI[of _ skipped'] exI[of _ dp']) simp
      qed
    qed
  qed
  then show ?thesis using assms by blast
qed

section \<open>The answers\<close>

text \<open>
  What the result of \<open>compute_next_solution_with_len_checks\<close> says of the states in the worklist.
\<close>

lemma compute_next_solution_ok:
  assumes "compute_next_solution_with_len_checks enc m ms uninit prm check_lens dp = Some res"
    and "dp_laws lang V R m ms" and "check_lens_law check_lens" and "dp_ok lang V R C prm dp"
  shows "loop_result lang V R C prm dp False res"
  by (rule solution_loop_ok[OF assms(1)[unfolded compute_next_solution_with_len_checks_def] assms(2,3) _ assms(4)])
    (simp add: len_checks_enabled_def)

lemma lives_on_state: "state_models lang R C S \<sigma> \<nu> \<Longrightarrow> S \<in> N \<Longrightarrow> lives_on lang R C I \<sigma> \<nu> N"
  unfolding lives_on_def using agree_refl by blast

lemma no_states: "is_worklist_empty dp \<Longrightarrow> dp_states dp = {}"
  by (simp add: is_worklist_empty_def dp_states_def)



section \<open>An example\<close>

text \<open>
  Two variables with the languages of one word each, and the inclusion of the first in the second.
  When the words differ there is no noodle.
\<close>

definition word_state :: "zstring \<Rightarrow> zstring \<Rightarrow> bool \<Rightarrow> zstring set solving_state" where
  "word_state v w queued =
     (let x = BasicTerm Variable [120]; y = BasicTerm Variable [121]; incl = create_equation [x] [y]
      in new_solving_state \<lparr>aut_entries = [(x, {v}), (y, {w})], aut_alphabet = \<lparr>alph_symbols = [97, 98], alph_hash = 0\<rparr>\<rparr>
           (if queued then [incl] else []) [incl] [] [incl] {} [] False [] [])"

definition word_params :: dp_params where
  "word_params = \<lparr>m_try_premature_len_checks = False, m_postpone_diseqs_stabilization = True,
     m_homomorphism_heuristic = False, m_ca_constr = False, m_preprocess_red = True, m_produce_models = False\<rparr>"

definition word_dp :: "zstring set solving_state list \<Rightarrow> zstring set dec_proc" where
  "word_dp Ss =
     (let S = word_state [97] [97] False
      in \<lparr>dp_noodlification_no = 0, dp_worklist = Ss, dp_possible_solutions = [], dp_solution = S,
          dp_initial_variables = get_keys (ss_aut S), dp_popped = 0, dp_init_len_vars = {}, dp_formula = [],
          dp_init_aut = ss_aut S, dp_init_subst = [], dp_conversions = [], dp_disequations = [], dp_not_contains = [],
          dp_input_contains_diseqs = False, dp_inclusions_from_preprocessing = [], dp_fresh = []\<rparr>)"

lemmas word_example_defs = word_state_def new_solving_state_def Let_def get_keys_def create_equation_def

lemma word_mentions: "mentions (word_state v w queued) = {BasicTerm Variable [120], BasicTerm Variable [121]}"
  by (auto simp: mentions_def state_vars_def arith_vars_def word_example_defs)

lemma word_ids: "ids_cover [] {BasicTerm Variable [120], BasicTerm Variable [121]}"
  by (auto simp: ids_cover_def mk_internal_noodler_var_def zs_def)

lemma word_state_ok: "dp_state_ok id is_word word_relation C word_params [] (word_state v w queued)"
proof -
  have "state_ok id is_word (word_state v w queued)"
    by (auto simp: state_okN_def word_example_defs subst_shape_def aut_shape_def preds_within_def state_preds_def get_set_def
        wf_pred_def pred_kind_defs kinds_ok_def lens_ok_def term_lang_def is_variable_def is_literal_def is_word_def)
  moreover have "queue_ok id word_relation C (word_state v w queued)"
    by (simp add: queue_ok_def state_models_def state_preds_def word_example_defs)
  moreover have "ss_diseqs (word_state v w queued) = []" by (simp add: word_example_defs)
  ultimately show ?thesis by (simp add: dp_state_ok_def word_mentions word_ids)
qed

lemma word_dp_ok: "dp_ok id is_word word_relation C word_params (word_dp [word_state u v q, word_state w x r])"
proof -
  have "dp_initial_variables (word_dp Ss) = {BasicTerm Variable [120], BasicTerm Variable [121]}" for Ss
    by (auto simp: word_dp_def word_example_defs)
  then show ?thesis
    using word_state_ok word_ids by (simp add: dp_ok_def dp_states_def) (simp add: word_dp_def Let_def)
qed

lemma word_step:
  assumes "dp_worklist dp = word_state [97] [98] True # Ss" and "dp_possible_solutions dp = []"
  shows "solution_step enc word_mata word_strings 0 word_params None False False dp =
     Inr (None, False, dp\<lparr>dp_worklist := Ss, dp_popped := dp_popped dp + 1, dp_noodlification_no := dp_noodlification_no dp + 1\<rparr>)"
  using assms
  by (simp add: solution_step_def pop_from_worklist_def word_example_defs pred_kind_defs process_inclusion_def side_defs
      get_automata_and_division_def aut_at_def contains_length_var_def word_strings_def word_noodles_def vec_at_def
      is_predicate_on_cycle_def)

lemma word_dp_simps [simp]:
  "dp_worklist (word_dp Ss) = Ss" "dp_possible_solutions (word_dp Ss) = []" "dp_popped (word_dp Ss) = 0"
  "dp_noodlification_no (word_dp Ss) = 0" "(word_dp Ss)\<lparr>dp_worklist := Ts\<rparr> = word_dp Ts"
  "(word_dp Ss)\<lparr>dp_solution := word_state [97] [97] False\<rparr> = word_dp Ss" "dp_solution (word_dp Ss) = word_state [97] [97] False"
  by (simp_all add: word_dp_def Let_def)

lemma word_run:
  "compute_next_solution_with_len_checks enc word_mata word_strings 0 word_params None (word_dp [word_state [97] [98] True, S]) =
     solution_loop enc word_mata word_strings 0 word_params None False False
       ((word_dp [S])\<lparr>dp_popped := 1, dp_noodlification_no := 1\<rparr>)"
proof -
  have "\<not> len_checks_enabled word_params None (word_dp [word_state [97] [98] True, S])"
    by (simp add: len_checks_enabled_def)
  then show ?thesis
    unfolding compute_next_solution_with_len_checks_def
    by (subst solution_loop.simps) (simp add: word_step is_worklist_empty_def)
qed

lemma word_run_unsat:
  "compute_next_solution_with_len_checks enc word_mata word_strings 0 word_params None
     (word_dp [word_state [97] [98] True, word_state [97] [98] True]) =
     Some (Inr ((l_false, False), (word_dp [])\<lparr>dp_popped := 2, dp_noodlification_no := 2\<rparr>))"
  unfolding word_run
  by (subst solution_loop.simps)
    (simp add: word_step is_worklist_empty_def, subst solution_loop.simps, simp add: is_worklist_empty_def numeral_2_eq_2)

lemma word_solved: "ss_to_process (word_state v w False) = []" "ss_diseqs (word_state v w q) = []"
  by (simp_all add: word_example_defs)

lemma word_run_sat:
  "compute_next_solution_with_len_checks enc word_mata word_strings 0 word_params None
     (word_dp [word_state [97] [98] True, word_state [97] [97] False]) =
     Some (Inr ((l_true, False), (word_dp [])\<lparr>dp_popped := 2, dp_noodlification_no := 1\<rparr>))"
  unfolding word_run
  by (subst solution_loop.simps)
    (simp add: solution_step_def is_worklist_empty_def pop_from_worklist_def numeral_2_eq_2 word_solved,
      simp add: word_dp_def Let_def)



end
