(* ===== verification/Spec2Isabelle.thy ===== *)
theory Spec2Isabelle
  imports Nielsen_Preprocess Preprocess_Identities Disequalities Stabilization
begin

text \<open>
  A verification library for the string theory solver of Z3-Noodler
  (\<open>src/src/smt/theory_str_noodler\<close>; file names below are relative to this directory).

  \<^bold>\<open>The program.\<close> The theory plugin of the solver turns the string constraints of an SMT problem into
  a formula of equations, disequations, transducer and not-contains predicates over variables and
  literals (\<open>formula.h\<close>), a map from terms to automata (\<open>aut_assignment.h\<close>) and a set of variables
  whose lengths matter. A decision procedure preprocesses them (\<open>formula_preprocess.h\<close>) and then
  enumerates solutions, for each of which it gives a length formula to the arithmetic solver. There are
  several procedures: the Nielsen transformation (\<open>nielsen_decision_procedure.h\<close>) for quadratic
  systems, the stabilization procedure (\<open>decision_procedure.h\<close>, \<open>solving_state.h\<close>) in general, and
  others for special cases.

  \<^bold>\<open>How the code is modelled.\<close> Definitions have the names of the functions, members get a prefix where
  several classes share a name. An exception, a failed access of a container and the undefined
  behaviour of an access out of range is an \<open>Inl\<close> of the type \<open>'a res\<close>; a loop that may not end is a
  \<open>partial_function\<close> whose value is \<open>None\<close> when it does not. An ordered map is an association list with
  ascending keys, an ordered set an ascending list, an unordered map an association list in the order
  of iteration. Unsigned counters and indices are natural numbers (they count objects in memory, so the
  code cannot reach their bounds); characters are their code points, with the bound \<open>zstring::max_char\<close>
  where the code uses it, and the hash of an alphabet is a \<open>64 word\<close>. Assertions are not part of the
  model, since they are not compiled in a release build. Traces, statistics and the resource limit are
  left out.

  The automata library Mata is not part of the repository. Its operations are the fields of the
  records \<open>'a mata\<close> (\<open>Aut_Assignment\<close>) and \<open>'a mata_strings\<close> (\<open>Decision_Procedure\<close>), arguments of all
  definitions that use them. The theorems assume of them what the library documents: \<open>mata_laws\<close> and
  the laws of a single automaton (\<open>view_law\<close>, \<open>trim_law\<close>, \<open>lengths_law\<close>), and for noodles
  \<open>noodlify_equation_law\<close>, \<open>noodlify_transducer_law\<close> and \<open>application_law\<close>, collected in \<open>dp_laws\<close>. The
  library \<open>set_mata\<close>, in which an automaton is its language, and \<open>word_mata\<close> with \<open>word_strings\<close>
  (\<open>Word_Library\<close>), for automata of one word, show that the laws can hold. A transducer is a number,
  and \<open>R\<close> in the statements maps it to its relation.

  \<^bold>\<open>Theories.\<close>

  \<^item> \<open>Noodler_Prelude\<close>: the result type, ordered maps and sets, with the locales \<open>ordered_map\<close> and
  \<open>counter_map\<close> for the maps of the standard library.

  \<^item> \<open>Formula\<close> (\<open>formula.h\<close>, \<open>formula.cpp\<close>): terms, predicates, formulae, their orders, replacement and
  the splitting of literals; \<open>sat_pred\<close> and \<open>sat_formula\<close> are their meaning. Replacement is
  substitution, splitting keeps the solutions; two theorems show what the code does for an empty or too
  long pattern and for transducers.

  \<^item> \<open>Len_Formula\<close> (\<open>LenNode\<close> of \<open>formula.h\<close>): length formulae, their precision, the length formulae of
  predicates and the conversion to Z3 expressions, which keeps the value under every assignment.

  \<^item> \<open>Fresh_Vars\<close> (\<open>util.h\<close>): fresh variables are pairwise different.

  \<^item> \<open>Formula_Var\<close> (\<open>FormulaVar\<close>): formulae with the positions of the variables; the invariant of the
  index holds after every sequence of operations, and the locale \<open>predicate_store\<close> is its interface.

  \<^item> \<open>Alphabet\<close> (\<open>regex.h\<close>, \<open>regex.cpp\<close>): alphabets with their hash and the search for unused symbols.

  \<^item> \<open>Automata\<close>, \<open>Automata_Walks\<close>, \<open>Automata_Powers\<close>, \<open>Automata_Intervals\<close>, \<open>Aut_Assignment\<close>
  (\<open>aut_assignment.cpp\<close>): the automata built by hand and their languages, the routines that walk over an
  automaton (literals, powers of a word, interval words) with their termination, and the map from terms
  to automata with its queries, length formulae and the replacement of the dummy symbol.

  \<^item> \<open>Transition_Graph\<close> (\<open>nielsen_decision_procedure.h\<close>): graphs, trimming and shortest paths.

  \<^item> \<open>Nielsen\<close>, \<open>Nielsen_Search\<close>, \<open>Nielsen_Counter\<close>, \<open>Nielsen_Lengths\<close>, \<open>Nielsen_Procedure\<close>,
  \<open>Nielsen_Preprocess\<close> (\<open>nielsen_decision_procedure.cpp\<close>): the rules and the search, with the locale
  \<open>rewriting_system\<close>; counter systems and the length formulae of paths with self-loops; the state of the
  procedure. The search ends on quadratic formulae and decides them, the models are solutions, the words
  generated for a solution of a length formula have these lengths.

  \<^item> \<open>Preprocess\<close>, \<open>Preprocess_Models\<close>, \<open>Preprocess_Propagation\<close>, \<open>Preprocess_Languages\<close>,
  \<open>Preprocess_Separation\<close>, \<open>Preprocess_Identities\<close>, \<open>Preprocess_Unsat\<close> (\<open>formula_preprocess.cpp\<close>): the
  state of the preprocessor, its models \<open>prep_models\<close> and its invariant \<open>prep_ok\<close>, the steps on variables,
  languages and equations, and the checks for unsatisfiability. Steps never raise an exception and keep
  the models; the checks only report formulae without models; one theorem shows that the generation of
  identities loses equations.

  \<^item> \<open>Solving_State\<close> (\<open>solving_state.h\<close>, \<open>solving_state.cpp\<close>): the states of the stabilization procedure
  with all operations of the loop. \<open>Solving_State_Models\<close> has their models \<open>state_models\<close> (words for the
  variables and integers for lengths and numbers) and the invariant \<open>state_ok\<close>; \<open>Solving_State_Steps\<close>
  proves that turning equations into substitutions keeps both. \<open>Disequalities\<close> proves that the
  translation of a disequation to equations and code points is an equivalence when number variables
  belong to one term each, and shows that their names do not ensure it.

  \<^item> \<open>Decision_Procedure\<close> (\<open>decision_procedure.cpp\<close>): the worklist, \<open>process_inclusion\<close>,
  \<open>process_transducer\<close> and the loop of \<open>compute_next_solution_with_len_checks\<close>, with the check of the
  lengths as a callback. \<open>Noodle_Segments\<close>, \<open>Noodle_Steps\<close> and \<open>Predicate_Steps\<close> prove that processing a
  predicate replaces a state by states that together have the same models on the variables of the input
  (\<open>processes\<close>); \<open>Stabilization\<close> lifts it to the loop: the answer that there is no solution is right
  unless a state was skipped, and the solution and the remaining states have exactly the models of the
  initial ones.

  \<^bold>\<open>Bounds and fuel.\<close> No definition has fuel that is not in the code: \<open>can_unify\<close> has the limit of four
  unifications of the source. Loops that always end are functions with a termination proof.
  \<open>generate_from_formula\<close> is a \<open>while_option\<close> that is proved to return on quadratic formulae;
  \<open>literal_walk\<close>, \<open>interval_levels\<close>, \<open>flatten_terms\<close> and \<open>solution_loop\<close> are partial functions. The walks
  are proved to return on the automata that the callers pass. \<open>flatten_terms\<close> does not end on a cyclic map;
  nothing that is proved depends on it. \<open>solution_loop\<close> need not end on inclusions
  with cycles; each iteration is proved to return, and the theorems about the loop say what it returns
  when it ends.

  \<^bold>\<open>Not modelled.\<close> The initialisation of the stabilization procedure, its length formulae and models, the
  inclusion graph (the theorems hold for every initial queue), the conversion handler (they hold for every
  meaning \<open>C\<close> of a conversion), counter automata and Parikh images, the length and unary decision
  procedures and the heuristics: they are formulae and products over automata of the library whose
  contracts are not documented precisely enough for named laws, or depend on such parts. The conversion of
  Z3 terms to regular expressions and formulae, the theory plugin and the solvers for arithmetic only call
  Z3. In the preprocessor the steps on regular sublists, extensions, equivalences, alignments and common
  prefixes are left out. The theorems about the loop assume that there are no postponed disequations or
  that they are not postponed.
\<close>

end
